(* ===== verification/Prelude.thy ===== *)
theory Prelude
  imports Main "HOL-Library.Word"
begin

text \<open>
  Shared vocabulary of the development: the machine integer types of the PSP SDK
  (\<open>u8\<close>, \<open>u16\<close>, \<open>u32\<close>, \<open>u64\<close>), the signed reading of a 32-bit difference used by
  the RTP modules, little- and big-endian fields of a byte buffer, and the lemmas on
  loops over arrays (folds of \<open>list_update\<close>) that the components share.
\<close>

unbundle bit_operations_syntax

named_theorems model_defs "definitions a component unfolds together"

type_synonym u8 = "8 word"
type_synonym u16 = "16 word"
type_synonym u32 = "32 word"
type_synonym u64 = "64 word"

subsection \<open>Loops that fill an array\<close>

lemma length_fold_list_update [simp]:
  "length (fold (\<lambda>i xs. xs[g i := f i]) is xs) = length xs"
  by (induction "is" arbitrary: xs) auto

lemma nth_fold_list_update_notin:
  "k \<notin> g ` set is \<Longrightarrow> fold (\<lambda>i xs. xs[g i := f i]) is xs ! k = xs ! k"
  by (induction "is" arbitrary: xs) auto

lemma nth_fold_list_update_in:
  assumes "i \<in> set is" "inj_on g (set is)" "g i < length xs"
  shows "fold (\<lambda>i xs. xs[g i := f i]) is xs ! g i = f i"
  using assms
proof (induction "is" arbitrary: xs)
  case Nil
  then show ?case by simp
next
  case (Cons j js)
  show ?case
  proof (cases "i \<in> set js")
    case True
    with Cons show ?thesis by (simp add: inj_on_def)
  next
    case False
    with Cons.prems have [simp]: "i = j" by simp
    from False Cons.prems(2) have "g j \<notin> g ` set js"
      by (auto simp: inj_on_def)
    with Cons.prems(3) show ?thesis
      by (simp add: nth_fold_list_update_notin)
  qed
qed


text \<open>A double loop over the entries of a row-major matrix of width \<open>W\<close>.\<close>

lemma fold_matrix:
  assumes "R * W \<le> length m" "n \<le> R"
  shows "let m' = fold (\<lambda>i m. fold (\<lambda>j m. m[i * W + j := f i j]) [0..<W] m) [0..<n] m in
     length m' = length m \<and> (\<forall>i<n. \<forall>j<W. m' ! (i * W + j) = f i j)"
  using assms(2)
proof (induction n)
  case 0
  then show ?case by simp
next
  case (Suc n)
  define m1 where "m1 = fold (\<lambda>i m. fold (\<lambda>j m. m[i * W + j := f i j]) [0..<W] m) [0..<n] m"
  define m2 where "m2 = fold (\<lambda>j m. m[n * W + j := f n j]) [0..<W] m1"
  have IH: "length m1 = length m" "i < n \<Longrightarrow> j < W \<Longrightarrow> m1 ! (i * W + j) = f i j" for i j
    using Suc by (auto simp: m1_def Let_def)
  have "Suc n * W \<le> R * W" using Suc.prems by (intro mult_le_mono1)
  then have b: "n * W + W \<le> length m" using assms(1) by simp
  have new: "m2 ! (n * W + j) = f n j" if "j < W" for j
    using nth_fold_list_update_in [of j "[0..<W]" "\<lambda>j. n * W + j" m1 "f n"] that b IH(1)
    by (simp add: m2_def inj_on_def)
  have old: "m2 ! (i * W + j) = f i j" if "i < n" "j < W" for i j
  proof -
    have "Suc i * W \<le> n * W" using that by (intro mult_le_mono1) simp
    with that have "i * W + j < n * W" by simp
    then have "i * W + j \<notin> (\<lambda>j. n * W + j) ` set [0..<W]" by auto
    from nth_fold_list_update_notin [OF this, of "f n" m1] show ?thesis
      using IH(2) [OF that] by (simp add: m2_def)
  qed
  have "length m2 = length m" by (simp add: m2_def IH)
  moreover have "fold (\<lambda>i m. fold (\<lambda>j m. m[i * W + j := f i j]) [0..<W] m) [0..<Suc n] m = m2"
    by (simp add: m1_def m2_def)
  ultimately show ?case
    using new old by (auto simp: Let_def less_Suc_eq)
qed

subsection \<open>Runs of operations with results\<close>

text \<open>The results of a sequence of operations, and the state behind them.\<close>

fun logged :: "('op \<Rightarrow> 's \<Rightarrow> 'r \<times> 's) \<Rightarrow> 'op list \<Rightarrow> 's \<Rightarrow> ('op \<times> 'r) list \<times> 's" where
  "logged do [] s = ([], s)"
| "logged do (p # ps) s = (case do p s of (r, s) \<Rightarrow> (case logged do ps s of (l, s) \<Rightarrow> ((p, r) # l, s)))"

text \<open>An abstract machine follows the log: it says which results an operation may have and where they lead.\<close>

fun follows :: "('op \<Rightarrow> 'r \<Rightarrow> 'm \<Rightarrow> 'm option) \<Rightarrow> ('op \<times> 'r) list \<Rightarrow> 'm \<Rightarrow> 'm option" where
  "follows spec [] m = Some m"
| "follows spec ((p, r) # l) m = (case spec p r m of None \<Rightarrow> None | Some m \<Rightarrow> follows spec l m)"

text \<open>The contract of operations that implement an abstract machine through an abstraction function.\<close>

locale implements =
  fixes ok :: "'s \<Rightarrow> bool" and abs :: "'s \<Rightarrow> 'm"
    and do :: "'op \<Rightarrow> 's \<Rightarrow> 'r \<times> 's" and spec :: "'op \<Rightarrow> 'r \<Rightarrow> 'm \<Rightarrow> 'm option"
  assumes do_law: "ok s \<Longrightarrow> do p s = (r, s') \<Longrightarrow> ok s' \<and> spec p r (abs s) = Some (abs s')"
begin

lemma run_follows: "ok s \<Longrightarrow> logged do ps s = (l, s') \<Longrightarrow> ok s' \<and> follows spec l (abs s) = Some (abs s')"
proof (induction ps arbitrary: s l)
  case (Cons p ps)
  obtain r t where d: "do p s = (r, t)" by fastforce
  obtain l1 u where e: "logged do ps t = (l1, u)" by fastforce
  have "u = s'" "l = (p, r) # l1" using Cons.prems(2) d e by auto
  then show ?case using do_law [OF Cons.prems(1) d] Cons.IH [of t l1] e by auto
qed simp

end

lemma logged_append:
  "logged do (ps @ qs) s = (case logged do ps s of (l, t) \<Rightarrow> (case logged do qs t of (k, u) \<Rightarrow> (l @ k, u)))"
  by (induction ps arbitrary: s) (auto split: prod.split)

text \<open>A condition that every operation of a run keeps.\<close>

lemma logged_keeps:
  assumes "\<And>p s. p \<in> set ps \<Longrightarrow> I s \<Longrightarrow> I (snd (do p s))" "I s"
  shows "I (snd (logged do ps s))"
  using assms
proof (induction ps arbitrary: s)
  case (Cons p ps)
  have "I (snd (do p s))" using Cons.prems by simp
  from Cons.IH [OF Cons.prems(1) this] show ?case by (simp add: case_prod_beta)
qed simp

end
