(* ===== verification/GF256.thy ===== *)
theory GF256
  imports Prelude
begin

text \<open>
  The arithmetic of \<open>src/src/rs.c\<close> in the field with 256 elements: the tables the code
  generates (\<open>generate_gf\<close>, \<open>init_mul_table\<close>), the fast reduction \<open>modnn\<close>, and the table
  multiplication \<open>gf_mul\<close>. The lemmas show that the tables are those of the field
  GF(2)[x] / (x^8 + x^4 + x^3 + x^2 + 1), and the type \<open>gfe\<close> of bytes read as field elements
  is made an instance of the library's class of fields, so that its algebra applies.
\<close>

subsection \<open>Tables\<close>

definition GF_BITS :: nat where "GF_BITS = 8"
definition GF_PP :: string where "GF_PP = ''101110001''"
definition GF_SIZE :: nat where "GF_SIZE = push_bit GF_BITS 1 - 1"

lemma GF_SIZE_eq [simp]: "GF_SIZE = 255"
  by (simp add: GF_SIZE_def GF_BITS_def)

record gf_tables =
  gf_exp :: "u8 list"
  gf_log :: "nat list"
  inverse_tab :: "u8 list"
  gf_mul_table :: "u8 list"

text \<open>The static tables before initialisation: zeroes, of the declared lengths.\<close>

definition gf_tables_zero :: gf_tables where
  "gf_tables_zero = \<lparr>gf_exp = replicate (2 * GF_SIZE) 0, gf_log = replicate (GF_SIZE + 1) 0,
     inverse_tab = replicate (GF_SIZE + 1) 0,
     gf_mul_table = replicate ((GF_SIZE + 1) * (GF_SIZE + 1)) 0\<rparr>"

definition gf_tables_wf :: "gf_tables \<Rightarrow> bool" where
  "gf_tables_wf t \<longleftrightarrow> length (gf_exp t) = 510 \<and> length (gf_log t) = 256 \<and>
     length (inverse_tab t) = 256 \<and> length (gf_mul_table t) = 65536"

lemma and_255_mod: "(y::nat) AND 255 = y mod 256"
  using take_bit_eq_mask [of 8 y] by (simp add: take_bit_eq_mod mask_eq_exp_minus_1)

text \<open>\<open>modnn\<close>: reduction modulo 255 without a division.\<close>

function modnn :: "nat \<Rightarrow> nat" where
  "modnn x = (if x < GF_SIZE then x
              else let y = x - GF_SIZE in modnn (drop_bit GF_BITS y + (y AND GF_SIZE)))"
  by pat_completeness auto

termination
proof (relation "measure id", simp)
  fix x y :: nat
  assume a: "\<not> x < GF_SIZE" and y: "y = x - GF_SIZE"
  have "drop_bit 8 y + y mod 256 \<le> y"
    by (simp add: drop_bit_eq_div)
  with a y show "(drop_bit GF_BITS y + (y AND GF_SIZE), x) \<in> measure id"
    by (simp add: GF_BITS_def and_255_mod)
qed

declare modnn.simps [simp del]

lemma modnn_mod: "modnn x = x mod 255"
proof (induction x rule: modnn.induct)
  case (1 x)
  show ?case
  proof (cases "x < GF_SIZE")
    case True
    then show ?thesis by (simp add: modnn.simps)
  next
    case False
    define y where "y = x - 255"
    have x: "x = y + 255" using False by (simp add: y_def)
    have regroup: "q * 256 + r = y \<Longrightarrow> q + r + (q + 1) * 255 = y + 255" for q r
      by simp
    have "modnn x = modnn (y div 256 + y mod 256)"
      using False by (simp add: modnn.simps [of x] y_def Let_def GF_BITS_def and_255_mod drop_bit_eq_div)
    also have "\<dots> = (y div 256 + y mod 256) mod 255"
      using "1.IH" [OF False refl] by (simp add: y_def GF_BITS_def and_255_mod drop_bit_eq_div)
    also have "\<dots> = (y div 256 + y mod 256 + (y div 256 + 1) * 255) mod 255"
      by (simp only: mod_mult_self1)
    also have "y div 256 + y mod 256 + (y div 256 + 1) * 255 = x"
      unfolding x by (rule regroup [OF div_mult_mod_eq])
    finally show ?thesis .
  qed
qed

subsection \<open>Table generation\<close>

text \<open>One iteration of the first loop of \<open>generate_gf\<close>; the mask is shifted at its end.\<close>

definition generate_gf_low :: "nat \<Rightarrow> gf_tables \<times> u8 \<Rightarrow> gf_tables \<times> u8" where
  "generate_gf_low i = (\<lambda>(t, msk).
     let t = t\<lparr>gf_exp := (gf_exp t)[i := msk]\<rparr>;
         t = t\<lparr>gf_log := (gf_log t)[unat (gf_exp t ! i) := i]\<rparr>;
         t = (if GF_PP ! i = CHR ''1''
              then t\<lparr>gf_exp := (gf_exp t)[GF_BITS := gf_exp t ! GF_BITS XOR msk]\<rparr> else t)
     in (t, push_bit 1 msk))"

text \<open>One iteration of the second loop: multiplication by \<open>\<alpha>\<close> of the previous power.\<close>

definition generate_gf_high :: "u8 \<Rightarrow> nat \<Rightarrow> gf_tables \<Rightarrow> gf_tables" where
  "generate_gf_high msk i t =
     (let e = gf_exp t ! (i - 1);
          t = (if e \<ge> msk
               then t\<lparr>gf_exp := (gf_exp t)[i := gf_exp t ! GF_BITS XOR push_bit 1 (e XOR msk)]\<rparr>
               else t\<lparr>gf_exp := (gf_exp t)[i := push_bit 1 e]\<rparr>)
      in t\<lparr>gf_log := (gf_log t)[unat (gf_exp t ! i) := i]\<rparr>)"

definition generate_gf :: "gf_tables \<Rightarrow> gf_tables" where
  "generate_gf t =
     (let t = t\<lparr>gf_exp := (gf_exp t)[GF_BITS := 0]\<rparr>;
          (t, _) = fold generate_gf_low [0..<GF_BITS] (t, 1);
          t = t\<lparr>gf_log := (gf_log t)[unat (gf_exp t ! GF_BITS) := GF_BITS]\<rparr>;
          t = fold (generate_gf_high (push_bit (GF_BITS - 1) 1)) [GF_BITS + 1..<GF_SIZE] t;
          t = t\<lparr>gf_log := (gf_log t)[0 := GF_SIZE]\<rparr>;
          t = t\<lparr>gf_exp := fold (\<lambda>i e. e[i + GF_SIZE := e ! i]) [0..<GF_SIZE] (gf_exp t)\<rparr>;
          t = t\<lparr>inverse_tab := (inverse_tab t)[0 := 0, 1 := 1]\<rparr>
      in t\<lparr>inverse_tab := fold (\<lambda>i v. v[i := gf_exp t ! (GF_SIZE - gf_log t ! i)])
             [2..<GF_SIZE + 1] (inverse_tab t)\<rparr>)"

definition init_mul_table :: "gf_tables \<Rightarrow> gf_tables" where
  "init_mul_table t =
     (let m = fold (\<lambda>i m. fold (\<lambda>j m. m[push_bit 8 i + j :=
                      gf_exp t ! modnn (gf_log t ! i + gf_log t ! j)]) [0..<GF_SIZE + 1] m)
                [0..<GF_SIZE + 1] (gf_mul_table t);
          m = fold (\<lambda>j m. let m = m[push_bit 8 j := 0] in m[j := m ! push_bit 8 j])
                [0..<GF_SIZE + 1] m
      in t\<lparr>gf_mul_table := m\<rparr>)"

text \<open>The tables every operation reads, as \<open>reed_solomon_init\<close> leaves them.\<close>

definition gf_tab :: gf_tables where
  "gf_tab = init_mul_table (generate_gf gf_tables_zero)"

definition gf_mul :: "u8 \<Rightarrow> u8 \<Rightarrow> u8" where
  "gf_mul x y = gf_mul_table gf_tab ! (push_bit 8 (unat x) + unat y)"

definition gf_inverse :: "u8 \<Rightarrow> u8" where
  "gf_inverse x = inverse_tab gf_tab ! unat x"

text \<open>Loops over 255 indices are reasoned about by induction, never unrolled.\<close>

declare upt_rec_numeral [simp del]

subsection \<open>The powers of the generator\<close>

definition xtime :: "u8 \<Rightarrow> u8" where
  "xtime e = (if e \<ge> 128 then 29 XOR push_bit 1 (e XOR 128) else push_bit 1 e)"

primrec apow :: "nat \<Rightarrow> u8" where
  "apow 0 = 1"
| "apow (Suc n) = xtime (apow n)"

lemma ge_128_bit: "(e::u8) \<ge> 128 \<longleftrightarrow> bit e 7"
proof -
  have "bit e 7 \<longleftrightarrow> bit (unat e) 7" by (simp add: bit_unsigned_iff)
  also have "\<dots> \<longleftrightarrow> odd (unat e div 128)"
    by (simp add: bit_iff_odd)
  also have "\<dots> \<longleftrightarrow> unat e \<ge> 128"
  proof -
    have lt: "unat e < 256" using unsigned_less [of e, where ?'a = nat] by simp
    show ?thesis
    proof (cases "unat e < 128")
      case True
      then show ?thesis by simp
    next
      case False
      with lt have "unat e div 128 = 1" by (intro div_nat_eqI) simp_all
      with False show ?thesis by simp
    qed
  qed
  also have "\<dots> \<longleftrightarrow> e \<ge> 128" by (simp add: word_le_nat_alt)
  finally show ?thesis by simp
qed

lemma xtime_alt: "xtime e = push_bit 1 e XOR (if bit e 7 then 29 else 0)"
proof -
  have "push_bit 1 (128::u8) = 0" by (simp add: push_bit_eq_mult)
  then have "push_bit 1 (e XOR 128) = push_bit 1 e" by (simp only: push_bit_xor xor.right_neutral)
  then show ?thesis by (simp add: xtime_def ge_128_bit xor.commute)
qed

lemma xtime_xor: "xtime (a XOR b) = xtime a XOR xtime b"
  by (simp add: xtime_alt push_bit_xor bit_xor_iff ac_simps)

lemma xtime_0 [simp]: "xtime 0 = 0"
  by (simp add: xtime_alt)

lemma xtime_pow_xor: "(xtime ^^ n) (a XOR b) = (xtime ^^ n) a XOR (xtime ^^ n) b"
  by (induction n) (simp_all add: xtime_xor)

lemma xtime_pow_0 [simp]: "(xtime ^^ n) 0 = 0"
  by (induction n) simp_all

lemma apow_funpow: "apow n = (xtime ^^ n) 1"
  by (induction n) simp_all

lemma apow_add: "apow (m + n) = (xtime ^^ m) (apow n)"
  by (simp add: apow_funpow funpow_add)

fun never_one :: "nat \<Rightarrow> u8 \<Rightarrow> bool" where
  "never_one 0 e = True"
| "never_one (Suc n) e = (e \<noteq> 1 \<and> never_one n (xtime e))"

lemma apow_255: "apow 255 = 1"
  by code_simp

lemma never_one_254: "never_one 254 (xtime 1)"
  by code_simp

lemma apow_period: "apow (n + 255) = apow n"
  by (simp only: apow_add apow_255) (simp only: apow_funpow)

lemma never_one_iff: "never_one n e \<longleftrightarrow> (\<forall>k<n. (xtime ^^ k) e \<noteq> 1)"
proof (induction n e rule: never_one.induct)
  case (2 n e)
  have "(\<forall>k<Suc n. (xtime ^^ k) e \<noteq> 1) \<longleftrightarrow> e \<noteq> 1 \<and> (\<forall>k<n. (xtime ^^ Suc k) e \<noteq> 1)"
    by (auto simp: less_Suc_eq_0_disj)
  with 2 show ?case by (simp add: funpow_swap1)
qed simp

lemma apow_neq_1: "0 < k \<Longrightarrow> k < 255 \<Longrightarrow> apow k \<noteq> 1"
proof -
  assume k: "0 < k" "k < 255"
  then have "(xtime ^^ (k - 1)) (xtime 1) \<noteq> 1"
    using never_one_254 by (simp add: never_one_iff)
  moreover have "apow k = (xtime ^^ (k - 1)) (xtime 1)"
    using k apow_add [of "k - 1" 1] by simp
  ultimately show ?thesis by simp
qed

lemma apow_inj: "inj_on apow {..<255}"
proof (rule linorder_inj_onI')
  fix i j :: nat
  assume ij: "i \<in> {..<255}" "j \<in> {..<255}" "i < j"
  show "apow i \<noteq> apow j"
  proof
    assume eq: "apow i = apow j"
    have "apow (j - i) = apow (j - i + 255)" by (simp only: apow_period)
    also have "\<dots> = (xtime ^^ (255 - i)) (apow j)"
      using ij by (simp add: add.commute flip: apow_add)
    also have "\<dots> = (xtime ^^ (255 - i)) (apow i)" by (simp only: eq)
    also have "\<dots> = apow 255" using ij by (simp flip: apow_add)
    finally have "apow (j - i) = 1" by (simp only: apow_255)
    moreover have "0 < j - i" "j - i < 255" using ij by auto
    ultimately show False using apow_neq_1 by blast
  qed
qed

lemma apow_8: "apow 8 = 29"
  by code_simp

lemma apow_neq_0: "apow i \<noteq> 0"
proof
  assume z: "apow i = 0"
  have "apow (255 * i) = 1"
  proof (induction i)
    case (Suc i)
    then show ?case using apow_period [of "255 * i"] by (simp add: add.commute)
  qed simp
  moreover have "apow (255 * i) = (xtime ^^ (255 * i - i)) (apow i)"
    by (simp flip: apow_add)
  ultimately show False by (simp add: z)
qed

lemma apow_image: "apow ` {..<255} = UNIV - {0}"
proof (rule card_subset_eq)
  show "finite (UNIV - {0::u8})" by simp
  show "apow ` {..<255} \<subseteq> UNIV - {0}" by (auto simp: apow_neq_0)
  have "card (UNIV :: u8 set) = 256" by (simp add: card_word)
  then show "card (apow ` {..<255}) = card (UNIV - {0::u8})"
    by (simp add: card_image [OF apow_inj] card_Diff_subset)
qed

text \<open>The discrete logarithm of a non-zero byte.\<close>

definition alog :: "u8 \<Rightarrow> nat" where
  "alog x = the_inv_into {..<255} apow x"

lemma alog_apow: "i < 255 \<Longrightarrow> alog (apow i) = i"
  by (simp add: alog_def the_inv_into_f_f [OF apow_inj])

lemma apow_alog: "x \<noteq> 0 \<Longrightarrow> apow (alog x) = x"
  unfolding alog_def by (rule f_the_inv_into_f [OF apow_inj]) (simp add: apow_image)

lemma alog_less: "x \<noteq> 0 \<Longrightarrow> alog x < 255"
  using the_inv_into_into [OF apow_inj, of x "{..<255}"]
  by (simp add: alog_def apow_image)

lemma apow_mult_add: "apow (k * 255 + r) = apow r"
proof (induction k)
  case (Suc k)
  have "Suc k * 255 + r = (k * 255 + r) + 255" by simp
  with Suc show ?case by (simp only: apow_period)
qed simp

lemma apow_mod: "apow (n mod 255) = apow n"
  using apow_mult_add [of "n div 255" "n mod 255"] by simp


subsection \<open>What the generated tables hold\<close>

definition gen_inv :: "nat \<Rightarrow> gf_tables \<Rightarrow> bool" where
  "gen_inv n t \<longleftrightarrow> gf_tables_wf t \<and>
     (\<forall>i<n. gf_exp t ! i = apow i) \<and> (\<forall>i<n. gf_log t ! unat (apow i) = i)"

lemma unat_u8_less: "unat (x::u8) < 256"
  using unsigned_less [of x, where ?'a = nat] by simp

lemma gen_inv_log:
  assumes "gen_inv n t" "n < 255" "gf_exp t ! n = apow n"
  shows "gen_inv (Suc n) (t\<lparr>gf_log := (gf_log t)[unat (gf_exp t ! n) := n]\<rparr>)"
proof -
  have ne: "unat (apow i) \<noteq> unat (apow n)" if "i < n" for i
    using inj_onD [OF apow_inj, of i n] that assms(2) by (auto simp: word_unat_eq_iff)
  show ?thesis
    using assms ne ne [symmetric] unat_u8_less
    by (auto simp: gen_inv_def gf_tables_wf_def less_Suc_eq nth_list_update)
qed

lemma gen_inv_high:
  assumes "gen_inv i t" "9 \<le> i" "i < 255"
  shows "gen_inv (Suc i) (generate_gf_high (push_bit (GF_BITS - 1) 1) i t)"
proof -
  have e8: "gf_exp t ! 8 = 29" and ei: "gf_exp t ! (i - Suc 0) = apow (i - 1)"
    using assms apow_8 by (auto simp: gen_inv_def)
  define v where "v = apow i"
  have v: "v = xtime (apow (i - 1))" using assms(2) v_def apow.simps(2) [of "i - 1"] by simp
  define t1 where "t1 = t\<lparr>gf_exp := (gf_exp t)[i := v]\<rparr>"
  have "gen_inv i t1" "gf_exp t1 ! i = apow i"
    using assms by (auto simp: gen_inv_def t1_def gf_tables_wf_def nth_list_update v_def)
  note inv = gen_inv_log [OF this(1) assms(3) this(2)]
  have "generate_gf_high (push_bit (GF_BITS - 1) 1) i t =
      t1\<lparr>gf_log := (gf_log t1)[unat (gf_exp t1 ! i) := i]\<rparr>"
    by (cases "128 \<le> apow (i - Suc 0)")
      (simp_all add: generate_gf_high_def GF_BITS_def e8 ei t1_def v xtime_def Let_def)
  with inv show ?thesis by simp
qed

lemma gen_inv_high_fold:
  assumes "gen_inv 9 t" "9 \<le> n" "n \<le> 255"
  shows "gen_inv n (fold (generate_gf_high (push_bit (GF_BITS - 1) 1)) [9..<n] t)"
  using assms(2,3)
proof (induction n rule: dec_induct)
  case base
  then show ?case using assms(1) by simp
next
  case (step n)
  then show ?case using gen_inv_high [of n] by simp
qed

lemma apow_values: "xtime 1 = 2" "apow 2 = 4" "apow 3 = 8" "apow 4 = 16" "apow 5 = 32" "apow 6 = 64"
  "apow 7 = 128"
  by code_simp+

lemma all_less_8: "(\<forall>i<8. P i) \<longleftrightarrow> P 0 \<and> P 1 \<and> P 2 \<and> P 3 \<and> P 4 \<and> P 5 \<and> P 6 \<and> P (7::nat)"
  by (simp add: eval_nat_numeral All_less_Suc conj_ac)

lemma generate_gf_low_all:
  assumes "gf_tables_wf t" "gf_exp t ! 8 = 0"
  shows "case fold generate_gf_low [0..<8] (t, 1) of (t', _) \<Rightarrow>
     gen_inv 8 t' \<and> gf_exp t' ! 8 = 29 \<and> gf_tables_wf t' \<and>
     inverse_tab t' = inverse_tab t \<and> gf_mul_table t' = gf_mul_table t"
proof -
  have u: "[0..<8] = [0::nat,1,2,3,4,5,6,7]" by code_simp
  show ?thesis
    using assms unfolding u gen_inv_def gf_tables_wf_def
    by (simp add: generate_gf_low_def GF_BITS_def GF_PP_def Let_def all_less_8 apow_values)
qed


lemma gf_exp_extend:
  assumes "length e = 510" "n \<le> 255"
  shows "let e' = fold (\<lambda>i e. e[i + GF_SIZE := e ! i]) [0..<n] e in
     length e' = 510 \<and> (\<forall>k<255. e' ! k = e ! k) \<and> (\<forall>k<n. e' ! (k + 255) = e ! k)"
  using assms(2)
proof (induction n)
  case 0
  then show ?case by (simp add: assms)
next
  case (Suc n)
  then show ?case
    by (auto simp: Let_def nth_list_update less_Suc_eq)
qed

definition gf_tables_ok :: "gf_tables \<Rightarrow> bool" where
  "gf_tables_ok t \<longleftrightarrow> gf_tables_wf t \<and> (\<forall>i<510. gf_exp t ! i = apow i) \<and>
     (\<forall>x. x \<noteq> 0 \<longrightarrow> gf_log t ! unat x = alog x) \<and> gf_log t ! 0 = 255 \<and>
     inverse_tab t ! 0 = 0 \<and> (\<forall>x. x \<noteq> 0 \<longrightarrow> inverse_tab t ! unat x = apow (255 - alog x))"

lemma gen_inv_alog: "gen_inv 255 t \<Longrightarrow> x \<noteq> 0 \<Longrightarrow> gf_log t ! unat x = alog x"
  using alog_less [of x] apow_alog [of x] by (auto simp: gen_inv_def)

lemma nth_2_255: "length v = 256 \<Longrightarrow> 2 \<le> k \<Longrightarrow> k < 256 \<Longrightarrow>
    fold (\<lambda>i v. v[i := f i]) [2..<256] v ! k = (f k :: 'a)"
  using nth_fold_list_update_in [of k "[2..<256]" "\<lambda>i. i" v f] by simp

lemma nth_2_255_low: "k < 2 \<Longrightarrow> fold (\<lambda>i v. v[i := f i]) [2..<256] v ! k = v ! (k::nat)"
  using nth_fold_list_update_notin [of k "\<lambda>i. i" "[2..<256]" f v] by simp

lemma generate_gf_ok:
  assumes "gf_tables_wf t"
  shows "gf_tables_ok (generate_gf t)" "gf_mul_table (generate_gf t) = gf_mul_table t"
proof -
  define t0 where "t0 = t\<lparr>gf_exp := (gf_exp t)[8 := 0]\<rparr>"
  obtain t1 m where t1: "fold generate_gf_low [0..<8] (t0, 1) = (t1, m)" by fastforce
  have t0: "gf_tables_wf t0" "gf_exp t0 ! 8 = 0" "gf_mul_table t0 = gf_mul_table t"
    using assms by (auto simp: t0_def gf_tables_wf_def)
  note low = generate_gf_low_all [OF t0(1,2), unfolded t1, simplified]
  define t2 where "t2 = t1\<lparr>gf_log := (gf_log t1)[unat (gf_exp t1 ! 8) := 8]\<rparr>"
  have t2: "gen_inv 9 t2" "gf_mul_table t2 = gf_mul_table t"
    using gen_inv_log [of 8 t1] low t0 by (simp_all add: t2_def apow_8)
  define t3 where "t3 = fold (generate_gf_high (push_bit (GF_BITS - 1) 1)) [9..<255] t2"
  have t3: "gen_inv 255 t3"
    using gen_inv_high_fold [OF t2(1), of 255] by (simp add: t3_def)
  have "gf_mul_table (fold (generate_gf_high msk) is t) = gf_mul_table t" for msk "is" t
    by (induction "is" arbitrary: t) (auto simp: generate_gf_high_def Let_def)
  then have mul3: "gf_mul_table t3 = gf_mul_table t" by (simp add: t3_def t2)
  define t4 where "t4 = t3\<lparr>gf_log := (gf_log t3)[0 := 255]\<rparr>"
  define ex where "ex = fold (\<lambda>i e. e[i + GF_SIZE := e ! i]) [0..<255] (gf_exp t4)"
  define t5 where "t5 = t4\<lparr>gf_exp := ex\<rparr>"
  define t6 where "t6 = t5\<lparr>inverse_tab := (inverse_tab t5)[0 := 0, 1 := 1]\<rparr>"
  have gen: "generate_gf t = t6\<lparr>inverse_tab := fold (\<lambda>i v. v[i := gf_exp t6 ! (255 - gf_log t6 ! i)])
      [2..<256] (inverse_tab t6)\<rparr>"
    unfolding t6_def t5_def ex_def t4_def t3_def t2_def
    by (simp add: generate_gf_def GF_BITS_def Let_def t1 flip: t0_def)
  show "gf_mul_table (generate_gf t) = gf_mul_table t"
    unfolding gen by (simp add: t6_def t5_def t4_def mul3)
  have len: "gf_tables_wf t3" using t3 by (simp add: gen_inv_def)
  have e3: "gf_exp t3 ! i = apow i" if "i < 255" for i using t3 that by (simp add: gen_inv_def)
  have ex: "length ex = 510" "\<forall>k<255. ex ! k = apow k" "\<forall>k<255. ex ! (k + 255) = apow k"
    using gf_exp_extend [of "gf_exp t4" 255] len e3 by (auto simp: ex_def t4_def gf_tables_wf_def Let_def)
  have exp: "ex ! i = apow i" if "i < 510" for i
  proof (cases "i < 255")
    case False
    with that ex(3) [rule_format, of "i - 255"] have "ex ! i = apow (i - 255)" by simp
    with False show ?thesis using apow_period [of "i - 255"] by simp
  qed (use ex in simp)
  have lg: "gf_log t4 ! unat x = alog x" if "x \<noteq> 0" for x
    using gen_inv_alog [OF t3 that] that by (simp add: t4_def unat_eq_0)
  have lg0: "gf_log t4 ! 0 = 255" using len by (simp add: t4_def gf_tables_wf_def)
  have inv6: "length (inverse_tab t6) = 256" "inverse_tab t6 ! 0 = 0" "inverse_tab t6 ! 1 = 1"
    using len by (simp_all add: t6_def t5_def t4_def gf_tables_wf_def)
  have inv: "inverse_tab (generate_gf t) ! unat x = apow (255 - alog x)" if "x \<noteq> 0" for x
  proof (cases "unat x = 1")
    case True
    then have "x = 1" by (simp add: word_unat_eq_iff)
    moreover have "alog 1 = 0" using alog_apow [of 0] by simp
    ultimately show ?thesis
      using inv6 apow_255 by (simp add: gen nth_2_255_low)
  next
    case False
    with that have "2 \<le> unat x" by (metis One_nat_def Suc_1 less_2_cases not_le unat_eq_0)
    then show ?thesis
      using inv6 unat_u8_less [of x] lg [OF that]
      by (simp add: gen nth_2_255 t6_def t5_def exp)
  qed
  have inv0: "inverse_tab (generate_gf t) ! 0 = 0"
    using inv6(2) by (simp add: gen nth_2_255_low)
  show "gf_tables_ok (generate_gf t)"
    unfolding gf_tables_ok_def
    using inv inv0 lg lg0 exp ex(1) len
    by (auto simp: gen t6_def t5_def t4_def gf_tables_wf_def)
qed


subsection \<open>The multiplication table\<close>

lemma fold_rows:
  assumes "length m = 65536" "n \<le> 256"
  shows "let m' = fold (\<lambda>i m. fold (\<lambda>j m. m[push_bit 8 i + j := f i j]) [0..<256] m) [0..<n] m in
     length m' = 65536 \<and> (\<forall>i<n. \<forall>j<256. m' ! (256 * i + j) = f i j)"
  using fold_matrix [of 256 256 m n f] assms
  by (simp add: push_bit_eq_mult mult.commute [of 256] Let_def)

lemma fold_border:
  assumes "length m = 65536" "n \<le> 256"
  shows "let m' = fold (\<lambda>j m. let m = m[push_bit 8 j := (0::u8)] in m[j := m ! push_bit 8 j]) [0..<n] m in
     length m' = 65536 \<and>
     (\<forall>k<65536. m' ! k = (if k < n \<or> k mod 256 = 0 \<and> k div 256 < n then 0 else m ! k))"
  using assms(2)
proof (induction n)
  case 0
  then show ?case using assms(1) by simp
next
  case (Suc n)
  have e: "k = 256 * n \<longleftrightarrow> k mod 256 = 0 \<and> k div 256 = n" for k :: nat
    by (auto simp: mult.commute)
  show ?case
    using Suc by (auto simp: Let_def push_bit_eq_mult nth_list_update less_Suc_eq e mult.commute [of _ 256])
qed


lemma init_mul_table_spec:
  assumes "gf_tables_ok t"
  shows "gf_tables_ok (init_mul_table t)"
    and "gf_mul_table (init_mul_table t) ! (256 * unat x + unat y) =
      (if x = 0 \<or> y = 0 then 0 else apow (alog x + alog y))"
proof -
  define f where "f = (\<lambda>i j. gf_exp t ! modnn (gf_log t ! i + gf_log t ! j))"
  define m1 where "m1 = fold (\<lambda>i m. fold (\<lambda>j m. m[push_bit 8 i + j := f i j]) [0..<256] m) [0..<256] (gf_mul_table t)"
  define m2 where "m2 = fold (\<lambda>j m. let m = m[push_bit 8 j := (0::u8)] in m[j := m ! push_bit 8 j]) [0..<256] m1"
  have init: "init_mul_table t = t\<lparr>gf_mul_table := m2\<rparr>"
    by (simp add: init_mul_table_def m2_def m1_def f_def Let_def)
  have m1: "length m1 = 65536" "\<And>i j. i < 256 \<Longrightarrow> j < 256 \<Longrightarrow> m1 ! (256 * i + j) = f i j"
    using fold_rows [of "gf_mul_table t" 256 f] assms
    by (auto simp: m1_def gf_tables_ok_def gf_tables_wf_def Let_def)
  have m2: "length m2 = 65536" "\<And>k. k < 65536 \<Longrightarrow>
      m2 ! k = (if k < 256 \<or> k mod 256 = 0 \<and> k div 256 < 256 then 0 else m1 ! k)"
    using fold_border [of m1 256] m1(1) by (auto simp: m2_def Let_def)
  show "gf_tables_ok (init_mul_table t)"
    using assms m2(1) by (simp add: init gf_tables_ok_def gf_tables_wf_def)
  have b: "unat x < 256" "unat y < 256" by (rule unat_u8_less)+
  then have k: "256 * unat x + unat y < 65536" by linarith
  have xy: "(256 * unat x + unat y) mod 256 = unat y" "(256 * unat x + unat y) div 256 = unat x"
    using b by simp_all
  have x0: "256 * unat x + unat y < 256 \<longleftrightarrow> x = 0"
    using b unat_gt_0 [of x] by (cases "x = 0") (auto simp: unat_eq_0 not_less)
  show "gf_mul_table (init_mul_table t) ! (256 * unat x + unat y) =
      (if x = 0 \<or> y = 0 then 0 else apow (alog x + alog y))"
  proof (cases "x = 0 \<or> y = 0")
    case True
    then show ?thesis using b x0 xy by (auto simp: init m2(2) [OF k] unat_eq_0)
  next
    case False
    then have "m2 ! (256 * unat x + unat y) = f (unat x) (unat y)"
      using b x0 xy by (simp add: m2(2) [OF k] m1(2) unat_eq_0)
    also have "\<dots> = apow (alog x + alog y)"
      using assms False by (simp add: f_def gf_tables_ok_def modnn_mod apow_mod)
    finally show ?thesis using False by (simp add: init)
  qed
qed

lemma gf_tab_ok: "gf_tables_ok gf_tab"
  unfolding gf_tab_def
  by (intro init_mul_table_spec(1) generate_gf_ok(1)) (simp add: gf_tables_zero_def gf_tables_wf_def)

lemma gf_mul_log: "gf_mul x y = (if x = 0 \<or> y = 0 then 0 else apow (alog x + alog y))"
  using init_mul_table_spec(2) [OF generate_gf_ok(1), of gf_tables_zero x y]
  by (simp add: gf_mul_def gf_tab_def push_bit_eq_mult mult.commute gf_tables_zero_def gf_tables_wf_def)

lemma gf_inverse_log: "gf_inverse x = (if x = 0 then 0 else apow (255 - alog x))"
  using gf_tab_ok by (auto simp: gf_inverse_def gf_tables_ok_def)

lemma gf_mul_apow: "gf_mul (apow a) y = (xtime ^^ a) y"
proof (cases "y = 0")
  case False
  have "gf_mul (apow a) y = apow (alog (apow a) + alog y)"
    using False by (simp add: gf_mul_log apow_neq_0)
  also have "alog (apow a) = a mod 255"
    using alog_apow [of "a mod 255"] by (simp add: apow_mod)
  also have "apow (a mod 255 + alog y) = apow (a + alog y)"
    using apow_mod by (metis mod_add_left_eq)
  finally show ?thesis using False by (simp add: apow_add apow_alog)
qed (simp add: gf_mul_log)

subsection \<open>Bytes as a field\<close>

datatype gfe = GF (gf_byte: u8)

instantiation gfe :: field
begin

definition zero_gfe :: gfe where "zero_gfe = GF 0"
definition one_gfe :: gfe where "one_gfe = GF 1"
definition plus_gfe :: "gfe \<Rightarrow> gfe \<Rightarrow> gfe" where "plus_gfe a b = GF (gf_byte a XOR gf_byte b)"
definition minus_gfe :: "gfe \<Rightarrow> gfe \<Rightarrow> gfe" where "minus_gfe a b = GF (gf_byte a XOR gf_byte b)"
definition uminus_gfe :: "gfe \<Rightarrow> gfe" where "uminus_gfe a = (a :: gfe)"
definition times_gfe :: "gfe \<Rightarrow> gfe \<Rightarrow> gfe" where "times_gfe a b = GF (gf_mul (gf_byte a) (gf_byte b))"
definition inverse_gfe :: "gfe \<Rightarrow> gfe" where "inverse_gfe a = GF (gf_inverse (gf_byte a))"
definition divide_gfe :: "gfe \<Rightarrow> gfe \<Rightarrow> gfe" where "divide_gfe a b = (a * inverse b :: gfe)"

lemma gf_mul_commute: "gf_mul x y = gf_mul y x"
  by (simp add: gf_mul_log add.commute)

lemma gf_mul_0 [simp]: "gf_mul 0 y = 0" "gf_mul x 0 = 0"
  by (simp_all add: gf_mul_log)

lemma gf_mul_xor: "gf_mul x (y XOR z) = gf_mul x y XOR gf_mul x z"
proof (cases "x = 0")
  case False
  then obtain a where "x = apow a" using apow_alog by metis
  then show ?thesis by (simp add: gf_mul_apow xtime_pow_xor)
qed simp

lemma gf_mul_assoc: "gf_mul (gf_mul x y) z = gf_mul x (gf_mul y z)"
proof (cases "x = 0 \<or> y = 0")
  case False
  then obtain a b where "x = apow a" "y = apow b" using apow_alog by metis
  then show ?thesis by (simp add: gf_mul_apow funpow_add flip: apow_add)
qed auto

lemma gf_mul_1 [simp]: "gf_mul 1 x = x"
  using gf_mul_apow [of 0 x] by simp

lemma gf_mul_inverse: "x \<noteq> 0 \<Longrightarrow> gf_mul (gf_inverse x) x = 1"
  using alog_less [of x] apow_255
  by (simp add: gf_inverse_log gf_mul_apow) (metis apow_add apow_alog le_add_diff_inverse2 less_imp_le)

instance
proof
  fix a b c :: gfe
  show "a * b * c = a * (b * c)" by (simp add: times_gfe_def gf_mul_assoc)
  show "a * b = b * a" by (simp add: times_gfe_def gf_mul_commute)
  show "1 * a = a" by (simp add: times_gfe_def one_gfe_def)
  show "a + b + c = a + (b + c)" by (simp add: plus_gfe_def xor.assoc)
  show "a + b = b + a" by (simp add: plus_gfe_def xor.commute)
  show "0 + a = a" by (simp add: plus_gfe_def zero_gfe_def)
  show "- a + a = 0" by (simp add: plus_gfe_def uminus_gfe_def zero_gfe_def)
  show "a - b = a + - b" by (simp add: minus_gfe_def plus_gfe_def uminus_gfe_def)
  show "(a + b) * c = a * c + b * c"
    by (simp add: plus_gfe_def times_gfe_def gf_mul_commute [of _ "gf_byte c"] gf_mul_xor)
  show "(0::gfe) \<noteq> 1" by (simp add: zero_gfe_def one_gfe_def)
  show "a \<noteq> 0 \<Longrightarrow> inverse a * a = 1"
    by (cases a) (simp add: zero_gfe_def inverse_gfe_def times_gfe_def one_gfe_def gf_mul_inverse)
  show "a div b = a * inverse b" by (simp add: divide_gfe_def)
  show "inverse (0::gfe) = 0" by (simp add: inverse_gfe_def zero_gfe_def gf_inverse_log)
qed

end


subsection \<open>The table product is polynomial multiplication\<close>

text \<open>The reference: shift-and-add multiplication modulo \<open>x^8 + x^4 + x^3 + x^2 + 1\<close>.\<close>

primrec poly_mul :: "nat \<Rightarrow> u8 \<Rightarrow> u8 \<Rightarrow> u8" where
  "poly_mul 0 x y = 0"
| "poly_mul (Suc n) x y = (if odd x then y else 0) XOR poly_mul n (drop_bit 1 x) (xtime y)"

declare poly_mul.simps [code del]

lemma poly_mul_steps [code]:
  "poly_mul 0 x y = 0"
  "poly_mul (Suc n) x y = (if bit x 0 then y else 0) XOR poly_mul n (drop_bit 1 x) (xtime y)"
  by (simp_all add: bit_0)

lemma gf_mul_xtime: "gf_mul (xtime z) y = gf_mul z (xtime y)"
proof (cases "z = 0")
  case False
  then obtain a where "z = apow a" using apow_alog by metis
  then show ?thesis
    using gf_mul_apow [of "Suc a" y] by (simp add: gf_mul_apow funpow_swap1)
qed simp

lemma xtime_drop_bit: "(if odd x then 1 else 0) XOR xtime (drop_bit 1 x) = x"
proof (rule bit_word_eqI)
  fix n assume n: "n < LENGTH(8)"
  have "\<not> bit (drop_bit 1 x) 7" using bit_imp_le_length [of x 8] by (auto simp: bit_drop_bit_eq)
  then have x: "xtime (drop_bit 1 x) = push_bit 1 (drop_bit 1 x)" by (simp add: xtime_alt)
  have sh: "bit (push_bit 1 (drop_bit 1 x)) n \<longleftrightarrow> n \<noteq> 0 \<and> bit x n"
    using n by (cases n) (simp_all only: bit_push_bit_iff bit_drop_bit_eq o_def, simp_all)
  show "bit ((if odd x then 1 else 0) XOR xtime (drop_bit 1 x)) n = bit x n"
    unfolding x bit_xor_iff sh by (cases "n = 0") (auto simp: bit_1_iff bit_0)
qed

lemma gf_mul_poly_mul: "unat x < 2 ^ n \<Longrightarrow> gf_mul x y = poly_mul n x y"
proof (induction n arbitrary: x y)
  case 0
  then show ?case by (simp add: unat_eq_0)
next
  case (Suc n)
  have "gf_mul x y = gf_mul ((if odd x then 1 else 0) XOR xtime (drop_bit 1 x)) y"
    by (simp only: xtime_drop_bit)
  also have "\<dots> = (if odd x then y else 0) XOR gf_mul (drop_bit 1 x) (xtime y)"
    by (simp only: gf_mul_commute [of _ y] gf_mul_xor) (simp add: gf_mul_commute [of y] gf_mul_xtime)
  also have "gf_mul (drop_bit 1 x) (xtime y) = poly_mul n (drop_bit 1 x) (xtime y)"
    using Suc.prems by (intro Suc.IH) (simp add: drop_bit_eq_div unat_div_distrib)
  finally show ?case by simp
qed

lemma gf_mul_code [code]: "gf_mul x y = poly_mul 8 x y"
  using unat_u8_less [of x] by (intro gf_mul_poly_mul) simp

lemma gf_mul_apow2: "gf_mul (apow a) (apow b) = apow (a + b)"
  by (simp add: gf_mul_apow apow_add)

lemma gf_inverse_code [code]:
  "gf_inverse x =
     (let x2 = gf_mul x x; x4 = gf_mul x2 x2; x8 = gf_mul x4 x4; x16 = gf_mul x8 x8;
          x32 = gf_mul x16 x16; x64 = gf_mul x32 x32; x128 = gf_mul x64 x64
      in gf_mul x2 (gf_mul x4 (gf_mul x8 (gf_mul x16 (gf_mul x32 (gf_mul x64 x128))))))"
proof (cases "x = 0")
  case False
  define a where "a = alog x"
  have a: "x = apow a" "a < 255" using False by (simp_all add: a_def apow_alog alog_less)
  have e254: "apow (254 * a) = apow (255 - a)"
  proof (cases "a = 0")
    case False
    with a(2) have "254 * a = (a - 1) * 255 + (255 - a)" by simp
    then show ?thesis by (simp only: apow_mult_add)
  qed (simp add: apow_255)
  have dbl: "gf_mul (apow k) (apow k) = apow (2 * k)" for k
    by (simp only: gf_mul_apow2 mult_2)
  have inv: "gf_inverse x = apow (255 - a)"
    using False by (simp add: gf_inverse_log a_def)
  have sum: "2 * a + (2 * (2 * a) + (2 * (2 * (2 * a)) + (2 * (2 * (2 * (2 * a))) +
      (2 * (2 * (2 * (2 * (2 * a)))) + (2 * (2 * (2 * (2 * (2 * (2 * a))))) +
       2 * (2 * (2 * (2 * (2 * (2 * (2 * a))))))))))) = 254 * a"
    by simp
  have let_dbl: "(let y = gf_mul (apow k) (apow k) in F y) = F (apow (2 * k))"
    for k and F :: "u8 \<Rightarrow> u8"
    by (simp only: Let_def dbl)
  show ?thesis
    unfolding inv unfolding a(1) unfolding let_dbl unfolding gf_mul_apow2 sum e254 by (rule refl)
qed (simp add: gf_inverse_log)


subsection \<open>Initialising again changes nothing\<close>

lemma u8_index: "k < 256 \<Longrightarrow> \<exists>x::u8. unat x = k"
  by (rule exI [of _ "of_nat k"]) (simp add: unat_of_nat)

lemma gf_tables_ok_unique:
  assumes "gf_tables_ok t" "gf_tables_ok t'"
  shows "gf_exp t = gf_exp t'" "gf_log t = gf_log t'" "inverse_tab t = inverse_tab t'"
proof -
  have lg: "gf_log t ! unat x = gf_log t' ! unat x" for x :: u8
    using assms by (cases "x = 0") (simp_all add: gf_tables_ok_def)
  have iv: "inverse_tab t ! unat x = inverse_tab t' ! unat x" for x :: u8
    using assms by (cases "x = 0") (simp_all add: gf_tables_ok_def)
  show "gf_exp t = gf_exp t'"
    using assms by (intro nth_equalityI) (auto simp: gf_tables_ok_def gf_tables_wf_def)
  show "gf_log t = gf_log t'"
    using assms lg u8_index by (intro nth_equalityI) (auto simp: gf_tables_ok_def gf_tables_wf_def, metis)
  show "inverse_tab t = inverse_tab t'"
    using assms iv u8_index by (intro nth_equalityI) (auto simp: gf_tables_ok_def gf_tables_wf_def, metis)
qed

text \<open>The property C17: running \<open>generate_gf\<close> and \<open>init_mul_table\<close> over any tables of the declared sizes,
  initialised or not, yields the same four tables: \<open>reed_solomon_init\<close> may be called again.\<close>

theorem gf_reinit:
  assumes "gf_tables_wf t"
  shows "init_mul_table (generate_gf t) = gf_tab"
proof -
  let ?t = "init_mul_table (generate_gf t)"
  note ok = init_mul_table_spec(1) [OF generate_gf_ok(1) [OF assms]]
  note eq = gf_tables_ok_unique [OF ok gf_tab_ok]
  have "gf_mul_table ?t = gf_mul_table gf_tab"
  proof (rule nth_equalityI)
    show "length (gf_mul_table ?t) = length (gf_mul_table gf_tab)"
      using ok gf_tab_ok by (simp add: gf_tables_ok_def gf_tables_wf_def)
    fix k assume "k < length (gf_mul_table ?t)"
    then have "k < 65536" using ok by (simp add: gf_tables_ok_def gf_tables_wf_def)
    then have "k div 256 < 256" "k mod 256 < 256" by auto
    then obtain x y :: u8 where "unat x = k div 256" "unat y = k mod 256"
      using u8_index by metis
    then have k: "k = 256 * unat x + unat y" by simp
    have "gf_mul_table gf_tab ! k = gf_mul x y"
      by (simp add: gf_mul_def k push_bit_eq_mult mult.commute)
    then show "gf_mul_table ?t ! k = gf_mul_table gf_tab ! k"
      unfolding k init_mul_table_spec(2) [OF generate_gf_ok(1) [OF assms]] gf_mul_log by simp
  qed
  with eq show ?thesis by simp
qed

theorem gf_reinit_witness: "init_mul_table (generate_gf gf_tab) = gf_tab"
  by (rule gf_reinit) (use gf_tab_ok in \<open>simp add: gf_tables_ok_def\<close>)

end
