(* ===== verification/CauchyElimination.thy ===== *)
theory CauchyElimination
  imports Main
begin

text \<open>
  Gaussian elimination without pivoting on a Cauchy matrix over any field: the algebra behind
  the decoder of the Reed-Solomon codec. A matrix is a function of two indices below \<open>W\<close>.
  \<open>solves\<close> says that a vector solves the linear system of a matrix and a right-hand side; row
  operations keep it. \<open>cauchy_from\<close> says that the block not yet eliminated is a Cauchy matrix
  with its rows and columns scaled by non-zero factors, which one elimination step keeps; so
  every pivot is non-zero.
\<close>

definition solves :: "nat \<Rightarrow> (nat \<Rightarrow> nat \<Rightarrow> 'a::field) \<Rightarrow> (nat \<Rightarrow> 'a) \<Rightarrow> (nat \<Rightarrow> 'a) \<Rightarrow> bool" where
  "solves W A X B \<longleftrightarrow> (\<forall>i<W. (\<Sum>j<W. A i j * X j) = B i)"

lemma solves_scale:
  assumes "solves W A X B"
    and "\<And>j. j < W \<Longrightarrow> A' x j = u * A x j" "\<And>i j. i < W \<Longrightarrow> i \<noteq> x \<Longrightarrow> j < W \<Longrightarrow> A' i j = A i j"
    and "B' x = u * B x" "\<And>i. i < W \<Longrightarrow> i \<noteq> x \<Longrightarrow> B' i = B i"
  shows "solves W A' X B'"
  unfolding solves_def
proof (intro allI impI)
  fix i assume i: "i < W"
  show "(\<Sum>j<W. A' i j * X j) = B' i"
  proof (cases "i = x")
    case True
    have "(\<Sum>j<W. A' x j * X j) = u * (\<Sum>j<W. A x j * X j)"
      using assms(2) by (simp add: sum_distrib_left mult.assoc)
    with True i assms(1,4) show ?thesis by (simp add: solves_def)
  next
    case False
    with i assms show ?thesis by (simp add: solves_def)
  qed
qed

lemma solves_add:
  assumes "solves W A X B" "x < W" "x \<noteq> row"
    and "\<And>j. j < W \<Longrightarrow> A' row j = A row j + u * A x j"
    and "\<And>i j. i < W \<Longrightarrow> i \<noteq> row \<Longrightarrow> j < W \<Longrightarrow> A' i j = A i j"
    and "B' row = B row + u * B x" "\<And>i. i < W \<Longrightarrow> i \<noteq> row \<Longrightarrow> B' i = B i"
  shows "solves W A' X B'"
  unfolding solves_def
proof (intro allI impI)
  fix i assume i: "i < W"
  show "(\<Sum>j<W. A' i j * X j) = B' i"
  proof (cases "i = row")
    case True
    have "(\<Sum>j<W. A' row j * X j) = (\<Sum>j<W. A row j * X j) + u * (\<Sum>j<W. A x j * X j)"
      using assms(4) by (simp add: sum_distrib_left algebra_simps flip: sum.distrib)
    with True i assms(1,2,6) show ?thesis by (simp add: solves_def)
  next
    case False
    with i assms show ?thesis by (simp add: solves_def)
  qed
qed

definition cauchy_from :: "nat \<Rightarrow> nat \<Rightarrow> (nat \<Rightarrow> 'a::field) \<Rightarrow> (nat \<Rightarrow> 'a) \<Rightarrow> (nat \<Rightarrow> nat \<Rightarrow> 'a) \<Rightarrow> bool" where
  "cauchy_from x W r q A \<longleftrightarrow> (\<exists>u v. (\<forall>i\<in>{x..<W}. u i \<noteq> 0 \<and> v i \<noteq> 0) \<and>
     (\<forall>i\<in>{x..<W}. \<forall>j\<in>{x..<W}. A i j = u i * v j / (r i - q j)))"

definition cauchy_nodes :: "nat \<Rightarrow> (nat \<Rightarrow> 'a::field) \<Rightarrow> (nat \<Rightarrow> 'a) \<Rightarrow> bool" where
  "cauchy_nodes W r q \<longleftrightarrow> inj_on r {..<W} \<and> inj_on q {..<W} \<and> (\<forall>i<W. \<forall>j<W. r i \<noteq> q j)"

lemma cauchy_pivot:
  assumes "cauchy_from x W r q A" "cauchy_nodes W r q" "x < W"
  shows "A x x \<noteq> 0"
  using assms by (auto simp: cauchy_from_def cauchy_nodes_def)

text \<open>The Schur complement of a scaled Cauchy matrix is one again.\<close>

lemma cauchy_schur_entry:
  fixes ri rx qj qx :: "'a::field"
  assumes "ri \<noteq> qj" "ri \<noteq> qx" "rx \<noteq> qj" "rx \<noteq> qx" "ux \<noteq> 0" "vx \<noteq> 0"
  shows "ui * vj / (ri - qj) - (ui * vx / (ri - qx)) * (inverse (ux * vx / (rx - qx)) * (ux * vj / (rx - qj)))
    = (ui * (ri - rx) / (ri - qx)) * (vj * (qx - qj) / (rx - qj)) / (ri - qj)"
proof -
  have nz: "ri - qj \<noteq> 0" "ri - qx \<noteq> 0" "rx - qj \<noteq> 0" "rx - qx \<noteq> 0"
    using assms by auto
  then show ?thesis
    using assms(5,6) by (simp add: divide_simps) (simp add: algebra_simps)
qed

lemma cauchy_step:
  assumes c: "cauchy_from x W r q A" and n: "cauchy_nodes W r q" and x: "x < W"
    and A': "\<And>i j. i \<in> {Suc x..<W} \<Longrightarrow> j \<in> {Suc x..<W} \<Longrightarrow>
              A' i j = A i j - A i x * (inverse (A x x) * A x j)"
  shows "cauchy_from (Suc x) W r q A'"
proof -
  obtain u v where nz: "\<forall>i\<in>{x..<W}. u i \<noteq> 0 \<and> v i \<noteq> 0"
    and A: "\<forall>i\<in>{x..<W}. \<forall>j\<in>{x..<W}. A i j = u i * v j / (r i - q j)"
    using c by (auto simp: cauchy_from_def)
  define u' where "u' i = u i * (r i - r x) / (r i - q x)" for i
  define v' where "v' j = v j * (q x - q j) / (r x - q j)" for j
  have "u' i \<noteq> 0 \<and> v' i \<noteq> 0" if "i \<in> {Suc x..<W}" for i
  proof -
    have lt: "x < W" "i < W" "i \<noteq> x" "u i \<noteq> 0" "v i \<noteq> 0" using that nz x by auto
    then have "r i \<noteq> r x" "q x \<noteq> q i" "r i \<noteq> q x" "r x \<noteq> q i"
      using n inj_onD [of r "{..<W}" i x] inj_onD [of q "{..<W}" x i]
      by (auto simp: cauchy_nodes_def)
    with lt show ?thesis by (simp add: u'_def v'_def)
  qed
  moreover have "A' i j = u' i * v' j / (r i - q j)"
    if i: "i \<in> {Suc x..<W}" and j: "j \<in> {Suc x..<W}" for i j
  proof -
    have "A' i j = u i * v j / (r i - q j) -
        (u i * v x / (r i - q x)) * (inverse (u x * v x / (r x - q x)) * (u x * v j / (r x - q j)))"
      using A' [OF i j] A i j x by simp
    also have "\<dots> = u' i * v' j / (r i - q j)"
      unfolding u'_def v'_def
      using n nz i j x by (intro cauchy_schur_entry) (auto simp: cauchy_nodes_def)
    finally show ?thesis .
  qed
  ultimately show ?thesis unfolding cauchy_from_def by blast
qed

lemma cauchy_cong:
  assumes "cauchy_from x W r q A" "\<And>i j. i \<in> {x..<W} \<Longrightarrow> j \<in> {x..<W} \<Longrightarrow> A' i j = A i j"
  shows "cauchy_from x W r q A'"
  using assms by (auto simp: cauchy_from_def)

text \<open>A system whose matrix is the identity reads its solution off the right-hand side.\<close>

lemma solves_identity:
  assumes "solves W A X B" "i < W" "\<And>j. j < W \<Longrightarrow> A i j = (if i = j then 1 else 0)"
  shows "B i = X i"
proof -
  have "(\<Sum>j<W. A i j * X j) = (\<Sum>j<W. if i = j then X j else 0)"
    using assms(3) by (intro sum.cong) auto
  then show ?thesis using assms(1,2) by (simp add: solves_def)
qed

end
