(* ===== verification/ReedSolomon.thy ===== *)
theory ReedSolomon
  imports GF256 CauchyElimination
begin

text \<open>
  The Reed-Solomon codec of \<open>src/src/rs.c\<close>: the row kernels \<open>mul\<close> and \<open>addmul\<close>, the parity
  matrix built by \<open>reed_solomon_new\<close>, \<open>reed_solomon_encode\<close>, and the decoder
  (\<open>reed_solomon_reconstruct\<close>, \<open>reed_solomon_decode\<close>, \<open>nanors_decode_shards\<close>,
  \<open>nanors_invert_mat\<close>).

  A shard array is a list of byte buffers; a C pointer to a shard is its index in that list, and
  the pointer table \<open>s_subShards\<close> is a list of optional indices (\<open>None\<close> is NULL). The buffers
  do not overlap. The static work matrix \<open>s_dataDecodeMatrix\<close> is a flat list of bytes that is
  threaded through the calls, since its old contents survive between them; the other static
  workspaces are written before they are read and are plain values here. C integers that the
  guards keep between 0 and 128 are natural numbers.
\<close>

definition DATA_SHARDS_MAX :: nat where "DATA_SHARDS_MAX = 128"

record reed_solomon =
  data_shards :: nat
  parity_shards :: nat
  shards_total :: nat
  parity :: "u8 list"

subsection \<open>Row kernels\<close>

definition addmul :: "u8 list \<Rightarrow> u8 list \<Rightarrow> u8 \<Rightarrow> nat \<Rightarrow> u8 list" where
  "addmul dst src c sz =
     (if c \<noteq> 0
      then map2 (\<lambda>d s. d XOR gf_mul c s) (take sz dst) (take sz src) @ drop sz dst
      else dst)"

definition mul :: "u8 list \<Rightarrow> u8 list \<Rightarrow> u8 \<Rightarrow> nat \<Rightarrow> u8 list" where
  "mul dst src c sz =
     (if c \<noteq> 0 then map (gf_mul c) (take sz src) @ drop sz dst
      else replicate sz 0 @ drop sz dst)"

text \<open>A kernel applied at an offset of a flat buffer.\<close>

definition at_off :: "nat \<Rightarrow> (u8 list \<Rightarrow> u8 list) \<Rightarrow> u8 list \<Rightarrow> u8 list" where
  "at_off off f buf = take off buf @ f (drop off buf)"

subsection \<open>The codec context\<close>

definition parity_row :: "nat \<Rightarrow> nat \<Rightarrow> nat \<Rightarrow> u8 list \<Rightarrow> u8 list" where
  "parity_row ds ps j buf =
     fold (\<lambda>i buf. buf[j * ds + i := inverse_tab gf_tab ! ((ps + i) XOR j)]) [0..<ds] buf"

definition reed_solomon_new :: "int \<Rightarrow> int \<Rightarrow> reed_solomon option" where
  "reed_solomon_new ds ps =
     (if ds + ps > int DATA_SHARDS_MAX \<or> ds \<le> 0 \<or> ps \<le> 0 then None
      else Some \<lparr>data_shards = nat ds, parity_shards = nat ps, shards_total = nat (ds + ps),
             parity = fold (parity_row (nat ds) (nat ps)) [0..<nat ps]
                        (replicate (DATA_SHARDS_MAX * DATA_SHARDS_MAX) 0)\<rparr>)"

text \<open>The static context keeps its shape and loses its matrix; a lost matrix is empty here.\<close>

definition reed_solomon_release :: "reed_solomon \<Rightarrow> reed_solomon" where
  "reed_solomon_release rs = rs\<lparr>parity := []\<rparr>"

subsection \<open>Encoding\<close>

definition code_shard :: "u8 list \<Rightarrow> nat \<Rightarrow> nat \<Rightarrow> nat \<Rightarrow> nat \<Rightarrow> nat \<Rightarrow> nat \<Rightarrow>
    u8 list list \<Rightarrow> u8 list list" where
  "code_shard m ibase obase ds bytes c row sh =
     (let k = m ! (row * ds + c); d = obase + row; s = ibase + c
      in sh[d := (if c = 0 then mul (sh ! d) (sh ! s) k bytes
                  else addmul (sh ! d) (sh ! s) k bytes)])"

definition code_some_shards :: "u8 list \<Rightarrow> nat \<Rightarrow> nat \<Rightarrow> nat \<Rightarrow> nat \<Rightarrow> nat \<Rightarrow>
    u8 list list \<Rightarrow> u8 list list" where
  "code_some_shards m ibase obase ds count bytes sh =
     fold (\<lambda>c sh. fold (code_shard m ibase obase ds bytes c) [0..<count] sh) [0..<ds] sh"

definition reed_solomon_encode :: "reed_solomon \<Rightarrow> u8 list list \<Rightarrow> nat \<Rightarrow> nat \<Rightarrow> u8 list list" where
  "reed_solomon_encode rs sh nr bs =
     (let ds = data_shards rs; ps = parity_shards rs; n = nr div shards_total rs
      in fold (\<lambda>g sh. code_some_shards (parity rs) (g * ds) (n * ds + g * ps) ds ps bs sh)
           [0..<(nr + shards_total rs - 1) div shards_total rs] sh)"

subsection \<open>Decoding: solving for the erased shards\<close>

type_synonym rs_mem = "u8 list \<times> u8 list list"

definition shard_at :: "nat option list \<Rightarrow> nat list \<Rightarrow> nat \<Rightarrow> nat" where
  "shard_at dst c k = the (dst ! (c ! k))"

text \<open>First loop: the square submatrix of the chosen parity rows and the erased columns.\<close>

definition copy_submatrix :: "u8 list \<Rightarrow> nat \<Rightarrow> nat \<Rightarrow> nat list \<Rightarrow> nat list \<Rightarrow> u8 list \<Rightarrow> u8 list" where
  "copy_submatrix src V0 K c d wrk =
     (let W = K - V0 in
      fold (\<lambda>i wrk. fold (\<lambda>j wrk. wrk[i * W + j := src ! (d ! i * K + c ! (V0 + j))]) [0..<W] wrk)
        [0..<W] wrk)"

text \<open>Second loop: the surviving shards are subtracted from the parity shards.\<close>

definition fold_survivors :: "u8 list \<Rightarrow> nat option list \<Rightarrow> nat \<Rightarrow> nat \<Rightarrow> nat \<Rightarrow> nat list \<Rightarrow>
    nat list \<Rightarrow> u8 list list \<Rightarrow> u8 list list" where
  "fold_survivors src dst V0 K T c d sh =
     fold (\<lambda>v sh. fold (\<lambda>row sh.
         let u = src ! (d ! (v - V0) * K + c ! row); p = shard_at dst c v
         in sh[p := addmul (sh ! p) (sh ! shard_at dst c row) u T]) [0..<V0] sh)
       [V0..<K] sh"

text \<open>Third loop: forward elimination without pivoting; \<open>None\<close> is the return of \<open>-1\<close>.\<close>

definition elim_row :: "nat option list \<Rightarrow> nat \<Rightarrow> nat \<Rightarrow> nat \<Rightarrow> nat list \<Rightarrow> nat \<Rightarrow> nat \<Rightarrow>
    rs_mem \<Rightarrow> rs_mem" where
  "elim_row dst V0 W T c x row = (\<lambda>(wrk, sh).
     let u = wrk ! (row * W + x); p = shard_at dst c (V0 + row)
     in (at_off (row * W) (\<lambda>s. addmul s (drop (x * W) wrk) u W) wrk,
         sh[p := addmul (sh ! p) (sh ! shard_at dst c (V0 + x)) u T]))"

definition norm_row :: "nat option list \<Rightarrow> nat \<Rightarrow> nat \<Rightarrow> nat \<Rightarrow> nat list \<Rightarrow> nat \<Rightarrow> u8 \<Rightarrow>
    rs_mem \<Rightarrow> rs_mem" where
  "norm_row dst V0 W T c x u = (\<lambda>(wrk, sh).
     let p = shard_at dst c (V0 + x)
     in (at_off (x * W + x) (\<lambda>s. mul s s u W) wrk, sh[p := mul (sh ! p) (sh ! p) u T]))"

primrec forward_elim :: "nat option list \<Rightarrow> nat \<Rightarrow> nat \<Rightarrow> nat \<Rightarrow> nat list \<Rightarrow> nat list \<Rightarrow>
    rs_mem \<Rightarrow> rs_mem option \<times> rs_mem" where
  "forward_elim dst V0 W T c [] mem = (Some mem, mem)"
| "forward_elim dst V0 W T c (x # xs) mem =
     (let u = fst mem ! (x * W + x) in
      if u = 0 then (None, mem)
      else forward_elim dst V0 W T c xs
             (fold (elim_row dst V0 W T c x) [x + 1..<W]
                (norm_row dst V0 W T c x (gf_inverse u) mem)))"

text \<open>Fourth loop: back substitution, which leaves the work matrix alone.\<close>

definition back_subst :: "nat option list \<Rightarrow> nat \<Rightarrow> nat \<Rightarrow> nat \<Rightarrow> nat list \<Rightarrow> rs_mem \<Rightarrow> u8 list list" where
  "back_subst dst V0 W T c = (\<lambda>(wrk, sh).
     fold (\<lambda>x sh. fold (\<lambda>row sh.
         let u = wrk ! (row * W + x); p = shard_at dst c (V0 + row)
         in sh[p := addmul (sh ! p) (sh ! shard_at dst c (V0 + x)) u T]) [0..<x] sh)
       (rev [0..<W]) sh)"

definition nanors_invert_mat :: "u8 list \<Rightarrow> nat option list \<Rightarrow> nat \<Rightarrow> nat \<Rightarrow> nat \<Rightarrow> nat list \<Rightarrow>
    nat list \<Rightarrow> rs_mem \<Rightarrow> int \<times> rs_mem" where
  "nanors_invert_mat src dst V0 K T c d = (\<lambda>(wrk, sh).
     let W = K - V0;
         mem = (copy_submatrix src V0 K c d wrk, fold_survivors src dst V0 K T c d sh)
     in case forward_elim dst V0 W T c [0..<W] mem of
          (None, mem') \<Rightarrow> (-1, mem')
        | (Some mem', _) \<Rightarrow> (0, fst mem', back_subst dst V0 W T c mem'))"

subsection \<open>Decoding: choosing columns and rows\<close>

function skip_marked :: "u8 list \<Rightarrow> nat \<Rightarrow> nat \<Rightarrow> nat" where
  "skip_marked marks n j = (if j < n \<and> marks ! j \<noteq> 0 then skip_marked marks n (Suc j) else j)"
  by pat_completeness auto
termination
  by (relation "measure (\<lambda>(marks, n, j). n - j)") auto

declare skip_marked.simps [simp del]

text \<open>The loop that fills the first \<open>k\<close> entries of \<open>s_nano_colperm\<close>.\<close>

primrec pick_columns :: "u8 list \<Rightarrow> nat \<Rightarrow> nat \<Rightarrow> nat \<Rightarrow> nat list option" where
  "pick_columns marks ds 0 j = Some []"
| "pick_columns marks ds (Suc k) j =
     (let j = skip_marked marks ds j in
      if j \<ge> ds then None
      else (case pick_columns marks ds k (Suc j) of None \<Rightarrow> None | Some c \<Rightarrow> Some (j # c)))"

text \<open>The loop over the erasures: it copies a valid parity shard into each erased shard and
  records its row; it may run out of parity shards after some copies.\<close>

primrec pick_rows :: "nat option list \<Rightarrow> u8 list \<Rightarrow> nat \<Rightarrow> nat \<Rightarrow> nat \<Rightarrow> nat list \<Rightarrow> nat \<Rightarrow>
    u8 list list \<Rightarrow> nat list option \<times> u8 list list" where
  "pick_rows dat marks ds nr bs [] j sh = (Some [], sh)"
| "pick_rows dat marks ds nr bs (e # es) j sh =
     (let j = skip_marked marks nr j in
      if j \<ge> nr then (None, sh)
      else (let p = the (dat ! e);
                sh = sh[p := take bs (sh ! the (dat ! j)) @ drop bs (sh ! p)]
            in case pick_rows dat marks ds nr bs es (Suc j) sh of
                 (None, sh) \<Rightarrow> (None, sh)
               | (Some d, sh) \<Rightarrow> (Some ((j - ds) # d), sh)))"

definition nanors_decode_shards :: "reed_solomon \<Rightarrow> nat option list \<Rightarrow> u8 list \<Rightarrow> nat \<Rightarrow> nat \<Rightarrow>
    rs_mem \<Rightarrow> int \<times> rs_mem" where
  "nanors_decode_shards rs dat marks nr bs = (\<lambda>(wrk, sh).
     let ds = data_shards rs in
     if nr < shards_total rs then (-1, wrk, sh)
     else
       let erasures = filter (\<lambda>i. marks ! i \<noteq> 0) [0..<ds]; gaps = length erasures in
       if gaps = 0 then (0, wrk, sh)
       else (case pick_columns marks ds (ds - gaps) 0 of
               None \<Rightarrow> (-1, wrk, sh)
             | Some c \<Rightarrow>
                 (case pick_rows dat marks ds nr bs erasures ds sh of
                    (None, sh) \<Rightarrow> (-1, wrk, sh)
                  | (Some d, sh) \<Rightarrow>
                      nanors_invert_mat (parity rs) dat (ds - gaps) ds bs (c @ erasures) d (wrk, sh))))"

subsection \<open>Reconstruction\<close>

text \<open>The loop of \<open>reed_solomon_decode\<close> over the chosen parity shards and the erased indices.\<close>

definition mark_block :: "reed_solomon \<Rightarrow> nat \<times> nat \<times> nat \<Rightarrow>
    nat option list \<times> u8 list \<Rightarrow> nat option list \<times> u8 list" where
  "mark_block rs = (\<lambda>(fec_no, fec_block, erased) (sub, marks).
     let marks = (if erased < data_shards rs then marks[erased := 1] else marks) in
     if fec_no < parity_shards rs
     then (sub[data_shards rs + fec_no := Some fec_block], marks[data_shards rs + fec_no := 0])
     else (sub, marks))"

definition reed_solomon_decode :: "reed_solomon \<Rightarrow> nat \<Rightarrow> nat \<Rightarrow> (nat \<times> nat \<times> nat) list \<Rightarrow>
    rs_mem \<Rightarrow> int \<times> rs_mem" where
  "reed_solomon_decode rs dbase bs blocks mem =
     (let total = shards_total rs; ds = data_shards rs in
      if total > DATA_SHARDS_MAX then (-1, mem)
      else
        let sub = map (\<lambda>i. Some (dbase + i)) [0..<ds] @ replicate (total - ds) None;
            marks = replicate ds 0 @ replicate (total - ds) 1;
            (sub, marks) = fold (mark_block rs) blocks (sub, marks)
        in nanors_decode_shards rs sub marks total bs mem)"

text \<open>One group of \<open>reed_solomon_reconstruct\<close>: the erased data shards, as many valid parity
  shards as there are erasures, and the decoder on them.\<close>

definition reconstruct_group :: "reed_solomon \<Rightarrow> u8 list \<Rightarrow> nat \<Rightarrow> nat \<Rightarrow> nat \<Rightarrow>
    int \<times> rs_mem \<Rightarrow> int \<times> rs_mem" where
  "reconstruct_group rs marks n bs g = (\<lambda>(err, mem).
     let ds = data_shards rs; ps = parity_shards rs;
         erased = filter (\<lambda>i. marks ! (g * ds + i) \<noteq> 0) [0..<ds]; dn = length erased in
     if dn = 0 then (err, mem)
     else
       let fec = take dn (filter (\<lambda>i. marks ! (n * ds + g * ps + i) = 0) [0..<ps]) in
       if length fec = dn
       then (let (ret, mem) = reed_solomon_decode rs (g * ds) bs
                   (map2 (\<lambda>f e. (f, n * ds + g * ps + f, e)) fec erased) mem
             in (if ret \<noteq> 0 then ret else err, mem))
       else (-1, mem))"

definition reed_solomon_reconstruct :: "reed_solomon \<Rightarrow> u8 list \<Rightarrow> nat \<Rightarrow> nat \<Rightarrow> rs_mem \<Rightarrow>
    int \<times> rs_mem" where
  "reed_solomon_reconstruct rs marks nr bs mem =
     (let n = nr div shards_total rs
      in fold (reconstruct_group rs marks n bs) [0..<n] (0, mem))"

end
