(* ===== verification/ReedSolomonCorrect.thy ===== *)
theory ReedSolomonCorrect
  imports ReedSolomon
begin

text \<open>
  Correctness of the codec of \<open>src/src/rs.c\<close>: the kernels as field operations on the columns
  of bytes, the elimination loops as row operations of a linear system that the original data
  solves, and the round trip from \<open>reed_solomon_encode\<close> to \<open>reed_solomon_reconstruct\<close>.
\<close>

subsection \<open>Kernels\<close>

lemma GF_xor: "GF (a XOR b) = GF a + GF b"
  by (simp add: plus_gfe_def)

lemma GF_mul: "GF (gf_mul a b) = GF a * GF b"
  by (simp add: times_gfe_def)

lemma GF_inverse: "GF (gf_inverse a) = inverse (GF a)"
  by (simp add: inverse_gfe_def)

lemma GF_eq_0: "GF a = 0 \<longleftrightarrow> a = 0"
  by (simp add: zero_gfe_def)

lemma gfe_minus: "a - b = a + (b :: gfe)"
  by (simp add: plus_gfe_def minus_gfe_def)

lemmas GF_simps = GF_xor GF_mul GF_inverse GF_eq_0

lemma length_addmul [simp]: "sz \<le> length dst \<Longrightarrow> sz \<le> length src \<Longrightarrow> length (addmul dst src c sz) = length dst"
  by (simp add: addmul_def)

lemma length_mul [simp]: "sz \<le> length dst \<Longrightarrow> sz \<le> length src \<Longrightarrow> length (mul dst src c sz) = length dst"
  by (simp add: mul_def)

lemma nth_addmul:
  "sz \<le> length dst \<Longrightarrow> sz \<le> length src \<Longrightarrow> k < length dst \<Longrightarrow>
   addmul dst src c sz ! k = (if k < sz then dst ! k XOR gf_mul c (src ! k) else dst ! k)"
  by (auto simp: addmul_def nth_append)

lemma nth_mul:
  "sz \<le> length dst \<Longrightarrow> sz \<le> length src \<Longrightarrow> k < length dst \<Longrightarrow>
   mul dst src c sz ! k = (if k < sz then gf_mul c (src ! k) else dst ! k)"
  by (auto simp: mul_def nth_append)

lemma nth_at_off:
  "off \<le> length buf \<Longrightarrow> at_off off f buf ! k = (if k < off then buf ! k else f (drop off buf) ! (k - off))"
  by (simp add: at_off_def nth_append)

lemma length_at_off:
  "off \<le> length buf \<Longrightarrow> length (f (drop off buf)) = length buf - off \<Longrightarrow> length (at_off off f buf) = length buf"
  by (simp add: at_off_def)

subsection \<open>The work matrix\<close>

definition wmat :: "nat \<Rightarrow> u8 list \<Rightarrow> nat \<Rightarrow> nat \<Rightarrow> gfe" where
  "wmat W wrk i j = GF (wrk ! (i * W + j))"

text \<open>Index arithmetic of a row-major matrix of width \<open>W\<close>.\<close>

lemma row_index_less: "i < W \<Longrightarrow> j < W \<Longrightarrow> i * W + j < W * (W::nat)"
  using mult_le_mono1 [of "Suc i" W W] by simp

lemma row_seg:
  assumes "j < (W::nat)"
  shows "row * W \<le> i * W + j \<and> i * W + j < row * W + W \<longleftrightarrow> i = row"
proof
  assume "row * W \<le> i * W + j \<and> i * W + j < row * W + W"
  then have "row * W \<le> i * W + j" "i * W + j < Suc row * W" by auto
  then have "(i * W + j) div W = row"
    by (intro div_nat_eqI) (auto simp: mult.commute)
  then show "i = row" using assms by simp
qed (use assms in simp)

lemma row_index_eq: "j < W \<Longrightarrow> j' < W \<Longrightarrow> i * W + j = i' * W + j' \<longleftrightarrow> i = i' \<and> j = (j'::nat)"
  by (metis add_diff_cancel_left' div_mult_self3 div_less add_0_right less_nat_zero_code)

lemma wmat_elim_row:
  assumes "W * W + W \<le> length wrk" "row < W" "x < W" "i < W" "j < W" "row \<noteq> x"
  shows "wmat W (at_off (row * W) (\<lambda>s. addmul s (drop (x * W) wrk) u W) wrk) i j =
      (if i = row then wmat W wrk row j + GF u * wmat W wrk x j else wmat W wrk i j)"
proof -
  have rb: "row * W + W \<le> W * W" "x * W + W \<le> W * W"
    using mult_le_mono1 [of "Suc row" W W] mult_le_mono1 [of "Suc x" W W] assms(2,3) by simp_all
  have k: "i * W + j < W * W" using assms(4,5) by (rule row_index_less)
  show ?thesis
  proof (cases "i = row")
    case True
    then show ?thesis
      using assms rb by (simp add: wmat_def nth_at_off nth_addmul GF_simps)
  next
    case False
    with row_seg [OF assms(5), of row i] have "i * W + j < row * W \<or> row * W + W \<le> i * W + j" by auto
    then show ?thesis
      using False assms rb k by (auto simp: wmat_def nth_at_off nth_addmul)
  qed
qed

lemma length_elim_row_wrk:
  assumes "W * W + W \<le> length wrk" "row < W" "x < W"
  shows "length (at_off (row * W) (\<lambda>s. addmul s (drop (x * W) wrk) u W) wrk) = length wrk"
proof -
  have "row * W + W \<le> W * W" "x * W + W \<le> W * W"
    using mult_le_mono1 [of "Suc row" W W] mult_le_mono1 [of "Suc x" W W] assms(2,3) by simp_all
  then show ?thesis using assms(1) by (intro length_at_off) simp_all
qed

text \<open>The normalising \<open>mul\<close> starts at the diagonal and runs over the end of its row into the
  already eliminated entries of the next one, which are zero.\<close>

lemma wmat_norm_row:
  assumes "W * W + W \<le> length wrk" "x < W" "i < W" "j < W"
    and z: "\<And>i j. x \<le> i \<Longrightarrow> i < W \<Longrightarrow> j < x \<Longrightarrow> wmat W wrk i j = 0"
  shows "wmat W (at_off (x * W + x) (\<lambda>s. mul s s u W) wrk) i j =
      (if i = x then GF u * wmat W wrk x j else wmat W wrk i j)"
proof -
  have xb: "x * W + x + W \<le> W * W + W"
    using row_index_less [OF assms(2,2)] by simp
  have k: "i * W + j < W * W" using assms(3,4) by (rule row_index_less)
  define k where "k = i * W + j"
  have len: "k < length wrk" using k assms(1) by (simp add: k_def)
  have val: "at_off (x * W + x) (\<lambda>s. mul s s u W) wrk ! k =
      (if x * W + x \<le> k \<and> k < x * W + x + W then gf_mul u (wrk ! k) else wrk ! k)"
    using len xb assms(1) by (auto simp: nth_at_off nth_mul)
  show ?thesis
  proof (cases "x * W + x \<le> k \<and> k < x * W + x + W")
    case True
    show ?thesis
    proof (cases "i = x")
      case True
      then show ?thesis using \<open>x * W + x \<le> k \<and> _\<close> val by (simp add: wmat_def k_def GF_simps)
    next
      case False
      have "x * W \<le> i * W + j" using True by (simp add: k_def)
      with False row_seg [OF assms(4), of x i] have "x * W + W \<le> i * W + j" by auto
      moreover have "i * W + j < Suc x * W + x" using True by (simp add: k_def)
      moreover have "x * W \<le> i * W + j" using True by (simp add: k_def)
      ultimately have i: "i = Suc x"
        using row_seg [OF assms(4), of "Suc x" i] assms(2) by auto
      with True have "j < x" by (simp add: k_def)
      with z [of i j] i assms(3) have "wrk ! k = 0" by (simp add: wmat_def k_def GF_eq_0)
      then show ?thesis using val False by (simp add: wmat_def k_def [symmetric])
    qed
  next
    case False
    show ?thesis
    proof (cases "i = x")
      case True
      with False assms(4) have "j < x" by (auto simp: k_def)
      with z [of x j] assms(2) have "wmat W wrk x j = 0" by simp
      moreover have "wmat W (at_off (x * W + x) (\<lambda>s. mul s s u W) wrk) x j = wmat W wrk x j"
        using False val unfolding wmat_def k_def True by auto
      ultimately show ?thesis using True by simp
    next
      case i: False
      then show ?thesis using False val by (auto simp: wmat_def k_def [symmetric])
    qed
  qed
qed

lemma length_norm_row_wrk:
  assumes "W * W + W \<le> length wrk" "x < W"
  shows "length (at_off (x * W + x) (\<lambda>s. mul s s u W) wrk) = length wrk"
  using row_index_less [OF assms(2,2)] assms(1) by (intro length_at_off) simp_all


subsection \<open>The erased shards, column by column\<close>

definition svec :: "(nat \<Rightarrow> nat) \<Rightarrow> u8 list list \<Rightarrow> nat \<Rightarrow> nat \<Rightarrow> gfe" where
  "svec P sh t i = GF (sh ! P i ! t)"

text \<open>\<open>P i\<close> is the shard the \<open>i\<close>-th unknown is stored in.\<close>

definition places_ok :: "nat \<Rightarrow> (nat \<Rightarrow> nat) \<Rightarrow> nat \<Rightarrow> nat list \<Rightarrow> bool" where
  "places_ok W P T lens \<longleftrightarrow> inj_on P {..<W} \<and> (\<forall>i<W. P i < length lens \<and> T \<le> lens ! P i)"

lemma lens_nth: "map length sh = lens \<Longrightarrow> k < length lens \<Longrightarrow> length (sh ! k) = lens ! k"
  by auto

lemma lens_length: "map length sh = lens \<Longrightarrow> length sh = length lens"
  by auto

lemma places_ok_len:
  assumes "places_ok W P T lens" "map length sh = lens" "i < W"
  shows "P i < length sh" "T \<le> length (sh ! P i)"
  using assms by (auto simp: places_ok_def)

lemma lens_update:
  assumes "map length sh = lens" "length s = lens ! p"
  shows "map length (sh[p := s]) = lens"
  using assms by (auto simp: map_update)

lemma lens_addmul:
  assumes "places_ok W P T lens" "map length sh = lens" "i < W" "q < length sh" "T \<le> length (sh ! q)"
  shows "map length (sh[P i := addmul (sh ! P i) (sh ! q) u T]) = lens"
  using assms places_ok_len [OF assms(1-3)] by (intro lens_update) auto

lemma svec_addmul:
  assumes "places_ok W P T lens" "map length sh = lens" "row < W" "i < W" "t < T"
    "q < length sh" "T \<le> length (sh ! q)"
  shows "svec P (sh[P row := addmul (sh ! P row) (sh ! q) u T]) t i =
      (if i = row then svec P sh t row + GF u * GF (sh ! q ! t) else svec P sh t i)"
proof -
  have "P i = P row \<longleftrightarrow> i = row" using assms(1,3,4) by (auto simp: places_ok_def inj_on_def)
  then show ?thesis
    using places_ok_len [OF assms(1,2,3)] assms(5,7)
    by (auto simp: svec_def nth_list_update nth_addmul GF_simps)
qed

lemma svec_mul:
  assumes "places_ok W P T lens" "map length sh = lens" "row < W" "i < W" "t < T"
  shows "svec P (sh[P row := mul (sh ! P row) (sh ! P row) u T]) t i =
      (if i = row then GF u * svec P sh t row else svec P sh t i)"
proof -
  have "P i = P row \<longleftrightarrow> i = row" using assms(1,3,4) by (auto simp: places_ok_def inj_on_def)
  then show ?thesis
    using places_ok_len [OF assms(1,2,3)] assms(5)
    by (auto simp: svec_def nth_list_update nth_mul GF_simps)
qed

subsection \<open>Forward elimination\<close>

text \<open>What every step of the solver keeps: sizes, the shards that are not erased, and the
  fact that the original data \<open>X\<close> solves the system in the byte columns \<open>Q\<close>.\<close>

definition solver_inv :: "nat set \<Rightarrow> nat \<Rightarrow> (nat \<Rightarrow> nat) \<Rightarrow> nat \<Rightarrow> nat list \<Rightarrow> nat \<Rightarrow> (nat \<Rightarrow> nat \<Rightarrow> gfe) \<Rightarrow>
    u8 list list \<Rightarrow> rs_mem \<Rightarrow> bool" where
  "solver_inv Q W P T lens L X sh0 mem \<longleftrightarrow>
     length (fst mem) = L \<and> map length (snd mem) = lens \<and>
     (\<forall>t<T. t \<in> Q \<longrightarrow> solves W (wmat W (fst mem)) (X t) (svec P (snd mem) t)) \<and>
     (\<forall>k. k \<notin> P ` {..<W} \<longrightarrow> snd mem ! k = sh0 ! k)"

lemma solver_inv_elim_row:
  assumes ok: "places_ok W P T lens" and L: "W * W + W \<le> L"
    and P: "\<And>i. i < W \<Longrightarrow> P i = shard_at dst c (V0 + i)"
    and inv: "solver_inv Q W P T lens L X sh0 (wrk, sh)" and rx: "row < W" "x < W" "row \<noteq> x"
    and el: "elim_row dst V0 W T c x row (wrk, sh) = (wrk', sh')"
  shows "solver_inv Q W P T lens L X sh0 (wrk', sh')"
    and "\<And>i j. i < W \<Longrightarrow> j < W \<Longrightarrow> wmat W wrk' i j =
      (if i = row then wmat W wrk row j + wmat W wrk row x * wmat W wrk x j else wmat W wrk i j)"
proof -
  define u where "u = wrk ! (row * W + x)"
  have u: "GF u = wmat W wrk row x" by (simp add: u_def wmat_def)
  have wrk': "wrk' = at_off (row * W) (\<lambda>s. addmul s (drop (x * W) wrk) u W) wrk"
    and sh': "sh' = sh[P row := addmul (sh ! P row) (sh ! P x) u T]"
    using el rx by (simp_all add: elim_row_def u_def P Let_def)
  have sz: "length wrk = L" "map length sh = lens" using inv by (simp_all add: solver_inv_def)
  note Px = places_ok_len [OF ok sz(2) rx(2)]
  have m: "wmat W wrk' i j =
      (if i = row then wmat W wrk row j + wmat W wrk row x * wmat W wrk x j else wmat W wrk i j)"
    if "i < W" "j < W" for i j
    using wmat_elim_row [of W wrk row x i j u] that rx L sz(1) by (simp add: wrk' u)
  then show "\<And>i j. i < W \<Longrightarrow> j < W \<Longrightarrow> wmat W wrk' i j =
      (if i = row then wmat W wrk row j + wmat W wrk row x * wmat W wrk x j else wmat W wrk i j)" .
  have "solves W (wmat W wrk') (X t) (svec P sh' t)" if "t < T" "t \<in> Q" for t
  proof (rule solves_add [of W "wmat W wrk" "X t" "svec P sh t" x row _ "wmat W wrk row x"])
    show "solves W (wmat W wrk) (X t) (svec P sh t)" using inv that by (simp add: solver_inv_def)
    show "svec P sh' t row = svec P sh t row + wmat W wrk row x * svec P sh t x"
      using svec_addmul [OF ok sz(2) rx(1,1) that(1) Px, of u] by (simp add: sh' u svec_def)
    show "svec P sh' t i = svec P sh t i" if "i < W" "i \<noteq> row" for i
      using svec_addmul [OF ok sz(2) rx(1) that(1) \<open>t < T\<close> Px, of u] that by (simp add: sh')
  qed (use m rx in auto)
  moreover have "length wrk' = L"
    using length_elim_row_wrk [of W wrk row x u] L sz(1) rx by (simp add: wrk')
  moreover have "map length sh' = lens"
    unfolding sh' by (rule lens_addmul [OF ok sz(2) rx(1) Px])
  moreover have "sh' ! k = sh0 ! k" if "k \<notin> P ` {..<W}" for k
  proof -
    have "k \<noteq> P row" using that rx by auto
    then show ?thesis using inv that by (simp add: sh' solver_inv_def)
  qed
  ultimately show "solver_inv Q W P T lens L X sh0 (wrk', sh')" by (simp add: solver_inv_def)
qed

lemma solver_inv_norm_row:
  assumes ok: "places_ok W P T lens" and L: "W * W + W \<le> L"
    and P: "\<And>i. i < W \<Longrightarrow> P i = shard_at dst c (V0 + i)"
    and inv: "solver_inv Q W P T lens L X sh0 (wrk, sh)" and x: "x < W"
    and z: "\<And>i j. x \<le> i \<Longrightarrow> i < W \<Longrightarrow> j < x \<Longrightarrow> wmat W wrk i j = 0"
    and no: "norm_row dst V0 W T c x u (wrk, sh) = (wrk', sh')"
  shows "solver_inv Q W P T lens L X sh0 (wrk', sh')"
    and "\<And>i j. i < W \<Longrightarrow> j < W \<Longrightarrow> wmat W wrk' i j =
      (if i = x then GF u * wmat W wrk x j else wmat W wrk i j)"
proof -
  have wrk': "wrk' = at_off (x * W + x) (\<lambda>s. mul s s u W) wrk"
    and sh': "sh' = sh[P x := mul (sh ! P x) (sh ! P x) u T]"
    using no x by (simp_all add: norm_row_def P Let_def)
  have sz: "length wrk = L" "map length sh = lens" using inv by (simp_all add: solver_inv_def)
  note Px = places_ok_len [OF ok sz(2) x]
  have m: "wmat W wrk' i j = (if i = x then GF u * wmat W wrk x j else wmat W wrk i j)"
    if "i < W" "j < W" for i j
    unfolding wrk' using that x L sz(1) z by (intro wmat_norm_row) auto
  then show "\<And>i j. i < W \<Longrightarrow> j < W \<Longrightarrow> wmat W wrk' i j =
      (if i = x then GF u * wmat W wrk x j else wmat W wrk i j)" .
  have "solves W (wmat W wrk') (X t) (svec P sh' t)" if "t < T" "t \<in> Q" for t
  proof (rule solves_scale [of W "wmat W wrk" "X t" "svec P sh t" _ x "GF u"])
    show "solves W (wmat W wrk) (X t) (svec P sh t)" using inv that by (simp add: solver_inv_def)
    show "svec P sh' t x = GF u * svec P sh t x"
      using svec_mul [OF ok sz(2) x x that(1), of u] by (simp add: sh')
    show "svec P sh' t i = svec P sh t i" if "i < W" "i \<noteq> x" for i
      using svec_mul [OF ok sz(2) x that(1) \<open>t < T\<close>, of u] that by (simp add: sh')
  qed (use m x in auto)
  moreover have "length wrk' = L"
    using length_norm_row_wrk [of W wrk x u] L sz(1) x by (simp add: wrk')
  moreover have "map length sh' = lens"
    unfolding sh' using sz(2) Px x ok by (intro lens_update) (auto simp: places_ok_def)
  moreover have "sh' ! k = sh0 ! k" if "k \<notin> P ` {..<W}" for k
  proof -
    have "k \<noteq> P x" using that x by auto
    then show ?thesis using inv that by (simp add: sh' solver_inv_def)
  qed
  ultimately show "solver_inv Q W P T lens L X sh0 (wrk', sh')" by (simp add: solver_inv_def)
qed


lemma elim_rows:
  assumes ok: "places_ok W P T lens" and L: "W * W + W \<le> L"
    and P: "\<And>i. i < W \<Longrightarrow> P i = shard_at dst c (V0 + i)"
    and inv: "solver_inv Q W P T lens L X sh0 (wrk, sh)" and n: "Suc x \<le> n" "n \<le> W"
  shows "case fold (elim_row dst V0 W T c x) [Suc x..<n] (wrk, sh) of (wrk', sh') \<Rightarrow>
      solver_inv Q W P T lens L X sh0 (wrk', sh') \<and>
      (\<forall>i<W. \<forall>j<W. wmat W wrk' i j =
         (if x < i \<and> i < n then wmat W wrk i j + wmat W wrk i x * wmat W wrk x j else wmat W wrk i j))"
  using n
proof (induction n rule: dec_induct)
  case base
  then show ?case using inv by auto
next
  case (step n)
  obtain w1 s1 where f: "fold (elim_row dst V0 W T c x) [Suc x..<n] (wrk, sh) = (w1, s1)" by fastforce
  obtain w2 s2 where e: "elim_row dst V0 W T c x n (w1, s1) = (w2, s2)" by fastforce
  have IH: "solver_inv Q W P T lens L X sh0 (w1, s1)"
    "i < W \<Longrightarrow> j < W \<Longrightarrow> wmat W w1 i j =
       (if x < i \<and> i < n then wmat W wrk i j + wmat W wrk i x * wmat W wrk x j else wmat W wrk i j)" for i j
    using step.IH step.prems f by auto
  have nx: "n < W" "x < W" "n \<noteq> x" using step by auto
  note r = solver_inv_elim_row [OF ok L P IH(1) nx e]
  have "fold (elim_row dst V0 W T c x) [Suc x..<Suc n] (wrk, sh) = (w2, s2)"
    using step.hyps by (simp add: f e)
  then show ?case
    using r nx step.hyps by (auto simp: IH(2) less_Suc_eq)
qed

definition unit_upper :: "nat \<Rightarrow> nat \<Rightarrow> (nat \<Rightarrow> nat \<Rightarrow> gfe) \<Rightarrow> bool" where
  "unit_upper x W A \<longleftrightarrow> (\<forall>i<x. A i i = 1) \<and> (\<forall>i<W. \<forall>j<x. j < i \<longrightarrow> A i j = 0)"

text \<open>One pass of the forward loop: the pivot is not zero, and the eliminated part grows.\<close>

lemma forward_pass:
  assumes ok: "places_ok W P T lens" and L: "W * W + W \<le> L"
    and P: "\<And>i. i < W \<Longrightarrow> P i = shard_at dst c (V0 + i)"
    and inv: "solver_inv Q W P T lens L X sh0 (wrk, sh)" and x: "x < W"
    and nodes: "cauchy_nodes W r q" and ca: "cauchy_from x W r q (wmat W wrk)"
    and up: "unit_upper x W (wmat W wrk)"
    and f: "fold (elim_row dst V0 W T c x) [x + 1..<W]
              (norm_row dst V0 W T c x (gf_inverse (wrk ! (x * W + x))) (wrk, sh)) = (wrk', sh')"
  shows "wrk ! (x * W + x) \<noteq> 0" "solver_inv Q W P T lens L X sh0 (wrk', sh')"
    "cauchy_from (Suc x) W r q (wmat W wrk')" "unit_upper (Suc x) W (wmat W wrk')"
proof -
  define a where "a = wmat W wrk x x"
  have a: "a \<noteq> 0" "GF (gf_inverse (wrk ! (x * W + x))) = inverse a"
    using cauchy_pivot [OF ca nodes x] by (simp_all add: a_def wmat_def GF_simps)
  then show "wrk ! (x * W + x) \<noteq> 0" by (simp add: a_def wmat_def GF_simps)
  obtain w1 s1 where n: "norm_row dst V0 W T c x (gf_inverse (wrk ! (x * W + x))) (wrk, sh) = (w1, s1)"
    by fastforce
  have z: "wmat W wrk i j = 0" if "x \<le> i" "i < W" "j < x" for i j
    using up that by (simp add: unit_upper_def)
  note r = solver_inv_norm_row [OF ok L P inv x z n, unfolded a]
  have e: "solver_inv Q W P T lens L X sh0 (wrk', sh')"
    "i < W \<Longrightarrow> j < W \<Longrightarrow> wmat W wrk' i j =
       (if x < i then wmat W w1 i j + wmat W w1 i x * wmat W w1 x j else wmat W w1 i j)" for i j
    using elim_rows [OF ok L P r(1), of x W] x f [unfolded n] by auto
  then show "solver_inv Q W P T lens L X sh0 (wrk', sh')" by simp
  have m: "wmat W wrk' i j =
      (if x < i then wmat W wrk i j - wmat W wrk i x * (inverse a * wmat W wrk x j)
       else if i = x then inverse a * wmat W wrk x j else wmat W wrk i j)"
    if "i < W" "j < W" for i j
    using e(2) r(2) that x by (simp add: gfe_minus)
  show "cauchy_from (Suc x) W r q (wmat W wrk')"
    using m by (intro cauchy_step [OF ca nodes x]) (auto simp: a_def)
  show "unit_upper (Suc x) W (wmat W wrk')"
    unfolding unit_upper_def
  proof (intro conjI allI impI)
    fix i assume "i < Suc x"
    then show "wmat W wrk' i i = 1"
      using m [of i i] x up a by (cases "i = x") (auto simp: unit_upper_def a_def)
  next
    fix i j assume "i < W" "j < Suc x" "j < i"
    then show "wmat W wrk' i j = 0"
      using m [of i j] x up a by (cases "j = x") (auto simp: unit_upper_def a_def)
  qed
qed

lemma forward_elim_ok:
  assumes ok: "places_ok W P T lens" and L: "W * W + W \<le> L"
    and P: "\<And>i. i < W \<Longrightarrow> P i = shard_at dst c (V0 + i)" and nodes: "cauchy_nodes W r q"
    and "solver_inv Q W P T lens L X sh0 mem" "x \<le> W" "cauchy_from x W r q (wmat W (fst mem))"
    and "unit_upper x W (wmat W (fst mem))"
  shows "\<exists>mem'. forward_elim dst V0 W T c [x..<W] mem = (Some mem', mem') \<and>
     solver_inv Q W P T lens L X sh0 mem' \<and> unit_upper W W (wmat W (fst mem'))"
  using assms(5-)
proof (induction "W - x" arbitrary: x mem)
  case 0
  then show ?case by auto
next
  case (Suc k)
  then have x: "x < W" by simp
  obtain wrk sh where mem: "mem = (wrk, sh)" by fastforce
  obtain wrk' sh' where f: "fold (elim_row dst V0 W T c x) [x + 1..<W]
      (norm_row dst V0 W T c x (gf_inverse (wrk ! (x * W + x))) (wrk, sh)) = (wrk', sh')" by fastforce
  note p = forward_pass [OF ok L P Suc.prems(1) [unfolded mem] x nodes
      Suc.prems(3) [unfolded mem fst_conv] Suc.prems(4) [unfolded mem fst_conv] f]
  have "forward_elim dst V0 W T c [x..<W] mem = forward_elim dst V0 W T c [Suc x..<W] (wrk', sh')"
    using p(1) f x by (simp add: mem upt_conv_Cons)
  then show ?case
    using Suc.hyps(1) [of "Suc x" "(wrk', sh')"] Suc.hyps(2) p x by auto
qed


subsection \<open>Back substitution\<close>

text \<open>The matrix the right-hand side corresponds to once the columns above \<open>x\<close>, and the first
  \<open>n\<close> entries of column \<open>x\<close>, have been substituted.\<close>

definition back_mat :: "nat \<Rightarrow> nat \<Rightarrow> (nat \<Rightarrow> nat \<Rightarrow> gfe) \<Rightarrow> nat \<Rightarrow> nat \<Rightarrow> gfe" where
  "back_mat x n A i j = (if i < j \<and> (x < j \<or> j = x \<and> i < n) then 0 else A i j)"

definition back_inv :: "nat set \<Rightarrow> nat \<Rightarrow> (nat \<Rightarrow> nat) \<Rightarrow> nat \<Rightarrow> nat list \<Rightarrow> (nat \<Rightarrow> nat \<Rightarrow> gfe) \<Rightarrow> u8 list list \<Rightarrow>
    (nat \<Rightarrow> nat \<Rightarrow> gfe) \<Rightarrow> u8 list list \<Rightarrow> bool" where
  "back_inv Q W P T lens X sh0 A sh \<longleftrightarrow> map length sh = lens \<and>
     (\<forall>t<T. t \<in> Q \<longrightarrow> solves W A (X t) (svec P sh t)) \<and> (\<forall>k. k \<notin> P ` {..<W} \<longrightarrow> sh ! k = sh0 ! k)"

lemma back_step:
  assumes ok: "places_ok W P T lens" and up: "unit_upper W W A" and u: "GF u = A row x"
    and inv: "back_inv Q W P T lens X sh0 (back_mat x row A) sh" and rx: "row < x" "x < W"
  shows "back_inv Q W P T lens X sh0 (back_mat x (Suc row) A)
      (sh[P row := addmul (sh ! P row) (sh ! P x) u T])"
proof -
  let ?sh = "sh[P row := addmul (sh ! P row) (sh ! P x) u T]"
  have sz: "map length sh = lens" and rw: "row < W" "row \<noteq> x" using inv rx by (auto simp: back_inv_def)
  note Px = places_ok_len [OF ok sz rx(2)]
  have unit: "back_mat x row A x j = (if j = x then 1 else 0)" if "j < W" for j
    using up that rx by (auto simp: back_mat_def unit_upper_def)
  have neg: "a + a = (0 :: gfe)" for a by (simp flip: gfe_minus)
  have "solves W (back_mat x (Suc row) A) (X t) (svec P ?sh t)" if t: "t < T" and tq: "t \<in> Q" for t
  proof (rule solves_add [of W "back_mat x row A" "X t" "svec P sh t" x row _ "A row x"])
    show "solves W (back_mat x row A) (X t) (svec P sh t)" using inv t tq by (simp add: back_inv_def)
    show "back_mat x (Suc row) A row j = back_mat x row A row j + A row x * back_mat x row A x j"
      if "j < W" for j
      using rx neg unfolding unit [OF that] by (auto simp: back_mat_def)
    show "back_mat x (Suc row) A i j = back_mat x row A i j" if "i \<noteq> row" for i j
      using that by (auto simp: back_mat_def less_Suc_eq)
    show "svec P ?sh t row = svec P sh t row + A row x * svec P sh t x"
      using svec_addmul [OF ok sz rw(1,1) t Px, of u] by (simp add: u svec_def)
    show "svec P ?sh t i = svec P sh t i" if "i < W" "i \<noteq> row" for i
      using svec_addmul [OF ok sz rw(1) that(1) t Px, of u] that by simp
  qed (use rx rw in auto)
  moreover have "map length ?sh = lens" by (rule lens_addmul [OF ok sz rw(1) Px])
  moreover have "?sh ! k = sh0 ! k" if "k \<notin> P ` {..<W}" for k
  proof -
    have "k \<noteq> P row" using that rw by auto
    then show ?thesis using inv that by (simp add: back_inv_def)
  qed
  ultimately show ?thesis by (simp add: back_inv_def)
qed

lemma back_column:
  assumes ok: "places_ok W P T lens" and up: "unit_upper W W (wmat W wrk)"
    and P: "\<And>i. i < W \<Longrightarrow> P i = shard_at dst c (V0 + i)"
    and inv: "back_inv Q W P T lens X sh0 (back_mat x 0 (wmat W wrk)) sh" and x: "x < W" "n \<le> x"
  shows "back_inv Q W P T lens X sh0 (back_mat x n (wmat W wrk))
     (fold (\<lambda>row sh. let u = wrk ! (row * W + x); p = shard_at dst c (V0 + row)
         in sh[p := addmul (sh ! p) (sh ! shard_at dst c (V0 + x)) u T]) [0..<n] sh)"
  using x(2)
proof (induction n)
  case 0
  then show ?case using inv by simp
next
  case (Suc n)
  let ?sh = "fold (\<lambda>row sh. let u = wrk ! (row * W + x); p = shard_at dst c (V0 + row)
         in sh[p := addmul (sh ! p) (sh ! shard_at dst c (V0 + x)) u T]) [0..<n] sh"
  have "back_inv Q W P T lens X sh0 (back_mat x n (wmat W wrk)) ?sh" using Suc by simp
  moreover have "GF (wrk ! (n * W + x)) = wmat W wrk n x" by (simp add: wmat_def)
  ultimately show ?case
    using back_step [OF ok up, of "wrk ! (n * W + x)" n x Q X sh0 ?sh] Suc.prems x(1) P [of n] P [of x]
    by (simp add: Let_def)
qed

lemma back_mat_next: "back_mat (Suc x) (Suc x) A = back_mat x 0 A"
  by (intro ext) (auto simp: back_mat_def)

lemma back_subst_ok:
  assumes ok: "places_ok W P T lens" and up: "unit_upper W W (wmat W wrk)"
    and P: "\<And>i. i < W \<Longrightarrow> P i = shard_at dst c (V0 + i)"
    and inv: "solver_inv Q W P T lens L X sh0 (wrk, sh)"
  defines "out \<equiv> back_subst dst V0 W T c (wrk, sh)"
  shows "map length out = lens" "\<And>k. k \<notin> P ` {..<W} \<Longrightarrow> out ! k = sh0 ! k"
    "\<And>i t. i < W \<Longrightarrow> t < T \<Longrightarrow> t \<in> Q \<Longrightarrow> GF (out ! P i ! t) = X t i"
proof -
  let ?col = "\<lambda>x sh. fold (\<lambda>row sh. let u = wrk ! (row * W + x); p = shard_at dst c (V0 + row)
         in sh[p := addmul (sh ! p) (sh ! shard_at dst c (V0 + x)) u T]) [0..<x] sh"
  have step: "back_inv Q W P T lens X sh0 (back_mat 0 0 (wmat W wrk)) (fold ?col (rev [0..<n]) sh1)"
    if "back_inv Q W P T lens X sh0 (back_mat n n (wmat W wrk)) sh1" "n \<le> W" for n sh1
    using that
  proof (induction n arbitrary: sh1)
    case 0
    then show ?case by simp
  next
    case (Suc n)
    from Suc.prems have "back_inv Q W P T lens X sh0 (back_mat n 0 (wmat W wrk)) sh1"
      by (simp add: back_mat_next)
    from back_column [OF ok up P this, of n] Suc.prems Suc.IH show ?case by simp
  qed
  have W: "back_mat W W A i j = A i j" if "j < W" for A i j using that by (simp add: back_mat_def)
  have "back_inv Q W P T lens X sh0 (back_mat W W (wmat W wrk)) sh"
    using inv by (auto simp: solver_inv_def back_inv_def solves_def W)
  from step [OF this] have fin: "back_inv Q W P T lens X sh0 (back_mat 0 0 (wmat W wrk)) out"
    by (simp add: out_def back_subst_def)
  then show "map length out = lens" "\<And>k. k \<notin> P ` {..<W} \<Longrightarrow> out ! k = sh0 ! k"
    by (simp_all add: back_inv_def)
  fix i t assume it: "i < W" "t < T" "t \<in> Q"
  have "svec P out t i = X t i"
  proof (rule solves_identity)
    show "solves W (back_mat 0 0 (wmat W wrk)) (X t) (svec P out t)"
      using fin it by (simp add: back_inv_def)
    show "back_mat 0 0 (wmat W wrk) i j = (if i = j then 1 else 0)" if "j < W" for j
      using up it that by (auto simp: back_mat_def unit_upper_def)
  qed (rule it(1))
  then show "GF (out ! P i ! t) = X t i" by (simp add: svec_def)
qed


subsection \<open>Setting the system up\<close>

lemma copy_submatrix_ok:
  assumes "W * W + W \<le> length wrk" "W = K - V0"
  shows "length (copy_submatrix src V0 K c d wrk) = length wrk"
    "\<And>i j. i < W \<Longrightarrow> j < W \<Longrightarrow>
       wmat W (copy_submatrix src V0 K c d wrk) i j = GF (src ! (d ! i * K + c ! (V0 + j)))"
  using fold_matrix [of W W wrk W "\<lambda>i j. src ! (d ! i * K + c ! (V0 + j))"] assms
  by (auto simp: copy_submatrix_def wmat_def Let_def)

text \<open>One erased shard after the survivors below \<open>n\<close> have been added to it.\<close>

lemma fold_survivors_row:
  assumes ok: "places_ok W P T lens" and sz: "map length sh = lens" and i: "i < W" and n: "n \<le> V0"
    and Q: "\<And>row. row < V0 \<Longrightarrow> Q row < length sh \<and> T \<le> length (sh ! Q row) \<and> Q row \<notin> P ` {..<W}"
  shows "let sh' = fold (\<lambda>row sh. sh[P i := addmul (sh ! P i) (sh ! Q row) (u row) T]) [0..<n] sh in
     map length sh' = lens \<and> (\<forall>k. k \<noteq> P i \<longrightarrow> sh' ! k = sh ! k) \<and>
     (\<forall>t<T. svec P sh' t i = svec P sh t i + (\<Sum>row<n. GF (u row) * GF (sh ! Q row ! t)))"
  using n
proof (induction n)
  case 0
  then show ?case using sz by simp
next
  case (Suc n)
  define s where "s = fold (\<lambda>row sh. sh[P i := addmul (sh ! P i) (sh ! Q row) (u row) T]) [0..<n] sh"
  have IH: "map length s = lens" "\<And>k. k \<noteq> P i \<Longrightarrow> s ! k = sh ! k"
    "\<And>t. t < T \<Longrightarrow> svec P s t i = svec P sh t i + (\<Sum>row<n. GF (u row) * GF (sh ! Q row ! t))"
    using Suc by (auto simp: s_def Let_def)
  have q1: "Q n \<noteq> P i" using Q [of n] Suc.prems i by auto
  have q: "Q n < length s" "T \<le> length (s ! Q n)" "s ! Q n = sh ! Q n"
    using Q [of n] Suc.prems IH(2) [OF q1] lens_length [OF IH(1)] lens_length [OF sz] by auto
  let ?s = "s[P i := addmul (s ! P i) (s ! Q n) (u n) T]"
  have "map length ?s = lens" by (rule lens_addmul [OF ok IH(1) i q(1,2)])
  moreover have "svec P ?s t i = svec P sh t i + (\<Sum>row<Suc n. GF (u row) * GF (sh ! Q row ! t))"
    if "t < T" for t
    using svec_addmul [OF ok IH(1) i i that q(1,2), of "u n"] IH(3) [OF that] q(3) by (simp add: add.assoc)
  moreover have "?s ! k = sh ! k" if "k \<noteq> P i" for k using IH(2) that by simp
  ultimately show ?case by (simp add: s_def Let_def)
qed

lemma fold_survivors_ok:
  fixes src :: "u8 list" and d :: "nat list"
  assumes ok: "places_ok W P T lens" and sz: "map length sh = lens" and K: "K = V0 + W"
    and P: "\<And>i. i < W \<Longrightarrow> P i = shard_at dst c (V0 + i)"
    and Q: "\<And>row. row < V0 \<Longrightarrow> Q row = shard_at dst c row \<and> Q row < length sh \<and>
              T \<le> length (sh ! Q row) \<and> Q row \<notin> P ` {..<W}"
  defines "out \<equiv> fold_survivors src dst V0 K T c d sh"
  shows "map length out = lens" "\<And>k. k \<notin> P ` {..<W} \<Longrightarrow> out ! k = sh ! k"
    "\<And>i t. i < W \<Longrightarrow> t < T \<Longrightarrow> svec P out t i = svec P sh t i +
       (\<Sum>row<V0. GF (src ! (d ! i * K + c ! row)) * GF (sh ! Q row ! t))"
proof -
  define u where "u i row = src ! (d ! i * K + c ! row)" for i row
  define F where "F v sh = fold (\<lambda>row sh.
         let u = src ! (d ! (v - V0) * K + c ! row); p = shard_at dst c v
         in sh[p := addmul (sh ! p) (sh ! shard_at dst c row) u T]) [0..<V0] sh" for v sh
  have F: "F (V0 + i) sh = fold (\<lambda>row sh. sh[P i := addmul (sh ! P i) (sh ! Q row) (u i row) T]) [0..<V0] sh"
    if "i < W" for i sh
    unfolding F_def using that P Q by (intro fold_cong) (auto simp: u_def Let_def)
  have main: "let s = fold F [V0..<V0 + n] sh in map length s = lens \<and>
     (\<forall>k. k \<notin> P ` {..<n} \<longrightarrow> s ! k = sh ! k) \<and>
     (\<forall>i<n. \<forall>t<T. svec P s t i = svec P sh t i + (\<Sum>row<V0. GF (u i row) * GF (sh ! Q row ! t)))"
    if "n \<le> W" for n
    using that
  proof (induction n)
    case 0
    then show ?case using sz by simp
  next
    case (Suc n)
    define s where "s = fold F [V0..<V0 + n] sh"
    have IH: "map length s = lens" "\<And>k. k \<notin> P ` {..<n} \<Longrightarrow> s ! k = sh ! k"
      "\<And>i t. i < n \<Longrightarrow> t < T \<Longrightarrow> svec P s t i = svec P sh t i + (\<Sum>row<V0. GF (u i row) * GF (sh ! Q row ! t))"
      using Suc by (auto simp: s_def Let_def)
    have n: "n < W" using Suc.prems by simp
    have Qs: "Q row < length s \<and> T \<le> length (s ! Q row) \<and> Q row \<notin> P ` {..<W}" "s ! Q row = sh ! Q row"
      if "row < V0" for row
    proof -
      have "Q row \<notin> P ` {..<n}" using Q [OF that] n by auto
      then show "s ! Q row = sh ! Q row" by (rule IH(2))
      moreover have "Q row < length sh \<and> T \<le> length (sh ! Q row) \<and> Q row \<notin> P ` {..<W}"
        using Q [OF that] by blast
      ultimately show "Q row < length s \<and> T \<le> length (s ! Q row) \<and> Q row \<notin> P ` {..<W}"
        using lens_length [OF IH(1)] lens_length [OF sz] by simp
    qed
    have Pn: "P i \<noteq> P n" if "i < n" for i
      using ok that n by (auto simp: places_ok_def inj_on_def)
    have sn: "svec P s t n = svec P sh t n" for t
    proof -
      have "P n \<notin> P ` {..<n}" using Pn by (metis (no_types, lifting) imageE lessThan_iff)
      from IH(2) [OF this] show ?thesis by (simp add: svec_def)
    qed
    have r: "map length (F (V0 + n) s) = lens" "\<And>k. k \<noteq> P n \<Longrightarrow> F (V0 + n) s ! k = s ! k"
      "\<And>t. t < T \<Longrightarrow> svec P (F (V0 + n) s) t n = svec P s t n + (\<Sum>row<V0. GF (u n row) * GF (s ! Q row ! t))"
      using fold_survivors_row [where u = "u n", OF ok IH(1) n le_refl Qs(1)] unfolding F [OF n]
      by (auto simp: Let_def)
    have "svec P (F (V0 + n) s) t i = svec P sh t i + (\<Sum>row<V0. GF (u i row) * GF (sh ! Q row ! t))"
      if "i < Suc n" "t < T" for i t
    proof (cases "i = n")
      case True
      then show ?thesis using r(3) [OF that(2)] sn Qs(2) by simp
    next
      case False
      then have "svec P (F (V0 + n) s) t i = svec P s t i"
        using that Pn r(2) by (simp add: svec_def)
      then show ?thesis using False that IH(3) by simp
    qed
    moreover have "F (V0 + n) s ! k = sh ! k" if "k \<notin> P ` {..<Suc n}" for k
      using that r(2) IH(2) by (simp add: lessThan_Suc)
    ultimately show ?case using r(1) by (simp add: s_def Let_def)
  qed
  have "out = fold F [V0..<V0 + W] sh" by (simp add: out_def fold_survivors_def F_def [abs_def] K)
  then show "map length out = lens" "\<And>k. k \<notin> P ` {..<W} \<Longrightarrow> out ! k = sh ! k"
    "\<And>i t. i < W \<Longrightarrow> t < T \<Longrightarrow> svec P out t i = svec P sh t i +
       (\<Sum>row<V0. GF (src ! (d ! i * K + c ! row)) * GF (sh ! Q row ! t))"
    using main [of W] by (auto simp: Let_def u_def)
qed


subsection \<open>The parity matrix is a Cauchy matrix\<close>

definition node :: "nat \<Rightarrow> gfe" where
  "node k = GF (of_nat k)"

lemma node_inj: "a < 256 \<Longrightarrow> b < 256 \<Longrightarrow> node a = node b \<longleftrightarrow> a = b"
  by (auto simp: node_def word_unat_eq_iff unat_of_nat)

lemma node_xor: "node (a XOR b) = node a + node b"
  by (simp add: node_def of_nat_xor_eq GF_xor)

lemma xor_less_256: "a < 256 \<Longrightarrow> b < 256 \<Longrightarrow> a XOR b < (256::nat)"
proof -
  assume "a < 256" "b < 256"
  then have "take_bit 8 a = a" "take_bit 8 b = b" by (simp_all add: take_bit_nat_eq_self_iff)
  then have "take_bit 8 (a XOR b) = a XOR b" by (simp only: take_bit_xor)
  with take_bit_nat_less_exp [of 8 "a XOR b"] show ?thesis by simp
qed

lemma reed_solomon_newD:
  assumes "reed_solomon_new a b = Some rs"
  shows "a = int (data_shards rs)" "b = int (parity_shards rs)" "0 < data_shards rs" "0 < parity_shards rs"
    "shards_total rs = data_shards rs + parity_shards rs" "shards_total rs \<le> 128"
    "parity rs = fold (parity_row (data_shards rs) (parity_shards rs)) [0..<parity_shards rs]
       (replicate (DATA_SHARDS_MAX * DATA_SHARDS_MAX) 0)"
  using assms by (auto simp: reed_solomon_new_def DATA_SHARDS_MAX_def nat_add_distrib split: if_splits)

lemma parity_nth:
  assumes "reed_solomon_new a b = Some rs" "p < parity_shards rs" "i < data_shards rs"
  shows "GF (parity rs ! (p * data_shards rs + i)) = inverse (node p - node (parity_shards rs + i))"
proof -
  let ?ds = "data_shards rs" and ?ps = "parity_shards rs"
  note D = reed_solomon_newD [OF assms(1)]
  have "?ps * ?ds \<le> 128 * 128" using D by (intro mult_le_mono) auto
  then have sz: "?ps * ?ds \<le> length (replicate (DATA_SHARDS_MAX * DATA_SHARDS_MAX) (0::u8))"
    by (simp add: DATA_SHARDS_MAX_def)
  from D(7) have "parity rs ! (p * ?ds + i) = inverse_tab gf_tab ! ((?ps + i) XOR p)"
    using fold_matrix [of ?ps ?ds "replicate (DATA_SHARDS_MAX * DATA_SHARDS_MAX) (0::u8)" ?ps
        "\<lambda>j i. inverse_tab gf_tab ! ((?ps + i) XOR j)"] sz assms(2,3)
    by (simp add: parity_row_def [abs_def] Let_def)
  also have "\<dots> = gf_inverse (of_nat ((?ps + i) XOR p))"
    using xor_less_256 [of "?ps + i" p] D assms(2,3) by (simp add: gf_inverse_def unat_of_nat)
  finally show ?thesis
    by (simp add: GF_inverse gfe_minus add.commute flip: node_def node_xor)
      (simp add: node_xor add.commute)
qed

text \<open>All that the codec relies on: the shape, and that the parity matrix is a Cauchy matrix with scaled
  rows and columns.\<close>

definition cauchy_codec :: "reed_solomon \<Rightarrow> bool" where
  "cauchy_codec rs \<longleftrightarrow> 0 < data_shards rs \<and> 0 < parity_shards rs \<and>
     shards_total rs = data_shards rs + parity_shards rs \<and> shards_total rs \<le> 128 \<and>
     (\<exists>x y u v. inj_on x {..<parity_shards rs} \<and> inj_on y {..<data_shards rs} \<and>
        (\<forall>p<parity_shards rs. \<forall>k<data_shards rs. x p \<noteq> y k \<and> u p \<noteq> 0 \<and> v k \<noteq> 0 \<and>
           GF (parity rs ! (p * data_shards rs + k)) = u p * v k / (x p - y k)))"

lemma codecD:
  assumes "cauchy_codec rs"
  shows "0 < data_shards rs" "0 < parity_shards rs"
    "shards_total rs = data_shards rs + parity_shards rs" "shards_total rs \<le> 128"
  using assms by (simp_all add: cauchy_codec_def)

lemma codec_new:
  assumes "reed_solomon_new a b = Some rs"
  shows "cauchy_codec rs"
proof -
  note D = reed_solomon_newD [OF assms]
  have "inj_on node {..<parity_shards rs}" "inj_on (\<lambda>k. node (parity_shards rs + k)) {..<data_shards rs}"
    using D by (auto simp: inj_on_def node_inj)
  moreover have "node p \<noteq> node (parity_shards rs + k)" if "p < parity_shards rs" "k < data_shards rs" for p k
    using that D by (simp add: node_inj)
  moreover have "GF (parity rs ! (p * data_shards rs + k)) = 1 * 1 / (node p - node (parity_shards rs + k))"
    if "p < parity_shards rs" "k < data_shards rs" for p k
    using parity_nth [OF assms that] by (simp add: divide_inverse)
  ultimately have "\<exists>x y u v. inj_on x {..<parity_shards rs} \<and> inj_on y {..<data_shards rs} \<and>
        (\<forall>p<parity_shards rs. \<forall>k<data_shards rs. x p \<noteq> y k \<and> u p \<noteq> 0 \<and> v k \<noteq> 0 \<and>
           GF (parity rs ! (p * data_shards rs + k)) = u p * v k / (x p - y k))"
    by - (rule exI [of _ node], rule exI [of _ "\<lambda>k. node (parity_shards rs + k)"], rule exI [of _ "\<lambda>_. 1"],
      rule exI [of _ "\<lambda>_. 1"], simp)
  then show ?thesis using D by (simp add: cauchy_codec_def)
qed

subsection \<open>Encoding\<close>

text \<open>A byte column of one group: what the parity shards must hold.\<close>

definition parity_byte :: "reed_solomon \<Rightarrow> u8 list list \<Rightarrow> nat \<Rightarrow> nat \<Rightarrow> nat \<Rightarrow> gfe" where
  "parity_byte rs sh base p t =
     (\<Sum>i<data_shards rs. GF (parity rs ! (p * data_shards rs + i)) * GF (sh ! (base + i) ! t))"

lemma code_some_shards_ok:
  fixes m :: "u8 list"
  assumes "\<forall>s\<in>set sh. bs \<le> length s" "ibase + ds \<le> obase" "obase + count \<le> length sh" "0 < ds"
  defines "out \<equiv> code_some_shards m ibase obase ds count bs sh"
  shows "map length out = map length sh" "\<And>k. k < obase \<or> obase + count \<le> k \<Longrightarrow> out ! k = sh ! k"
    "\<And>row t. row < count \<Longrightarrow> t < bs \<Longrightarrow>
       GF (out ! (obase + row) ! t) = (\<Sum>c<ds. GF (m ! (row * ds + c)) * GF (sh ! (ibase + c) ! t))"
proof -
  let ?step = "code_shard m ibase obase ds bs"
  have inner: "let o' = fold (?step c) [0..<n] o1 in map length o' = map length sh \<and>
      (\<forall>k. k < obase \<or> obase + n \<le> k \<longrightarrow> o' ! k = o1 ! k) \<and>
      (\<forall>row<n. \<forall>t<bs. GF (o' ! (obase + row) ! t) =
         (if c = 0 then 0 else GF (o1 ! (obase + row) ! t)) + GF (m ! (row * ds + c)) * GF (sh ! (ibase + c) ! t))"
    if o1: "map length o1 = map length sh" "o1 ! (ibase + c) = sh ! (ibase + c)" and c: "c < ds" and n: "n \<le> count"
    for o1 c n
    using n
  proof (induction n)
    case 0
    then show ?case using o1 by simp
  next
    case (Suc n)
    define o2 where "o2 = fold (?step c) [0..<n] o1"
    have IH: "map length o2 = map length sh" "\<And>k. k < obase \<or> obase + n \<le> k \<Longrightarrow> o2 ! k = o1 ! k"
      "\<And>row t. row < n \<Longrightarrow> t < bs \<Longrightarrow> GF (o2 ! (obase + row) ! t) =
         (if c = 0 then 0 else GF (o1 ! (obase + row) ! t)) + GF (m ! (row * ds + c)) * GF (sh ! (ibase + c) ! t)"
      using Suc by (auto simp: o2_def Let_def)
    have len: "length o2 = length sh" using IH(1) by (rule map_eq_imp_length_eq)
    have lb: "bs \<le> length (o2 ! k)" if "k < length sh" for k
      using assms(1) that IH(1) len by (metis nth_map nth_mem)
    have src: "o2 ! (ibase + c) = sh ! (ibase + c)" "o2 ! (obase + n) = o1 ! (obase + n)"
      using IH(2) [of "ibase + c"] IH(2) [of "obase + n"] c assms(2) o1(2) by auto
    define o3 where "o3 = ?step c n o2"
    have bnd: "obase + n < length sh" "ibase + c < length sh" using Suc.prems assms(2,3) c by auto
    have o3: "o3 = o2[obase + n := o3 ! (obase + n)]" "length (o3 ! (obase + n)) = length (sh ! (obase + n))"
      using bnd lb [of "obase + n"] lb [of "ibase + c"] len IH(1)
      by (auto simp: o3_def code_shard_def Let_def) (metis nth_map)+
    have val: "GF (o3 ! (obase + n) ! t) = (if c = 0 then 0 else GF (o1 ! (obase + n) ! t)) +
        GF (m ! (n * ds + c)) * GF (sh ! (ibase + c) ! t)" if "t < bs" for t
      using bnd lb [of "obase + n"] lb [of "ibase + c"] len src that
      by (auto simp: o3_def code_shard_def Let_def nth_mul nth_addmul GF_simps)
    have "map length o3 = map length sh"
      using o3 bnd IH(1) by (metis lens_update nth_map)
    moreover have "o3 ! k = o1 ! k" if "k < obase \<or> obase + Suc n \<le> k" for k
      using that o3(1) IH(2) [of k] by (metis Suc_n_not_le_n add_Suc_right le_add1 leD nth_list_update_neq Suc_leD)
    moreover have "GF (o3 ! (obase + row) ! t) = (if c = 0 then 0 else GF (o1 ! (obase + row) ! t)) +
        GF (m ! (row * ds + c)) * GF (sh ! (ibase + c) ! t)" if "row < Suc n" "t < bs" for row t
    proof (cases "row = n")
      case False
      then have "o3 ! (obase + row) = o2 ! (obase + row)"
        using o3(1) by (metis add_left_cancel nth_list_update_neq)
      then show ?thesis using IH(3) [of row t] False that by simp
    qed (use val that in simp)
    ultimately show ?case by (simp add: o3_def o2_def Let_def)
  qed
  have outer: "let o' = fold (\<lambda>c. fold (?step c) [0..<count]) [0..<n] sh in map length o' = map length sh \<and>
      (\<forall>k. k < obase \<or> obase + count \<le> k \<longrightarrow> o' ! k = sh ! k) \<and>
      (0 < n \<longrightarrow> (\<forall>row<count. \<forall>t<bs. GF (o' ! (obase + row) ! t) =
         (\<Sum>c<n. GF (m ! (row * ds + c)) * GF (sh ! (ibase + c) ! t))))"
    if "n \<le> ds" for n
    using that
  proof (induction n)
    case 0
    then show ?case by simp
  next
    case (Suc n)
    define o1 where "o1 = fold (\<lambda>c. fold (?step c) [0..<count]) [0..<n] sh"
    have o1: "map length o1 = map length sh" "\<And>k. k < obase \<or> obase + count \<le> k \<Longrightarrow> o1 ! k = sh ! k"
      "\<And>row t. 0 < n \<Longrightarrow> row < count \<Longrightarrow> t < bs \<Longrightarrow> GF (o1 ! (obase + row) ! t) =
         (\<Sum>c<n. GF (m ! (row * ds + c)) * GF (sh ! (ibase + c) ! t))"
      using Suc by (auto simp: o1_def Let_def)
    have "o1 ! (ibase + n) = sh ! (ibase + n)" using Suc.prems assms(2) by (intro o1(2)) simp
    from inner [OF o1(1) this, of count] Suc.prems show ?case
      using o1 by (auto simp: o1_def [symmetric] Let_def)
  qed
  show "map length out = map length sh" "\<And>k. k < obase \<or> obase + count \<le> k \<Longrightarrow> out ! k = sh ! k"
    "\<And>row t. row < count \<Longrightarrow> t < bs \<Longrightarrow>
       GF (out ! (obase + row) ! t) = (\<Sum>c<ds. GF (m ! (row * ds + c)) * GF (sh ! (ibase + c) ! t))"
    using outer [of ds] assms(4) by (auto simp: out_def code_some_shards_def Let_def)
qed


lemma round_up_div: "0 < b \<Longrightarrow> (n * b + b - Suc 0) div b = (n::nat)"
proof -
  assume b: "0 < b"
  then have "n * b + b - 1 = (b - 1) + n * b" by simp
  then have "(n * b + b - 1) div b = n + (b - 1) div b" using b by (simp only: div_mult_self1)
  then show ?thesis using b by simp
qed

lemma group_bounds:
  "g < n \<Longrightarrow> i < ds \<Longrightarrow> g * ds + i < n * (ds::nat)"
  using mult_le_mono1 [of "Suc g" n ds] by simp

lemma group_less: "g < g' \<Longrightarrow> i < ds \<Longrightarrow> g * ds + i < g' * (ds::nat)"
  by (rule group_bounds)

lemma encode_ok:
  assumes rs: "cauchy_codec rs" and n: "length sh = n * shards_total rs"
    and len: "\<forall>s\<in>set sh. bs \<le> length s"
  defines "ds \<equiv> data_shards rs" and "ps \<equiv> parity_shards rs"
    and "out \<equiv> reed_solomon_encode rs sh (n * shards_total rs) bs"
  shows "map length out = map length sh" "\<And>k. k < n * ds \<Longrightarrow> out ! k = sh ! k"
    "\<And>g p t. g < n \<Longrightarrow> p < ps \<Longrightarrow> t < bs \<Longrightarrow>
       GF (out ! (n * ds + g * ps + p) ! t) = parity_byte rs sh (g * ds) p t"
proof -
  note D = codecD [OF rs, folded ds_def ps_def]
  let ?step = "\<lambda>g sh. code_some_shards (parity rs) (g * ds) (n * ds + g * ps) ds ps bs sh"
  have inv: "let o' = fold ?step [0..<k] sh in map length o' = map length sh \<and>
      (\<forall>i. i < n * ds \<or> n * ds + k * ps \<le> i \<longrightarrow> o' ! i = sh ! i) \<and>
      (\<forall>g<k. \<forall>p<ps. \<forall>t<bs. GF (o' ! (n * ds + g * ps + p) ! t) = parity_byte rs sh (g * ds) p t)"
    if "k \<le> n" for k
    using that
  proof (induction k)
    case 0
    then show ?case by simp
  next
    case (Suc k)
    define o1 where "o1 = fold ?step [0..<k] sh"
    have o1: "map length o1 = map length sh" "\<And>i. i < n * ds \<or> n * ds + k * ps \<le> i \<Longrightarrow> o1 ! i = sh ! i"
      "\<And>g p t. g < k \<Longrightarrow> p < ps \<Longrightarrow> t < bs \<Longrightarrow>
         GF (o1 ! (n * ds + g * ps + p) ! t) = parity_byte rs sh (g * ds) p t"
      using Suc by (auto simp: o1_def Let_def)
    have "length o1 = length sh" using o1(1) by (rule map_eq_imp_length_eq)
    moreover have "k * ps + ps \<le> n * ps" "k * ds + ds \<le> n * ds"
      using Suc.prems mult_le_mono1 [of "Suc k" n ps] mult_le_mono1 [of "Suc k" n ds] by simp_all
    moreover have "\<forall>s\<in>set o1. bs \<le> length s"
      using len o1(1) by (metis (no_types, lifting) image_iff list.set_map)
    ultimately have pre: "\<forall>s\<in>set o1. bs \<le> length s" "k * ds + ds \<le> n * ds + k * ps"
      "n * ds + k * ps + ps \<le> length o1" "0 < ds"
      using n D by (simp_all add: algebra_simps)
    note r = code_some_shards_ok [where m = "parity rs", OF pre]
    have bk: "o1 ! (k * ds + i) = sh ! (k * ds + i)" if "i < ds" for i
      using group_bounds [of k n i ds] Suc.prems that by (intro o1(2)) simp
    have "GF (?step k o1 ! (n * ds + g * ps + p) ! t) = parity_byte rs sh (g * ds) p t"
      if "g < Suc k" "p < ps" "t < bs" for g p t
    proof (cases "g = k")
      case True
      then show ?thesis using r(3) [OF that(2,3)] bk by (simp add: parity_byte_def ds_def)
    next
      case False
      with that have g: "g < k" by simp
      then have "?step k o1 ! (n * ds + g * ps + p) = o1 ! (n * ds + g * ps + p)"
        using group_bounds [OF g that(2)] by (intro r(2)) simp
      then show ?thesis using o1(3) [OF g that(2,3)] by simp
    qed
    moreover have "?step k o1 ! i = sh ! i" if "i < n * ds \<or> n * ds + Suc k * ps \<le> i" for i
      using that o1(2) [of i] r(2) [of i] by auto
    ultimately show ?case using r(1) o1(1) by (simp add: Let_def o1_def)
  qed
  have "(n * shards_total rs + shards_total rs - 1) div shards_total rs = n"
    using D(1,3) round_up_div by simp
  moreover have "n * shards_total rs div shards_total rs = n" using D(1,3) by simp
  ultimately have "out = fold ?step [0..<n] sh"
    by (simp add: out_def reed_solomon_encode_def Let_def ds_def ps_def)
  then show "map length out = map length sh" "\<And>k. k < n * ds \<Longrightarrow> out ! k = sh ! k"
    "\<And>g p t. g < n \<Longrightarrow> p < ps \<Longrightarrow> t < bs \<Longrightarrow>
       GF (out ! (n * ds + g * ps + p) ! t) = parity_byte rs sh (g * ds) p t"
    using inv [of n] by (auto simp: Let_def)
qed

end
