(* ===== verification/ReedSolomonDecode.thy ===== *)
theory ReedSolomonDecode
  imports ReedSolomonCorrect
begin

text \<open>
  Correctness of the decoder: the choice of columns and rows in \<open>nanors_decode_shards\<close>, the linear
  system that \<open>nanors_invert_mat\<close> is given, and the theorem that \<open>reed_solomon_reconstruct\<close>
  restores every data shard of an encoded block when each group has enough parity left.
\<close>

subsection \<open>Choosing columns and rows\<close>

lemma skip_marked_filter:
  "j \<le> n \<Longrightarrow> j \<le> skip_marked marks n j \<and>
     (if skip_marked marks n j \<ge> n then filter (\<lambda>i. marks ! i = 0) [j..<n] = []
      else filter (\<lambda>i. marks ! i = 0) [j..<n] =
             skip_marked marks n j # filter (\<lambda>i. marks ! i = 0) [Suc (skip_marked marks n j)..<n])"
proof (induction marks n j rule: skip_marked.induct)
  case (1 marks n j)
  show ?case
  proof (cases "j < n \<and> marks ! j \<noteq> 0")
    case True
    then have "skip_marked marks n j = skip_marked marks n (Suc j)" by (simp add: skip_marked.simps [of marks n j])
    moreover have "filter (\<lambda>i. marks ! i = 0) [j..<n] = filter (\<lambda>i. marks ! i = 0) [Suc j..<n]"
      using True by (simp add: upt_conv_Cons [of j n])
    ultimately show ?thesis using "1.IH" True by (auto simp del: filter_empty_conv)
  next
    case False
    then have "skip_marked marks n j = j" by (auto simp: skip_marked.simps [of marks n j])
    then show ?thesis using False "1.prems" by (cases "j < n") (simp_all add: upt_conv_Cons [of j n])
  qed
qed

lemma skip_marked_less:
  assumes "filter (\<lambda>i. marks ! i = 0) [j..<n] = x # xs" "j \<le> n"
  shows "skip_marked marks n j = x" "x < n" "xs = filter (\<lambda>i. marks ! i = 0) [Suc x..<n]"
  using skip_marked_filter [OF assms(2), of marks] assms(1)
  by (auto simp: not_le simp del: filter_empty_conv split: if_splits)

lemma pick_columns_ok:
  "k \<le> length (filter (\<lambda>i. marks ! i = 0) [j..<ds]) \<Longrightarrow> j \<le> ds \<Longrightarrow>
   pick_columns marks ds k j = Some (take k (filter (\<lambda>i. marks ! i = 0) [j..<ds]))"
proof (induction k arbitrary: j)
  case (Suc k)
  then obtain x xs where f: "filter (\<lambda>i. marks ! i = 0) [j..<ds] = x # xs" by (cases "filter (\<lambda>i. marks ! i = 0) [j..<ds]") auto
  note s = skip_marked_less [OF f Suc.prems(2)]
  show ?case using Suc s f by simp
qed simp

lemma pick_rows_ok:
  assumes "length es \<le> length (filter (\<lambda>i. marks ! i = 0) [j..<nr])" "j \<le> nr"
    and "distinct (map (\<lambda>e. the (dat ! e)) es)"
    and "\<And>k. k \<in> set (filter (\<lambda>i. marks ! i = 0) [j..<nr]) \<Longrightarrow> the (dat ! k) \<notin> (\<lambda>e. the (dat ! e)) ` set es"
  shows "\<exists>sh'. pick_rows dat marks ds nr bs es j sh =
      (Some (map (\<lambda>k. k - ds) (take (length es) (filter (\<lambda>i. marks ! i = 0) [j..<nr]))), sh') \<and>
      length sh' = length sh \<and>
      (\<forall>k. k \<notin> (\<lambda>e. the (dat ! e)) ` set es \<longrightarrow> sh' ! k = sh ! k) \<and>
      (\<forall>i<length es. the (dat ! (es ! i)) < length sh \<longrightarrow> sh' ! the (dat ! (es ! i)) =
         take bs (sh ! the (dat ! (filter (\<lambda>i. marks ! i = 0) [j..<nr] ! i))) @ drop bs (sh ! the (dat ! (es ! i))))"
  using assms
proof (induction es arbitrary: j sh)
  case Nil
  then show ?case by simp
next
  case (Cons e es)
  then obtain x xs where f: "filter (\<lambda>i. marks ! i = 0) [j..<nr] = x # xs"
    by (cases "filter (\<lambda>i. marks ! i = 0) [j..<nr]") auto
  note s = skip_marked_less [OF f Cons.prems(2)]
  define sh1 where "sh1 = sh[the (dat ! e) := take bs (sh ! the (dat ! x)) @ drop bs (sh ! the (dat ! e))]"
  have "length es \<le> length (filter (\<lambda>i. marks ! i = 0) [Suc x..<nr])" "Suc x \<le> nr"
    "distinct (map (\<lambda>e. the (dat ! e)) es)"
    using Cons.prems(1,3) f s by auto
  moreover have "the (dat ! k) \<notin> (\<lambda>e. the (dat ! e)) ` set es"
    if "k \<in> set (filter (\<lambda>i. marks ! i = 0) [Suc x..<nr])" for k
    using Cons.prems(4) [of k] that f s(3) by auto
  ultimately obtain sh' where r: "pick_rows dat marks ds nr bs es (Suc x) sh1 =
      (Some (map (\<lambda>k. k - ds) (take (length es) xs)), sh')"
    "length sh' = length sh1" "\<And>k. k \<notin> (\<lambda>e. the (dat ! e)) ` set es \<Longrightarrow> sh' ! k = sh1 ! k"
    "\<And>i. i < length es \<Longrightarrow> the (dat ! (es ! i)) < length sh1 \<Longrightarrow> sh' ! the (dat ! (es ! i)) =
       take bs (sh1 ! the (dat ! (xs ! i))) @ drop bs (sh1 ! the (dat ! (es ! i)))"
    using Cons.IH [of "Suc x" sh1] s(3) by blast
  have e: "the (dat ! e) \<notin> (\<lambda>e. the (dat ! e)) ` set es" using Cons.prems(3) by auto
  have xe: "the (dat ! k) \<noteq> the (dat ! e)" if "k \<in> set (x # xs)" for k
    using Cons.prems(4) [of k] f that by auto
  have fin: "sh' ! the (dat ! ((e # es) ! i)) =
       take bs (sh ! the (dat ! ((x # xs) ! i))) @ drop bs (sh ! the (dat ! ((e # es) ! i)))"
    if i: "i < length (e # es)" and lt: "the (dat ! ((e # es) ! i)) < length sh" for i
  proof (cases i)
    case 0
    then show ?thesis using r(3) [OF e] lt by (simp add: sh1_def)
  next
    case (Suc i')
    then have i': "i' < length es" "i' < length xs" using i Cons.prems(1) f by auto
    then have "the (dat ! (es ! i')) \<noteq> the (dat ! e)"
      using Cons.prems(3) by (auto simp: image_iff) (metis nth_mem)
    moreover have "the (dat ! (xs ! i')) \<noteq> the (dat ! e)" using xe i' by simp
    ultimately show ?thesis
      using r(4) [OF i'(1)] lt Suc by (simp add: sh1_def)
  qed
  have "pick_rows dat marks ds nr bs (e # es) j sh =
      (Some (map (\<lambda>k. k - ds) (take (length (e # es)) (x # xs))), sh')"
    using r(1) s by (simp add: Let_def flip: sh1_def)
  moreover have "length sh' = length sh" using r(2) by (simp add: sh1_def)
  moreover have "sh' ! k = sh ! k" if "k \<notin> (\<lambda>e. the (dat ! e)) ` set (e # es)" for k
    using that r(3) [of k] by (auto simp: sh1_def)
  ultimately show ?case unfolding f using fin by blast
qed

subsection \<open>The linear system of the erased shards\<close>

lemma sum_split_nth:
  assumes "distinct (C @ E)" "set (C @ E) = {..<n::nat}"
  shows "sum f {..<n} = (\<Sum>i<length C. f (C ! i)) + (\<Sum>j<length E. f (E ! j) :: 'a::comm_monoid_add)"
proof -
  have "sum f {..<n} = sum_list (map f (C @ E))"
    using assms by (simp only: sum_list_distinct_conv_sum_set)
  then have "sum f {..<n} = sum_list (map f C) + sum_list (map f E)" by simp
  moreover have "sum_list (map f L) = (\<Sum>i<length L. f (L ! i))" for L
    by (simp add: sum_list_sum_nth atLeast0LessThan)
  ultimately show ?thesis by simp
qed

lemma gfe_cancel: "a + b + a = (b :: gfe)"
proof -
  have "a + a = 0" by (simp flip: gfe_minus)
  then show ?thesis by (simp add: algebra_simps)
qed

lemma nanors_invert_mat_ok:
  fixes X :: "nat \<Rightarrow> nat \<Rightarrow> gfe"
  assumes rs: "cauchy_codec rs"
    and ce: "distinct (C @ E)" "set (C @ E) = {..<data_shards rs}"
    and d: "distinct d" "length d = length E" "\<forall>p\<in>set d. p < parity_shards rs"
    and dst: "\<And>k. k < data_shards rs \<Longrightarrow> dst ! k = Some (dbase + k)"
    and L: "length E * length E + length E \<le> length wrk"
    and sz: "dbase + data_shards rs \<le> length sh" "\<forall>s\<in>set sh. bs \<le> length s"
    and surv: "\<And>k t. k \<in> set C \<Longrightarrow> t < bs \<Longrightarrow> t \<in> Q \<Longrightarrow> GF (sh ! (dbase + k) ! t) = X t k"
    and par: "\<And>i t. i < length E \<Longrightarrow> t < bs \<Longrightarrow> t \<in> Q \<Longrightarrow> GF (sh ! (dbase + E ! i) ! t) =
        (\<Sum>k<data_shards rs. GF (parity rs ! (d ! i * data_shards rs + k)) * X t k)"
  shows "\<exists>wrk' sh'. nanors_invert_mat (parity rs) dst (length C) (data_shards rs) bs (C @ E) d (wrk, sh) =
        (0, wrk', sh') \<and> length wrk' = length wrk \<and> map length sh' = map length sh \<and>
      (\<forall>k. k \<notin> (\<lambda>e. dbase + e) ` set E \<longrightarrow> sh' ! k = sh ! k) \<and>
      (\<forall>e\<in>set E. \<forall>t<bs. t \<in> Q \<longrightarrow> GF (sh' ! (dbase + e) ! t) = X t e)"
proof -
  let ?ds = "data_shards rs" and ?ps = "parity_shards rs"
  define W V0 P where "W = length E" and "V0 = length C" and "P i = dbase + E ! i" for i
  note D = codecD [OF rs]
  have ds: "?ds = V0 + W" using distinct_card [OF ce(1)] ce(2) by (simp add: V0_def W_def)
  have Eb: "E ! i < ?ds" "E ! i \<in> set E" if "i < W" for i
  proof -
    show "E ! i \<in> set E" using that by (simp add: W_def)
    then have "E ! i \<in> set (C @ E)" by simp
    then show "E ! i < ?ds" unfolding ce(2) by simp
  qed
  have Cb: "C ! i < ?ds" "C ! i \<in> set C" if "i < V0" for i
  proof -
    show "C ! i \<in> set C" using that by (simp add: V0_def)
    then have "C ! i \<in> set (C @ E)" by simp
    then show "C ! i < ?ds" unfolding ce(2) by simp
  qed
  have ds_le: "?ds \<le> 128" "?ps + ?ds \<le> 128" using D by simp_all
  have db: "d ! i < ?ps" if "i < W" for i using d that nth_mem [of i d] by (auto simp: W_def)
  have PE: "P ` {..<W} = (\<lambda>e. dbase + e) ` set E"
    unfolding set_conv_nth by (auto simp: P_def W_def)
  have in_sh: "dbase + k < length sh \<and> bs \<le> length (sh ! (dbase + k))" if "k < ?ds" for k
    using sz that by simp
  have "inj_on P {..<W}"
    using ce(1) by (simp add: inj_on_def P_def W_def nth_eq_iff_index_eq)
  then have ok: "places_ok W P bs (map length sh)"
    using in_sh Eb by (simp add: places_ok_def P_def)
  have P: "P i = shard_at dst (C @ E) (V0 + i)" if "i < W" for i
    using dst [of "E ! i"] Eb that by (simp add: shard_at_def P_def V0_def)
  have Q: "dbase + C ! row = shard_at dst (C @ E) row \<and> dbase + C ! row < length sh \<and>
      bs \<le> length (sh ! (dbase + C ! row)) \<and> dbase + C ! row \<notin> P ` {..<W}" if "row < V0" for row
  proof -
    have "C ! row \<notin> set E" using ce(1) Cb(2) [OF that] by auto
    then show ?thesis using dst [of "C ! row"] Cb [OF that] in_sh [of "C ! row"] that
      by (auto simp: shard_at_def V0_def nth_append PE)
  qed
  define wrk1 sh1 where "wrk1 = copy_submatrix (parity rs) V0 ?ds (C @ E) d wrk"
    and "sh1 = fold_survivors (parity rs) dst V0 ?ds bs (C @ E) d sh"
  note cp = copy_submatrix_ok [where W = W and wrk = wrk and K = ?ds and ?V0.0 = V0 and src = "parity rs" and c = "C @ E" and d = d, folded wrk1_def]
  note fs = fold_survivors_ok [where src = "parity rs" and d = d and Q = "\<lambda>row. dbase + C ! row" and c = "C @ E",
      OF ok refl ds P Q, folded sh1_def]
  have m: "wmat W wrk1 i j = GF (parity rs ! (d ! i * ?ds + E ! j))" if "i < W" "j < W" for i j
    using cp(2) that L ds by (simp add: V0_def W_def)
  have "solves W (wmat W wrk1) (\<lambda>j. X t (E ! j)) (svec P sh1 t)" if t: "t < bs" "t \<in> Q" for t
    unfolding solves_def
  proof (intro allI impI)
    fix i assume i: "i < W"
    let ?f = "\<lambda>k. GF (parity rs ! (d ! i * ?ds + k)) * X t k"
    have "svec P sh1 t i = sum ?f {..<?ds} + (\<Sum>row<V0. ?f (C ! row))"
      using fs(3) [OF _ _ i t(1)] par [of i t] i t surv Cb by (simp add: svec_def P_def W_def nth_append V0_def)
    also have "\<dots> = (\<Sum>j<W. ?f (E ! j))"
      unfolding sum_split_nth [OF ce] V0_def [symmetric] W_def [symmetric] by (rule gfe_cancel)
    finally show "(\<Sum>j<W. wmat W wrk1 i j * X t (E ! j)) = svec P sh1 t i" using m i by simp
  qed
  then have inv: "solver_inv Q W P bs (map length sh) (length wrk) (\<lambda>t j. X t (E ! j)) sh (wrk1, sh1)"
    using fs(1,2) cp(1) L ds by (simp add: solver_inv_def W_def)
  obtain x y u v where xy: "inj_on x {..<?ps}" "inj_on y {..<?ds}"
    "\<And>p k. p < ?ps \<Longrightarrow> k < ?ds \<Longrightarrow> x p \<noteq> y k \<and> u p \<noteq> 0 \<and> v k \<noteq> 0 \<and> GF (parity rs ! (p * ?ds + k)) = u p * v k / (x p - y k)"
    using rs unfolding cauchy_codec_def by blast
  define r q where "r i = x (d ! i)" and "q j = y (E ! j)" for i j
  have "d ! i = d ! j \<longleftrightarrow> i = j" "E ! i = E ! j \<longleftrightarrow> i = j" if "i < W" "j < W" for i j
    using d ce(1) that by (simp_all add: W_def nth_eq_iff_index_eq)
  then have nodes: "cauchy_nodes W r q"
    using db Eb(1) xy(3) inj_on_eq_iff [OF xy(1)] inj_on_eq_iff [OF xy(2)]
    by (simp add: cauchy_nodes_def inj_on_def r_def q_def)
  have nz: "u (d ! i) \<noteq> 0 \<and> v (E ! i) \<noteq> 0" if "i < W" for i
    using xy(3) [OF db Eb(1)] that by blast
  have ca: "cauchy_from 0 W r q (wmat W wrk1)"
    unfolding cauchy_from_def using m db Eb(1) xy(3) nz
    by - (rule exI [of _ "\<lambda>i. u (d ! i)"], rule exI [of _ "\<lambda>j. v (E ! j)"], simp add: r_def q_def)
  obtain wrk2 sh2 where fe: "forward_elim dst V0 W bs (C @ E) [0..<W] (wrk1, sh1) = (Some (wrk2, sh2), wrk2, sh2)"
    "solver_inv Q W P bs (map length sh) (length wrk) (\<lambda>t j. X t (E ! j)) sh (wrk2, sh2)"
    "unit_upper W W (wmat W wrk2)"
    using forward_elim_ok [OF ok _ P nodes inv, of 0] L ca by (auto simp: W_def unit_upper_def)
  define sh3 where "sh3 = back_subst dst V0 W bs (C @ E) (wrk2, sh2)"
  note bk = back_subst_ok [OF ok fe(3) P fe(2), folded sh3_def]
  have "nanors_invert_mat (parity rs) dst (length C) ?ds bs (C @ E) d (wrk, sh) = (0, wrk2, sh3)"
    using fe(1) ds by (simp add: nanors_invert_mat_def wrk1_def sh1_def sh3_def V0_def Let_def)
  moreover have "length wrk2 = length wrk" using fe(2) by (simp add: solver_inv_def)
  moreover have "GF (sh3 ! (dbase + e) ! t) = X t e" if "e \<in> set E" "t < bs" "t \<in> Q" for e t
    using bk(3) that by (auto simp: P_def W_def in_set_conv_nth)
  ultimately show ?thesis using bk(1,2) PE by auto
qed

subsection \<open>One group\<close>

text \<open>What a group of shards must look like for the decoder, in the byte columns \<open>Q\<close>: column \<open>t\<close> of the original data is
  \<open>X t\<close>; the surviving data shards still hold it, and so do the chosen parity shards, through
  their rows of the parity matrix.\<close>

definition group_ok :: "nat set \<Rightarrow> reed_solomon \<Rightarrow> nat \<Rightarrow> nat \<Rightarrow> nat list \<Rightarrow> (nat \<Rightarrow> nat) \<Rightarrow> nat list \<Rightarrow>
    (nat \<Rightarrow> nat \<Rightarrow> gfe) \<Rightarrow> u8 list list \<Rightarrow> bool" where
  "group_ok Q rs dbase bs E pos F X sh \<longleftrightarrow>
     dbase + data_shards rs \<le> length sh \<and> (\<forall>s\<in>set sh. bs \<le> length s) \<and>
     (\<forall>k<data_shards rs. k \<notin> set E \<longrightarrow> (\<forall>t<bs. t \<in> Q \<longrightarrow> GF (sh ! (dbase + k) ! t) = X t k)) \<and>
     (\<forall>f\<in>set F. \<forall>t<bs. t \<in> Q \<longrightarrow> GF (sh ! pos f ! t) =
        (\<Sum>k<data_shards rs. GF (parity rs ! (f * data_shards rs + k)) * X t k)) \<and>
     (\<forall>f\<in>set F. pos f < length sh \<and> dbase + data_shards rs \<le> pos f)"

text \<open>What the decoder has done with it.\<close>

definition group_restored :: "nat set \<Rightarrow> nat \<Rightarrow> nat \<Rightarrow> nat list \<Rightarrow> (nat \<Rightarrow> nat \<Rightarrow> gfe) \<Rightarrow> u8 list list \<Rightarrow>
    u8 list list \<Rightarrow> bool" where
  "group_restored Q dbase bs E X sh sh' \<longleftrightarrow>
     map length sh' = map length sh \<and> (\<forall>k. k \<notin> (\<lambda>e. dbase + e) ` set E \<longrightarrow> sh' ! k = sh ! k) \<and>
     (\<forall>e\<in>set E. \<forall>t<bs. t \<in> Q \<longrightarrow> GF (sh' ! (dbase + e) ! t) = X t e)"

lemma nanors_decode_shards_ok:
  assumes rs: "cauchy_codec rs"
    and E: "filter (\<lambda>i. marks ! i \<noteq> 0) [0..<data_shards rs] = E" "E \<noteq> []"
    and F: "filter (\<lambda>i. marks ! i = 0) [data_shards rs..<shards_total rs] = map (\<lambda>f. data_shards rs + f) F"
      "length F = length E"
    and dat: "\<And>k. k < data_shards rs \<Longrightarrow> dat ! k = Some (dbase + k)"
      "\<And>f. f \<in> set F \<Longrightarrow> dat ! (data_shards rs + f) = Some (pos f)"
    and L: "length wrk = 16384" and ok: "group_ok Q rs dbase bs E pos F X sh"
  shows "\<exists>wrk' sh'. nanors_decode_shards rs dat marks (shards_total rs) bs (wrk, sh) = (0, wrk', sh') \<and>
      length wrk' = length wrk \<and> group_restored Q dbase bs E X sh sh'"
proof -
  let ?ds = "data_shards rs" and ?ps = "parity_shards rs"
  note D = codecD [OF rs]
  define C where "C = filter (\<lambda>i. marks ! i = 0) [0..<?ds]"
  have sE: "set E = {i. i < ?ds \<and> marks ! i \<noteq> 0}" "distinct E" by (auto simp flip: E(1))
  have ce: "distinct (C @ E)" "set (C @ E) = {..<?ds}"
    using sE by (auto simp: C_def)
  have lC: "?ds = length C + length E" using distinct_card [OF ce(1)] ce(2) by simp
  have "distinct (map (\<lambda>f. ?ds + f) F)" unfolding F(1) [symmetric] by simp
  then have dF: "distinct F" by (simp add: distinct_map)
  have "set (map (\<lambda>f. ?ds + f) F) \<subseteq> {..<shards_total rs}" unfolding F(1) [symmetric] by auto
  then have bF: "\<forall>p\<in>set F. p < ?ps" using D by (auto simp: image_subset_iff)
  have lF: "length F \<le> ?ps"
    using card_mono [of "{..<?ps}" "set F"] bF distinct_card [OF dF] by (auto simp: subset_iff)
  have W: "length E \<le> 64" using lC lF F(2) D by simp
  have "length E * length E \<le> 64 * 64" by (intro mult_le_mono W)
  then have LW: "length E * length E + length E \<le> length wrk" using W L by simp
  have pc: "pick_columns marks ?ds (?ds - length E) 0 = Some C"
    using pick_columns_ok [of "length C" marks 0 ?ds, folded C_def] lC by simp
  have pE: "the (dat ! e) = dbase + e" if "e \<in> set E" for e using that dat(1) sE by simp
  then have mE: "map (\<lambda>e. the (dat ! e)) E = map (\<lambda>e. dbase + e) E"
    "(\<lambda>e. the (dat ! e)) ` set E = (\<lambda>e. dbase + e) ` set E" by (auto intro: image_cong)
  have pF: "the (dat ! (?ds + f)) = pos f" if "f \<in> set F" for f using that dat(2) by simp
  have "distinct (map (\<lambda>e. the (dat ! e)) E)" unfolding mE using sE(2) by (simp add: distinct_map inj_on_def)
  moreover have "the (dat ! k) \<notin> (\<lambda>e. the (dat ! e)) ` set E"
    if "k \<in> set (filter (\<lambda>i. marks ! i = 0) [?ds..<shards_total rs])" for k
    using that ok sE(1) unfolding F(1) mE(2) by (auto simp: pF group_ok_def)
  ultimately obtain sh1 where pr: "pick_rows dat marks ?ds (shards_total rs) bs E ?ds sh = (Some F, sh1)"
    "length sh1 = length sh" "\<And>k. k \<notin> (\<lambda>e. dbase + e) ` set E \<Longrightarrow> sh1 ! k = sh ! k"
    "\<And>i. i < length E \<Longrightarrow> the (dat ! (E ! i)) < length sh \<Longrightarrow> sh1 ! the (dat ! (E ! i)) =
         take bs (sh ! the (dat ! (map (\<lambda>f. ?ds + f) F ! i))) @ drop bs (sh ! the (dat ! (E ! i)))"
    using pick_rows_ok [where es = E and marks = marks and j = ?ds and nr = "shards_total rs" and ds = ?ds
        and dat = dat and bs = bs and sh = sh] F D
    by (auto simp: mE(2) comp_def)
  have in_sh: "dbase + k < length sh" "bs \<le> length (sh ! (dbase + k))" if "k < ?ds" for k
    using that ok by (auto simp: group_ok_def)
  have Ei: "sh1 ! (dbase + E ! i) = take bs (sh ! pos (F ! i)) @ drop bs (sh ! (dbase + E ! i))"
    "F ! i \<in> set F" "bs \<le> length (sh ! pos (F ! i))" "E ! i < ?ds" if "i < length E" for i
  proof -
    show f: "F ! i \<in> set F" using that F(2) by simp
    have e: "E ! i \<in> set E" using that by simp
    then show ei: "E ! i < ?ds" using sE(1) by simp
    show "sh1 ! (dbase + E ! i) = take bs (sh ! pos (F ! i)) @ drop bs (sh ! (dbase + E ! i))"
      using pr(4) [OF that] pE [OF e] in_sh [OF ei] pF [OF f] that F(2) by simp
    show "bs \<le> length (sh ! pos (F ! i))" using ok f by (simp add: group_ok_def)
  qed
  have len: "map length sh1 = map length sh"
  proof (rule nth_equalityI)
    fix k assume k: "k < length (map length sh1)"
    show "map length sh1 ! k = map length sh ! k"
    proof (cases "k \<in> (\<lambda>e. dbase + e) ` set E")
      case True
      then obtain i where "i < length E" "k = dbase + E ! i" by (auto simp: in_set_conv_nth)
      then show ?thesis using Ei [of i] k pr(2) in_sh(2) [of "E ! i"] by simp
    qed (use k pr in simp)
  qed (simp add: pr(2))
  then have lenb: "\<forall>s\<in>set sh1. bs \<le> length s"
    using ok unfolding group_ok_def by (metis (no_types, lifting) image_iff list.set_map)
  have surv: "GF (sh1 ! (dbase + k) ! t) = X t k" if "k \<in> set C" "t < bs" "t \<in> Q" for k t
  proof -
    have "dbase + k \<notin> (\<lambda>e. dbase + e) ` set E" "k \<notin> set E" "k < ?ds" using that ce by auto
    then show ?thesis using pr(3) ok that(2,3) by (simp add: group_ok_def)
  qed
  have parF: "GF (sh ! pos f ! t) = (\<Sum>k<?ds. GF (parity rs ! (f * ?ds + k)) * X t k)"
    if "f \<in> set F" "t < bs" "t \<in> Q" for f t
    using ok that unfolding group_ok_def by blast
  have par: "GF (sh1 ! (dbase + E ! i) ! t) = (\<Sum>k<?ds. GF (parity rs ! (F ! i * ?ds + k)) * X t k)"
    if "i < length E" "t < bs" "t \<in> Q" for i t
  proof -
    have "sh1 ! (dbase + E ! i) ! t = sh ! pos (F ! i) ! t"
      unfolding Ei(1) [OF that(1)] using Ei(3) [OF that(1)] that(2) by (simp add: nth_append)
    then show ?thesis using parF [OF Ei(2) [OF that(1)] that(2,3)] by (rule trans [OF arg_cong])
  qed
  have "dbase + ?ds \<le> length sh1" using ok pr(2) by (simp add: group_ok_def)
  from nanors_invert_mat_ok [where Q = Q, OF rs ce dF F(2) bF dat(1) LW this lenb surv par]
  obtain wrk' sh' where r: "nanors_invert_mat (parity rs) dat (length C) ?ds bs (C @ E) F (wrk, sh1) = (0, wrk', sh')"
    "length wrk' = length wrk" "map length sh' = map length sh1"
    "\<forall>k. k \<notin> (\<lambda>e. dbase + e) ` set E \<longrightarrow> sh' ! k = sh1 ! k"
    "\<forall>e\<in>set E. \<forall>t<bs. t \<in> Q \<longrightarrow> GF (sh' ! (dbase + e) ! t) = X t e"
    by blast
  have "nanors_decode_shards rs dat marks (shards_total rs) bs (wrk, sh) = (0, wrk', sh')"
    using E pc pr(1) r(1) lC by (simp add: nanors_decode_shards_def Let_def)
  then show ?thesis using r pr(3) len by (auto simp: group_restored_def)
qed

lemma fold_mark_block:
  fixes pos :: "nat \<Rightarrow> nat"
  assumes "length F = length E" "set E \<subseteq> {..<data_shards rs}" "set F \<subseteq> {..<parity_shards rs}" "distinct F"
    and "length sub = data_shards rs + parity_shards rs" "length marks = data_shards rs + parity_shards rs"
  defines "r \<equiv> fold (mark_block rs) (map2 (\<lambda>f e. (f, pos f, e)) F E) (sub, marks)"
  shows "fst r = map (\<lambda>k. if data_shards rs \<le> k \<and> k - data_shards rs \<in> set F
           then Some (pos (k - data_shards rs)) else sub ! k) [0..<data_shards rs + parity_shards rs]"
    and "snd r = map (\<lambda>k. if k \<in> set E then 1 else if data_shards rs \<le> k \<and> k - data_shards rs \<in> set F
           then 0 else marks ! k) [0..<data_shards rs + parity_shards rs]"
proof -
  let ?ds = "data_shards rs" and ?n = "data_shards rs + parity_shards rs"
  have "fold (mark_block rs) (map2 (\<lambda>f e. (f, pos f, e)) F E) (sub, marks) =
     (map (\<lambda>k. if ?ds \<le> k \<and> k - ?ds \<in> set F then Some (pos (k - ?ds)) else sub ! k) [0..<?n],
      map (\<lambda>k. if k \<in> set E then 1 else if ?ds \<le> k \<and> k - ?ds \<in> set F then 0 else marks ! k) [0..<?n])"
    using assms(1-6)
  proof (induction F E arbitrary: sub marks rule: list_induct2)
    case Nil
    then show ?case by (auto simp: list_eq_iff_nth_eq)
  next
    case (Cons f F e E)
    define sub1 marks1 where "sub1 = sub[?ds + f := Some (pos f)]" and "marks1 = marks[e := 1, ?ds + f := 0]"
    have "fold (mark_block rs) (map2 (\<lambda>f e. (f, pos f, e)) (f # F) (e # E)) (sub, marks) =
        fold (mark_block rs) (map2 (\<lambda>f e. (f, pos f, e)) F E) (sub1, marks1)"
      using Cons.prems by (simp add: mark_block_def sub1_def marks1_def)
    also have "\<dots> = (map (\<lambda>k. if ?ds \<le> k \<and> k - ?ds \<in> set F then Some (pos (k - ?ds)) else sub1 ! k) [0..<?n],
      map (\<lambda>k. if k \<in> set E then 1 else if ?ds \<le> k \<and> k - ?ds \<in> set F then 0 else marks1 ! k) [0..<?n])"
      using Cons.prems by (intro Cons.IH) (auto simp: sub1_def marks1_def)
    finally show ?case
      using Cons.prems by (auto simp: sub1_def marks1_def nth_list_update)
  qed
  then show "fst r = map (\<lambda>k. if ?ds \<le> k \<and> k - ?ds \<in> set F then Some (pos (k - ?ds)) else sub ! k) [0..<?n]"
    "snd r = map (\<lambda>k. if k \<in> set E then 1 else if ?ds \<le> k \<and> k - ?ds \<in> set F then 0 else marks ! k) [0..<?n]"
    by (simp_all add: r_def)
qed

lemma filter_upt_eq:
  assumes "sorted_wrt (<) L" "set L = {i \<in> {a..<b::nat}. P i}"
  shows "filter P [a..<b] = L"
  using assms by (intro strict_sorted_equal) (auto simp: sorted_wrt_filter)

lemma reed_solomon_decode_ok:
  assumes rs: "cauchy_codec rs"
    and E: "sorted_wrt (<) E" "set E \<subseteq> {..<data_shards rs}" "E \<noteq> []"
    and F: "sorted_wrt (<) F" "set F \<subseteq> {..<parity_shards rs}" "length F = length E"
    and L: "length wrk = 16384" and ok: "group_ok Q rs dbase bs E pos F X sh"
  shows "\<exists>wrk' sh'. reed_solomon_decode rs dbase bs (map2 (\<lambda>f e. (f, pos f, e)) F E) (wrk, sh) = (0, wrk', sh') \<and>
      length wrk' = length wrk \<and> group_restored Q dbase bs E X sh sh'"
proof -
  let ?ds = "data_shards rs" and ?ps = "parity_shards rs"
  note D = codecD [OF rs]
  define sub0 where "sub0 = map (\<lambda>i. Some (dbase + i)) [0..<?ds] @ replicate ?ps None"
  define marks0 where "marks0 = replicate ?ds (0::u8) @ replicate ?ps 1"
  define r where "r = fold (mark_block rs) (map2 (\<lambda>f e. (f, pos f, e)) F E) (sub0, marks0)"
  have dF: "distinct F" using F(1) by (simp add: strict_sorted_iff)
  note fm = fold_mark_block [OF F(3) E(2) F(2) dF, of sub0 marks0 pos, folded r_def]
  have mk: "snd r ! k = (if k \<in> set E then 1 else if ?ds \<le> k \<and> k - ?ds \<in> set F then 0
      else if k < ?ds then 0 else 1)" if "k < ?ds + ?ps" for k
    using fm(2) that by (auto simp: sub0_def marks0_def nth_append)
  have sb: "fst r ! k = (if ?ds \<le> k \<and> k - ?ds \<in> set F then Some (pos (k - ?ds))
      else if k < ?ds then Some (dbase + k) else None)" if "k < ?ds + ?ps" for k
    using fm(1) that by (auto simp: sub0_def marks0_def nth_append)
  have fE: "filter (\<lambda>i. snd r ! i \<noteq> 0) [0..<?ds] = E"
    using E mk by (intro filter_upt_eq) (auto split: if_splits)
  have fF: "filter (\<lambda>i. snd r ! i = 0) [?ds..<shards_total rs] = map (\<lambda>f. ?ds + f) F"
  proof (rule filter_upt_eq)
    show "sorted_wrt (<) (map (\<lambda>f. ?ds + f) F)" using F(1) by (simp add: sorted_wrt_map)
    show "set (map (\<lambda>f. ?ds + f) F) = {i \<in> {?ds..<shards_total rs}. snd r ! i = 0}"
    proof (intro set_eqI iffI)
      fix k assume "k \<in> {i \<in> {?ds..<shards_total rs}. snd r ! i = 0}"
      then have k: "?ds \<le> k" "k < ?ds + ?ps" "snd r ! k = 0" using D by auto
      then have "k - ?ds \<in> set F" using mk [OF k(2)] by (auto split: if_splits)
      then show "k \<in> set (map (\<lambda>f. ?ds + f) F)" using k(1) by (auto simp: image_iff intro!: bexI [of _ "k - ?ds"])
    next
      fix k assume "k \<in> set (map (\<lambda>f. ?ds + f) F)"
      then obtain f where f: "k = ?ds + f" "f \<in> set F" "f < ?ps" using F(2) by auto
      moreover have "?ds + f \<notin> set E" using E(2) by auto
      ultimately show "k \<in> {i \<in> {?ds..<shards_total rs}. snd r ! i = 0}" using D(3) mk [of k] by simp
    qed
  qed
  have "reed_solomon_decode rs dbase bs (map2 (\<lambda>f e. (f, pos f, e)) F E) (wrk, sh) =
      nanors_decode_shards rs (fst r) (snd r) (shards_total rs) bs (wrk, sh)"
    using D by (simp add: reed_solomon_decode_def DATA_SHARDS_MAX_def r_def sub0_def marks0_def Let_def
        split: prod.splits)
  moreover have "fst r ! k = Some (dbase + k)" if "k < ?ds" for k using sb that by simp
  moreover have "fst r ! (?ds + f) = Some (pos f)" if "f \<in> set F" for f using sb that F(2) by auto
  ultimately show ?thesis
    using nanors_decode_shards_ok [OF rs fE E(3) fF F(3) _ _ L ok, of "fst r"] by simp
qed

subsection \<open>A whole block\<close>

lemma all_less_two: "(\<forall>g<2. P g) \<longleftrightarrow> P 0 \<and> P (Suc 0)"
  by (auto simp: less_2_cases_iff)

lemma shard_index:
  "data_shards rs + parity_shards rs = tot \<Longrightarrow> g < n \<Longrightarrow> p < parity_shards rs \<Longrightarrow>
   n * data_shards rs + g * parity_shards rs + p < n * tot"
  using group_bounds [of g n p "parity_shards rs"] by (auto simp: algebra_simps)

text \<open>Enough parity shards of the group have arrived.\<close>

definition group_recoverable :: "reed_solomon \<Rightarrow> u8 list \<Rightarrow> nat \<Rightarrow> nat \<Rightarrow> bool" where
  "group_recoverable rs marks n g \<longleftrightarrow>
     length (filter (\<lambda>i. marks ! (g * data_shards rs + i) \<noteq> 0) [0..<data_shards rs])
     \<le> length (filter (\<lambda>i. marks ! (n * data_shards rs + g * parity_shards rs + i) = 0) [0..<parity_shards rs])"

text \<open>Two shards hold the same bytes in the columns \<open>Q\<close> below \<open>bs\<close>. The codec works on every column on its
  own, so whatever holds of the others does not matter to these.\<close>

definition same_on :: "nat set \<Rightarrow> nat \<Rightarrow> u8 list \<Rightarrow> u8 list \<Rightarrow> bool" where
  "same_on Q bs x y \<longleftrightarrow> (\<forall>t<bs. t \<in> Q \<longrightarrow> x ! t = y ! t)"

lemma same_on_GF: "same_on Q bs x y \<Longrightarrow> t < bs \<Longrightarrow> t \<in> Q \<Longrightarrow> GF (x ! t) = GF (y ! t)"
  by (simp add: same_on_def)

lemma same_onI_GF: "(\<And>t. t < bs \<Longrightarrow> t \<in> Q \<Longrightarrow> GF (x ! t) = GF (y ! t)) \<Longrightarrow> same_on Q bs x y"
  by (simp add: same_on_def)

lemma same_on_take: "bs \<le> length x \<Longrightarrow> bs \<le> length y \<Longrightarrow> same_on UNIV bs x y \<longleftrightarrow> take bs x = take bs y"
  by (auto simp: same_on_def list_eq_iff_nth_eq)

lemma group_of:
  assumes "k < n * (ds::nat)"
  obtains g i where "g < n" "i < ds" "k = g * ds + i"
proof
  show "k div ds < n" using assms by (simp add: less_mult_imp_div_less)
  show "k mod ds < ds" using assms by (cases "ds = 0") auto
  show "k = k div ds * ds + k mod ds" by simp
qed

lemma reconstruct_group_ok:
  assumes rs: "cauchy_codec rs" and g: "g < n"
    and sh: "length sh = n * shards_total rs" "\<forall>s\<in>set sh. bs \<le> length s"
    and cur: "map length cur = map length sh" and L: "length wrk = 16384"
    and data: "\<And>i. i < data_shards rs \<Longrightarrow> marks ! (g * data_shards rs + i) = 0 \<Longrightarrow>
        same_on Q bs (cur ! (g * data_shards rs + i)) (sh ! (g * data_shards rs + i))"
    and par: "\<And>p. p < parity_shards rs \<Longrightarrow> marks ! (n * data_shards rs + g * parity_shards rs + p) = 0 \<Longrightarrow>
        same_on Q bs (cur ! (n * data_shards rs + g * parity_shards rs + p)) (reed_solomon_encode rs sh (n * shards_total rs) bs ! (n * data_shards rs + g * parity_shards rs + p))"
    and rec: "group_recoverable rs marks n g"
  shows "\<exists>wrk' cur'. reconstruct_group rs marks n bs g (err, wrk, cur) = (err, wrk', cur') \<and>
      length wrk' = length wrk \<and> map length cur' = map length cur \<and>
      (\<forall>i<data_shards rs. same_on Q bs (cur' ! (g * data_shards rs + i)) (sh ! (g * data_shards rs + i))) \<and>
      (\<forall>k. k \<notin> (\<lambda>i. g * data_shards rs + i) ` {..<data_shards rs} \<longrightarrow> cur' ! k = cur ! k)"
proof -
  let ?ds = "data_shards rs" and ?ps = "parity_shards rs"
  note D = codecD [OF rs]
  define E where "E = filter (\<lambda>i. marks ! (g * ?ds + i) \<noteq> 0) [0..<?ds]"
  define F where "F = take (length E) (filter (\<lambda>i. marks ! (n * ?ds + g * ?ps + i) = 0) [0..<?ps])"
  define X where "X t k = GF (sh ! (g * ?ds + k) ! t)" for t k
  have lF: "length F = length E" using rec by (simp add: F_def E_def group_recoverable_def)
  have lc: "length cur = length sh" using cur by (rule map_eq_imp_length_eq)
  have lenb: "\<forall>s\<in>set cur. bs \<le> length s"
    using sh(2) cur by (metis (no_types, lifting) image_iff list.set_map)
  have in_sh: "g * ?ds + i < length sh" if "i < ?ds" for i
    using group_bounds [OF g that] sh(1) D(3) by (simp add: algebra_simps)
  have Es: "sorted_wrt (<) E" "set E \<subseteq> {..<?ds}"
    by (auto simp: E_def sorted_wrt_filter)
  have Fs: "sorted_wrt (<) F" "set F \<subseteq> {..<?ps}"
    by (auto simp: F_def sorted_wrt_filter sorted_wrt_take dest: in_set_takeD)
  show ?thesis
  proof (cases "E = []")
    case True
    then have all: "marks ! (g * ?ds + i) = 0" if "i < ?ds" for i
      using that by (auto simp: E_def filter_empty_conv)
    have "reconstruct_group rs marks n bs g (err, wrk, cur) = (err, wrk, cur)"
      using True by (simp add: reconstruct_group_def E_def Let_def)
    then show ?thesis using data all by simp
  next
    case False
    let ?pos = "\<lambda>f. n * ?ds + g * ?ps + f"
    have "group_ok Q rs (g * ?ds) bs E ?pos F X cur"
      unfolding group_ok_def
    proof (intro conjI allI impI ballI)
      show "g * ?ds + ?ds \<le> length cur"
        using in_sh [of "?ds - 1"] D lc by simp
      show "bs \<le> length s" if "s \<in> set cur" for s using lenb that by simp
      show "GF (cur ! (g * ?ds + k) ! t) = X t k" if "k < ?ds" "k \<notin> set E" "t < bs" "t \<in> Q" for k t
        unfolding X_def using that by (intro same_on_GF [OF data]) (auto simp: E_def)
      show "?pos f < length cur" if "f \<in> set F" for f
        using shard_index [of rs _ g n f] D(3) g that Fs(2) lc sh(1) by auto
      show "g * ?ds + ?ds \<le> ?pos f" if "f \<in> set F" for f
        using group_bounds [of g n "?ds - 1" ?ds] g D(1) by simp
      show "GF (cur ! ?pos f ! t) = (\<Sum>k<?ds. GF (parity rs ! (f * ?ds + k)) * X t k)"
        if "f \<in> set F" "t < bs" "t \<in> Q" for f t
      proof -
        have f: "f < ?ps" "marks ! ?pos f = 0" using that(1) by (auto simp: F_def dest: in_set_takeD)
        have "GF (cur ! ?pos f ! t) = GF (reed_solomon_encode rs sh (n * shards_total rs) bs ! ?pos f ! t)"
          by (rule same_on_GF [OF par [OF f] that(2,3)])
        also have "\<dots> = parity_byte rs sh (g * ?ds) f t"
          by (rule encode_ok(3) [OF rs sh g f(1) that(2)])
        finally show ?thesis by (simp add: parity_byte_def X_def)
      qed
    qed
    from reed_solomon_decode_ok [OF rs Es False Fs lF L this]
    obtain wrk' cur' where r: "reed_solomon_decode rs (g * ?ds) bs (map2 (\<lambda>f e. (f, ?pos f, e)) F E) (wrk, cur) =
        (0, wrk', cur')" "length wrk' = length wrk" "group_restored Q (g * ?ds) bs E X cur cur'" by blast
    have "reconstruct_group rs marks n bs g (err, wrk, cur) = (err, wrk', cur')"
      using False r(1) lF by (simp add: reconstruct_group_def Let_def flip: E_def F_def)
    moreover have cur': "map length cur' = map length cur"
      "\<And>k. k \<notin> (\<lambda>e. g * ?ds + e) ` set E \<Longrightarrow> cur' ! k = cur ! k"
      "\<And>e t. e \<in> set E \<Longrightarrow> t < bs \<Longrightarrow> t \<in> Q \<Longrightarrow> GF (cur' ! (g * ?ds + e) ! t) = X t e"
      using r(3) by (auto simp: group_restored_def)
    moreover have "same_on Q bs (cur' ! (g * ?ds + i)) (sh ! (g * ?ds + i))" if "i < ?ds" for i
    proof (cases "i \<in> set E")
      case True
      show ?thesis using cur'(3) [OF True] by (intro same_onI_GF) (simp add: X_def)
    next
      case i: False
      then have "g * ?ds + i \<notin> (\<lambda>e. g * ?ds + e) ` set E" by auto
      moreover have "marks ! (g * ?ds + i) = 0" using i that by (simp add: E_def)
      ultimately show ?thesis using data [OF that] cur'(2) by simp
    qed
    moreover have "cur' ! k = cur ! k" if "k \<notin> (\<lambda>i. g * ?ds + i) ` {..<?ds}" for k
    proof (rule cur'(2))
      show "k \<notin> (\<lambda>e. g * ?ds + e) ` set E" using that Es(2) by blast
    qed
    ultimately show ?thesis using r(2) by simp
  qed
qed

text \<open>The loop over the groups: after \<open>m\<close> of them the first \<open>m\<close> groups of data are restored and all
  shards behind them are as received.\<close>

lemma reconstruct_groups:
  assumes rs: "cauchy_codec rs"
    and sh: "length sh = n * shards_total rs" "\<forall>s\<in>set sh. bs \<le> length s"
    and recv: "map length recv = map length sh" and wrk: "length wrk = 16384"
    and intact: "\<forall>k<n * shards_total rs. marks ! k = 0 \<longrightarrow>
        same_on Q bs (recv ! k) (reed_solomon_encode rs sh (n * shards_total rs) bs ! k)"
    and enough: "\<forall>g<n. group_recoverable rs marks n g"
    and m: "m \<le> n"
  shows "\<exists>wrk' cur. fold (reconstruct_group rs marks n bs) [0..<m] (0, wrk, recv) = (0, wrk', cur) \<and>
      length wrk' = 16384 \<and> map length cur = map length sh \<and>
      (\<forall>g<m. \<forall>i<data_shards rs. same_on Q bs (cur ! (g * data_shards rs + i)) (sh ! (g * data_shards rs + i))) \<and>
      (\<forall>k\<ge>m * data_shards rs. cur ! k = recv ! k)"
  using m
proof (induction m)
  case 0
  then show ?case using recv wrk by simp
next
  case (Suc g)
  then have g: "g < n" by simp
  from Suc obtain wrk1 cur where c: "fold (reconstruct_group rs marks n bs) [0..<g] (0, wrk, recv) = (0, wrk1, cur)"
    "length wrk1 = 16384" "map length cur = map length sh"
    "\<And>g' i. g' < g \<Longrightarrow> i < data_shards rs \<Longrightarrow> same_on Q bs (cur ! (g' * data_shards rs + i)) (sh ! (g' * data_shards rs + i))"
    "\<And>k. g * data_shards rs \<le> k \<Longrightarrow> cur ! k = recv ! k" by auto
  have dbound: "g * data_shards rs + i < n * data_shards rs" "g * data_shards rs + i < n * shards_total rs"
    if "i < data_shards rs" for i
    using group_bounds [OF g that] codecD(3) [OF rs] by (simp_all add: algebra_simps)
  have data: "same_on Q bs (cur ! (g * data_shards rs + i)) (sh ! (g * data_shards rs + i))"
    if "i < data_shards rs" "marks ! (g * data_shards rs + i) = 0" for i
    using c(5) [of "g * data_shards rs + i"] intact [rule_format, OF dbound(2) that(2)] that(1)
      encode_ok(2) [OF rs sh dbound(1)] by simp
  have par: "same_on Q bs (cur ! (n * data_shards rs + g * parity_shards rs + p)) (reed_solomon_encode rs sh (n * shards_total rs) bs ! (n * data_shards rs + g * parity_shards rs + p))"
    if "p < parity_shards rs" "marks ! (n * data_shards rs + g * parity_shards rs + p) = 0" for p
  proof -
    have "g * data_shards rs \<le> n * data_shards rs" using g by simp
    then have "cur ! (n * data_shards rs + g * parity_shards rs + p) = recv ! (n * data_shards rs + g * parity_shards rs + p)" by (intro c(5)) linarith
    then show ?thesis using intact that shard_index [of rs _ g n p] codecD(3) [OF rs] g by simp
  qed
  have "group_recoverable rs marks n g" using enough g by simp
  from reconstruct_group_ok [OF rs g sh c(3,2) data par this]
  obtain wrk2 cur2 where r: "reconstruct_group rs marks n bs g (0, wrk1, cur) = (0, wrk2, cur2)"
    "length wrk2 = length wrk1" "map length cur2 = map length cur"
    "\<And>i. i < data_shards rs \<Longrightarrow> same_on Q bs (cur2 ! (g * data_shards rs + i)) (sh ! (g * data_shards rs + i))"
    "\<And>k. k \<notin> (\<lambda>i. g * data_shards rs + i) ` {..<data_shards rs} \<Longrightarrow> cur2 ! k = cur ! k" by blast
  have "same_on Q bs (cur2 ! (g' * data_shards rs + i)) (sh ! (g' * data_shards rs + i))" if "g' < Suc g" "i < data_shards rs" for g' i
  proof (cases "g' = g")
    case False
    then have "g' * data_shards rs + i < g * data_shards rs" using that group_bounds [of g' g i "data_shards rs"] by simp
    then have "g' * data_shards rs + i \<notin> (\<lambda>i. g * data_shards rs + i) ` {..<data_shards rs}" by auto
    then show ?thesis using r(5) c(4) False that by simp
  qed (use r(4) that in simp)
  moreover have "cur2 ! k = recv ! k" if "Suc g * data_shards rs \<le> k" for k
  proof -
    have "k \<notin> (\<lambda>i. g * data_shards rs + i) ` {..<data_shards rs}" using that by auto
    then show ?thesis using r(5) c(5) that by simp
  qed
  ultimately show ?case using c(1,2,3) r(1-3) by simp
qed

lemma reconstruct_ok:
  assumes rs: "cauchy_codec rs"
    and sh: "length sh = n * shards_total rs" "\<forall>s\<in>set sh. bs \<le> length s"
    and recv: "map length recv = map length sh" and wrk: "length wrk = 16384"
    and intact: "\<forall>k<n * shards_total rs. marks ! k = 0 \<longrightarrow>
        same_on Q bs (recv ! k) (reed_solomon_encode rs sh (n * shards_total rs) bs ! k)"
    and enough: "\<forall>g<n. group_recoverable rs marks n g"
  obtains wrk' out where
    "reed_solomon_reconstruct rs marks (n * shards_total rs) bs (wrk, recv) = (0, wrk', out)"
    "length wrk' = 16384" "map length out = map length sh"
    "\<forall>k<n * data_shards rs. same_on Q bs (out ! k) (sh ! k)"
    "\<forall>k\<ge>n * data_shards rs. out ! k = recv ! k"
proof -
  note D = codecD [OF rs]
  have "n * shards_total rs div shards_total rs = n" using D(1,3) by simp
  then have "reed_solomon_reconstruct rs marks (n * shards_total rs) bs (wrk, recv) =
      fold (reconstruct_group rs marks n bs) [0..<n] (0, wrk, recv)"
    by (simp add: reed_solomon_reconstruct_def)
  with reconstruct_groups [OF rs sh recv wrk intact enough order_refl] obtain wrk' out where
    o: "reed_solomon_reconstruct rs marks (n * shards_total rs) bs (wrk, recv) = (0, wrk', out)"
      "length wrk' = 16384" "map length out = map length sh"
      "\<And>k. n * data_shards rs \<le> k \<Longrightarrow> out ! k = recv ! k"
      "\<And>g i. g < n \<Longrightarrow> i < data_shards rs \<Longrightarrow>
         same_on Q bs (out ! (g * data_shards rs + i)) (sh ! (g * data_shards rs + i))"
    by auto
  have "same_on Q bs (out ! k) (sh ! k)" if "k < n * data_shards rs" for k
    using that by (rule group_of) (use o(5) in simp)
  then show ?thesis using o(4) by (intro that [OF o(1-3)]) blast+
qed

text \<open>The property C7: what \<open>reed_solomon_reconstruct\<close> promises. A block of \<open>n\<close> groups is encoded;
  the receiver holds shards of the same sizes, the ones not marked as lost are unchanged, and each
  group has lost at most as many data shards as it has parity shards left. Then the
  reconstruction succeeds, all data shards are the original ones and the parity shards are as
  received.\<close>

theorem rs_roundtrip:
  assumes rs: "reed_solomon_new a b = Some rs"
    and sh: "length sh = n * shards_total rs" "\<forall>s\<in>set sh. bs \<le> length s"
    and recv: "map length recv = map length sh" and wrk: "length wrk = 16384"
    and intact: "\<forall>k<n * shards_total rs. marks ! k = 0 \<longrightarrow>
        take bs (recv ! k) = take bs (reed_solomon_encode rs sh (n * shards_total rs) bs ! k)"
    and enough: "\<forall>g<n. group_recoverable rs marks n g"
  shows "case reed_solomon_reconstruct rs marks (n * shards_total rs) bs (wrk, recv) of (err, wrk', out) \<Rightarrow>
      err = 0 \<and> map length out = map length sh \<and>
      (\<forall>k<n * data_shards rs. take bs (out ! k) = take bs (sh ! k)) \<and>
      (\<forall>k\<ge>n * data_shards rs. out ! k = recv ! k)"
proof -
  have len: "bs \<le> length (sh ! k)" "bs \<le> length (recv ! k)" "bs \<le> length (reed_solomon_encode rs sh (n * shards_total rs) bs ! k)"
    if "k < n * shards_total rs" for k
    using that sh recv encode_ok(1) [OF codec_new [OF rs] sh] by (metis length_map nth_map nth_mem)+
  have "\<forall>k<n * shards_total rs. marks ! k = 0 \<longrightarrow>
      same_on UNIV bs (recv ! k) (reed_solomon_encode rs sh (n * shards_total rs) bs ! k)"
    using intact len by (simp add: same_on_take)
  from reconstruct_ok [OF codec_new [OF rs] sh recv wrk this enough] obtain wrk' out where
    r: "reed_solomon_reconstruct rs marks (n * shards_total rs) bs (wrk, recv) = (0, wrk', out)"
      "length wrk' = 16384" "map length out = map length sh"
      "\<forall>k<n * data_shards rs. same_on UNIV bs (out ! k) (sh ! k)"
      "\<forall>k\<ge>n * data_shards rs. out ! k = recv ! k" .
  have "take bs (out ! k) = take bs (sh ! k)" if "k < n * data_shards rs" for k
  proof -
    have k: "k < n * shards_total rs" using that reed_solomon_newD(5) [OF rs] by (simp add: algebra_simps)
    then have "bs \<le> length (out ! k)" using len(1) r(3) sh(1) by (metis length_map nth_map)
    then show ?thesis using r(4) that len(1) [OF k] same_on_take by blast
  qed
  then show ?thesis unfolding r(1) prod.case using r(3,5) by blast
qed

text \<open>A witness: two groups of two data shards and one parity shard, one data shard of each
  group lost.\<close>

definition rs21 :: reed_solomon where "rs21 = the (reed_solomon_new 2 1)"

definition sent21 :: "u8 list list" where
  "sent21 = [[1, 2], [3, 4], [5, 6], [7, 8], [0, 0], [0, 0]]"

definition received21 :: "u8 list list" where
  "received21 = (reed_solomon_encode rs21 sent21 6 2)[1 := [9, 9], 2 := [9, 9]]"

lemma rs21: "reed_solomon_new 2 1 = Some rs21" "data_shards rs21 = 2" "parity_shards rs21 = 1"
  "shards_total rs21 = 3"
  by (simp_all add: rs21_def reed_solomon_new_def DATA_SHARDS_MAX_def)

theorem rs_roundtrip_witness:
  "case reed_solomon_reconstruct rs21 [0, 1, 1, 0, 0, 0] 6 2 (replicate 16384 0, received21) of
     (err, wrk, out) \<Rightarrow> err = 0 \<and> (\<forall>k<4. take 2 (out ! k) = sent21 ! k)"
proof -
  have sent: "length sent21 = 2 * shards_total rs21" "\<forall>s\<in>set sent21. 2 \<le> length s"
    by (simp_all add: rs21 sent21_def)
  note e = encode_ok [OF codec_new [OF rs21(1)] sent, unfolded rs21, simplified]
  have "map length received21 = map length (reed_solomon_encode rs21 sent21 6 2)"
    unfolding received21_def map_update e(1) by (simp add: sent21_def)
  then have lens: "map length received21 = map length sent21" unfolding e(1) .
  have "\<forall>k<2 * shards_total rs21. [0, 1, 1, 0, 0, 0::u8] ! k = 0 \<longrightarrow>
      take 2 (received21 ! k) = take 2 (reed_solomon_encode rs21 sent21 (2 * shards_total rs21) 2 ! k)"
  proof (intro allI impI)
    fix k :: nat assume "[0, 1, 1, 0, 0, 0::u8] ! k = 0"
    then have "k \<noteq> 1" "k \<noteq> 2" by auto
    then show "take 2 (received21 ! k) = take 2 (reed_solomon_encode rs21 sent21 (2 * shards_total rs21) 2 ! k)"
      by (simp add: received21_def rs21)
  qed
  moreover have "\<forall>g<2. group_recoverable rs21 [0, 1, 1, 0, 0, 0] 2 g"
    by (simp add: all_less_two group_recoverable_def rs21 upt_rec)
  ultimately have "case reed_solomon_reconstruct rs21 [0, 1, 1, 0, 0, 0] 6 2 (replicate 16384 0, received21) of
     (err, wrk, out) \<Rightarrow> err = 0 \<and> map length out = map length sent21 \<and>
       (\<forall>k<4. take 2 (out ! k) = take 2 (sent21 ! k)) \<and> (\<forall>k\<ge>4. out ! k = received21 ! k)"
    using rs_roundtrip [OF rs21(1) sent lens length_replicate] by (simp add: rs21)
  moreover have "take 2 (sent21 ! k) = sent21 ! k" if "k < 4" for k
    using that by (simp add: sent21_def less_Suc_eq numeral_eq_Suc) auto
  ultimately show ?thesis by (auto split: prod.splits)
qed

text \<open>The property C15: a group that has lost more data shards than it has parity shards left makes
  the reconstruction fail, whatever the other groups hold.\<close>

theorem rs_too_few:
  assumes "\<exists>g<nr div shards_total rs. \<not> group_recoverable rs marks (nr div shards_total rs) g"
  shows "fst (reed_solomon_reconstruct rs marks nr bs mem) = -1"
proof -
  let ?n = "nr div shards_total rs"
  have ret: "reed_solomon_decode rs d bs' bl m = (r, m') \<Longrightarrow> r = 0 \<or> r = -1" for d bs' bl m r m'
    by (auto simp: reed_solomon_decode_def nanors_decode_shards_def nanors_invert_mat_def Let_def
        split: prod.splits option.splits if_splits)
  have keep: "fst (reconstruct_group rs marks ?n bs g em) = -1"
    if "\<not> group_recoverable rs marks ?n g \<or> fst em = -1" for g em
    using that
    by (cases em) (auto simp: reconstruct_group_def group_recoverable_def Let_def split: prod.splits dest: ret)
  have "fst (fold (reconstruct_group rs marks ?n bs) gs em) = -1"
    if "(\<exists>g\<in>set gs. \<not> group_recoverable rs marks ?n g) \<or> fst em = -1" for gs em
    using that
  proof (induction gs arbitrary: em)
    case (Cons g gs)
    then have "(\<exists>g\<in>set gs. \<not> group_recoverable rs marks ?n g) \<or> fst (reconstruct_group rs marks ?n bs g em) = -1"
      using keep [of g em] by auto
    from Cons.IH [OF this] show ?case by simp
  qed simp
  moreover have "\<exists>g\<in>set [0..<?n]. \<not> group_recoverable rs marks ?n g" using assms by auto
  ultimately show ?thesis by (auto simp: reed_solomon_reconstruct_def Let_def)
qed

theorem rs_too_few_witness:
  "fst (reed_solomon_reconstruct rs21 [1, 1, 0, 0, 0, 0] 6 2 (replicate 16384 0, received21)) = -1"
  by (rule rs_too_few, rule exI [of _ 0]) (simp add: group_recoverable_def rs21 upt_rec)

end
