(* ===== verification/AvcFrameSlots.thy ===== *)
theory AvcFrameSlots
  imports Prelude
begin

text \<open>
  The picture slots shared by the decoder thread and the display
  (\<open>src/src/avc_frame_slots.c\<close>): six buffers, three of which the hardware decoder writes at a
  time; only the newest decoded picture is queued, and the display holds the picture it shows.

  The first part models the code; the second part proves the ownership invariant and that the slots implement
  a mailbox with one place: publishing replaces what is queued, taking empties it, so the display always
  gets the newest picture; and that the writer always finds three slots while the display holds at most
  two.

  C's \<open>int\<close> slot numbers are integers; the pointer arguments that the code tests against NULL and
  that callers may leave out (\<open>ids\<close>, \<open>decoded_at_us\<close>) are options.
\<close>

subsection \<open>The slots\<close>

datatype slot_state = AVC_SLOT_FREE | AVC_SLOT_WRITING | AVC_SLOT_QUEUED | AVC_SLOT_HELD

record AvcFrameSlots =
  slot_states :: "slot_state list"
  frame_id :: "u32 list"
  decoded_at_us :: "u32 list"
  queued :: int

definition AVC_FRAME_SLOTS :: nat where [simp]: "AVC_FRAME_SLOTS = 6"

definition avc_frame_slots_init :: AvcFrameSlots where
  "avc_frame_slots_init = \<lparr>slot_states = replicate AVC_FRAME_SLOTS AVC_SLOT_FREE,
     frame_id = replicate AVC_FRAME_SLOTS 0, decoded_at_us = replicate AVC_FRAME_SLOTS 0, queued = -1\<rparr>"

definition set_states :: "nat list \<Rightarrow> slot_state \<Rightarrow> AvcFrameSlots \<Rightarrow> AvcFrameSlots" where
  "set_states is v s = s\<lparr>slot_states := fold (\<lambda>i st. st[i := v]) is (slot_states s)\<rparr>"

text \<open>\<open>None\<close> is the return of \<open>-1\<close>.\<close>

definition avc_frame_slots_reserve :: "AvcFrameSlots \<Rightarrow> int list option \<times> AvcFrameSlots" where
  "avc_frame_slots_reserve s =
     (let found = take 3 (filter (\<lambda>i. slot_states s ! i = AVC_SLOT_FREE) [0..<AVC_FRAME_SLOTS]) in
      if length found \<noteq> 3 then (None, s)
      else (Some (map int found), set_states found AVC_SLOT_WRITING s))"

definition slots_valid :: "int list \<Rightarrow> AvcFrameSlots \<Rightarrow> bool" where
  "slots_valid slots s = (\<forall>i\<in>{0..<3}. \<not> (slots ! i < 0 \<or> slots ! i \<ge> int AVC_FRAME_SLOTS \<or>
       slot_states s ! nat (slots ! i) \<noteq> AVC_SLOT_WRITING) \<and> (\<forall>j\<in>{0..<i}. slots ! i \<noteq> slots ! j))"

definition queue_newest :: "nat \<Rightarrow> u32 \<Rightarrow> u32 \<Rightarrow> AvcFrameSlots \<Rightarrow> AvcFrameSlots" where
  "queue_newest slot fid at s =
     (let s = (if queued s \<ge> 0 then set_states [nat (queued s)] AVC_SLOT_FREE s else s);
          s = set_states [slot] AVC_SLOT_QUEUED (s\<lparr>queued := int slot\<rparr>)
      in s\<lparr>frame_id := (frame_id s)[slot := fid], decoded_at_us := (decoded_at_us s)[slot := at]\<rparr>)"

definition avc_frame_slots_publish ::
  "int list \<Rightarrow> int \<Rightarrow> u32 list option \<Rightarrow> u32 list option \<Rightarrow> AvcFrameSlots \<Rightarrow> int \<times> AvcFrameSlots" where
  "avc_frame_slots_publish slots count ids ats s =
     (if count < 0 \<or> count > 3 \<or> (count \<noteq> 0 \<and> (ids = None \<or> ats = None)) then (-1, s)
      else if \<not> slots_valid slots s then (-1, s)
      else
        let s = set_states (map (\<lambda>i. nat (slots ! i)) [0..<3]) AVC_SLOT_FREE s in
        if count \<noteq> 0
        then (let k = nat (count - 1) in
              (0, queue_newest (nat (slots ! k)) (the ids ! k) (the ats ! k) s))
        else (0, s))"

text \<open>The slot taken, its frame id and its time; \<open>None\<close> is the return of \<open>-1\<close>.\<close>

definition avc_frame_slots_take :: "AvcFrameSlots \<Rightarrow> (int \<times> u32 \<times> u32) option \<times> AvcFrameSlots" where
  "avc_frame_slots_take s =
     (if queued s < 0 then (None, s)
      else (let slot = nat (queued s) in
            (Some (queued s, frame_id s ! slot, decoded_at_us s ! slot),
             set_states [slot] AVC_SLOT_HELD (s\<lparr>queued := -1\<rparr>))))"

definition avc_frame_slots_release :: "int \<Rightarrow> AvcFrameSlots \<Rightarrow> int \<times> AvcFrameSlots" where
  "avc_frame_slots_release slot s =
     (if slot < 0 \<or> slot \<ge> int AVC_FRAME_SLOTS \<or> slot_states s ! nat slot \<noteq> AVC_SLOT_HELD then (-1, s)
      else (0, set_states [nat slot] AVC_SLOT_FREE s))"

subsection \<open>Ownership\<close>

text \<open>\<open>queued\<close> names exactly the slot in state QUEUED.\<close>

definition slots_inv :: "AvcFrameSlots \<Rightarrow> bool" where
  "slots_inv s \<longleftrightarrow> length (slot_states s) = AVC_FRAME_SLOTS \<and> length (frame_id s) = AVC_FRAME_SLOTS \<and>
     length (decoded_at_us s) = AVC_FRAME_SLOTS \<and> -1 \<le> queued s \<and> queued s < int AVC_FRAME_SLOTS \<and>
     (\<forall>i<AVC_FRAME_SLOTS. slot_states s ! i = AVC_SLOT_QUEUED \<longleftrightarrow> int i = queued s)"

lemma nth_set_states:
  "i < length (slot_states s) \<Longrightarrow>
     slot_states (set_states is v s) ! i = (if i \<in> set is then v else slot_states s ! i)"
proof -
  have "i < length xs \<Longrightarrow> fold (\<lambda>i st. st[i := v]) is xs ! i = (if i \<in> set is then v else xs ! i)" for xs
    by (induction "is" arbitrary: xs) (auto simp: nth_list_update)
  then show "i < length (slot_states s) \<Longrightarrow> ?thesis" by (simp add: set_states_def)
qed

lemma set_states_simps [simp]:
  "length (slot_states (set_states is v s)) = length (slot_states s)"
  "frame_id (set_states is v s) = frame_id s" "decoded_at_us (set_states is v s) = decoded_at_us s"
  "queued (set_states is v s) = queued s"
  using length_fold_list_update [of "\<lambda>i. i" "\<lambda>_. v" "is" "slot_states s"] by (simp_all add: set_states_def)

lemma slots_inv_init: "slots_inv avc_frame_slots_init"
  by (simp add: slots_inv_def avc_frame_slots_init_def)

text \<open>Handing slots from one owner to another that is not the queue keeps the invariant.\<close>

lemma slots_inv_set_states:
  assumes "slots_inv s" "v \<noteq> AVC_SLOT_QUEUED"
    and "\<And>i. i \<in> set is \<Longrightarrow> i < AVC_FRAME_SLOTS \<Longrightarrow> slot_states s ! i \<noteq> AVC_SLOT_QUEUED"
  shows "slots_inv (set_states is v s)"
  using assms by (auto simp: slots_inv_def nth_set_states)

lemma slots_inv_dequeue:
  assumes "slots_inv s" "0 \<le> queued s" "v \<noteq> AVC_SLOT_QUEUED"
  shows "slots_inv (set_states [nat (queued s)] v (s\<lparr>queued := -1\<rparr>))"
  using assms by (auto simp: slots_inv_def nth_set_states)

lemma slots_inv_enqueue:
  assumes "slots_inv s" "queued s = -1" "slot < AVC_FRAME_SLOTS"
  shows "slots_inv (set_states [slot] AVC_SLOT_QUEUED (s\<lparr>queued := int slot,
     frame_id := (frame_id s)[slot := f], decoded_at_us := (decoded_at_us s)[slot := a]\<rparr>))"
  using assms by (auto simp: slots_inv_def nth_set_states)

lemma slots_inv_reserve: "slots_inv s \<Longrightarrow> slots_inv (snd (avc_frame_slots_reserve s))"
  unfolding avc_frame_slots_reserve_def Let_def
  by (auto intro!: slots_inv_set_states dest: in_set_takeD)

lemma slots_validD:
  assumes "slots_valid slots s" "i < 3"
  shows "nat (slots ! i) < AVC_FRAME_SLOTS" "slot_states s ! nat (slots ! i) = AVC_SLOT_WRITING"
    "int (nat (slots ! i)) = slots ! i"
proof -
  have "0 \<le> slots ! i \<and> slots ! i < 6 \<and> slot_states s ! nat (slots ! i) = AVC_SLOT_WRITING"
    using assms by (force simp: slots_valid_def)
  then show "nat (slots ! i) < AVC_FRAME_SLOTS" "slot_states s ! nat (slots ! i) = AVC_SLOT_WRITING"
    "int (nat (slots ! i)) = slots ! i" by auto
qed

lemma slots_inv_queue_newest:
  assumes "slots_inv s" "slot < AVC_FRAME_SLOTS"
  shows "slots_inv (queue_newest slot f a s)"
proof -
  define s1 where "s1 = (if queued s \<ge> 0 then set_states [nat (queued s)] AVC_SLOT_FREE (s\<lparr>queued := -1\<rparr>) else s)"
  have "slots_inv s1" "queued s1 = -1"
    using assms(1) slots_inv_dequeue [of s AVC_SLOT_FREE]
    by (auto simp: s1_def) (simp add: slots_inv_def)
  moreover have "queue_newest slot f a s = set_states [slot] AVC_SLOT_QUEUED (s1\<lparr>queued := int slot,
     frame_id := (frame_id s1)[slot := f], decoded_at_us := (decoded_at_us s1)[slot := a]\<rparr>)"
    by (simp add: queue_newest_def s1_def Let_def set_states_def)
  ultimately show ?thesis using slots_inv_enqueue assms(2) by simp
qed

lemma slots_inv_publish: "slots_inv s \<Longrightarrow> slots_inv (snd (avc_frame_slots_publish slots count ids ats s))"
  unfolding avc_frame_slots_publish_def Let_def
  by (auto intro!: slots_inv_queue_newest slots_inv_set_states simp: slots_validD)
    (use slots_validD in fastforce)+

lemma slots_inv_take: "slots_inv s \<Longrightarrow> slots_inv (snd (avc_frame_slots_take s))"
  unfolding avc_frame_slots_take_def Let_def
  by (auto intro: slots_inv_dequeue)

lemma slots_inv_release: "slots_inv s \<Longrightarrow> slots_inv (snd (avc_frame_slots_release slot s))"
  unfolding avc_frame_slots_release_def
  by (auto intro!: slots_inv_set_states)

subsection \<open>Properties\<close>

text \<open>What is queued for the display: a frame id and a decode time.\<close>

definition slots_newest :: "AvcFrameSlots \<Rightarrow> (u32 \<times> u32) option" where
  "slots_newest s = (if queued s < 0 then None
     else Some (frame_id s ! nat (queued s), decoded_at_us s ! nat (queued s)))"

text \<open>The operations as the two threads call them, with their results.\<close>

datatype slots_op = Reserve | Publish "int list" int "u32 list option" "u32 list option" | Take | Release int
datatype slots_result = Slots "int list option" | Status int | Picture "(int \<times> u32 \<times> u32) option"

fun slots_do :: "slots_op \<Rightarrow> AvcFrameSlots \<Rightarrow> slots_result \<times> AvcFrameSlots" where
  "slots_do Reserve s = (case avc_frame_slots_reserve s of (r, s) \<Rightarrow> (Slots r, s))"
| "slots_do (Publish slots count ids ats) s =
     (case avc_frame_slots_publish slots count ids ats s of (r, s) \<Rightarrow> (Status r, s))"
| "slots_do Take s = (case avc_frame_slots_take s of (r, s) \<Rightarrow> (Picture r, s))"
| "slots_do (Release slot) s = (case avc_frame_slots_release slot s of (r, s) \<Rightarrow> (Status r, s))"

text \<open>The mailbox: an accepted publication puts its last picture in, taking gets what is in, and nothing else has
  to do with it.\<close>

fun mailbox :: "slots_op \<Rightarrow> slots_result \<Rightarrow> (u32 \<times> u32) option \<Rightarrow> (u32 \<times> u32) option option" where
  "mailbox (Publish slots count ids ats) (Status r) m =
     Some (if r = 0 \<and> count \<noteq> 0 then Some (the ids ! nat (count - 1), the ats ! nat (count - 1)) else m)"
| "mailbox Take (Picture p) m = (if map_option snd p = m then Some None else None)"
| "mailbox Reserve (Slots r) m = Some m"
| "mailbox (Release slot) (Status r) m = Some m"
| "mailbox _ _ m = None"

lemma slots_newest_queue_newest:
  assumes "slots_inv s" "slot < AVC_FRAME_SLOTS"
  shows "slots_newest (queue_newest slot f a s) = Some (f, a)"
  using assms by (simp add: slots_newest_def queue_newest_def Let_def set_states_def slots_inv_def)

lemma publish_newest:
  assumes "slots_inv s" "fst (avc_frame_slots_publish slots count ids ats s) = 0"
  shows "slots_newest (snd (avc_frame_slots_publish slots count ids ats s)) =
     (if count = 0 then slots_newest s else Some (the ids ! nat (count - 1), the ats ! nat (count - 1)))"
proof -
  let ?s = "set_states (map (\<lambda>i. nat (slots ! i)) [0..<3]) AVC_SLOT_FREE s"
  have v: "slots_valid slots s" "0 \<le> count" "count \<le> 3"
    using assms(2) by (auto simp: avc_frame_slots_publish_def split: if_splits)
  have inv: "slots_inv ?s"
    using assms(1) slots_validD [OF v(1)] by (intro slots_inv_set_states) auto
  show ?thesis
  proof (cases "count = 0")
    case True
    then show ?thesis using v by (simp add: avc_frame_slots_publish_def Let_def slots_newest_def)
  next
    case False
    then have "nat (slots ! nat (count - 1)) < AVC_FRAME_SLOTS" using v by (intro slots_validD(1)) auto
    from slots_newest_queue_newest [OF inv this] show ?thesis
      using False assms(2) by (auto simp: avc_frame_slots_publish_def Let_def split: if_splits)
  qed
qed

lemma publish_refused: "fst (avc_frame_slots_publish slots count ids ats s) \<noteq> 0 \<Longrightarrow>
    snd (avc_frame_slots_publish slots count ids ats s) = s"
  by (auto simp: avc_frame_slots_publish_def Let_def split: if_splits)

lemma reserve_newest: "slots_newest (snd (avc_frame_slots_reserve s)) = slots_newest s"
  by (simp add: slots_newest_def avc_frame_slots_reserve_def Let_def)

lemma release_newest: "slots_newest (snd (avc_frame_slots_release slot s)) = slots_newest s"
  by (simp add: slots_newest_def avc_frame_slots_release_def)

interpretation frames: implements slots_inv slots_newest slots_do mailbox
proof unfold_locales
  fix s p r s' assume inv: "slots_inv s" and d: "slots_do p s = (r, s')"
  show "slots_inv s' \<and> mailbox p r (slots_newest s) = Some (slots_newest s')"
  proof (cases p)
    case Reserve
    then show ?thesis using d inv slots_inv_reserve [OF inv] reserve_newest [of s]
      by (auto split: prod.splits)
  next
    case (Publish slots count ids ats)
    obtain q where a: "avc_frame_slots_publish slots count ids ats s = (q, s')" "r = Status q"
      using d Publish by (auto split: prod.splits)
    show ?thesis
      using Publish a slots_inv_publish [OF inv, of slots count ids ats] publish_newest [OF inv, of slots count ids ats]
        publish_refused [of slots count ids ats s] by (cases "q = 0") auto
  next
    case Take
    then show ?thesis using d slots_inv_take [OF inv]
      by (auto simp: avc_frame_slots_take_def slots_newest_def Let_def split: if_splits)
  next
    case (Release slot)
    then show ?thesis using d slots_inv_release [OF inv, of slot] release_newest [of slot s]
      by (auto split: prod.splits)
  qed
qed

text \<open>Slots that change their owner only through a certain operation.\<close>

lemma do_writing:
  assumes "slots_inv s" "\<forall>slots count ids ats. p \<noteq> Publish slots count ids ats" "i < AVC_FRAME_SLOTS"
    and "slot_states s ! i = AVC_SLOT_WRITING"
  shows "slot_states (snd (slots_do p s)) ! i = AVC_SLOT_WRITING"
proof -
  have l: "length (slot_states s) = AVC_FRAME_SLOTS" using assms(1) by (simp add: slots_inv_def)
  have q: "0 \<le> queued s \<Longrightarrow> slot_states s ! nat (queued s) = AVC_SLOT_QUEUED" using assms(1) by (auto simp: slots_inv_def)
  have other: "slot_states (set_states is v (s\<lparr>queued := x\<rparr>)) ! i = AVC_SLOT_WRITING" if "i \<notin> set is" for "is" v x
    using that l assms(3,4) by (subst nth_set_states) auto
  have same: "slot_states (set_states is v s) ! i = AVC_SLOT_WRITING" if "i \<notin> set is \<or> v = AVC_SLOT_WRITING" for "is" v
    using that l assms(3,4) by (subst nth_set_states) auto
  show ?thesis
  proof (cases p)
    case Take
    have "i \<noteq> nat (queued s)" if "0 \<le> queued s" using q [OF that] assms(4) by auto
    then show ?thesis using Take other [of "[nat (queued s)]"] assms(4)
      by (auto simp: avc_frame_slots_take_def Let_def not_less)
  next
    case (Release slot)
    show ?thesis
    proof (cases "slot < 0 \<or> slot \<ge> int AVC_FRAME_SLOTS \<or> slot_states s ! nat slot \<noteq> AVC_SLOT_HELD")
      case True
      then have "avc_frame_slots_release slot s = (-1, s)" by (simp only: avc_frame_slots_release_def if_True)
      then show ?thesis using Release assms(4) by simp
    next
      case False
      then have "i \<noteq> nat slot" using assms(4) by auto
      moreover have "avc_frame_slots_release slot s = (0, set_states [nat slot] AVC_SLOT_FREE s)"
        using False by (simp only: avc_frame_slots_release_def if_False)
      ultimately show ?thesis using Release same [of "[nat slot]"] by simp
    qed
  next
    case Reserve
    then show ?thesis using same [of _ AVC_SLOT_WRITING] assms(4) by (simp add: avc_frame_slots_reserve_def Let_def)
  next
    case (Publish slots count ids ats)
    then show ?thesis using assms(2) by blast
  qed
qed

definition holds :: "nat \<Rightarrow> u32 \<Rightarrow> u32 \<Rightarrow> AvcFrameSlots \<Rightarrow> bool" where
  "holds i f a s \<longleftrightarrow> slot_states s ! i = AVC_SLOT_HELD \<and> frame_id s ! i = f \<and> decoded_at_us s ! i = a"

lemma holds_set_states:
  "holds i f a s \<Longrightarrow> i < length (slot_states s) \<Longrightarrow> i \<notin> set is \<Longrightarrow> holds i f a (set_states is v s)"
  by (simp add: holds_def nth_set_states)

lemma holds_queue_newest:
  assumes "holds i f a s" "slots_inv s" "i < AVC_FRAME_SLOTS" "slot \<noteq> i"
  shows "holds i f a (queue_newest slot g b s)"
proof -
  have l: "length (slot_states s) = AVC_FRAME_SLOTS" using assms(2) by (simp add: slots_inv_def)
  have "0 \<le> queued s \<Longrightarrow> nat (queued s) \<noteq> i" using assms(1-3) by (auto simp: holds_def slots_inv_def)
  then have "holds i f a (if queued s \<ge> 0 then set_states [nat (queued s)] AVC_SLOT_FREE s else s)"
    using holds_set_states assms(1,3) l by auto
  moreover define t where "t = (if queued s \<ge> 0 then set_states [nat (queued s)] AVC_SLOT_FREE s else s)"
  moreover have "holds i f a t \<Longrightarrow> holds i f a (t\<lparr>queued := int slot\<rparr>)" by (simp add: holds_def)
  moreover have "length (slot_states (t\<lparr>queued := int slot\<rparr>)) = AVC_FRAME_SLOTS" using l by (simp add: t_def)
  ultimately have "holds i f a (set_states [slot] AVC_SLOT_QUEUED (t\<lparr>queued := int slot\<rparr>))"
    using holds_set_states assms(3,4) by auto
  then show ?thesis using assms(4) by (simp add: queue_newest_def Let_def holds_def flip: t_def)
qed

lemma do_held:
  assumes inv: "slots_inv s" and h: "holds i f a s" and i: "i < AVC_FRAME_SLOTS" and p: "p \<noteq> Release (int i)"
  shows "holds i f a (snd (slots_do p s))"
proof -
  have l: "i < length (slot_states s)" using inv i by (simp add: slots_inv_def)
  show ?thesis
  proof (cases p)
    case Reserve
    have "i \<notin> set (take 3 (filter (\<lambda>i. slot_states s ! i = AVC_SLOT_FREE) [0..<AVC_FRAME_SLOTS]))"
      using h by (auto simp: holds_def dest: in_set_takeD)
    then show ?thesis using Reserve h holds_set_states [OF h l] by (simp add: avc_frame_slots_reserve_def Let_def)
  next
    case (Publish slots count ids ats)
    let ?is = "map (\<lambda>i. nat (slots ! i)) [0..<3]" and ?t = "\<lambda>s. set_states (map (\<lambda>i. nat (slots ! i)) [0..<3]) AVC_SLOT_FREE s"
    show ?thesis
    proof (cases "slots_valid slots s")
      case v: True
      have ne: "nat (slots ! k) \<noteq> i" if "k < 3" for k using slots_validD(2) [OF v that] h by (auto simp: holds_def)
      then have "i \<notin> set ?is" by force
      then have t: "holds i f a (?t s)" by (rule holds_set_states [OF h l])
      have "slots_inv (?t s)" using slots_validD [OF v] by (intro slots_inv_set_states [OF inv]) auto
      then have "holds i f a (queue_newest (nat (slots ! k)) g b (?t s))" if "k < 3" for k g b
        using holds_queue_newest [OF t _ i ne [OF that]] by blast
      then show ?thesis using Publish h t v by (auto simp: avc_frame_slots_publish_def Let_def)
    qed (use Publish h in \<open>auto simp: avc_frame_slots_publish_def\<close>)
  next
    case Take
    have "0 \<le> queued s \<Longrightarrow> nat (queued s) \<noteq> i" using inv h i by (auto simp: holds_def slots_inv_def)
    moreover have "holds i f a (s\<lparr>queued := -1\<rparr>)" using h by (simp add: holds_def)
    ultimately show ?thesis using Take h l holds_set_states [of i f a "s\<lparr>queued := -1\<rparr>"]
      by (auto simp: avc_frame_slots_take_def Let_def not_less)
  next
    case (Release slot)
    then have "0 \<le> slot \<Longrightarrow> nat slot \<noteq> i" using p by auto
    then show ?thesis using Release h holds_set_states [OF h l] by (auto simp: avc_frame_slots_release_def)
  qed
qed


lemma publish_writing:
  assumes "slots = map int found" "length found = 3" "distinct found" "\<forall>i\<in>set found. i < AVC_FRAME_SLOTS \<and> slot_states s ! i = AVC_SLOT_WRITING"
    and "0 \<le> count" "count \<le> 3"
  shows "fst (avc_frame_slots_publish slots count (Some ids) (Some ats) s) = 0"
proof -
  have "\<not> (slots ! i < 0 \<or> slots ! i \<ge> int AVC_FRAME_SLOTS \<or> slot_states s ! nat (slots ! i) \<noteq> AVC_SLOT_WRITING)" if "i < 3" for i
  proof -
    have "found ! i \<in> set found" "slots ! i = int (found ! i)" using that assms(1,2) by simp_all
    then show ?thesis using assms(4) by auto
  qed
  moreover have "slots ! i \<noteq> slots ! j" if "i < 3" "j < i" for i j
    using that assms(1-3) by (simp add: nth_eq_iff_index_eq)
  ultimately have "slots_valid slots s" unfolding slots_valid_def by (metis atLeastLessThan_iff)
  then show ?thesis using assms(5,6) by (auto simp: avc_frame_slots_publish_def Let_def)
qed

text \<open>The state behind a sequence of operations.\<close>

definition slots_after :: "slots_op list \<Rightarrow> AvcFrameSlots \<Rightarrow> AvcFrameSlots" where
  "slots_after ops s = snd (logged slots_do ops s)"

lemma slots_after_inv: "slots_inv s \<Longrightarrow> slots_inv (slots_after ops s)"
  using frames.run_follows [of s ops "fst (logged slots_do ops s)" "slots_after ops s"] by (simp add: slots_after_def)

lemma slots_do_inv: "slots_inv s \<Longrightarrow> slots_inv (snd (slots_do p s))"
  using slots_after_inv [of s "[p]"] by (simp add: slots_after_def case_prod_beta)

lemma after_writing:
  assumes "slots_inv s" "\<forall>p\<in>set ops. \<forall>slots count ids ats. p \<noteq> Publish slots count ids ats" "i < AVC_FRAME_SLOTS"
    and "slot_states s ! i = AVC_SLOT_WRITING"
  shows "slot_states (slots_after ops s) ! i = AVC_SLOT_WRITING"
  unfolding slots_after_def
  using logged_keeps [where I = "\<lambda>s. slots_inv s \<and> slot_states s ! i = AVC_SLOT_WRITING" and do = slots_do and ps = ops and s = s]
    do_writing slots_do_inv assms by blast

lemma after_held:
  assumes "slots_inv s" "holds i f a s" "i < AVC_FRAME_SLOTS" "Release (int i) \<notin> set ops"
  shows "holds i f a (slots_after ops s)"
  unfolding slots_after_def
  using logged_keeps [where I = "\<lambda>s. slots_inv s \<and> holds i f a s" and do = slots_do and ps = ops and s = s]
    do_held slots_do_inv assms by metis

lemma reserved:
  assumes "slots_inv s" "fst (avc_frame_slots_reserve s) = Some slots"
  obtains found where "slots = map int found" "length found = 3" "distinct found"
    "\<forall>i\<in>set found. i < AVC_FRAME_SLOTS \<and> slot_states (snd (avc_frame_slots_reserve s)) ! i = AVC_SLOT_WRITING"
proof -
  let ?f = "take 3 (filter (\<lambda>i. slot_states s ! i = AVC_SLOT_FREE) [0..<AVC_FRAME_SLOTS])"
  have l: "length (slot_states s) = AVC_FRAME_SLOTS" using assms(1) by (simp add: slots_inv_def)
  have f: "length ?f = 3" "slots = map int ?f" "snd (avc_frame_slots_reserve s) = set_states ?f AVC_SLOT_WRITING s"
    using assms(2) by (auto simp: avc_frame_slots_reserve_def Let_def split: if_splits)
  have less: "i < AVC_FRAME_SLOTS" if "i \<in> set ?f" for i using that by (auto dest: in_set_takeD)
  have writing: "slot_states (set_states ?f AVC_SLOT_WRITING s) ! i = AVC_SLOT_WRITING" if "i \<in> set ?f" for i
    using that less [OF that] l by (subst nth_set_states) (simp_all only: if_True)
  show thesis
  proof (rule that [OF f(2,1)])
    show "distinct ?f" by (intro distinct_take distinct_filter distinct_upt)
    show "\<forall>i\<in>set ?f. i < AVC_FRAME_SLOTS \<and> slot_states (snd (avc_frame_slots_reserve s)) ! i = AVC_SLOT_WRITING"
      unfolding f(3) using less writing by blast
  qed
qed

lemma taken_held:
  assumes "slots_inv s" "fst (avc_frame_slots_take s) = Some (k, f, a)"
  shows "nat k < AVC_FRAME_SLOTS" "0 \<le> k" "holds (nat k) f a (snd (avc_frame_slots_take s))"
  using assms nth_set_states [of "nat k" "s\<lparr>queued := -1\<rparr>" "[nat k]" AVC_SLOT_HELD]
  by (auto simp: avc_frame_slots_take_def slots_inv_def holds_def Let_def split: if_splits)

text \<open>The property C18: newest picture wins. In every sequence of reservations, publications, takings and releases
  from the start, each taking gets what a mailbox with one place holds then: the last picture of the last accepted
  publication that had one, if it was not taken before, and nothing otherwise. Besides, behind any such
  sequence: slots just reserved can be published, whatever is taken, released or reserved in between;
  and the slot handed to the display keeps its picture until the display releases it.\<close>

theorem slots_latest_wins:
  "follows mailbox (fst (logged slots_do ops avc_frame_slots_init)) None =
     Some (slots_newest (slots_after ops avc_frame_slots_init)) \<and>
   (let s = slots_after ops avc_frame_slots_init in
     (\<forall>slots more count ids ats. fst (avc_frame_slots_reserve s) = Some slots \<and>
        (\<forall>p\<in>set more. \<forall>slots count ids ats. p \<noteq> Publish slots count ids ats) \<and> 0 \<le> count \<and> count \<le> 3 \<longrightarrow>
        fst (avc_frame_slots_publish slots count (Some ids) (Some ats) (slots_after more (snd (avc_frame_slots_reserve s)))) = 0) \<and>
     (\<forall>k f a more. fst (avc_frame_slots_take s) = Some (k, f, a) \<and> Release k \<notin> set more \<longrightarrow>
        holds (nat k) f a (slots_after more (snd (avc_frame_slots_take s)))))"
proof -
  have n: "slots_newest avc_frame_slots_init = None" by (simp add: slots_newest_def avc_frame_slots_init_def)
  let ?s = "slots_after ops avc_frame_slots_init"
  have inv: "slots_inv ?s" by (rule slots_after_inv [OF slots_inv_init])
  have mail: "follows mailbox (fst (logged slots_do ops avc_frame_slots_init)) None = Some (slots_newest ?s)"
    using frames.run_follows [OF slots_inv_init, of ops] n by (metis prod.collapse slots_after_def)
  have pub: "fst (avc_frame_slots_publish slots count (Some ids) (Some ats) (slots_after more (snd (avc_frame_slots_reserve ?s)))) = 0"
    if r: "fst (avc_frame_slots_reserve ?s) = Some slots" and m: "\<forall>p\<in>set more. \<forall>slots count ids ats. p \<noteq> Publish slots count ids ats"
      and c: "0 \<le> count" "count \<le> 3" for slots more count ids ats
  proof -
    obtain found where f: "slots = map int found" "length found = 3" "distinct found"
      "\<forall>i\<in>set found. i < AVC_FRAME_SLOTS \<and> slot_states (snd (avc_frame_slots_reserve ?s)) ! i = AVC_SLOT_WRITING"
      using reserved [OF inv r] by blast
    then show ?thesis using after_writing [OF slots_inv_reserve [OF inv] m] c by (intro publish_writing) auto
  qed
  have held: "holds (nat k) f a (slots_after more (snd (avc_frame_slots_take ?s)))"
    if "fst (avc_frame_slots_take ?s) = Some (k, f, a)" "Release k \<notin> set more" for k f a more
    using taken_held [OF inv that(1)] that(2) by (intro after_held slots_inv_take [OF inv]) auto
  show ?thesis unfolding Let_def using mail pub held by blast
qed

text \<open>Two decodes are published; the display gets the second picture of the second one, then nothing.\<close>

definition two_decodes :: "slots_op list" where
  "two_decodes = [Reserve, Publish [0, 1, 2] 1 (Some [5, 0, 0]) (Some [50, 0, 0]), Reserve,
     Publish [1, 2, 3] 2 (Some [7, 8, 0]) (Some [70, 80, 0]), Take, Release 2, Take]"

theorem slots_latest_wins_witness:
  "map snd (fst (logged slots_do two_decodes avc_frame_slots_init)) =
     [Slots (Some [0, 1, 2]), Status 0, Slots (Some [1, 2, 3]), Status 0, Picture (Some (2, 8, 80)), Status 0, Picture None] \<and>
   follows mailbox (fst (logged slots_do two_decodes avc_frame_slots_init)) None = Some None"
proof -
  have "map snd (fst (logged slots_do two_decodes avc_frame_slots_init)) =
     [Slots (Some [0, 1, 2]), Status 0, Slots (Some [1, 2, 3]), Status 0, Picture (Some (2, 8, 80)), Status 0, Picture None]"
    by code_simp
  moreover have "slots_newest (slots_after two_decodes avc_frame_slots_init) = None" by code_simp
  ultimately show ?thesis using slots_latest_wins [of two_decodes] by simp
qed

text \<open>The property C19: whenever no decode is in progress and the display holds at most two
  pictures, the decoder can reserve three slots; they are distinct and were free, so neither the
  queued picture nor a held one is overwritten.\<close>

theorem slots_reserve_available:
  assumes "slots_inv s" "\<forall>i<AVC_FRAME_SLOTS. slot_states s ! i \<noteq> AVC_SLOT_WRITING"
    and "card {i. i < AVC_FRAME_SLOTS \<and> slot_states s ! i = AVC_SLOT_HELD} \<le> 2"
  shows "\<exists>slots. fst (avc_frame_slots_reserve s) = Some (map int slots) \<and> length slots = 3 \<and> distinct slots \<and>
    (\<forall>i\<in>set slots. i < AVC_FRAME_SLOTS \<and> slot_states s ! i = AVC_SLOT_FREE \<and>
       slot_states (snd (avc_frame_slots_reserve s)) ! i = AVC_SLOT_WRITING) \<and>
    (\<forall>i<AVC_FRAME_SLOTS. i \<notin> set slots \<longrightarrow>
       slot_states (snd (avc_frame_slots_reserve s)) ! i = slot_states s ! i)"
proof -
  let ?H = "{i. i < AVC_FRAME_SLOTS \<and> slot_states s ! i = AVC_SLOT_HELD}"
  let ?F = "filter (\<lambda>i. slot_states s ! i = AVC_SLOT_FREE) [0..<AVC_FRAME_SLOTS]"
  have len: "length (slot_states s) = AVC_FRAME_SLOTS" using assms(1) by (simp add: slots_inv_def)
  have "{0..<AVC_FRAME_SLOTS} \<subseteq> set ?F \<union> (?H \<union> {nat (queued s)})"
  proof
    fix i assume i: "i \<in> {0..<AVC_FRAME_SLOTS}"
    show "i \<in> set ?F \<union> (?H \<union> {nat (queued s)})"
      using i assms(1,2) by (cases "slot_states s ! i") (auto simp: slots_inv_def)
  qed
  from card_mono [OF _ this] have "6 \<le> card (set ?F \<union> (?H \<union> {nat (queued s)}))" by simp
  also have "\<dots> \<le> card (set ?F) + (card ?H + card {nat (queued s)})"
    by (meson add_left_mono card_Un_le order_trans)
  finally have "3 \<le> card (set ?F)" using assms(3) by simp
  moreover have "card (set ?F) = length ?F" by (intro distinct_card) simp
  ultimately have l: "length (take 3 ?F) = 3" by simp
  moreover have "distinct (take 3 ?F)" by simp
  moreover have "\<forall>i\<in>set (take 3 ?F). i < AVC_FRAME_SLOTS \<and> slot_states s ! i = AVC_SLOT_FREE"
    by (auto dest: in_set_takeD)
  moreover have "fst (avc_frame_slots_reserve s) = Some (map int (take 3 ?F))"
    "snd (avc_frame_slots_reserve s) = set_states (take 3 ?F) AVC_SLOT_WRITING s"
    using l by (simp_all only: avc_frame_slots_reserve_def Let_def) simp_all
  ultimately obtain L where "length L = 3" "distinct L"
    and L: "\<forall>i\<in>set L. i < AVC_FRAME_SLOTS \<and> slot_states s ! i = AVC_SLOT_FREE"
      "fst (avc_frame_slots_reserve s) = Some (map int L)"
      "snd (avc_frame_slots_reserve s) = set_states L AVC_SLOT_WRITING s" by blast
  then show ?thesis
    using nth_set_states [of _ s L AVC_SLOT_WRITING] len by auto
qed

theorem slots_reserve_available_witness:
  "\<exists>slots. fst (avc_frame_slots_reserve avc_frame_slots_init) = Some (map int slots) \<and> length slots = 3"
proof -
  have none: "slot_states avc_frame_slots_init ! i = AVC_SLOT_FREE" if "i < AVC_FRAME_SLOTS" for i
    using that by (simp add: avc_frame_slots_init_def)
  have "{i. i < AVC_FRAME_SLOTS \<and> slot_states avc_frame_slots_init ! i = AVC_SLOT_HELD} = {}"
    using none by auto
  then have "card {i. i < AVC_FRAME_SLOTS \<and> slot_states avc_frame_slots_init ! i = AVC_SLOT_HELD} \<le> 2"
    by (metis card.empty zero_le)
  from slots_reserve_available [OF slots_inv_init _ this] none show ?thesis by auto
qed

end
