(* ===== verification/AvcPacketizer.thy ===== *)
theory AvcPacketizer
  imports Prelude
begin

text \<open>
  The access unit packetizer \<open>src/src/avc_packetizer.c\<close>: an Annex-B byte stream (NAL units behind
  start codes) becomes length-prefixed slice data for the hardware decoder, and the parameter
  sets are picked out.

  A borrowed span (\<open>sps\<close>, \<open>pps\<close>) is the list of its bytes; NULL with size 0 is the empty list.
  The destination buffer is the list of the bytes written so far, with its capacity beside it.
  \<open>Inl\<close> is a negative return code; the caller then finds a zeroed result and does not use the
  destination bytes, so they are not part of the error value.
\<close>

subsection \<open>Start codes\<close>

definition start_code :: "u8 list \<Rightarrow> nat \<Rightarrow> nat" where
  "start_code p at =
     (let n = length p in
      if at \<ge> n \<or> n - at < 3 \<or> p ! at \<noteq> 0 \<or> p ! (at + 1) \<noteq> 0 then 0
      else if p ! (at + 2) = 1 then 3
      else if n - at \<ge> 4 \<and> p ! (at + 2) = 0 \<and> p ! (at + 3) = 1 then 4
      else 0)"

record AvcPacketizedAu =
  sps :: "u8 list"
  pps :: "u8 list"
  avcc_size :: nat
  has_idr :: bool
  has_predictive :: bool

definition au_zero :: AvcPacketizedAu where
  "au_zero = \<lparr>sps = [], pps = [], avcc_size = 0, has_idr = False, has_predictive = False\<rparr>"

text \<open>The loop before the first start code: only zero bytes may be skipped; \<open>None\<close> is the return
  of \<open>-2\<close>.\<close>

function skip_leading :: "u8 list \<Rightarrow> nat \<Rightarrow> nat option" where
  "skip_leading src p =
     (if p < length src \<and> start_code src p = 0
      then (if src ! p \<noteq> 0 then None else skip_leading src (p + 1))
      else Some p)"
  by pat_completeness auto
termination by (relation "measure (\<lambda>(src, p). length src - p)") auto

text \<open>The end of the NAL unit: the next start code or the end of the buffer, without the zero
  bytes before it.\<close>

function find_end :: "u8 list \<Rightarrow> nat \<Rightarrow> nat" where
  "find_end src e = (if e < length src \<and> start_code src e = 0 then find_end src (e + 1) else e)"
  by pat_completeness auto
termination by (relation "measure (\<lambda>(src, e). length src - e)") auto

fun trim_end :: "u8 list \<Rightarrow> nat \<Rightarrow> nat \<Rightarrow> nat" where
  "trim_end src begn e = (if e > begn \<and> src ! (e - 1) = 0 then trim_end src begn (e - 1) else e)"

declare skip_leading.simps [simp del] find_end.simps [simp del] trim_end.simps [simp del]

lemma find_end_bounds: "e \<le> find_end src e" "e \<le> length src \<Longrightarrow> find_end src e \<le> length src"
proof (induction src e rule: find_end.induct)
  case (1 src e)
  {
    case 1
    then show ?case using "1.IH"(1) by (subst find_end.simps) auto
  next
    case 2
    then show ?case using "1.IH"(2) by (subst find_end.simps) auto
  }
qed

subsection \<open>The loop over the NAL units\<close>

text \<open>The four bytes of a NAL unit's length, most significant first.\<close>

definition length_prefix :: "nat \<Rightarrow> u8 list" where
  "length_prefix len = (let w = of_nat len :: u32 in
     [ucast (drop_bit 24 w), ucast (drop_bit 16 w), ucast (drop_bit 8 w), ucast w])"

lemma length_length_prefix [simp]: "length (length_prefix len) = 4"
  by (simp add: length_prefix_def Let_def)

text \<open>What is done with one NAL unit; \<open>Inl\<close> is an error code.\<close>

definition packetize_nal :: "u8 list \<Rightarrow> nat \<Rightarrow> u8 list \<Rightarrow> AvcPacketizedAu \<Rightarrow> int + u8 list \<times> AvcPacketizedAu" where
  "packetize_nal nal cap out r =
     (let len = length nal; used = length out in
      if len = 0 \<or> nal ! 0 AND 0x80 \<noteq> 0 then Inl (-3)
      else let type = nal ! 0 AND 31 in
        if type = 7 then Inr (out, r\<lparr>sps := nal\<rparr>)
        else if type = 8 then Inr (out, r\<lparr>pps := nal\<rparr>)
        else if type = 1 \<or> type = 5 then
          (if len > 0xffffffff \<or> used > cap \<or> cap - used < 4 \<or> len > cap - used - 4 then Inl (-4)
           else Inr (out @ length_prefix len @ nal,
                  r\<lparr>has_idr := has_idr r \<or> type = 5, has_predictive := has_predictive r \<or> type = 1\<rparr>))
        else if type \<noteq> 6 \<and> type \<noteq> 9 \<and> type \<noteq> 10 \<and> type \<noteq> 11 \<and> type \<noteq> 12 then Inl (-5)
        else Inr (out, r))"

function packetize_loop :: "u8 list \<Rightarrow> nat \<Rightarrow> nat \<Rightarrow> u8 list \<Rightarrow> AvcPacketizedAu \<Rightarrow> bool \<Rightarrow>
    int + u8 list \<times> AvcPacketizedAu \<times> bool" where
  "packetize_loop src cap p out r seen =
     (if p < length src then
        (let k = start_code src p in
         if k = 0 then Inl (-2)
         else let begn = p + k; p = find_end src begn; e = trim_end src begn p in
           case packetize_nal (take (e - begn) (drop begn src)) cap out r of
             Inl c \<Rightarrow> Inl c
           | Inr (out, r) \<Rightarrow> packetize_loop src cap p out r True)
      else Inr (out, r, seen))"
  by pat_completeness auto
termination
proof (relation "measure (\<lambda>(src, cap, p, out, r, seen). length src - p)", goal_cases)
  case (2 src cap p out r seen k begn p' e y out' r')
  then have "p < begn" "begn \<le> p'" using find_end_bounds(1) by auto
  with 2 show ?case by simp
qed simp

declare packetize_loop.simps [simp del]

definition avc_packetize :: "u8 list \<Rightarrow> nat \<Rightarrow> int + u8 list \<times> AvcPacketizedAu" where
  "avc_packetize src cap =
     (if length src = 0 then Inl (-1)
      else case skip_leading src 0 of
        None \<Rightarrow> Inl (-2)
      | Some p \<Rightarrow>
          (case packetize_loop src cap p [] au_zero False of
             Inl c \<Rightarrow> Inl c
           | Inr (out, r, seen) \<Rightarrow>
               if \<not> seen \<or> (has_idr r \<and> has_predictive r) then Inl (-6)
               else Inr (out, r\<lparr>avcc_size := length out\<rparr>)))"

subsection \<open>Start codes as prefixes\<close>

fun sc_prefix :: "u8 list \<Rightarrow> nat" where
  "sc_prefix (a # b # c # d # xs) =
     (if a \<noteq> 0 \<or> b \<noteq> 0 then 0 else if c = 1 then 3 else if c = 0 \<and> d = 1 then 4 else 0)"
| "sc_prefix [a, b, c] = (if a = 0 \<and> b = 0 \<and> c = 1 then 3 else 0)"
| "sc_prefix _ = 0"

lemma sc_prefix_three [simp]: "sc_prefix (0 # 0 # 1 # xs) = 3"
  by (cases xs) simp_all

lemma sc_prefix_four [simp]: "sc_prefix (0 # 0 # 0 # 1 # xs) = 4"
  by simp

lemma nth_of_drop: "drop p xs = ys \<Longrightarrow> i < length ys \<Longrightarrow> xs ! (p + i) = ys ! i"
  by auto

lemma start_code_drop: "start_code src p = sc_prefix (drop p src)"
proof -
  have "start_code src p = sc_prefix xs" if d: "drop p src = xs" for xs
  proof -
    have n: "length src - p = length xs" using d by auto
    note nth = nth_of_drop [OF d]
    show ?thesis
    proof (cases xs rule: sc_prefix.cases)
      case (1 a b c d xs')
      then have "src ! p = a" "src ! (p + 1) = b" "src ! (p + 2) = c" "src ! (p + 3) = d"
        using nth [of 0] nth [of 1] nth [of 2] nth [of 3] by simp_all
      moreover have "p < length src" using n 1 by simp
      ultimately show ?thesis using n 1 by (simp add: start_code_def Let_def)
    next
      case (2 a b c)
      then have "src ! p = a" "src ! (p + 1) = b" "src ! (p + 2) = c"
        using nth [of 0] nth [of 1] nth [of 2] by simp_all
      moreover have "p < length src" using n 2 by simp
      ultimately show ?thesis using n 2 by (simp add: start_code_def Let_def)
    qed (use n in \<open>auto simp: start_code_def Let_def\<close>)
  qed
  then show ?thesis by simp
qed

lemma zeros_prefix:
  "sc_prefix (replicate z 0 @ [0, 0, 1] @ rest) = (if z = 0 then 3 else if z = 1 then 4 else 0)"
proof (cases z)
  case (Suc m)
  then show ?thesis
  proof (cases m)
    case (Suc k)
    with \<open>z = Suc m\<close> show ?thesis by (cases k; cases "k - 1") simp_all
  qed simp
qed simp

definition no_start_code :: "u8 list \<Rightarrow> bool" where
  "no_start_code xs \<longleftrightarrow> (\<forall>i<length xs. start_code xs i = 0)"

lemma no_start_code_code [code]: "no_start_code xs = list_all (\<lambda>i. start_code xs i = 0) [0..<length xs]"
  by (auto simp: no_start_code_def list_all_iff)

lemma no_start_code_Cons: "no_start_code (x # xs) \<Longrightarrow> no_start_code xs \<and> sc_prefix (x # xs) = 0"
  by (force simp: no_start_code_def start_code_drop)

lemma sc_prefix_append:
  assumes "sc_prefix xs = 0" "xs \<noteq> []" "last xs \<noteq> 0"
  shows "sc_prefix (xs @ ys) = 0"
  using assms
  by (cases xs rule: sc_prefix.cases; cases ys rule: sc_prefix.cases) (auto split: if_splits)

text \<open>What follows a NAL unit: zero bytes and the next start code, or only zero bytes.\<close>

definition tail_ok :: "u8 list \<Rightarrow> bool" where
  "tail_ok rest \<longleftrightarrow> rest = [] \<or> (\<exists>xs. rest = 0 # 0 # 1 # xs)"

lemma find_end_zeros:
  assumes "drop e src = replicate z 0 @ rest" "tail_ok rest" "e \<le> length src"
  shows "find_end src e = (if rest = [] then length src else e + (z - 1))"
  using assms
proof (induction z arbitrary: e)
  case 0
  then show ?case
    by (subst find_end.simps) (auto simp: tail_ok_def start_code_drop Suc_le_eq)
next
  case (Suc z)
  then have e: "e < length src" by (metis drop_all length_Cons length_0_conv append_Cons list.distinct(1) not_less replicate_Suc)
  from Suc.prems(1) have d: "drop (Suc e) src = replicate z 0 @ rest"
    by (metis drop_Suc tl_drop list.sel(3) append_Cons replicate_Suc)
  show ?case
  proof (cases "sc_prefix (drop e src) = 0")
    case True
    then have "find_end src e = find_end src (Suc e)" using e by (subst find_end.simps) (simp add: start_code_drop)
    moreover have "z \<noteq> 0" if "rest \<noteq> []"
      using True that Suc.prems(1,2) by (cases z) (auto simp: tail_ok_def)
    ultimately show ?thesis using Suc.IH [OF d Suc.prems(2)] e by auto
  next
    case False
    have "rest \<noteq> [] \<and> z = 0"
    proof (rule ccontr)
      assume "\<not> (rest \<noteq> [] \<and> z = 0)"
      then have "sc_prefix (0 # replicate z 0 @ rest) = 0"
        using Suc.prems(2) by (cases z; cases "z - 1"; cases "z - 2") (auto simp: tail_ok_def)
      then show False using False Suc.prems(1) by simp
    qed
    then show ?thesis using False e by (subst find_end.simps) (simp add: start_code_drop)
  qed
qed

lemma find_end_nal:
  assumes "drop e src = nal @ replicate z 0 @ rest" "nal \<noteq> []" "last nal \<noteq> 0" "no_start_code nal"
    "tail_ok rest"
  shows "find_end src e = (if rest = [] then length src else e + length nal + (z - 1))"
  using assms
proof (induction nal arbitrary: e)
  case (Cons x nal)
  have e: "e < length src" using Cons.prems(1) by (metis append_Cons drop_all list.distinct(1) not_less)
  have d: "drop (Suc e) src = nal @ replicate z 0 @ rest"
    using Cons.prems(1) by (metis append_Cons drop_Suc list.sel(3) tl_drop)
  have "start_code src e = 0"
    using sc_prefix_append [of "x # nal"] Cons.prems no_start_code_Cons [OF Cons.prems(4)]
    by (simp add: start_code_drop)
  then have f: "find_end src e = find_end src (Suc e)" using e by (subst find_end.simps) simp
  show ?case
  proof (cases "nal = []")
    case True
    then show ?thesis using f find_end_zeros [of "Suc e" src z rest] d Cons.prems(5) e by simp
  next
    case False
    then show ?thesis
      using f Cons.IH [OF d False _ _ Cons.prems(5)] Cons.prems no_start_code_Cons [OF Cons.prems(4)] by simp
  qed
qed simp

lemma trim_end_nal:
  assumes "drop b src = nal @ replicate z 0 @ rest" "nal \<noteq> []" "last nal \<noteq> 0" "k \<le> z"
  shows "trim_end src b (b + length nal + k) = b + length nal"
proof -
  have nth: "src ! (b + i) = (nal @ replicate z 0 @ rest) ! i" if "i < length nal + z" for i
    using nth_of_drop [OF assms(1), of i] that by simp
  show ?thesis
    using assms(4)
  proof (induction k)
    case 0
    have "src ! (b + (length nal - 1)) = last nal"
      using nth [of "length nal - 1"] assms(2) by (cases nal) (simp_all add: nth_append last_conv_nth)
    moreover have "b + length nal - 1 = b + (length nal - 1)" using assms(2) by (cases nal) auto
    ultimately show ?case using assms(3) by (subst trim_end.simps) simp
  next
    case (Suc k)
    have "src ! (b + (length nal + k)) = 0" using nth [of "length nal + k"] Suc.prems by (simp add: nth_append)
    then show ?case using Suc by (subst trim_end.simps) (simp add: add.assoc)
  qed
qed

subsection \<open>Packetizing an Annex-B stream\<close>

text \<open>A NAL unit that an encoder may put in the stream: it does not end in a zero byte, holds no
  start code (emulation prevention) and its type is one the decoder passes on.\<close>

definition nal_type :: "u8 list \<Rightarrow> u8" where
  "nal_type nal = nal ! 0 AND 31"

definition nal_ok :: "u8 list \<Rightarrow> bool" where
  "nal_ok nal \<longleftrightarrow> nal \<noteq> [] \<and> last nal \<noteq> 0 \<and> nal ! 0 AND 0x80 = 0 \<and> no_start_code nal \<and>
     nal_type nal \<in> {1, 5, 6, 7, 8, 9, 10, 11, 12} \<and> length nal \<le> 0xffffffff"

text \<open>A NAL unit behind a start code with \<open>z\<close> leading zero bytes more than two.\<close>

definition annexb_unit :: "nat \<times> u8 list \<Rightarrow> u8 list" where
  "annexb_unit = (\<lambda>(z, nal). replicate z 0 @ [0, 0, 1] @ nal)"

definition annexb :: "(nat \<times> u8 list) list \<Rightarrow> nat \<Rightarrow> u8 list" where
  "annexb units tz = concat (map annexb_unit units) @ replicate tz 0"

definition is_slice :: "u8 list \<Rightarrow> bool" where
  "is_slice nal \<longleftrightarrow> nal_type nal = 1 \<or> nal_type nal = 5"

text \<open>What the packetizer should produce: every slice behind its length.\<close>

definition avcc :: "u8 list list \<Rightarrow> u8 list" where
  "avcc nals = concat (map (\<lambda>nal. length_prefix (length nal) @ nal) (filter is_slice nals))"

definition au_of :: "u8 list list \<Rightarrow> AvcPacketizedAu \<Rightarrow> AvcPacketizedAu" where
  "au_of nals r = fold (\<lambda>nal r.
     if nal_type nal = 7 then r\<lparr>sps := nal\<rparr> else if nal_type nal = 8 then r\<lparr>pps := nal\<rparr>
     else if is_slice nal then r\<lparr>has_idr := has_idr r \<or> nal_type nal = 5,
       has_predictive := has_predictive r \<or> nal_type nal = 1\<rparr> else r) nals r"

lemma au_of_flags:
  "has_idr (au_of ns r) \<longleftrightarrow> has_idr r \<or> (\<exists>n\<in>set ns. nal_type n = 5)"
  "has_predictive (au_of ns r) \<longleftrightarrow> has_predictive r \<or> (\<exists>n\<in>set ns. nal_type n = 1)"
  unfolding au_of_def by (induction ns arbitrary: r) (simp_all add: is_slice_def)

lemma avcc_Cons: "avcc (nal # nals) = (if is_slice nal then length_prefix (length nal) @ nal else []) @ avcc nals"
  by (simp add: avcc_def)

lemma packetize_nal_ok:
  assumes "nal_ok nal" "is_slice nal \<longrightarrow> length out + 4 + length nal \<le> cap"
  shows "packetize_nal nal cap out r =
    Inr (out @ (if is_slice nal then length_prefix (length nal) @ nal else []), au_of [nal] r)"
  using assms
  by (auto simp: packetize_nal_def nal_ok_def Let_def nal_type_def is_slice_def au_of_def)

text \<open>The part of the stream that follows a NAL unit: zero bytes of the next start code, or the
  trailing zeros of the stream.\<close>

lemma annexb_split:
  obtains z rest where "annexb units tz = replicate z 0 @ rest" "tail_ok rest"
    "units = [] \<Longrightarrow> rest = []"
    "\<And>z' nal us. units = (z', nal) # us \<Longrightarrow> z' = z \<and> rest = [0, 0, 1] @ nal @ annexb us tz"
proof (cases units)
  case Nil
  then show ?thesis by (intro that [of tz "[]"]) (auto simp: annexb_def tail_ok_def)
next
  case (Cons u us)
  then show ?thesis
    by (intro that [of "fst u" "[0, 0, 1] @ snd u @ annexb us tz"])
      (auto simp: annexb_def annexb_unit_def tail_ok_def split: prod.splits)
qed

lemma drop_plus: "drop p xs = a @ b \<Longrightarrow> drop (p + length a) xs = b"
  by (metis add.commute append_eq_conv_conj drop_drop)

text \<open>One NAL unit, with the loop standing on its start code.\<close>

lemma packetize_loop_unit:
  assumes d: "drop p src = sc @ nal @ replicate z 0 @ rest" and sc: "sc \<in> {[0, 0, 1], [0, 0, 0, 1]}"
    and ok: "nal_ok nal" "tail_ok rest" and cap: "is_slice nal \<longrightarrow> length out + 4 + length nal \<le> cap"
  shows "packetize_loop src cap p out r seen =
     packetize_loop src cap (if rest = [] then length src else p + length sc + length nal + (z - 1))
       (out @ (if is_slice nal then length_prefix (length nal) @ nal else [])) (au_of [nal] r) True"
proof -
  have k: "start_code src p = length sc" "start_code src p \<noteq> 0" using sc d by (auto simp: start_code_drop)
  have p: "p < length src" using d sc by (metis append_is_Nil_conv drop_all insertE list.distinct(1) not_less singletonD)
  have d2: "drop (p + length sc) src = nal @ replicate z 0 @ rest" by (rule drop_plus [OF d])
  have nal: "nal \<noteq> []" "last nal \<noteq> 0" "no_start_code nal" using ok(1) by (auto simp: nal_ok_def)
  note e = find_end_nal [OF d2 nal ok(2)]
  have len: "length src = p + length sc + length nal + z + length rest"
    using arg_cong [OF d, of length] p by simp
  have "find_end src (p + length sc) = p + length sc + length nal + (if rest = [] then z else z - 1)"
    using e len by auto
  then have t: "trim_end src (p + length sc) (find_end src (p + length sc)) = p + length sc + length nal"
    using trim_end_nal [OF d2 nal(1,2), of "if rest = [] then z else z - 1"] by simp
  have nt: "take (p + length sc + length nal - (p + length sc)) (drop (p + length sc) src) = nal"
    by (simp add: d2)
  have "packetize_loop src cap p out r seen =
     packetize_loop src cap (find_end src (p + length sc))
       (out @ (if is_slice nal then length_prefix (length nal) @ nal else [])) (au_of [nal] r) True"
    by (subst packetize_loop.simps, unfold Let_def k(1) t nt packetize_nal_ok [OF ok(1) cap, of r])
      (use p k in simp)
  then show ?thesis unfolding e .
qed

text \<open>The zero bytes before a start code, read as zero bytes before the start code the code finds.\<close>

definition found_code :: "nat \<Rightarrow> u8 list" where
  "found_code z = (if z = 0 then [0, 0, 1] else [0, 0, 0, 1])"

lemma zeros_start_code: "replicate z (0::u8) @ [0, 0, 1] = replicate (z - 1) 0 @ found_code z"
proof (cases z)
  case (Suc n)
  then show ?thesis
    by (simp only: found_code_def replicate_Suc append_Cons append_Nil replicate_app_Cons_same diff_Suc_1
        nat.distinct(2) if_False)
qed (simp add: found_code_def)

lemma packetize_loop_annexb:
  assumes "drop p src = sc @ nal @ annexb units tz" "sc \<in> {[0, 0, 1], [0, 0, 0, 1]}"
    and "\<forall>n\<in>set (nal # map snd units). nal_ok n" "length out + length (avcc (nal # map snd units)) \<le> cap"
  shows "packetize_loop src cap p out r seen =
     Inr (out @ avcc (nal # map snd units), au_of (nal # map snd units) r, True)"
  using assms
proof (induction units arbitrary: p sc nal out r seen)
  case Nil
  have "packetize_loop src cap p out r seen = packetize_loop src cap (length src)
       (out @ (if is_slice nal then length_prefix (length nal) @ nal else [])) (au_of [nal] r) True"
    using packetize_loop_unit [of p src sc nal tz "[]" out cap r seen] Nil
    by (auto simp: annexb_def tail_ok_def avcc_Cons)
  then show ?case by (subst (asm) (2) packetize_loop.simps) (simp add: avcc_def)
next
  case (Cons u units)
  obtain z nal2 where u: "u = (z, nal2)" by fastforce
  let ?rest = "[0, 0, 1] @ nal2 @ annexb units tz"
  let ?out = "out @ (if is_slice nal then length_prefix (length nal) @ nal else [])"
  have d: "drop p src = sc @ nal @ replicate z 0 @ ?rest"
    using Cons.prems(1) by (simp add: u annexb_def annexb_unit_def)
  have step: "packetize_loop src cap p out r seen =
      packetize_loop src cap (p + length sc + length nal + (z - 1)) ?out (au_of [nal] r) True"
    using packetize_loop_unit [OF d Cons.prems(2), of out cap r seen] Cons.prems(3,4)
    by (auto simp: tail_ok_def avcc_Cons)
  define sc2 where "sc2 = found_code z"
  have "replicate z (0::u8) @ [0, 0, 1] = replicate (z - 1) 0 @ sc2"
    unfolding sc2_def by (rule zeros_start_code)
  then have "drop p src = (sc @ nal @ replicate (z - 1) 0) @ sc2 @ nal2 @ annexb units tz"
    using d by (metis append.assoc)
  from drop_plus [OF this]
  have d2: "drop (p + length sc + length nal + (z - 1)) src = sc2 @ nal2 @ annexb units tz"
    by (simp add: add.assoc)
  have "packetize_loop src cap (p + length sc + length nal + (z - 1)) ?out (au_of [nal] r) True =
      Inr (?out @ avcc (nal2 # map snd units), au_of (nal2 # map snd units) (au_of [nal] r), True)"
    using Cons.prems(3,4) by (intro Cons.IH [OF d2]) (auto simp: sc2_def found_code_def u avcc_Cons)
  then show ?case unfolding step by (simp add: u avcc_Cons au_of_def)
qed

lemma skip_leading_zeros:
  assumes "drop p src = replicate z 0 @ [0, 0, 1] @ rest"
  shows "skip_leading src p = Some (p + (z - 1))"
  using assms
proof (induction z arbitrary: p)
  case 0
  then show ?case by (subst skip_leading.simps) (simp add: start_code_drop)
next
  case (Suc z)
  have d: "drop (Suc p) src = replicate z 0 @ [0, 0, 1] @ rest"
    using drop_plus [of p src "[0]"] Suc.prems by simp
  have "p < length src" "src ! p = 0"
    using Suc.prems nth_of_drop [OF Suc.prems, of 0] by (auto simp: not_le intro: ccontr)
  moreover have "start_code src p = 0 \<longleftrightarrow> z \<noteq> 0"
    using Suc.prems zeros_prefix [of "Suc z" rest] by (simp add: start_code_drop)
  ultimately show ?case
    using Suc.IH [OF d] by (subst skip_leading.simps) auto
qed

text \<open>The property C20: the packetizer on a well-formed stream of at least one NAL unit, with any
  number of zero bytes before the start codes and at the end. Every slice is output behind its
  length, in order; the other NAL units only leave their parameter sets.\<close>

theorem avc_packetize_annexb:
  assumes "nals \<noteq> []" "\<forall>n\<in>set nals. nal_ok n" "length zs = length nals"
    and "length (avcc nals) \<le> cap" "\<not> ((\<exists>n\<in>set nals. nal_type n = 5) \<and> (\<exists>n\<in>set nals. nal_type n = 1))"
  shows "avc_packetize (annexb (zip zs nals) tz) cap =
    Inr (avcc nals, (au_of nals au_zero)\<lparr>avcc_size := length (avcc nals)\<rparr>)"
proof -
  obtain z zs' nal nals' where l: "zs = z # zs'" "nals = nal # nals'"
    using assms(1,3) by (cases zs; cases nals) auto
  let ?src = "annexb (zip zs nals) tz" and ?units = "zip zs' nals'"
  have nals': "map snd ?units = nals'" using assms(3) l by simp
  have src: "?src = replicate z 0 @ [0, 0, 1] @ nal @ annexb ?units tz"
    by (simp add: l annexb_def annexb_unit_def)
  define sc where "sc = found_code z"
  have z1: "replicate z (0::u8) @ [0, 0, 1] = replicate (z - 1) 0 @ sc"
    unfolding sc_def by (rule zeros_start_code)
  have "?src = (replicate z 0 @ [0, 0, 1]) @ nal @ annexb ?units tz" by (simp add: src)
  also have "\<dots> = replicate (z - 1) 0 @ sc @ nal @ annexb ?units tz" unfolding z1 by simp
  finally have d: "drop (z - 1) ?src = sc @ nal @ annexb ?units tz" by simp
  have sk: "skip_leading ?src 0 = Some (z - 1)"
    using skip_leading_zeros [of 0 ?src z "nal @ annexb ?units tz"] src by simp
  have lp: "packetize_loop ?src cap (z - 1) [] au_zero False = Inr (avcc nals, au_of nals au_zero, True)"
    using packetize_loop_annexb [OF d, of "[]" cap au_zero False] assms(2,4) nals' l
    by (simp add: sc_def found_code_def)
  have "\<not> (has_idr (au_of nals au_zero) \<and> has_predictive (au_of nals au_zero))"
    using assms(5) by (simp add: au_of_flags au_zero_def)
  moreover have "?src \<noteq> []" by (simp add: src)
  ultimately show ?thesis using sk lp by (simp add: avc_packetize_def)
qed

theorem avc_packetize_annexb_witness:
  "avc_packetize [0, 0, 0, 1, 0x67, 0x42, 0, 0, 1, 0x68, 0xce, 0, 0, 0, 1, 0x65, 0x88, 0x84, 0] 64 =
     Inr ([0, 0, 0, 3, 0x65, 0x88, 0x84],
          \<lparr>sps = [0x67, 0x42], pps = [0x68, 0xce], avcc_size = 7, has_idr = True, has_predictive = False\<rparr>)"
proof -
  let ?nals = "[[0x67, 0x42], [0x68, 0xce], [0x65, 0x88, 0x84]] :: u8 list list"
  have "no_start_code [0x67, 0x42]" "no_start_code [0x68, 0xce]" "no_start_code [0x65, 0x88, 0x84]"
    by code_simp+
  moreover have "nal_type [0x67, 0x42] = 7" "nal_type [0x68, 0xce] = 8" "nal_type [0x65, 0x88, 0x84] = 5" by code_simp+
  ultimately have ok: "\<forall>n\<in>set ?nals. nal_ok n" by (simp add: nal_ok_def)
  have a: "avcc ?nals = [0, 0, 0, 3, 0x65, 0x88, 0x84]" by code_simp
  have t: "\<not> ((\<exists>n\<in>set ?nals. nal_type n = 5) \<and> (\<exists>n\<in>set ?nals. nal_type n = 1))" by code_simp
  have r: "(au_of ?nals au_zero)\<lparr>avcc_size := 7\<rparr> =
    \<lparr>sps = [0x67, 0x42], pps = [0x68, 0xce], avcc_size = 7, has_idr = True, has_predictive = False\<rparr>" by code_simp
  have s: "annexb (zip [1, 0, 1] ?nals) 1 =
      [0, 0, 0, 1, 0x67, 0x42, 0, 0, 1, 0x68, 0xce, 0, 0, 0, 1, 0x65, 0x88, 0x84, 0]" by code_simp
  have l: "length (avcc ?nals) = 7" by (simp add: a)
  have "avc_packetize (annexb (zip [1, 0, 1] ?nals) 1) 64 =
      Inr (avcc ?nals, (au_of ?nals au_zero)\<lparr>avcc_size := length (avcc ?nals)\<rparr>)"
    by (rule avc_packetize_annexb [OF _ ok _ _ t]) (simp_all add: l)
  then show ?thesis unfolding s l r unfolding a .
qed

end
