(* ===== verification/AvcStreamInput.thy ===== *)
theory AvcStreamInput
  imports AvcPacketizer
begin

text \<open>
  The gate in front of the hardware decoder (\<open>src/src/avc_stream_input.c\<close>): it packetizes an
  access unit, keeps the first parameter sets of the stream, rejects any later change of them,
  and after a loss or an error lets nothing through before the next IDR picture.

  A call returns the code, the prepared unit and the new state; \<open>size_t\<close> values are naturals.
\<close>

datatype input_result = AVC_INPUT_READY | AVC_INPUT_PARAMETERS | AVC_INPUT_NEED_IDR
  | AVC_INPUT_INVALID | AVC_INPUT_PARAMETER_CHANGE

record AvcStreamInput =
  in_sps :: "u8 list"
  in_pps :: "u8 list"
  need_idr :: bool
  immediate_idr_only :: bool

definition avc_stream_input_init :: "bool \<Rightarrow> AvcStreamInput" where
  "avc_stream_input_init immediate =
     \<lparr>in_sps = [], in_pps = [], need_idr = True, immediate_idr_only = immediate\<rparr>"

definition avc_stream_input_invalidate :: "AvcStreamInput \<Rightarrow> AvcStreamInput" where
  "avc_stream_input_invalidate s = s\<lparr>need_idr := True\<rparr>"

definition changed :: "u8 list \<Rightarrow> u8 list \<Rightarrow> bool" where
  "changed cached next \<longleftrightarrow> length cached \<noteq> 0 \<and> length next \<noteq> 0 \<and>
     (length cached \<noteq> length next \<or> cached \<noteq> next)"

definition avc_stream_input_prepare :: "AvcStreamInput \<Rightarrow> u8 list \<Rightarrow> nat \<Rightarrow>
    input_result \<times> (u8 list \<times> AvcPacketizedAu) \<times> AvcStreamInput" where
  "avc_stream_input_prepare s src cap =
     (case avc_packetize src cap of
        Inl _ \<Rightarrow> (AVC_INPUT_INVALID, ([], au_zero), s\<lparr>need_idr := True\<rparr>)
      | Inr (out, parsed) \<Rightarrow>
          if length (sps parsed) > 1024 \<or> length (pps parsed) > 1024
          then (AVC_INPUT_INVALID, (out, au_zero), s\<lparr>need_idr := True\<rparr>)
          else if changed (in_sps s) (sps parsed) \<or> changed (in_pps s) (pps parsed)
          then (AVC_INPUT_PARAMETER_CHANGE, (out, au_zero), s\<lparr>need_idr := True\<rparr>)
          else
            let s = (if length (sps parsed) \<noteq> 0 then s\<lparr>in_sps := sps parsed\<rparr> else s);
                s = (if length (pps parsed) \<noteq> 0 then s\<lparr>in_pps := pps parsed\<rparr> else s)
            in if avcc_size parsed = 0 then (AVC_INPUT_PARAMETERS, (out, au_zero), s)
               else if length (in_sps s) = 0 \<or> length (in_pps s) = 0 \<or>
                  ((need_idr s \<or> immediate_idr_only s) \<and> \<not> has_idr parsed)
               then (AVC_INPUT_NEED_IDR, (out, au_zero), s\<lparr>need_idr := True\<rparr>)
               else (AVC_INPUT_READY, (out, parsed\<lparr>sps := in_sps s, pps := in_pps s\<rparr>),
                     s\<lparr>need_idr := False\<rparr>))"

lemma prepare_need_idr:
  assumes "avc_stream_input_prepare s src cap = (r, (out, au), s')"
  shows "r = AVC_INPUT_READY \<Longrightarrow> need_idr s \<or> immediate_idr_only s \<Longrightarrow> has_idr au"
    and "r = AVC_INPUT_READY \<Longrightarrow> \<not> need_idr s'"
    and "r = AVC_INPUT_PARAMETERS \<Longrightarrow> need_idr s' = need_idr s"
    and "r \<noteq> AVC_INPUT_READY \<Longrightarrow> r \<noteq> AVC_INPUT_PARAMETERS \<Longrightarrow> need_idr s'"
    and "immediate_idr_only s' = immediate_idr_only s"
  using assms
  by (auto simp: avc_stream_input_prepare_def Let_def split: sum.splits prod.splits if_splits)

text \<open>Once cached, a parameter set stays; a unit that is ready carries the cached sets.\<close>

lemma prepare_parameters:
  assumes "avc_stream_input_prepare s src cap = (r, (out, au), s')"
  shows "in_sps s \<noteq> [] \<Longrightarrow> in_sps s' = in_sps s" "in_pps s \<noteq> [] \<Longrightarrow> in_pps s' = in_pps s"
    and "r = AVC_INPUT_READY \<Longrightarrow> sps au = in_sps s' \<and> pps au = in_pps s' \<and> sps au \<noteq> [] \<and> pps au \<noteq> []"
  using assms
  by (auto simp: avc_stream_input_prepare_def Let_def changed_def split: sum.splits prod.splits if_splits)

subsection \<open>Runs\<close>

datatype input_event = Submit "u8 list" nat | Invalidate

text \<open>What the decoder sees of a run: a unit to decode (with its IDR flag and parameter sets), a
  unit with only parameter sets, or a reset of its references.\<close>

datatype decoder_view = Decode bool "u8 list" "u8 list" | Parameters_only | References_lost

fun input_run :: "AvcStreamInput \<Rightarrow> input_event list \<Rightarrow> decoder_view list" where
  "input_run s [] = []"
| "input_run s (Invalidate # es) = References_lost # input_run (avc_stream_input_invalidate s) es"
| "input_run s (Submit src cap # es) =
     (case avc_stream_input_prepare s src cap of (r, (out, au), s') \<Rightarrow>
        (if r = AVC_INPUT_READY then Decode (has_idr au) (sps au) (pps au)
         else if r = AVC_INPUT_PARAMETERS then Parameters_only else References_lost) # input_run s' es)"

text \<open>Decoding order: whenever the references are not valid, the next decoded unit is an IDR.\<close>

fun references_respected :: "bool \<Rightarrow> decoder_view list \<Rightarrow> bool" where
  "references_respected valid [] = True"
| "references_respected valid (Decode idr a b # vs) = ((valid \<or> idr) \<and> references_respected True vs)"
| "references_respected valid (Parameters_only # vs) = references_respected valid vs"
| "references_respected valid (References_lost # vs) = references_respected False vs"

lemma run_references: "references_respected (\<not> need_idr s) (input_run s es)"
proof (induction es arbitrary: s)
  case (Cons e es)
  show ?case
  proof (cases e)
    case (Submit src cap)
    obtain r out au s' where p: "avc_stream_input_prepare s src cap = (r, (out, au), s')"
      by (metis prod.exhaust)
    show ?thesis
      using prepare_need_idr [OF p] Cons [of s'] by (cases r) (auto simp: Submit p)
  next
    case Invalidate
    then show ?thesis using Cons [of "avc_stream_input_invalidate s"] by (simp add: avc_stream_input_invalidate_def)
  qed
qed simp

text \<open>The parameter sets of all decoded units of a run agree with the cached ones.\<close>

lemma run_parameters:
  "Decode idr a b \<in> set (input_run s es) \<Longrightarrow>
     (in_sps s \<noteq> [] \<longrightarrow> a = in_sps s) \<and> (in_pps s \<noteq> [] \<longrightarrow> b = in_pps s)"
proof (induction es arbitrary: s)
  case (Cons e es)
  show ?case
  proof (cases e)
    case (Submit src cap)
    obtain r out au s' where p: "avc_stream_input_prepare s src cap = (r, (out, au), s')"
      by (metis prod.exhaust)
    note q = prepare_parameters [OF p]
    from Cons.prems consider "r = AVC_INPUT_READY" "a = sps au" "b = pps au"
      | "Decode idr a b \<in> set (input_run s' es)"
      by (auto simp: Submit p split: if_splits)
    then show ?thesis
    proof cases
      case 1
      then show ?thesis using q by auto
    next
      case 2
      then show ?thesis using Cons.IH [OF 2] q by auto
    qed
  next
    case Invalidate
    then show ?thesis
      using Cons.prems Cons.IH [of "avc_stream_input_invalidate s"] by (simp add: avc_stream_input_invalidate_def)
  qed
qed simp

lemma run_parameters_unique:
  "Decode i1 a1 b1 \<in> set (input_run s es) \<Longrightarrow> Decode i2 a2 b2 \<in> set (input_run s es) \<Longrightarrow> a1 = a2 \<and> b1 = b2"
proof (induction es arbitrary: s)
  case (Cons e es)
  show ?case
  proof (cases e)
    case (Submit src cap)
    obtain r out au s' where p: "avc_stream_input_prepare s src cap = (r, (out, au), s')"
      by (metis prod.exhaust)
    have here: "a = in_sps s' \<and> b = in_pps s' \<and> a \<noteq> [] \<and> b \<noteq> []"
      if "Decode i a b \<in> set (input_run s (e # es))" "Decode i a b \<notin> set (input_run s' es)" for i a b
      using that prepare_parameters(3) [OF p] by (auto simp: Submit p split: if_splits)
    show ?thesis
      using here [OF Cons.prems(1)] here [OF Cons.prems(2)] run_parameters [of _ _ _ s' es] Cons.IH [of s'] by metis
  next
    case Invalidate
    then show ?thesis using Cons.prems Cons.IH [of "avc_stream_input_invalidate s"] by auto
  qed
qed simp

text \<open>The property C21: in a run from the initial state, units reach the decoder only from an IDR
  picture on, after every loss or rejected unit again only from an IDR picture on, and all of
  them with the same parameter sets.\<close>

theorem input_gate:
  "references_respected False (input_run (avc_stream_input_init immediate) es) \<and>
   \<not> (\<exists>i1 a1 b1 i2 a2 b2. Decode i1 a1 b1 \<in> set (input_run (avc_stream_input_init immediate) es) \<and>
      Decode i2 a2 b2 \<in> set (input_run (avc_stream_input_init immediate) es) \<and> (a1, b1) \<noteq> (a2, b2))"
  using run_references [of "avc_stream_input_init immediate" es] run_parameters_unique
  by (auto simp: avc_stream_input_init_def)

end
