(* ===== verification/AvcBits.thy ===== *)
theory AvcBits
  imports Prelude
begin

text \<open>
  Bit-level access to H.264 parameter sets, shared by \<open>src/src/avc_stream_format.c\<close> and
  \<open>src/src/avc_sps_fixup.c\<close>: removal and insertion of emulation prevention bytes, the bit reader
  with its sticky error flag, Exp-Golomb codes, and the bit writer of the rewriting functions.

  The lemmas say what the writer appends in terms of a list of bits, that an Exp-Golomb code
  is read back, and that inserting and removing emulation prevention bytes are inverse.
\<close>

subsection \<open>Emulation prevention\<close>

text \<open>The loop over the bytes of a NAL unit behind its header (\<open>zeros\<close> is the number of zero bytes
  just copied); \<open>None\<close> is the return of \<open>-1\<close>.\<close>

fun unescape :: "nat \<Rightarrow> u8 list \<Rightarrow> u8 list option" where
  "unescape zeros [] = Some []"
| "unescape zeros (b # bs) =
     (if zeros = 2 \<and> b = 3 then (if bs = [] \<or> hd bs > 3 then None else unescape 0 bs)
      else if zeros = 2 \<and> b < 3 then None
      else map_option (Cons b) (unescape (if b = 0 then zeros + 1 else 0) bs))"

text \<open>The loop of \<open>write_nal\<close> over the RBSP bytes, without the capacity tests.\<close>

fun escape :: "nat \<Rightarrow> u8 list \<Rightarrow> u8 list" where
  "escape zeros [] = []"
| "escape zeros (b # bs) =
     (if zeros = 2 \<and> b \<le> 3 then 3 # b # escape (if b = 0 then 1 else 0) bs
      else b # escape (if b = 0 then zeros + 1 else 0) bs)"

text \<open>\<open>write_nal\<close> fails exactly when the escaped bytes do not fit behind the header.\<close>

definition write_nal :: "u8 \<Rightarrow> u8 list \<Rightarrow> nat \<Rightarrow> u8 list option" where
  "write_nal header rbsp dst_capacity =
     (if dst_capacity = 0 then None
      else if length (escape 0 rbsp) \<ge> dst_capacity then None
      else Some (header # escape 0 rbsp))"

lemma unescape_escape: "zeros \<le> 2 \<Longrightarrow> unescape zeros (escape zeros bs) = Some bs"
proof (induction bs arbitrary: zeros)
  case (Cons b bs)
  have "unescape (if b = 0 then 1 else 0) (escape (if b = 0 then 1 else 0) bs) = Some bs"
    using Cons.IH by simp
  moreover have "\<not> zeros = 2 \<Longrightarrow> unescape (if b = 0 then zeros + 1 else 0) (escape (if b = 0 then zeros + 1 else 0) bs) = Some bs"
    using Cons by (intro Cons.IH) auto
  moreover have "\<not> b \<le> 3 \<Longrightarrow> b \<noteq> 0 \<and> b \<noteq> 3 \<and> \<not> b < 3" by auto
  ultimately show ?case by (auto simp: not_le)
qed simp

subsection \<open>The bit reader\<close>

text \<open>\<open>Bits\<close> and \<open>SpsBits\<close>: the RBSP in a buffer of 1024 bytes, the number of bits in it, the
  position and the error flag.\<close>

record Bits =
  data :: "u8 list"
  nbits :: nat
  pos :: nat
  bad :: bool

definition load_bits :: "u8 list \<Rightarrow> Bits" where
  "load_bits rbsp = \<lparr>data = rbsp @ replicate (1024 - length rbsp) 0, nbits = length rbsp * 8, pos = 0, bad = False\<rparr>"

definition bit_at :: "u8 list \<Rightarrow> nat \<Rightarrow> u8" where
  "bit_at bs i = drop_bit (7 - i mod 8) (bs ! (i div 8)) AND 1"

definition read_bits :: "nat \<Rightarrow> Bits \<Rightarrow> u32 \<times> Bits" where
  "read_bits n b =
     (if n > 32 \<or> pos b > nbits b \<or> n > nbits b - pos b then (0, b\<lparr>bad := True\<rparr>)
      else (fold (\<lambda>i v. push_bit 1 v OR ucast (bit_at (data b) (pos b + i))) [0..<n] 0, b\<lparr>pos := pos b + n\<rparr>))"

text \<open>The loop that counts the leading zero bits; the flag says that it gave up.\<close>

fun ue_zeros :: "nat \<Rightarrow> nat \<Rightarrow> Bits \<Rightarrow> nat option \<times> Bits" where
  "ue_zeros 0 zeros b = (None, b\<lparr>bad := True\<rparr>)"
| "ue_zeros (Suc fuel) zeros b =
     (if bad b then (Some zeros, b)
      else (case read_bits 1 b of (v, b) \<Rightarrow>
        if v \<noteq> 0 then (Some zeros, b)
        else if zeros + 1 > 30 then (None, b\<lparr>bad := True\<rparr>)
        else ue_zeros fuel (zeros + 1) b))"

text \<open>At most 31 zero bits are read before the loop gives up, so fuel 32 is never used up.\<close>

definition ue :: "Bits \<Rightarrow> u32 \<times> Bits" where
  "ue b = (case ue_zeros 32 0 b of
       (None, b) \<Rightarrow> (0, b)
     | (Some zeros, b) \<Rightarrow>
         if bad b then (0, b)
         else (case read_bits zeros b of (v, b) \<Rightarrow> ((push_bit zeros 1 - 1) + v, b)))"

definition read_se :: "Bits \<Rightarrow> int \<times> Bits" where
  "read_se b = (case ue b of (code, b) \<Rightarrow>
     if bad b then (0, b)
     else if code AND 1 \<noteq> 0 then (sint (drop_bit 1 (code + 1)), b) else (- sint (drop_bit 1 code), b))"

text \<open>Several codes that are read only to be skipped.\<close>

definition skip_ue :: "nat \<Rightarrow> Bits \<Rightarrow> Bits" where
  "skip_ue n = fold (\<lambda>_ b. snd (ue b)) [0..<n]"

subsection \<open>The bit writer\<close>

type_synonym writer = "u8 list \<times> nat"

definition put_bit :: "u8 \<Rightarrow> writer \<Rightarrow> writer option" where
  "put_bit v = (\<lambda>(bytes, pos).
     if pos \<ge> length bytes * 8 then None
     else Some (if v \<noteq> 0 then bytes[pos div 8 := bytes ! (pos div 8) OR drop_bit (pos mod 8) 0x80] else bytes,
                pos + 1))"

lemma put_bit_code [code]:
  "put_bit v (bytes, k) =
     (if drop (k div 8) bytes = [] then None
      else Some (if v \<noteq> 0 then bytes[k div 8 := bytes ! (k div 8) OR drop_bit (k mod 8) 0x80] else bytes, k + 1))"
  by (auto simp: put_bit_def less_mult_imp_div_less div_less_iff_less_mult not_le simp flip: not_less)

fun put_all :: "u8 list \<Rightarrow> writer \<Rightarrow> writer option" where
  "put_all [] w = Some w"
| "put_all (b # bs) w = (case put_bit b w of None \<Rightarrow> None | Some w \<Rightarrow> put_all bs w)"

text \<open>\<open>copy_bits\<close> and \<open>put_bits\<close>: a range of bits of the source, and the low bits of a value, most
  significant first.\<close>

definition copy_bits :: "Bits \<Rightarrow> nat \<Rightarrow> nat \<Rightarrow> writer \<Rightarrow> writer option" where
  "copy_bits src first e = put_all (map (bit_at (data src)) [first..<e])"

definition put_bits :: "u32 \<Rightarrow> nat \<Rightarrow> writer \<Rightarrow> writer option" where
  "put_bits v count w =
     (if count > 32 then None
      else put_all (map (\<lambda>k. ucast (drop_bit (k - 1) v AND 1)) (rev [1..<count + 1])) w)"

text \<open>The loop that pads with zero bits up to a byte boundary.\<close>

definition pad_byte :: "writer \<Rightarrow> writer option" where
  "pad_byte w = put_all (replicate ((8 - snd w mod 8) mod 8) 0) w"

subsection \<open>What has been written, as a list of bits\<close>

definition bits_of :: "u8 list \<Rightarrow> bool list" where
  "bits_of bs = map (\<lambda>i. bit_at bs i \<noteq> 0) [0..<length bs * 8]"

definition written :: "writer \<Rightarrow> bool list \<Rightarrow> bool" where
  "written w xs \<longleftrightarrow> snd w = length xs \<and> length xs \<le> length (fst w) * 8 \<and>
     bits_of (fst w) = xs @ replicate (length (fst w) * 8 - length xs) False"

lemma bit_at_iff: "bit_at bs i \<noteq> 0 \<longleftrightarrow> bit (bs ! (i div 8)) (7 - i mod 8)"
  by (simp only: bit_at_def and_one_eq bit_iff_odd_drop_bit even_iff_mod_2_eq_zero)

lemma length_bits_of [simp]: "length (bits_of bs) = length bs * 8"
  by (simp add: bits_of_def)

lemma nth_bits_of: "i < length bs * 8 \<Longrightarrow> bits_of bs ! i \<longleftrightarrow> bit (bs ! (i div 8)) (7 - i mod 8)"
  by (simp add: bits_of_def bit_at_iff)

lemma bit_0x80:
  assumes "k < 8"
  shows "bit (drop_bit k 0x80 :: u8) j \<longleftrightarrow> j = 7 - k"
proof -
  have "bit (2 ^ 7 :: u8) n \<longleftrightarrow> n = 7" for n
    by (auto simp only: bit_exp_iff possible_bit_def) simp_all
  then have "bit (0x80 :: u8) n \<longleftrightarrow> n = 7" for n by simp
  then show ?thesis using assms by (simp only: bit_drop_bit_eq o_def) linarith
qed

lemma put_bit_bits:
  assumes "k < length bytes * 8"
  shows "bits_of (bytes[k div 8 := bytes ! (k div 8) OR drop_bit (k mod 8) 0x80]) = (bits_of bytes)[k := True]"
proof (rule nth_equalityI)
  fix i assume "i < length (bits_of (bytes[k div 8 := bytes ! (k div 8) OR drop_bit (k mod 8) 0x80]))"
  then have i: "i < length bytes * 8" by simp
  have eq: "i = k \<longleftrightarrow> i div 8 = k div 8 \<and> 7 - i mod 8 = 7 - k mod 8"
  proof
    assume "i div 8 = k div 8 \<and> 7 - i mod 8 = 7 - k mod 8"
    moreover have "i mod 8 < 8" "k mod 8 < 8" by simp_all
    ultimately have "i div 8 = k div 8" "i mod 8 = k mod 8" by linarith+
    then show "i = k" by (metis div_mult_mod_eq)
  qed simp
  have "k div 8 < length bytes" using assms by (simp add: div_less_iff_less_mult)
  then show "bits_of (bytes[k div 8 := bytes ! (k div 8) OR drop_bit (k mod 8) 0x80]) ! i =
      (bits_of bytes)[k := True] ! i"
    using i assms eq by (auto simp: nth_bits_of nth_list_update bit_or_iff bit_0x80)
qed simp

lemma put_bit_written:
  assumes "written w xs" "put_bit b w = Some w'"
  shows "written w' (xs @ [b \<noteq> 0]) \<and> length (fst w') = length (fst w)"
proof -
  obtain bytes where w: "w = (bytes, length xs)" using assms(1) by (cases w) (simp add: written_def)
  have lt: "length xs < length bytes * 8" and w': "snd w' = length xs + 1"
    "fst w' = (if b \<noteq> 0 then bytes[length xs div 8 := bytes ! (length xs div 8) OR drop_bit (length xs mod 8) 0x80] else bytes)"
    using assms(2) by (auto simp: put_bit_def w split: if_splits)
  have bo: "bits_of bytes = xs @ replicate (length bytes * 8 - length xs) False"
    using assms(1) by (simp add: written_def w)
  have r: "replicate (length bytes * 8 - length xs) False = False # replicate (length bytes * 8 - Suc (length xs)) False"
    using lt by (simp add: Suc_diff_Suc flip: replicate_Suc)
  show ?thesis
  proof (cases "b = 0")
    case True
    then show ?thesis using w' bo lt r by (simp add: written_def w)
  next
    case False
    then have "bits_of (fst w') = xs @ True # replicate (length bytes * 8 - Suc (length xs)) False"
      using w'(2) put_bit_bits [OF lt] bo r by (simp add: list_update_append)
    then show ?thesis using w' lt False by (simp add: written_def w)
  qed
qed

lemma put_all_written:
  "written w xs \<Longrightarrow> put_all bs w = Some w' \<Longrightarrow> written w' (xs @ map (\<lambda>b. b \<noteq> 0) bs) \<and> length (fst w') = length (fst w)"
proof (induction bs arbitrary: w xs)
  case (Cons b bs)
  then obtain w1 where w1: "put_bit b w = Some w1" "put_all bs w1 = Some w'" by (auto split: option.splits)
  note p = put_bit_written [OF Cons.prems(1) w1(1)]
  show ?case using Cons.IH [OF _ w1(2), of "xs @ [b \<noteq> 0]"] p by simp
qed simp

lemma put_all_room:
  "written w xs \<Longrightarrow> length xs + length bs \<le> length (fst w) * 8 \<Longrightarrow> \<exists>w'. put_all bs w = Some w'"
proof (induction bs arbitrary: w xs)
  case (Cons b bs)
  have "\<exists>w1. put_bit b w = Some w1"
    using Cons.prems by (cases w) (auto simp: put_bit_def written_def)
  then obtain w1 where w1: "put_bit b w = Some w1" by blast
  note p = put_bit_written [OF Cons.prems(1) w1]
  show ?case using Cons.IH [of w1 "xs @ [b \<noteq> 0]"] p Cons.prems(2) by (simp add: w1)
qed simp

lemma written_empty: "written (replicate n 0, 0) []"
proof -
  have "bits_of (replicate n (0::u8)) = replicate (n * 8) False"
    by (rule nth_equalityI) (auto simp: nth_bits_of div_less_iff_less_mult)
  then show ?thesis by (simp add: written_def)
qed

text \<open>The bytes up to the position, once it is on a byte boundary.\<close>

lemma written_bytes:
  assumes "written w xs" "length xs mod 8 = 0"
  shows "bits_of (take (length xs div 8) (fst w)) = xs"
proof -
  let ?n = "length xs div 8"
  have n: "?n * 8 = length xs" using assms(2) by (metis add.right_neutral div_mult_mod_eq)
  have le: "?n \<le> length (fst w)" using assms(1) n by (simp add: written_def)
  have "bits_of (take ?n (fst w)) = take (length xs) (bits_of (fst w))"
  proof (rule nth_equalityI)
    fix i assume "i < length (bits_of (take ?n (fst w)))"
    then have i: "i < ?n * 8" using le by (simp add: min_absorb2)
    then have "i div 8 < ?n" "i < length (fst w) * 8" using le by (simp_all add: div_less_iff_less_mult)
    moreover have "i < length xs" using i n by simp
    ultimately show "bits_of (take ?n (fst w)) ! i = take (length xs) (bits_of (fst w)) ! i"
      using i le by (simp add: nth_bits_of min_absorb2)
  qed (use le n in \<open>simp add: min_absorb2\<close>)
  then show ?thesis using assms(1) by (simp add: written_def)
qed

lemma pad_byte_mod: "((n::nat) + (8 - n mod 8) mod 8) mod 8 = 0"
proof (cases "n mod 8 = 0")
  case False
  then have "n + (8 - n mod 8) = (n div 8) * 8 + 8" using div_mult_mod_eq [of n 8] mod_less_divisor [of 8 n] by linarith
  then have "(n + (8 - n mod 8)) mod 8 = 0" by simp
  then show ?thesis using False by (simp add: mod_add_right_eq)
qed simp

subsection \<open>Reading what the bits say\<close>

definition slice_bits :: "Bits \<Rightarrow> nat \<Rightarrow> bool list" where
  "slice_bits b n = map (\<lambda>i. bit_at (data b) i \<noteq> 0) [pos b..<pos b + n]"

definition bits_val :: "bool list \<Rightarrow> nat" where
  "bits_val bs = foldl (\<lambda>v b. 2 * v + of_bool b) 0 bs"

lemma bits_val_snoc: "bits_val (bs @ [b]) = 2 * bits_val bs + of_bool b"
  by (simp add: bits_val_def)

lemma bit_at_of_bool: "bit_at bs i = of_bool (bit_at bs i \<noteq> 0)"
  by (auto simp: bit_at_def and_one_eq mod_2_eq_odd)

lemma read_loop_val:
  "fold (\<lambda>i v. push_bit 1 v OR ucast (bit_at d (p + i))) [0..<n] (0 :: u32) =
     of_nat (bits_val (map (\<lambda>i. bit_at d i \<noteq> 0) [p..<p + n]))"
proof (induction n)
  case (Suc n)
  have "(2 * v) OR ucast (bit_at d (p + n)) = 2 * v + of_bool (bit_at d (p + n) \<noteq> 0)" for v :: u32
    by (cases "bit_at d (p + n) = 0") (subst bit_at_of_bool, simp add: or_one_eq)+
  then show ?case using Suc by (simp add: bits_val_snoc push_bit_eq_mult mult.commute)
qed (simp add: bits_val_def)

lemma read_bits_ok:
  assumes "n \<le> 32" "pos b + n \<le> nbits b"
  shows "read_bits n b = (of_nat (bits_val (slice_bits b n)), b\<lparr>pos := pos b + n\<rparr>)"
  unfolding read_bits_def read_loop_val slice_bits_def using assms by auto

lemma slice_bits_Suc: "slice_bits b (Suc n) = (bit_at (data b) (pos b) \<noteq> 0) # slice_bits (b\<lparr>pos := pos b + 1\<rparr>) n"
  by (simp add: slice_bits_def upt_conv_Cons del: upt_Suc)

lemma read_one:
  assumes "pos b + 1 \<le> nbits b"
  shows "read_bits 1 b = (of_bool (bit_at (data b) (pos b) \<noteq> 0), b\<lparr>pos := pos b + 1\<rparr>)"
  using read_bits_ok [of 1 b] assms by (simp add: slice_bits_def bits_val_def)

lemma ue_zeros_ok:
  assumes "slice_bits b (z + 1) = replicate z False @ [True]" "pos b + z + 1 \<le> nbits b" "\<not> bad b"
    and "c + z \<le> 30" "z < fuel"
  shows "ue_zeros fuel c b = (Some (c + z), b\<lparr>pos := pos b + z + 1\<rparr>)"
  using assms
proof (induction z arbitrary: b c fuel)
  case 0
  then obtain f where "fuel = Suc f" by (cases fuel) auto
  then show ?case using 0 read_one [of b] by (simp add: slice_bits_Suc)
next
  case (Suc z)
  then obtain f where f: "fuel = Suc f" by (cases fuel) auto
  have s: "bit_at (data b) (pos b) = 0" "slice_bits (b\<lparr>pos := pos b + 1\<rparr>) (z + 1) = replicate z False @ [True]"
    using Suc.prems(1) slice_bits_Suc [of b "Suc z"] by simp_all
  from Suc.IH [OF s(2), of "c + 1" f] show ?case
    using Suc.prems read_one [of b] s(1) f by simp
qed

lemma slice_bits_append:
  "slice_bits b (m + n) = slice_bits b m @ slice_bits (b\<lparr>pos := pos b + m\<rparr>) n"
  using upt_add_eq_append [of "pos b" "pos b + m" n] by (simp add: slice_bits_def add.assoc)

text \<open>The property C22: an Exp-Golomb code is read back. The bits at the position are \<open>z\<close> zeros, a
  one and \<open>z\<close> bits of a number \<open>v\<close>; the value is \<open>2^z - 1 + v\<close>, and the position moves behind them.\<close>

theorem ue_exp_golomb:
  assumes "slice_bits b (2 * z + 1) = replicate z False @ True # vs" "pos b + 2 * z + 1 \<le> nbits b"
    and "\<not> bad b" "z \<le> 30"
  shows "ue b = (of_nat (2 ^ z - 1 + bits_val vs), b\<lparr>pos := pos b + 2 * z + 1\<rparr>) \<and> length vs = z"
proof -
  have l: "length vs = z" using arg_cong [OF assms(1), of length] by (simp add: slice_bits_def)
  have "slice_bits b ((z + 1) + z) = (replicate z False @ [True]) @ vs" using assms(1) by (simp add: mult_2 add.commute add.left_commute)
  then have s: "slice_bits b (z + 1) = replicate z False @ [True]"
    "slice_bits (b\<lparr>pos := pos b + (z + 1)\<rparr>) z = vs"
    unfolding slice_bits_append by (simp_all add: slice_bits_def)
  have uz: "ue_zeros 32 0 b = (Some z, b\<lparr>pos := pos b + z + 1\<rparr>)"
    using ue_zeros_ok [OF s(1), of 0 32] assms by simp
  have rd: "read_bits z (b\<lparr>pos := pos b + z + 1\<rparr>) = (of_nat (bits_val vs), b\<lparr>pos := pos b + z + 1 + z\<rparr>)"
    using read_bits_ok [of z "b\<lparr>pos := pos b + (z + 1)\<rparr>"] s(2) assms by (simp add: add.assoc)
  have "(push_bit z 1 - 1 :: u32) = of_nat (2 ^ z - 1)" by (simp add: push_bit_eq_mult of_nat_diff)
  then have "push_bit z 1 - 1 + of_nat (bits_val vs) = (of_nat (2 ^ z - 1 + bits_val vs) :: u32)"
    by (simp only: of_nat_add)
  then show ?thesis using uz rd assms(3) l by (simp add: ue_def mult_2 add.assoc del: of_nat_add)
qed

theorem ue_exp_golomb_witness:
  "ue (load_bits [0x2C]) = (4, (load_bits [0x2C])\<lparr>pos := 5\<rparr>)"
proof -
  have "slice_bits (load_bits [0x2C]) (2 * 2 + 1) = replicate 2 False @ True # [False, True]" by code_simp
  from ue_exp_golomb [OF this] show ?thesis by (simp add: load_bits_def bits_val_def)
qed

end
