(* ===== verification/AvcParameterSets.thy ===== *)
theory AvcParameterSets
  imports AvcBits
begin

text \<open>
  Parsing and rewriting of H.264 parameter sets for the hardware decoder:
  \<open>avc_stream_format\<close> (\<open>src/src/avc_stream_format.c\<close>), and \<open>avc_sps_normalize_main\<close>,
  \<open>avc_pps_validate_main_ex\<close> and \<open>avc_sps_limit_refs\<close> (\<open>src/src/avc_sps_fixup.c\<close>).

  A buffer with its size is a list of bytes; \<open>Inl\<close> is the negative return code, and \<open>Inr\<close> holds
  what the function wrote to its outputs when it returns 0. NULL arguments are not modelled.
\<close>

subsection \<open>The stream format\<close>

record AvcStreamFormat =
  profile :: u32
  level :: u32
  refs :: u32
  sps_id :: u32
  coded_width :: u32
  coded_height :: u32
  width :: u32
  height :: u32
  crop_left :: u32
  crop_top :: u32

text \<open>\<open>pic_order_cnt_type\<close> and what follows it; \<open>None\<close> is the return of \<open>-1\<close>. The flag says whether
  the limit of \<open>avc_stream_format\<close> on \<open>log2_max_pic_order_cnt_lsb_minus4\<close> is applied.\<close>

definition read_poc :: "bool \<Rightarrow> Bits \<Rightarrow> Bits option" where
  "read_poc strict b = (case ue b of (poc, b) \<Rightarrow>
     if poc = 0 then (case ue b of (v, b) \<Rightarrow> if strict \<and> v > 12 then None else Some b)
     else if poc = 1 then
       (case ue (snd (ue (snd (ue (snd (read_bits 1 b)))))) of (cycle, b) \<Rightarrow>
          if cycle > 255 then None else Some (skip_ue (unat cycle) b))
     else if poc \<noteq> 2 then None
     else Some b)"

definition read_crop :: "Bits \<Rightarrow> (u32 \<times> u32 \<times> u32 \<times> u32) \<times> Bits" where
  "read_crop b = (case read_bits 1 b of (v, b) \<Rightarrow>
     if v \<noteq> 0 then
       (case ue b of (c0, b) \<Rightarrow> case ue b of (c1, b) \<Rightarrow> case ue b of (c2, b) \<Rightarrow> case ue b of (c3, b) \<Rightarrow>
          ((c0, c1, c2, c3), b))
     else ((0, 0, 0, 0), b))"

text \<open>The end of the function: the dimensions from the macroblock counts and the cropping.\<close>

definition format_dimensions :: "AvcStreamFormat \<Rightarrow> u32 \<Rightarrow> u32 \<Rightarrow> u32 \<times> u32 \<times> u32 \<times> u32 \<Rightarrow> int + AvcStreamFormat" where
  "format_dimensions f w h = (\<lambda>(c0, c1, c2, c3).
     let cw = (w + 1) * 16; ch = (h + 1) * 16 in
     if c0 > 240 \<or> c1 > 240 \<or> c2 > 240 \<or> c3 > 240 then Inl (-1)
     else if 2 * (c0 + c1) \<ge> cw \<or> 2 * (c2 + c3) \<ge> ch then Inl (-1)
     else Inr (f\<lparr>coded_width := cw, coded_height := ch, crop_left := 2 * c0, crop_top := 2 * c2,
            width := cw - 2 * (c0 + c1), height := ch - 2 * (c2 + c3)\<rparr>))"

text \<open>The middle: picture sizes and flags, with the reader behind \<open>pic_order_cnt_type\<close>.\<close>

definition format_picture :: "AvcStreamFormat \<Rightarrow> Bits \<Rightarrow> int + AvcStreamFormat" where
  "format_picture f b =
     (case ue b of (rf, b) \<Rightarrow> case read_bits 1 b of (_, b) \<Rightarrow>
      case ue b of (w, b) \<Rightarrow> case ue b of (h, b) \<Rightarrow>
      if bad b then Inl (-1)
      else if w \<ge> 30 \<or> h \<ge> 17 \<or> rf > 4 then Inl (-2)
      else case read_bits 1 b of (progressive, b) \<Rightarrow>
        if progressive = 0 then Inl (if bad b then -1 else -2)
        else case read_bits 1 b of (_, b) \<Rightarrow> case read_crop b of (crop, b) \<Rightarrow>
          case read_bits 1 b of (_, b) \<Rightarrow>
            if bad b then Inl (-1) else format_dimensions (f\<lparr>refs := rf\<rparr>) w h crop)"

definition format_zero :: AvcStreamFormat where
  "format_zero = \<lparr>profile = 0, level = 0, refs = 0, sps_id = 0, coded_width = 0, coded_height = 0,
     width = 0, height = 0, crop_left = 0, crop_top = 0\<rparr>"

definition avc_stream_format :: "u8 list \<Rightarrow> int + AvcStreamFormat" where
  "avc_stream_format nal =
     (if length nal < 5 \<or> length nal > 1024 \<or> nal ! 0 AND 0x9f \<noteq> 7 then Inl (-1)
      else case unescape 0 (tl nal) of None \<Rightarrow> Inl (-1) | Some rbsp \<Rightarrow>
        (case read_bits 8 (load_bits rbsp) of (pr, b) \<Rightarrow> case read_bits 8 b of (constraints, b) \<Rightarrow>
         if constraints AND 3 \<noteq> 0 then Inl (-1)
         else case read_bits 8 b of (lv, b) \<Rightarrow> case ue b of (sid, b) \<Rightarrow>
           if pr \<noteq> 66 \<and> pr \<noteq> 77 then Inl (-2)
           else if sid > 31 then Inl (-1)
           else case ue b of (v, b) \<Rightarrow>
             if v > 12 then Inl (-1)
             else case read_poc True b of
               None \<Rightarrow> Inl (-1)
             | Some b \<Rightarrow> format_picture (format_zero\<lparr>profile := pr, level := lv, sps_id := sid\<rparr>) b))"

lemma format_dimensions_bounds:
  assumes "format_dimensions f w h c = Inr g" "w < 30" "h < 17"
  shows "0 < width g" "width g \<le> coded_width g" "coded_width g \<le> 480"
    and "0 < height g" "height g \<le> coded_height g" "coded_height g \<le> 272"
    and "unat (crop_left g) + unat (width g) \<le> unat (coded_width g)"
    and "unat (crop_top g) + unat (height g) \<le> unat (coded_height g)"
    and "refs g = refs f" "profile g = profile f" "sps_id g = sps_id f"
proof -
  obtain c0 c1 c2 c3 where c: "c = (c0, c1, c2, c3)" by (metis prod.exhaust)
  have le: "c0 \<le> 240" "c1 \<le> 240" "c2 \<le> 240" "c3 \<le> 240"
    and lt: "2 * (c0 + c1) < (w + 1) * 16" "2 * (c2 + c3) < (h + 1) * 16"
    and g: "g = f\<lparr>coded_width := (w + 1) * 16, coded_height := (h + 1) * 16, crop_left := 2 * c0, crop_top := 2 * c2,
            width := (w + 1) * 16 - 2 * (c0 + c1), height := (h + 1) * 16 - 2 * (c2 + c3)\<rparr>"
    using assms(1) by (auto simp: format_dimensions_def c Let_def not_le split: if_splits)
  have one: "unat (2 * (a + b)) = 2 * (unat a + unat b) \<and> unat (2 * a) = 2 * unat a"
    if "a \<le> 240" "b \<le> 240" for a b :: u32
    using that by (simp add: word_le_nat_alt unat_word_ariths)
  have big: "unat ((v + 1) * 16) = 16 * unat v + 16" if "v < 30" for v :: u32
    using that by (simp add: word_less_nat_alt unat_word_ariths)
  have "h < 30" using assms(3) by (simp add: word_less_nat_alt)
  note n = one [OF le(1,2)] one [OF le(3,4)] big [OF assms(2)] big [OF this]
  have sub: "unat (x - y) = unat x - unat y" if "y < x" for x y :: u32
    using that by (simp add: unat_sub)
  show "0 < width g" "width g \<le> coded_width g" "coded_width g \<le> 480"
    "0 < height g" "height g \<le> coded_height g" "coded_height g \<le> 272"
    "unat (crop_left g) + unat (width g) \<le> unat (coded_width g)"
    "unat (crop_top g) + unat (height g) \<le> unat (coded_height g)"
    using lt assms(2,3) sub [OF lt(1)] sub [OF lt(2)] n
    by (simp_all add: g word_less_nat_alt word_le_nat_alt)
qed (use assms(1) in \<open>auto simp: format_dimensions_def Let_def split: if_splits prod.splits\<close>)

lemma format_picture_bounds:
  assumes "format_picture f b = Inr g"
  shows "\<exists>f' w h c. format_dimensions f' w h c = Inr g \<and> w < 30 \<and> h < 17 \<and> refs f' \<le> 4 \<and>
     profile f' = profile f \<and> sps_id f' = sps_id f"
proof -
  obtain rf b1 b2 w b3 h b4 pg b5 b6 crop b7 b8 where
    "ue b = (rf, b1)" "read_bits 1 b1 = (pg, b2)" "ue b2 = (w, b3)" "ue b3 = (h, b4)"
    by (metis prod.exhaust)
  then have "\<exists>crop. w < 30 \<and> h < 17 \<and> rf \<le> 4 \<and> format_dimensions (f\<lparr>refs := rf\<rparr>) w h crop = Inr g"
    using assms by (auto simp: format_picture_def not_le not_less split: prod.splits if_splits)
  then obtain crop where "w < 30" "h < 17" "rf \<le> 4" "format_dimensions (f\<lparr>refs := rf\<rparr>) w h crop = Inr g" by blast
  then show ?thesis by (intro exI [of _ "f\<lparr>refs := rf\<rparr>"] exI [of _ w] exI [of _ h] exI [of _ crop]) simp
qed

lemma avc_stream_format_picture:
  assumes "avc_stream_format nal = Inr g"
  shows "\<exists>f b. format_picture f b = Inr g \<and> profile f \<in> {66, 77} \<and> sps_id f \<le> 31"
  using assms
  by (auto simp: avc_stream_format_def Let_def not_less split: prod.splits if_splits option.splits)

text \<open>The property C23: a format that is accepted fits the decoder. The picture is not empty and lies
  inside the coded picture, which has at most 480 x 272 pixels; nothing wraps around.\<close>

theorem avc_stream_format_bounds:
  assumes "avc_stream_format nal = Inr f"
  shows "0 < width f \<and> width f \<le> coded_width f \<and> coded_width f \<le> 480 \<and>
    0 < height f \<and> height f \<le> coded_height f \<and> coded_height f \<le> 272 \<and>
    unat (crop_left f) + unat (width f) \<le> unat (coded_width f) \<and>
    unat (crop_top f) + unat (height f) \<le> unat (coded_height f) \<and>
    refs f \<le> 4 \<and> profile f \<in> {66, 77} \<and> sps_id f \<le> 31"
proof -
  obtain f0 b where f0: "format_picture f0 b = Inr f" "profile f0 \<in> {66, 77}" "sps_id f0 \<le> 31"
    using avc_stream_format_picture [OF assms] by blast
  obtain f1 w h c where f1: "format_dimensions f1 w h c = Inr f" "w < 30" "h < 17" "refs f1 \<le> 4"
    "profile f1 = profile f0" "sps_id f1 = sps_id f0"
    using format_picture_bounds [OF f0(1)] by blast
  show ?thesis using format_dimensions_bounds [OF f1(1-3)] f1(4-6) f0(2,3) by simp
qed

theorem avc_stream_format_bounds_witness:
  "case avc_stream_format [0x67, 0x42, 0xc0, 0x1e, 0xda, 0x04, 0xc5, 0xfb, 0x91] of
     Inl _ \<Rightarrow> False | Inr f \<Rightarrow> width f = 300 \<and> height f = 170 \<and> coded_width f \<le> 480 \<and> coded_height f \<le> 272"
proof -
  let ?f = "\<lparr>profile = 66, level = 30, refs = 1, sps_id = 0, coded_width = 304, coded_height = 176,
     width = 300, height = 170, crop_left = 0, crop_top = 0\<rparr>"
  have "avc_stream_format [0x67, 0x42, 0xc0, 0x1e, 0xda, 0x04, 0xc5, 0xfb, 0x91] = Inr ?f"
    by code_simp
  from this avc_stream_format_bounds [OF this] show ?thesis by simp
qed

end
