(* ===== verification/AvcSpsFixup.thy ===== *)
theory AvcSpsFixup
  imports AvcParameterSets
begin

text \<open>
  The rewriting of parameter sets in \<open>src/src/avc_sps_fixup.c\<close>: a High profile SPS that uses only
  Main tools is spelled as Main, a PPS is checked for tools the decoder lacks, and the number of
  reference frames of an SPS is lowered to one.

  The main result is about \<open>avc_sps_limit_refs\<close>: when it rewrites, the output is the input bit for
  bit except for the one field.
\<close>

definition load_rbsp :: "u8 list \<Rightarrow> u8 \<Rightarrow> Bits option" where
  "load_rbsp nal nal_type =
     (if length nal < 2 \<or> length nal > 1024 \<or> nal ! 0 AND 0x9f \<noteq> nal_type then None
      else case unescape 0 (tl nal) of
        None \<Rightarrow> None
      | Some rbsp \<Rightarrow> if length rbsp > 1024 then None else if rbsp = [] then None else Some (load_bits rbsp))"

fun stop_loop :: "u8 list \<Rightarrow> nat \<Rightarrow> nat option" where
  "stop_loop d 0 = None"
| "stop_loop d (Suc n) = (if bit_at d n \<noteq> 0 then Some n else stop_loop d n)"

definition rbsp_stop_bit :: "Bits \<Rightarrow> nat option" where
  "rbsp_stop_bit b = stop_loop (data b) (nbits b)"

text \<open>Sequencing of writer steps that may run out of room.\<close>

fun write_all :: "(writer \<Rightarrow> writer option) list \<Rightarrow> writer \<Rightarrow> writer option" where
  "write_all [] w = Some w"
| "write_all (f # fs) w = (case f w of None \<Rightarrow> None | Some w \<Rightarrow> write_all fs w)"

definition empty_writer :: writer where
  "empty_writer = (replicate 1024 0, 0)"

subsection \<open>High to Main\<close>

text \<open>The High-only fields behind the SPS id; the last three results are the reader, and whether the
  fields show that a High tool is in use.\<close>

definition read_high_fields :: "Bits \<Rightarrow> bool \<times> Bits" where
  "read_high_fields b =
     (case ue b of (luma, b) \<Rightarrow> case ue b of (chroma_depth, b) \<Rightarrow>
      case read_bits 1 b of (bypass, b) \<Rightarrow> case read_bits 1 b of (scaling, b) \<Rightarrow>
        (luma \<noteq> 0 \<or> chroma_depth \<noteq> 0 \<or> bypass \<noteq> 0 \<or> scaling \<noteq> 0, b))"

text \<open>The rewriting itself: Main profile, no constraint flags, and the rest of the bits.\<close>

definition rewrite_main :: "u8 \<Rightarrow> Bits \<Rightarrow> u32 \<Rightarrow> u32 \<Rightarrow> nat \<Rightarrow> nat \<Rightarrow> nat \<Rightarrow> nat \<Rightarrow> int + u8 list \<times> bool" where
  "rewrite_main header b lv sid id_end extension_end stop dst_capacity =
     (case write_all [put_bits 77 8, put_bits 0 8, put_bits lv 8, copy_bits b 24 id_end,
             copy_bits b extension_end stop, put_bit 1, pad_byte] empty_writer of
        None \<Rightarrow> Inl (-1)
      | Some (buf, out_bits) \<Rightarrow>
          (case write_nal header (take (out_bits div 8) buf) dst_capacity of
             None \<Rightarrow> Inl (-1)
           | Some dst \<Rightarrow>
               (case avc_stream_format dst of
                  Inl _ \<Rightarrow> Inl (-1)
                | Inr f \<Rightarrow> if profile f \<noteq> 77 \<or> sps_id f \<noteq> sid \<or> level f \<noteq> lv then Inl (-1)
                          else Inr (dst, True))))"

definition avc_sps_normalize_main :: "u8 list \<Rightarrow> nat \<Rightarrow> int + u8 list \<times> bool" where
  "avc_sps_normalize_main src dst_capacity =
     (if dst_capacity < 5 then Inl (-1)
      else case load_rbsp src 7 of None \<Rightarrow> Inl (-1) | Some b \<Rightarrow>
      case rbsp_stop_bit b of None \<Rightarrow> Inl (-1) | Some stop \<Rightarrow>
      (case read_bits 8 (b\<lparr>nbits := stop\<rparr>) of (pr, b) \<Rightarrow>
       case read_bits 8 b of (constraints, b) \<Rightarrow> case read_bits 8 b of (lv, b) \<Rightarrow> case ue b of (sid, b) \<Rightarrow>
       let id_end = pos b in
       if bad b \<or> sid > 31 then Inl (-1)
       else if pr = 66 \<or> pr = 77 then (if length src > dst_capacity then Inl (-1) else Inr (src, False))
       else if pr \<noteq> 100 then Inl (-2)
       else case ue b of (chroma, b) \<Rightarrow>
         if chroma \<noteq> 1 then Inl (-3)
         else case read_high_fields b of (high, b) \<Rightarrow>
           if bad b \<or> constraints AND 3 \<noteq> 0 \<or> high \<or> pos b \<ge> stop then Inl (-3)
           else rewrite_main (src ! 0) b lv sid id_end (pos b) stop dst_capacity))"

subsection \<open>Checking a picture parameter set\<close>

text \<open>The fields behind \<open>num_slice_groups_minus1\<close>, which are read only to find the end.\<close>

definition skip_pps_tail :: "Bits \<Rightarrow> Bits" where
  "skip_pps_tail b =
     (let b = snd (ue b); b = snd (ue b); b = snd (read_bits 1 b); b = snd (read_bits 2 b);
          b = snd (read_se b); b = snd (read_se b); b = snd (read_se b);
          b = snd (read_bits 1 b); b = snd (read_bits 1 b)
      in snd (read_bits 1 b))"

text \<open>The results are the entropy coding mode and the PPS id.\<close>

definition avc_pps_validate_main_ex :: "u8 list \<Rightarrow> u32 \<Rightarrow> int + u32 \<times> u32" where
  "avc_pps_validate_main_ex nal expected_sps_id =
     (case load_rbsp nal 8 of None \<Rightarrow> Inl (-1) | Some b \<Rightarrow>
      case rbsp_stop_bit b of None \<Rightarrow> Inl (-1) | Some stop \<Rightarrow>
      (case ue (b\<lparr>nbits := stop\<rparr>) of (pps_id, b) \<Rightarrow> case ue b of (sid, b) \<Rightarrow>
       case read_bits 1 b of (entropy, b) \<Rightarrow> case ue (snd (read_bits 1 b)) of (slice_groups, b) \<Rightarrow>
       let b = skip_pps_tail b in
       if bad b \<or> pps_id > 255 \<or> sid \<noteq> expected_sps_id \<or> slice_groups \<noteq> 0 \<or> pos b \<noteq> stop then Inl (-2)
       else Inr (entropy, pps_id)))"

definition avc_pps_validate_main :: "u8 list \<Rightarrow> u32 \<Rightarrow> int + u32" where
  "avc_pps_validate_main nal expected_sps_id =
     (case avc_pps_validate_main_ex nal expected_sps_id of Inl c \<Rightarrow> Inl c | Inr (entropy, _) \<Rightarrow> Inr entropy)"

subsection \<open>One reference frame\<close>

text \<open>The reader moved to \<open>max_num_ref_frames\<close>; \<open>None\<close> is the return of \<open>-1\<close>.\<close>

definition seek_refs :: "Bits \<Rightarrow> Bits option" where
  "seek_refs b =
     (case read_bits 8 b of (pr, b) \<Rightarrow>
      let b = snd (ue (snd (read_bits 8 (snd (read_bits 8 b))))) in
      if pr \<noteq> 66 \<and> pr \<noteq> 77 then None
      else case read_poc False (snd (ue b)) of
        None \<Rightarrow> None
      | Some b \<Rightarrow> if bad b then None else Some b)"

text \<open>The loop that finds the stop bit from the end, and one step back; \<open>None\<close> when it lies not
  behind the field.\<close>

fun payload_loop :: "u8 list \<Rightarrow> nat \<Rightarrow> nat" where
  "payload_loop d 0 = 0"
| "payload_loop d (Suc n) =
     (if (d ! (n div 8)) AND drop_bit (n mod 8) 0x80 \<noteq> 0 then Suc n else payload_loop d n)"

definition payload_end :: "Bits \<Rightarrow> nat \<Rightarrow> nat option" where
  "payload_end b e = (let p = payload_loop (data b) (nbits b) in if p \<le> e then None else Some (p - 1))"

text \<open>The new bits: everything before the field, the code of 1, everything behind the field up to
  the stop bit, the stop bit and the alignment.\<close>

definition rewrite_refs :: "Bits \<Rightarrow> nat \<Rightarrow> nat \<Rightarrow> nat \<Rightarrow> u8 list option" where
  "rewrite_refs b start e payload_bits =
     (case write_all [copy_bits b 0 start, put_bit 0, put_bit 1, put_bit 0, copy_bits b e payload_bits,
             put_bit 1, pad_byte] empty_writer of
        None \<Rightarrow> None
      | Some (buf, out_bits) \<Rightarrow> Some (take (out_bits div 8) buf))"

definition same_format :: "AvcStreamFormat \<Rightarrow> AvcStreamFormat \<Rightarrow> bool" where
  "same_format f g \<longleftrightarrow> profile f = profile g \<and> level f = level g \<and> sps_id f = sps_id g \<and>
     width f = width g \<and> height f = height g \<and> coded_width f = coded_width g \<and>
     coded_height f = coded_height g \<and> crop_left f = crop_left g \<and> crop_top f = crop_top g"

text \<open>The result is the rewritten SPS and the original number of reference frames.\<close>

definition avc_sps_limit_refs :: "u8 list \<Rightarrow> nat \<Rightarrow> int + u8 list \<times> u32" where
  "avc_sps_limit_refs src dst_capacity =
     (if length src < 5 \<or> length src > 1024 \<or> dst_capacity < 5 \<or> src ! 0 AND 0x9f \<noteq> 7 then Inl (-1)
      else case avc_stream_format src of Inl _ \<Rightarrow> Inl (-1) | Inr before \<Rightarrow>
      case unescape 0 (tl src) of None \<Rightarrow> Inl (-1) | Some rbsp \<Rightarrow>
      case seek_refs (load_bits rbsp) of None \<Rightarrow> Inl (-1) | Some b \<Rightarrow>
      (case ue b of (refs_in, b2) \<Rightarrow>
       if bad b2 \<or> refs_in > 4 then Inl (-1)
       else if refs_in \<le> 1 then (if length src > dst_capacity then Inl (-1) else Inr (src, refs_in))
       else case payload_end b2 (pos b2) of None \<Rightarrow> Inl (-1) | Some payload_bits \<Rightarrow>
       case rewrite_refs b2 (pos b) (pos b2) payload_bits of None \<Rightarrow> Inl (-1) | Some rewritten \<Rightarrow>
       case write_nal (src ! 0) rewritten dst_capacity of None \<Rightarrow> Inl (-1) | Some dst \<Rightarrow>
       case avc_stream_format dst of Inl _ \<Rightarrow> Inl (-1) | Inr after \<Rightarrow>
         if refs after \<noteq> 1 \<or> \<not> same_format before after then Inl (-1)
         else Inr (dst, refs_in)))"

subsection \<open>What the reader leaves alone\<close>

definition same_source :: "Bits \<Rightarrow> Bits \<Rightarrow> bool" where
  "same_source b b' \<longleftrightarrow> data b' = data b \<and> nbits b' = nbits b \<and> pos b \<le> pos b'"

lemma same_source_trans: "same_source a b \<Longrightarrow> same_source b c \<Longrightarrow> same_source a c"
  by (simp add: same_source_def)

lemma read_bits_source: "same_source b (snd (read_bits n b))"
  by (simp add: read_bits_def same_source_def)

lemma ue_zeros_source: "same_source b (snd (ue_zeros fuel c b))"
proof (induction fuel arbitrary: c b)
  case (Suc fuel)
  have "same_source b (snd (ue_zeros fuel (c + 1) (snd (read_bits 1 b))))"
    using same_source_trans [OF read_bits_source Suc] .
  then show ?case using read_bits_source [of b 1] by (auto simp: same_source_def split: prod.splits)
qed (simp add: same_source_def)

lemma ue_source: "same_source b (snd (ue b))"
proof -
  obtain z b1 where z: "ue_zeros 32 0 b = (z, b1)" by fastforce
  have "same_source b b1" using ue_zeros_source [of b 32 0] z by simp
  then show ?thesis
    using same_source_trans [OF _ read_bits_source] z by (auto simp: ue_def split: option.splits prod.splits)
      (metis snd_conv)
qed

lemma skip_ue_source: "same_source b (snd (v, skip_ue n b))"
proof (induction n)
  case (Suc n)
  have "skip_ue (Suc n) b = snd (ue (skip_ue n b))" by (simp add: skip_ue_def)
  then show ?case using same_source_trans [OF Suc [simplified] ue_source] by simp
qed (simp add: skip_ue_def same_source_def)

lemma source_of: "f b = (v, b') \<Longrightarrow> same_source b (snd (f b)) \<Longrightarrow> same_source b b'"
  by simp

lemma read_poc_source: "read_poc strict b = Some b' \<Longrightarrow> same_source b b'"
proof -
  assume r: "read_poc strict b = Some b'"
  obtain poc b1 where 1: "ue b = (poc, b1)" by fastforce
  obtain v b2 where 2: "ue b1 = (v, b2)" by fastforce
  obtain cycle b3 where 3: "ue (snd (ue (snd (ue (snd (read_bits 1 b1)))))) = (cycle, b3)" by fastforce
  have s1: "same_source b b1" and s2: "same_source b1 b2"
    using ue_source [of b] ue_source [of b1] 1 2 by simp_all
  have "same_source b1 (snd (ue (snd (ue (snd (ue (snd (read_bits 1 b1))))))))"
    by (meson same_source_trans read_bits_source ue_source)
  then have s3: "same_source b1 b3" using 3 by simp
  show ?thesis
    using r 1 2 3 s1 same_source_trans [OF s1 s2] same_source_trans [OF s1 s3]
      same_source_trans [OF same_source_trans [OF s1 s3] skip_ue_source [of b3 0 "unat cycle"]]
    by (auto simp: read_poc_def split: if_splits)
qed

lemma seek_refs_source: "seek_refs b = Some b' \<Longrightarrow> same_source b b' \<and> \<not> bad b'"
proof -
  assume r: "seek_refs b = Some b'"
  let ?b1 = "snd (ue (snd (ue (snd (read_bits 8 (snd (read_bits 8 (snd (read_bits 8 b)))))))))"
  have "same_source b ?b1" by (meson same_source_trans read_bits_source ue_source)
  moreover have "read_poc False ?b1 = Some b'" "\<not> bad b'"
    using r by (auto simp: seek_refs_def Let_def split: prod.splits if_splits option.splits)
  ultimately show ?thesis using same_source_trans read_poc_source by blast
qed

subsection \<open>The rewritten bits\<close>

lemma copy_bits_written:
  "written w xs \<Longrightarrow> copy_bits src a e w = Some w' \<Longrightarrow> written w' (xs @ map (\<lambda>i. bit_at (data src) i \<noteq> 0) [a..<e])"
  unfolding copy_bits_def using put_all_written [of w xs "map (bit_at (data src)) [a..<e]" w']
  by (simp add: comp_def)

lemma and_0x80:
  fixes x :: u8
  assumes "k < 8"
  shows "x AND drop_bit k 0x80 = 0 \<longleftrightarrow> \<not> bit x (7 - k)"
proof -
  have "x AND drop_bit k 0x80 = 0 \<longleftrightarrow> (\<forall>j<8. \<not> (bit x j \<and> j = 7 - k))"
    using bit_0x80 [OF assms] assms unfolding bit_eq_iff [of "x AND drop_bit k 0x80" 0]
    by (auto simp: bit_and_iff)
  moreover have "7 - k < 8" by simp
  ultimately show ?thesis by blast
qed

lemma payload_loop_ok:
  "payload_loop d n \<le> n \<and> (0 < payload_loop d n \<longrightarrow> bit_at d (payload_loop d n - 1) \<noteq> 0) \<and>
     (\<forall>i. payload_loop d n \<le> i \<and> i < n \<longrightarrow> bit_at d i = 0)"
proof (induction n)
  case (Suc n)
  have "d ! (n div 8) AND drop_bit (n mod 8) 0x80 = 0 \<longleftrightarrow> bit_at d n = 0"
    using and_0x80 [of "n mod 8" "d ! (n div 8)"] bit_at_iff [of d n] by auto
  then show ?case using Suc by (auto simp: le_Suc_eq less_Suc_eq)
qed simp

lemma rewrite_refs_bits:
  assumes "rewrite_refs b start e p = Some rewritten"
  shows "\<exists>k<8. bits_of rewritten = map (\<lambda>i. bit_at (data b) i \<noteq> 0) [0..<start] @ [False, True, False] @
      map (\<lambda>i. bit_at (data b) i \<noteq> 0) [e..<p] @ True # replicate k False"
proof -
  from assms obtain w1 w2 w3 w4 w5 w6 w7 where
    w: "copy_bits b 0 start empty_writer = Some w1" "put_bit 0 w1 = Some w2" "put_bit 1 w2 = Some w3"
      "put_bit 0 w3 = Some w4" "copy_bits b e p w4 = Some w5" "put_bit 1 w5 = Some w6" "pad_byte w6 = Some w7"
    and r: "rewritten = take (snd w7 div 8) (fst w7)"
    by (auto simp: rewrite_refs_def split: option.splits)
  let ?A = "map (\<lambda>i. bit_at (data b) i \<noteq> 0) [0..<start]" and ?B = "map (\<lambda>i. bit_at (data b) i \<noteq> 0) [e..<p]"
  have "written empty_writer []" by (simp add: empty_writer_def written_empty)
  from copy_bits_written [OF this w(1)] have "written w1 ?A" by simp
  note put_bit_written [OF this w(2), THEN conjunct1]
  note put_bit_written [OF this w(3), THEN conjunct1]
  note put_bit_written [OF this w(4), THEN conjunct1]
  note copy_bits_written [OF this w(5)]
  note x = put_bit_written [OF this w(6), THEN conjunct1]
  define xs where "xs = ?A @ [False, True, False] @ ?B @ [True]"
  have w6: "written w6 xs" using x by (simp add: xs_def)
  define k where "k = (8 - length xs mod 8) mod 8"
  have "written w7 (xs @ replicate k False)"
    using put_all_written [OF w6, of "replicate k 0" w7] w(7) w6
    by (simp add: pad_byte_def written_def k_def)
  moreover have "length (xs @ replicate k False) mod 8 = 0"
    using pad_byte_mod [of "length xs"] by (simp add: k_def)
  ultimately have "bits_of (take (length (xs @ replicate k False) div 8) (fst w7)) = xs @ replicate k False"
    and "snd w7 = length (xs @ replicate k False)"
    by (rule written_bytes) (use \<open>written w7 _\<close> in \<open>simp add: written_def\<close>)
  then have "bits_of rewritten = xs @ replicate k False" by (simp add: r)
  then show ?thesis by (intro exI [of _ k]) (simp add: xs_def k_def)
qed

lemma bit_at_load: "i < length rbsp * 8 \<Longrightarrow> bit_at (data (load_bits rbsp)) i = bit_at rbsp i"
  by (simp add: load_bits_def bit_at_def nth_append div_less_iff_less_mult)

lemma map_bit_at:
  assumes "data b = data (load_bits rbsp)" "e \<le> length rbsp * 8"
  shows "map (\<lambda>i. bit_at (data b) i \<noteq> 0) [a..<e] = drop a (take e (bits_of rbsp))"
  using assms by (intro nth_equalityI) (auto simp: bits_of_def bit_at_load min_absorb2)

lemma write_nal_ok: "write_nal h rbsp cap = Some dst \<Longrightarrow> dst = h # escape 0 rbsp \<and> length dst \<le> cap"
  by (auto simp: write_nal_def split: if_splits)

text \<open>Where the rewriting stops reading is where the format of the SPS goes on with the reference count.\<close>

lemma format_dimensions_keeps:
  "format_dimensions f w h c = Inr g \<Longrightarrow> refs g = refs f \<and> profile g = profile f \<and> level g = level f \<and> sps_id g = sps_id f"
  by (auto simp: format_dimensions_def Let_def split: if_splits prod.splits)

lemma format_picture_keeps:
  "format_picture f b = Inr g \<Longrightarrow> refs g = fst (ue b) \<and> profile g = profile f \<and> level g = level f \<and> sps_id g = sps_id f"
  by (auto simp: format_picture_def split: if_splits prod.splits dest!: format_dimensions_keeps)

lemma read_poc_lenient: "read_poc True b = Some b' \<Longrightarrow> read_poc False b = Some b'"
  by (auto simp: read_poc_def split: prod.splits if_splits)

lemma seek_refs_format:
  assumes "avc_stream_format src = Inr f" "unescape 0 (tl src) = Some rbsp" "seek_refs (load_bits rbsp) = Some b"
  shows "format_picture (format_zero\<lparr>profile := profile f, level := level f, sps_id := sps_id f\<rparr>) b = Inr f"
    "refs f = fst (ue b)"
proof -
  obtain pr b1 where 1: "read_bits 8 (load_bits rbsp) = (pr, b1)" by fastforce
  obtain cs b2 where 2: "read_bits 8 b1 = (cs, b2)" by fastforce
  obtain lv b3 where 3: "read_bits 8 b2 = (lv, b3)" by fastforce
  obtain sid b4 where 4: "ue b3 = (sid, b4)" by fastforce
  obtain v b5 where 5: "ue b4 = (v, b5)" by fastforce
  obtain b6 where 6: "read_poc True b5 = Some b6"
      and f: "format_picture (format_zero\<lparr>profile := pr, level := lv, sps_id := sid\<rparr>) b6 = Inr f"
    using assms(1,2) 1 2 3 4 5 by (auto simp: avc_stream_format_def split: if_splits option.splits)
  have "read_poc False b5 = Some b" using assms(3) 1 2 3 4 5 by (auto simp: seek_refs_def Let_def split: if_splits option.splits)
  then have "b6 = b" using read_poc_lenient [OF 6] by simp
  then show "format_picture (format_zero\<lparr>profile := profile f, level := level f, sps_id := sps_id f\<rparr>) b = Inr f"
    "refs f = fst (ue b)"
    using f format_picture_keeps [OF f] by simp_all
qed

text \<open>The property C24: what \<open>avc_sps_limit_refs\<close> does to the bits. When the SPS names more than one
  reference frame, the field is the Exp-Golomb code at \<open>[start, e)\<close>, which is where the parser of the
  stream format finds the reference count and which has that count as its value, and the last one bit is at
  \<open>p\<close>; the RBSP of the output is the one of the input with that code replaced by the code of 1 and
  new alignment zeros. The output fits the buffer and has the same format but for the field.\<close>

theorem avc_sps_limit_refs_bits:
  assumes "avc_sps_limit_refs src cap = Inr (dst, r)" "r > 1"
  shows "\<exists>rbsp rbsp' start e p k. unescape 0 (tl src) = Some rbsp \<and> unescape 0 (tl dst) = Some rbsp' \<and>
    hd dst = src ! 0 \<and> length dst \<le> cap \<and>
    ue ((load_bits rbsp)\<lparr>pos := start\<rparr>) = (r, (load_bits rbsp)\<lparr>pos := e\<rparr>) \<and>
    start \<le> e \<and> e \<le> p \<and> p < length (bits_of rbsp) \<and> bits_of rbsp ! p \<and>
    (\<forall>i>p. i < length (bits_of rbsp) \<longrightarrow> \<not> bits_of rbsp ! i) \<and> k < 8 \<and>
    bits_of rbsp' = take start (bits_of rbsp) @ [False, True, False] @
      drop e (take p (bits_of rbsp)) @ True # replicate k False \<and>
    (\<exists>f g. avc_stream_format src = Inr f \<and> avc_stream_format dst = Inr g \<and> same_format f g \<and> refs f = r \<and> refs g = 1 \<and>
       format_picture (format_zero\<lparr>profile := profile f, level := level f, sps_id := sps_id f\<rparr>)
         ((load_bits rbsp)\<lparr>pos := start\<rparr>) = Inr f)"
proof -
  from assms obtain before rbsp b b2 p rewritten after where
    c: "avc_stream_format src = Inr before" "unescape 0 (tl src) = Some rbsp"
      "seek_refs (load_bits rbsp) = Some b" "ue b = (r, b2)" "\<not> bad b2" "payload_end b2 (pos b2) = Some p"
      "rewrite_refs b2 (pos b) (pos b2) p = Some rewritten" "write_nal (src ! 0) rewritten cap = Some dst"
      "avc_stream_format dst = Inr after" "refs after = 1" "same_format before after"
    by (auto simp: avc_sps_limit_refs_def not_le split: if_splits sum.splits option.splits prod.splits)
  have s: "same_source (load_bits rbsp) b" "\<not> bad b" "same_source b b2"
    using seek_refs_source [OF c(3)] ue_source [of b] c(4) by simp_all
  have b: "b = (load_bits rbsp)\<lparr>pos := pos b\<rparr>" "b2 = (load_bits rbsp)\<lparr>pos := pos b2\<rparr>"
    using s c(5) by (auto simp: same_source_def load_bits_def)
  have nb: "nbits b2 = length rbsp * 8" "data b2 = data (load_bits rbsp)"
    by (subst b(2), simp add: load_bits_def)+
  define q where "q = payload_loop (data b2) (nbits b2)"
  have q: "pos b2 < q" "p = q - 1" "q \<le> length rbsp * 8" "bit_at (data b2) (q - 1) \<noteq> 0"
    "\<And>i. q \<le> i \<Longrightarrow> i < length rbsp * 8 \<Longrightarrow> bit_at (data b2) i = 0"
    using c(6) payload_loop_ok [of "data b2" "nbits b2"] nb
    by (auto simp: payload_end_def q_def Let_def split: if_splits)
  have bo: "bits_of rbsp ! i \<longleftrightarrow> bit_at (data b2) i \<noteq> 0" if "i < length rbsp * 8" for i
    using that nb by (simp add: bits_of_def bit_at_load)
  have dst: "dst = src ! 0 # escape 0 rewritten" "length dst \<le> cap" using write_nal_ok [OF c(8)] by blast+
  obtain k where k: "k < 8" "bits_of rewritten = map (\<lambda>i. bit_at (data b2) i \<noteq> 0) [0..<pos b] @ [False, True, False] @
      map (\<lambda>i. bit_at (data b2) i \<noteq> 0) [pos b2..<p] @ True # replicate k False"
    using rewrite_refs_bits [OF c(7)] by blast
  have "pos b \<le> pos b2" using s(3) by (simp add: same_source_def)
  moreover have "pos b2 \<le> p" "p < length rbsp * 8" using q(1,2,3) by simp_all
  moreover have "bits_of rewritten = take (pos b) (bits_of rbsp) @ [False, True, False] @
      drop (pos b2) (take p (bits_of rbsp)) @ True # replicate k False"
    using k(2) map_bit_at [OF nb(2), of "pos b" 0] map_bit_at [OF nb(2), of p "pos b2"] calculation by simp
  moreover have "ue ((load_bits rbsp)\<lparr>pos := pos b\<rparr>) = (r, (load_bits rbsp)\<lparr>pos := pos b2\<rparr>)"
    using c(4) b by simp
  moreover have "bits_of rbsp ! p" using bo [of p] q calculation(3) by simp
  moreover have "\<forall>i>p. i < length rbsp * 8 \<longrightarrow> \<not> bits_of rbsp ! i" using bo q by auto
  moreover have "unescape 0 (tl dst) = Some rewritten" using dst(1) unescape_escape by simp
  moreover have "refs before = r" "format_picture
      (format_zero\<lparr>profile := profile before, level := level before, sps_id := sps_id before\<rparr>) ((load_bits rbsp)\<lparr>pos := pos b\<rparr>) = Inr before"
    using seek_refs_format [OF c(1,2,3)] c(4) b(1) by simp_all
  ultimately show ?thesis using c dst k(1)
    by (intro exI [of _ rbsp] exI [of _ rewritten] exI [of _ "pos b"] exI [of _ "pos b2"] exI [of _ p] exI [of _ k]) simp
qed

text \<open>The SPS of a 300 x 170 stream with three reference frames, and what becomes of it.\<close>

theorem avc_sps_limit_refs_witness:
  "\<exists>f g. avc_stream_format [0x67, 0x42, 0xc0, 0x1e, 0xd9, 0x01, 0x31, 0x7e, 0xe4, 0x40] = Inr f \<and>
     avc_stream_format [0x67, 0x42, 0xc0, 0x1e, 0xda, 0x04, 0xc5, 0xfb, 0x91] = Inr g \<and> refs f = 3 \<and> refs g = 1 \<and>
     same_format f g"
proof -
  let ?src = "[0x67, 0x42, 0xc0, 0x1e, 0xd9, 0x01, 0x31, 0x7e, 0xe4, 0x40] :: u8 list"
  let ?dst = "[0x67, 0x42, 0xc0, 0x1e, 0xda, 0x04, 0xc5, 0xfb, 0x91] :: u8 list"
  let ?b = "load_bits [0x42, 0xc0, 0x1e, 0xd9, 0x01, 0x31, 0x7e, 0xe4, 0x40]"
  let ?f = "\<lparr>profile = 66, level = 30, refs = 3, sps_id = 0, coded_width = 304, coded_height = 176,
     width = 300, height = 170, crop_left = 0, crop_top = 0\<rparr>"
  have f: "avc_stream_format ?src = Inr ?f" by code_simp
  have g: "avc_stream_format ?dst = Inr (?f\<lparr>refs := 1\<rparr>)" by code_simp
  have u: "unescape 0 (tl ?src) = Some [0x42, 0xc0, 0x1e, 0xd9, 0x01, 0x31, 0x7e, 0xe4, 0x40]" by code_simp
  have s: "seek_refs ?b = Some (?b\<lparr>pos := 29\<rparr>)" by code_simp
  have e: "ue (?b\<lparr>pos := 29\<rparr>) = (3, ?b\<lparr>pos := 34\<rparr>)" by code_simp
  have p: "payload_end (?b\<lparr>pos := 34\<rparr>) 34 = Some 65" by code_simp
  have w: "rewrite_refs (?b\<lparr>pos := 34\<rparr>) 29 34 65 = Some (tl ?dst)" by code_simp
  have n: "write_nal 0x67 (tl ?dst) 64 = Some ?dst" by code_simp
  have t: "\<not> (3::u32) \<le> 1" "(1::u32) < 3" by code_simp+
  have "\<not> bad ?b" by (simp add: load_bits_def)
  then have r: "avc_sps_limit_refs ?src 64 = Inr (?dst, 3)"
    using f g u s e p w n t by (simp add: avc_sps_limit_refs_def same_format_def)
  have "\<exists>f g. avc_stream_format ?src = Inr f \<and> avc_stream_format ?dst = Inr g \<and> same_format f g \<and> refs g = 1"
    using avc_sps_limit_refs_bits [OF r t(2)] by blast
  then show ?thesis using f by auto
qed

end
