(* ===== verification/StreamResolution.thy ===== *)
theory StreamResolution
  imports Prelude "HOL-Library.Signed_Division"
begin

text \<open>
  The stream dimensions (\<open>src/src/stream_resolution.c\<close>, \<open>src/include/stream_resolution.h\<close>):
  snapping of a request to the panel's 30:17 aspect ratio, the table of derived sizes, and the
  scaler that steps the resolution down under load and up again after 30 quiet seconds.

  C's \<open>int\<close> is an integer (sizes stay far from the limits of 32 bits, and so do the averages of the
  measurements the callers pass), its division is
  \<open>sdiv\<close>, which truncates; the system time is a 32-bit word whose difference wraps around. The clock
  and the measurements are arguments; log output is left out.
\<close>

subsection \<open>Snapping to 30:17\<close>

definition PSP_LCD_WIDTH :: int where [simp]: "PSP_LCD_WIDTH = 480"
definition PSP_LCD_HEIGHT :: int where [simp]: "PSP_LCD_HEIGHT = 272"
definition STREAM_MIN_WIDTH :: int where [simp]: "STREAM_MIN_WIDTH = 300"
definition STREAM_MAX_WIDTH :: int where [simp]: "STREAM_MAX_WIDTH = 480"
definition STREAM_MAX_HEIGHT :: int where [simp]: "STREAM_MAX_HEIGHT = 272"

text \<open>The even scale factor; \<open>x AND 1\<close> of an integer is its parity.\<close>

definition stream_scale :: "int \<Rightarrow> int \<Rightarrow> int" where
  "stream_scale width height =
     (let scale_min = (STREAM_MIN_WIDTH + 29) sdiv 30; scale_max = STREAM_MAX_WIDTH sdiv 30;
          scale = ((width + 15) sdiv 30 + (height + 8) sdiv 17 + 1) sdiv 2;
          scale = (if scale AND 1 \<noteq> 0 then scale + 1 else scale);
          scale = (if scale < scale_min then scale_min else scale);
          scale = (if scale AND 1 \<noteq> 0 then scale + 1 else scale);
          scale = (if scale > scale_max then scale_max AND NOT 1 else scale)
      in if scale < 2 then 2 else scale)"

text \<open>A missing argument (NULL) is \<open>None\<close>.\<close>

definition stream_resolution_normalize :: "int option \<Rightarrow> int option \<Rightarrow> int \<times> int" where
  "stream_resolution_normalize w h =
     (let width = (case w of Some x \<Rightarrow> if x > 0 then x else PSP_LCD_WIDTH | None \<Rightarrow> PSP_LCD_WIDTH);
          height = (case h of Some x \<Rightarrow> if x > 0 then x else PSP_LCD_HEIGHT | None \<Rightarrow> PSP_LCD_HEIGHT);
          scale = stream_scale width height
      in if 17 * scale > STREAM_MAX_HEIGHT
         then (let scale = (STREAM_MAX_HEIGHT sdiv 17) AND NOT 1 in (30 * scale, 17 * scale))
         else (30 * scale, 17 * scale))"

record StreamResolution =
  res_width :: int
  res_height :: int
  stride :: int
  rgba_size :: int
  y_plane_size :: int
  uv_plane_size :: int
  yuv_total_size :: int
  mb_width :: int
  mb_height :: int
  total_mbs :: int
  res_initialized :: bool

definition stream_resolution_init :: "int \<Rightarrow> int \<Rightarrow> StreamResolution" where
  "stream_resolution_init width height =
     (let (width, height) = stream_resolution_normalize (Some width) (Some height);
          stride = (if width > 512 then 1024 else 512);
          y = width * height; uv = (width sdiv 2) * (height sdiv 2);
          mbw = (width + 15) sdiv 16; mbh = (height + 15) sdiv 16
      in \<lparr>res_width = width, res_height = height, stride = stride, rgba_size = stride * height * 4,
          y_plane_size = y, uv_plane_size = uv, yuv_total_size = y + 2 * uv,
          mb_width = mbw, mb_height = mbh, total_mbs = mbw * mbh, res_initialized = True\<rparr>)"

lemma and_one_int: "(x :: int) AND 1 \<noteq> 0 \<longleftrightarrow> odd x"
  by (simp add: and_one_eq odd_iff_mod_2_eq_one)

lemma stream_scale_cases: "stream_scale w h \<in> {10, 12, 14, 16}"
proof -
  have m: "(STREAM_MIN_WIDTH + 29) sdiv 30 = 10" "STREAM_MAX_WIDTH sdiv 30 = 16" "(16 :: int) AND NOT 1 = 16"
    by (simp_all add: signed_divide_int_def)
  define k where "k = ((w + 15) sdiv 30 + (h + 8) sdiv 17 + 1) sdiv 2"
  have "\<exists>e. (if k AND 1 \<noteq> 0 then k + 1 else k) = 2 * e"
    unfolding and_one_int by (cases "odd k") (auto elim!: oddE evenE simp: ring_distribs intro: exI [of _ "_ + 1"])
  then obtain e where e: "(if k AND 1 \<noteq> 0 then k + 1 else k) = 2 * e" by blast
  have "2 * e < 10 \<or> 2 * e > 16 \<or> e \<in> {5, 6, 7, 8}" by auto
  moreover have "(10 :: int) AND 1 = 0" "(2 * e) AND 1 = 0" by (simp_all add: and_one_eq)
  ultimately show ?thesis
    unfolding stream_scale_def Let_def m k_def [symmetric] e by auto
qed

lemma stream_scale_fixed:
  "stream_scale 300 170 = 10" "stream_scale 360 204 = 12" "stream_scale 420 238 = 14" "stream_scale 480 272 = 16"
  by code_simp+

definition normalized_size :: "int \<Rightarrow> int \<Rightarrow> bool" where
  "normalized_size width height \<longleftrightarrow>
     17 * width = 30 * height \<and> even width \<and> even height \<and>
     300 \<le> width \<and> width \<le> PSP_LCD_WIDTH \<and> 170 \<le> height \<and> height \<le> PSP_LCD_HEIGHT \<and>
     stream_resolution_normalize (Some width) (Some height) = (width, height) \<and>
     (let r = stream_resolution_init width height in res_width r = width \<and> res_height r = height \<and>
        width \<le> stride r \<and> yuv_total_size r * 2 = 3 * width * height \<and>
        16 * mb_width r \<ge> width \<and> 16 * mb_height r \<ge> height)"

lemma normalized_sizes:
  "normalized_size 300 170" "normalized_size 360 204" "normalized_size 420 238" "normalized_size 480 272"
  by code_simp+

text \<open>The property C25: whatever is asked for, the stream has the exact aspect ratio of the panel, even
  dimensions and a size the renderer can show; a normalized size is not changed again, and the
  derived texture and planes are large enough.\<close>

theorem stream_resolution_normalized:
  "case stream_resolution_normalize w h of (width, height) \<Rightarrow> normalized_size width height"
proof -
  define k where "k = stream_scale (case w of Some x \<Rightarrow> if x > 0 then x else PSP_LCD_WIDTH | None \<Rightarrow> PSP_LCD_WIDTH)
    (case h of Some x \<Rightarrow> if x > 0 then x else PSP_LCD_HEIGHT | None \<Rightarrow> PSP_LCD_HEIGHT)"
  have k: "k \<in> {10, 12, 14, 16}" unfolding k_def by (rule stream_scale_cases)
  have "stream_resolution_normalize w h = (30 * k, 17 * k)"
    using k unfolding stream_resolution_normalize_def Let_def k_def [symmetric] by auto
  then show ?thesis using k normalized_sizes by (elim insertE) simp_all
qed

subsection \<open>The scaler\<close>

record ResolutionScaler =
  current_step :: nat
  target_width :: int
  target_height :: int
  last_change_time :: u32
  recover_start_time :: u32
  decode_avg_ms :: int
  loss_avg_pct :: int
  scaler_initialized :: bool

definition RES_STEP_COUNT :: nat where [simp]: "RES_STEP_COUNT = 4"

definition s_res_steps :: "(int \<times> int) list" where
  "s_res_steps = [(300, 170), (360, 204), (420, 238), (480, 272)]"

definition RES_RECOVER_HOLDOFF_US :: u32 where "RES_RECOVER_HOLDOFF_US = 30 * 1000 * 1000"

definition resolution_scaler_init :: "u32 \<Rightarrow> ResolutionScaler" where
  "resolution_scaler_init now =
     \<lparr>current_step = RES_STEP_COUNT - 1, target_width = fst (s_res_steps ! (RES_STEP_COUNT - 1)),
      target_height = snd (s_res_steps ! (RES_STEP_COUNT - 1)), last_change_time = now,
      recover_start_time = 0, decode_avg_ms = 0, loss_avg_pct = 0, scaler_initialized = True\<rparr>"

definition scaler_step_to :: "nat \<Rightarrow> u32 \<Rightarrow> ResolutionScaler \<Rightarrow> ResolutionScaler" where
  "scaler_step_to k now s = s\<lparr>current_step := k, target_width := fst (s_res_steps ! k),
     target_height := snd (s_res_steps ! k), last_change_time := now, recover_start_time := 0\<rparr>"

definition resolution_scaler_update :: "u32 \<Rightarrow> int \<Rightarrow> int \<Rightarrow> ResolutionScaler \<Rightarrow> int \<times> ResolutionScaler" where
  "resolution_scaler_update now decode_time_ms loss_rate_pct s =
     (if \<not> scaler_initialized s then (0, s)
      else let s = s\<lparr>decode_avg_ms := (decode_avg_ms s * 3 + decode_time_ms) sdiv 4,
                 loss_avg_pct := (loss_avg_pct s * 3 + loss_rate_pct) sdiv 4\<rparr> in
        if (decode_avg_ms s > 200 \<or> loss_avg_pct s > 15) \<and> current_step s > 0
        then (1, scaler_step_to (current_step s - 1) now s)
        else if decode_avg_ms s < 50 \<and> loss_avg_pct s < 2 \<and> current_step s < RES_STEP_COUNT - 1
        then (let s = (if recover_start_time s = 0 then s\<lparr>recover_start_time := now\<rparr> else s) in
              if now - recover_start_time s \<ge> RES_RECOVER_HOLDOFF_US
              then (1, scaler_step_to (current_step s + 1) now s) else (0, s))
        else (0, s\<lparr>recover_start_time := 0\<rparr>))"

definition resolution_scaler_get_current :: "ResolutionScaler \<Rightarrow> int \<times> int" where
  "resolution_scaler_get_current s =
     (if \<not> scaler_initialized s then (PSP_LCD_WIDTH, PSP_LCD_HEIGHT) else (target_width s, target_height s))"

text \<open>
  The scaler's states in true time, which does not wrap: \<open>scaler_reach T C s\<close> says that \<open>s\<close> is reached by
  updates at times that never decrease, the last of them at \<open>T\<close> microseconds, and that the step was last changed
  (or the scaler initialised) at \<open>C\<close>. The code only sees the times modulo \<open>2 ^ 32\<close>.
\<close>

inductive scaler_reach :: "nat \<Rightarrow> nat \<Rightarrow> ResolutionScaler \<Rightarrow> bool" where
  init: "scaler_reach T T (resolution_scaler_init (of_nat T))"
| update: "scaler_reach T C s \<Longrightarrow> T \<le> now \<Longrightarrow> s' = snd (resolution_scaler_update (of_nat now) d l s) \<Longrightarrow>
    scaler_reach now (if current_step s' = current_step s then C else now) s'"

definition scaler_inv :: "nat \<Rightarrow> nat \<Rightarrow> ResolutionScaler \<Rightarrow> bool" where
  "scaler_inv T C s \<longleftrightarrow> scaler_initialized s \<and> current_step s < RES_STEP_COUNT \<and>
     (target_width s, target_height s) = s_res_steps ! current_step s \<and>
     last_change_time s = of_nat C \<and> C \<le> T \<and>
     (recover_start_time s = 0 \<or> (\<exists>R. recover_start_time s = of_nat R \<and> C \<le> R \<and> R \<le> T))"

text \<open>A difference of the wrapping clock never exceeds the true one.\<close>

lemma clock_difference:
  assumes "R \<le> now" "(of_nat now :: u32) - of_nat R \<ge> RES_RECOVER_HOLDOFF_US"
  shows "30000000 \<le> now - R"
proof -
  have "(of_nat now :: u32) - of_nat R = of_nat (now - R)" using assms(1) by simp
  then have "30000000 \<le> unat (of_nat (now - R) :: u32)"
    using assms(2) by (simp add: RES_RECOVER_HOLDOFF_US_def word_le_nat_alt)
  also have "\<dots> \<le> now - R" by (simp add: unat_of_nat)
  finally show ?thesis .
qed

lemma scaler_update_cases:
  assumes inv: "scaler_inv T C s" and now: "T \<le> now" and s': "s' = snd (resolution_scaler_update (of_nat now) d l s)"
  shows "scaler_inv now (if current_step s' = current_step s then C else now) s'"
    "current_step s' \<le> current_step s + 1" "current_step s \<le> current_step s' + 1"
    "current_step s < current_step s' \<Longrightarrow> 30000000 \<le> now - C"
proof -
  let ?n = "of_nat now :: u32"
  have i: "scaler_initialized s" "C \<le> now" "last_change_time s = of_nat C" using inv now by (simp_all add: scaler_inv_def)
  define t where "t = s\<lparr>decode_avg_ms := (decode_avg_ms s * 3 + d) sdiv 4, loss_avg_pct := (loss_avg_pct s * 3 + l) sdiv 4\<rparr>"
  define r where "r = (if recover_start_time t = 0 then t\<lparr>recover_start_time := ?n\<rparr> else t)"
  have t: "scaler_inv T C t" "current_step t = current_step s" using inv by (simp_all add: t_def scaler_inv_def)
  have r: "scaler_inv now C r" "current_step r = current_step s" using t now i(2) by (auto simp: r_def scaler_inv_def)
  consider (down) "s' = scaler_step_to (current_step s - 1) ?n t" "current_step s > 0"
    | (up) "s' = scaler_step_to (current_step s + 1) ?n r" "?n - recover_start_time r \<ge> RES_RECOVER_HOLDOFF_US"
        "current_step s < RES_STEP_COUNT - 1"
    | (wait) "s' = r" | (reset) "s' = t\<lparr>recover_start_time := 0\<rparr>"
  proof -
    have "s' = (if (decode_avg_ms t > 200 \<or> loss_avg_pct t > 15) \<and> current_step t > 0
        then scaler_step_to (current_step t - 1) ?n t
        else if decode_avg_ms t < 50 \<and> loss_avg_pct t < 2 \<and> current_step t < RES_STEP_COUNT - 1
        then (if ?n - recover_start_time r \<ge> RES_RECOVER_HOLDOFF_US then scaler_step_to (current_step r + 1) ?n r else r)
        else t\<lparr>recover_start_time := 0\<rparr>)"
      using i(1) unfolding s' resolution_scaler_update_def Let_def t_def [symmetric] r_def [symmetric] by auto
    then show thesis using that t(2) r(2) by (auto split: if_split_asm)
  qed
  then have "scaler_inv now (if current_step s' = current_step s then C else now) s' \<and>
      current_step s' \<le> current_step s + 1 \<and> current_step s \<le> current_step s' + 1 \<and>
      (current_step s < current_step s' \<longrightarrow> 30000000 \<le> now - C)"
  proof cases
    case down
    then show ?thesis using t now by (auto simp: scaler_step_to_def scaler_inv_def)
  next
    case up
    have "recover_start_time r \<noteq> 0 \<or> recover_start_time r = ?n"
      by (simp add: r_def)
    then obtain R where R: "recover_start_time r = of_nat R" "C \<le> R" "R \<le> now"
      using r(1) i(2) unfolding scaler_inv_def by blast
    have "30000000 \<le> now - R" using clock_difference [OF R(3)] up(2) R(1) by simp
    then show ?thesis using up r R by (auto simp: scaler_step_to_def scaler_inv_def)
  next
    case wait
    then show ?thesis using r by simp
  next
    case reset
    then show ?thesis using t now by (auto simp: scaler_inv_def)
  qed
  then show "scaler_inv now (if current_step s' = current_step s then C else now) s'"
    "current_step s' \<le> current_step s + 1" "current_step s \<le> current_step s' + 1"
    "current_step s < current_step s' \<Longrightarrow> 30000000 \<le> now - C" by blast+
qed

lemma scaler_reach_inv: "scaler_reach T C s \<Longrightarrow> scaler_inv T C s"
proof (induction rule: scaler_reach.induct)
  case (init T)
  then show ?case by (simp add: scaler_inv_def resolution_scaler_init_def s_res_steps_def)
next
  case (update T C s now s' d l)
  then show ?case using scaler_update_cases(1) by blast
qed

text \<open>The property C26: the scaler always points at one of its four steps, moves by one step at a
  time, and steps up only when at least 30 seconds of true time have passed since its last change, however
  often the 32-bit microsecond clock of the code has wrapped around meanwhile.\<close>

theorem resolution_scaler_holdoff:
  assumes "scaler_reach T C s" "T \<le> now"
  shows "(target_width s, target_height s) \<in> set s_res_steps \<and>
    (let s' = snd (resolution_scaler_update (of_nat now) d l s) in
       current_step s' \<le> current_step s + 1 \<and> current_step s \<le> current_step s' + 1 \<and>
       (current_step s < current_step s' \<longrightarrow> 30000000 \<le> now - C))"
proof -
  have inv: "scaler_inv T C s" by (rule scaler_reach_inv [OF assms(1)])
  have "(target_width s, target_height s) \<in> set s_res_steps"
    using inv nth_mem [of "current_step s" s_res_steps] by (simp add: scaler_inv_def s_res_steps_def)
  then show ?thesis using scaler_update_cases(2-4) [OF inv assms(2) refl, of d l] by (simp add: Let_def)
qed

text \<open>Down from the top after 5 us; the next update comes when the clock has wrapped around.\<close>

theorem resolution_scaler_holdoff_witness:
  "let low = snd (resolution_scaler_update 5 900 0 (resolution_scaler_init 0)) in
     (target_width low, target_height low) \<in> set s_res_steps \<and> current_step low = 2 \<and>
     current_step (snd (resolution_scaler_update (of_nat (2 ^ 32 + 40000000)) 0 0 low)) \<le> 3"
proof -
  define low where "low = snd (resolution_scaler_update (of_nat 5) 900 0 (resolution_scaler_init (of_nat 0)))"
  have c: "current_step low = 2"
    by (simp add: low_def resolution_scaler_update_def resolution_scaler_init_def scaler_step_to_def
        signed_divide_int_def Let_def)
  have "scaler_reach 5 (if current_step low = current_step (resolution_scaler_init (of_nat 0)) then 0 else 5) low"
    by (rule scaler_reach.update [OF scaler_reach.init _ low_def]) simp
  from resolution_scaler_holdoff [OF this, of "2 ^ 32 + 40000000" 0 0] c show ?thesis
    by (simp add: Let_def low_def)
qed

end
