(* ===== verification/RingBuffers.thy ===== *)
theory RingBuffers
  imports Prelude
begin

text \<open>
  Ring buffers. \<open>ring\<close> reads the entries between the tail and the head index of an array, in the
  way all rings of the program do it (one slot stays unused, so equal indices mean empty);
  the lemmas say what writing at the head and advancing either index does to it.

  The locale \<open>bounded_fifo\<close> is the contract between a producer and a consumer of such a queue; its
  lemmas hold for every interleaving of their operations.
\<close>

subsection \<open>The entries of a ring\<close>

definition ring_count :: "nat \<Rightarrow> nat \<Rightarrow> nat \<Rightarrow> nat" where
  "ring_count n h t = (if t \<le> h then h - t else h + n - t)"

definition ring :: "'a list \<Rightarrow> nat \<Rightarrow> nat \<Rightarrow> 'a list" where
  "ring slots h t = map (\<lambda>i. slots ! ((t + i) mod length slots)) [0..<ring_count (length slots) h t]"

definition ring_next :: "nat \<Rightarrow> nat \<Rightarrow> nat" where
  "ring_next n i = (i + 1) mod n"

lemma ring_next_cases: "i < n \<Longrightarrow> ring_next n i = (if i + 1 = n then 0 else i + 1)"
  by (simp add: ring_next_def)

lemma ring_next_less [simp]: "i < n \<Longrightarrow> ring_next n i < n"
  by (auto simp: ring_next_cases)

lemma ring_count_less: "h < n \<Longrightarrow> t < n \<Longrightarrow> ring_count n h t < n"
  by (auto simp: ring_count_def)

lemma length_ring [simp]: "length (ring slots h t) = ring_count (length slots) h t"
  by (simp add: ring_def)

lemma nth_ring: "k < ring_count (length slots) h t \<Longrightarrow> ring slots h t ! k = slots ! ((t + k) mod length slots)"
  by (simp add: ring_def)

lemma ring_empty_iff: "h < length slots \<Longrightarrow> t < length slots \<Longrightarrow> ring slots h t = [] \<longleftrightarrow> h = t"
  by (auto simp: ring_def ring_count_def)

lemma ring_nil [simp]: "ring slots t t = []"
  by (simp add: ring_def ring_count_def)

lemma ring_index: "t < n \<Longrightarrow> h < n \<Longrightarrow> i < ring_count n h t \<Longrightarrow>
    (t + i) mod n = (if t + i < n then t + i else t + i - n)"
  by (auto simp: ring_count_def le_mod_geq split: if_splits)

lemma ring_put:
  assumes "h < length slots" "t < length slots" "ring_next (length slots) h \<noteq> t"
  shows "ring (slots[h := v]) (ring_next (length slots) h) t = ring slots h t @ [v]"
proof -
  let ?n = "length slots"
  have c: "ring_count ?n (ring_next ?n h) t = Suc (ring_count ?n h t)"
    using assms by (auto simp: ring_count_def ring_next_cases split: if_splits)
  have last: "(t + ring_count ?n h t) mod ?n = h"
    using assms by (auto simp: ring_count_def)
  have "(t + i) mod ?n \<noteq> h" if "i < ring_count ?n h t" for i
    using assms that by (auto simp: ring_index) (auto simp: ring_count_def split: if_splits)
  then have "map (\<lambda>i. slots[h := v] ! ((t + i) mod ?n)) [0..<ring_count ?n h t] =
      map (\<lambda>i. slots ! ((t + i) mod ?n)) [0..<ring_count ?n h t]"
    by (intro map_cong refl) (metis atLeastLessThan_iff nth_list_update_neq set_upt)
  then show ?thesis using assms(1) last by (simp add: ring_def c)
qed

lemma ring_skip:
  assumes "h < length slots" "t < length slots" "h \<noteq> t"
  shows "ring slots h t = slots ! t # ring slots h (ring_next (length slots) t)"
proof -
  let ?n = "length slots"
  have c: "ring_count ?n h t = Suc (ring_count ?n h (ring_next ?n t))"
    using assms by (auto simp: ring_count_def ring_next_cases split: if_splits)
  have "(t + Suc i) mod ?n = (ring_next ?n t + i) mod ?n" for i
    by (simp add: ring_next_def mod_simps)
  then show ?thesis using assms(2) by (simp add: ring_def c upt_conv_Cons map_Suc_upt [symmetric] del: upt_Suc)
qed

lemma ring_skip_tl:
  "h < length slots \<Longrightarrow> t < length slots \<Longrightarrow> h \<noteq> t \<Longrightarrow> ring slots h (ring_next (length slots) t) = tl (ring slots h t)"
  using ring_skip [of h slots t] by simp

lemma ring_put_full:
  assumes "h < length slots" "t < length slots" "ring_next (length slots) h = t" "1 < length slots"
  shows "ring (slots[h := v]) t (ring_next (length slots) t) = tl (ring slots h t) @ [v]"
proof -
  let ?n = "length slots"
  have ht: "h \<noteq> t" using assms by (auto simp: ring_next_cases split: if_splits)
  have "ring_next ?n h \<noteq> ring_next ?n t"
    using assms by (auto simp: ring_next_cases split: if_splits)
  then have "ring (slots[h := v]) (ring_next ?n h) (ring_next ?n t) = ring slots h (ring_next ?n t) @ [v]"
    using assms by (intro ring_put) auto
  then show ?thesis using assms ht ring_skip_tl by simp
qed

lemma ring_full_iff:
  "h < n \<Longrightarrow> t < n \<Longrightarrow> ring_next n h = t \<longleftrightarrow> ring_count n h t = n - 1"
  by (auto simp: ring_next_cases ring_count_def)

text \<open>The ring cut behind one of its entries.\<close>

lemma ring_cut:
  assumes "h < length slots" "t < length slots" "k < ring_count (length slots) h t"
  shows "ring slots (ring_next (length slots) ((t + k) mod length slots)) t = take (Suc k) (ring slots h t)"
proof -
  let ?n = "length slots"
  have "Suc k < ?n" using ring_count_less [OF assms(1,2)] assms(3) by linarith
  then have "ring_count ?n (ring_next ?n ((t + k) mod ?n)) t = Suc k"
    using ring_index [OF assms(2,1,3)] assms(2) by (auto simp: ring_next_cases ring_count_def)
  then show ?thesis using assms(3) by (simp add: ring_def take_map take_upt)
qed

subsection \<open>Producer and consumer\<close>

text \<open>A run: \<open>Some x\<close> is an attempt to put \<open>x\<close>, \<open>None\<close> an attempt to get. The results are the final
  state, the accepted and the delivered entries. A call says whether it succeeded and may change the
  state also when it fails (a counter of drops).\<close>

fun calls_run :: "('a \<Rightarrow> 's \<Rightarrow> bool \<times> 's) \<Rightarrow> ('s \<Rightarrow> 'a option \<times> 's) \<Rightarrow> 'a option list \<Rightarrow> 's \<Rightarrow>
    's \<times> 'a list \<times> 'a list" where
  "calls_run put get [] s = (s, [], [])"
| "calls_run put get (Some x # es) s = (case put x s of
     (done, s') \<Rightarrow> (case calls_run put get es s' of (s'', acc, del) \<Rightarrow> (s'', (if done then x # acc else acc), del)))"
| "calls_run put get (None # es) s = (case get s of
     (r, s') \<Rightarrow> (case calls_run put get es s' of
        (s'', acc, del) \<Rightarrow> (s'', acc, (case r of None \<Rightarrow> del | Some x \<Rightarrow> x # del))))"

locale fifo_calls =
  fixes inv :: "'s \<Rightarrow> bool" and content :: "'s \<Rightarrow> 'a list" and capacity :: nat and admissible :: "'a \<Rightarrow> bool"
    and put :: "'a \<Rightarrow> 's \<Rightarrow> bool \<times> 's" and get :: "'s \<Rightarrow> 'a option \<times> 's"
  assumes put_law: "inv s \<Longrightarrow> put x s = (b, s') \<Longrightarrow> inv s' \<and> content s' = (if b then content s @ [x] else content s) \<and>
      (b \<longleftrightarrow> admissible x \<and> length (content s) < capacity)"
    and get_law: "inv s \<Longrightarrow> get s = (r, s') \<Longrightarrow> inv s' \<and>
      (case r of None \<Rightarrow> content s = [] \<and> content s' = [] | Some x \<Rightarrow> content s = x # content s')"
begin

lemma calls_order:
  "inv s \<Longrightarrow> calls_run put get es s = (s', acc, del) \<Longrightarrow> inv s' \<and> content s @ acc = del @ content s'"
proof (induction es arbitrary: s acc del)
  case (Cons e es)
  show ?case
  proof (cases e)
    case None
    obtain r s1 where g: "get s = (r, s1)" by fastforce
    obtain s2 acc1 del1 where c: "calls_run put get es s1 = (s2, acc1, del1)" by (metis prod_cases3)
    note l = get_law [OF Cons.prems(1) g]
    have e: "s2 = s'" using g c Cons.prems(2) None by simp
    have "inv s' \<and> content s1 @ acc1 = del1 @ content s'" using l c unfolding e by (intro Cons.IH) simp_all
    then show ?thesis using l g c Cons.prems(2) None by (auto split: option.splits)
  next
    case (Some x)
    obtain b s1 where p: "put x s = (b, s1)" by fastforce
    obtain s2 acc1 del1 where c: "calls_run put get es s1 = (s2, acc1, del1)" by (metis prod_cases3)
    note l = put_law [OF Cons.prems(1) p]
    have e: "s2 = s'" using p c Cons.prems(2) Some by simp
    have "inv s' \<and> content s1 @ acc1 = del1 @ content s'" using l c unfolding e by (intro Cons.IH) simp_all
    then show ?thesis using l p c Cons.prems(2) Some by (auto split: if_splits)
  qed
qed simp

lemma calls_bound:
  "inv s \<Longrightarrow> length (content s) \<le> capacity \<Longrightarrow> calls_run put get es s = (s', acc, del) \<Longrightarrow> length (content s') \<le> capacity"
proof (induction es arbitrary: s acc del)
  case (Cons e es)
  show ?case
  proof (cases e)
    case None
    obtain r s1 where g: "get s = (r, s1)" by fastforce
    have "inv s1" "length (content s1) \<le> capacity"
      using get_law [OF Cons.prems(1) g] Cons.prems(2) by (auto split: option.splits)
    then show ?thesis using Cons.IH [of s1] Cons.prems(3) None g by (auto split: prod.splits)
  next
    case (Some x)
    obtain b s1 where p: "put x s = (b, s1)" by fastforce
    have "inv s1" "length (content s1) \<le> capacity"
      using put_law [OF Cons.prems(1) p] Cons.prems(2) by (auto split: if_splits)
    then show ?thesis using Cons.IH [of s1] Cons.prems(3) Some p by (auto split: prod.splits)
  qed
qed simp

end

text \<open>The contract of calls that leave the state alone when they fail.\<close>

definition put_call :: "('a \<Rightarrow> 's \<Rightarrow> 's option) \<Rightarrow> 'a \<Rightarrow> 's \<Rightarrow> bool \<times> 's" where
  "put_call put x s = (case put x s of None \<Rightarrow> (False, s) | Some s' \<Rightarrow> (True, s'))"

definition get_call :: "('s \<Rightarrow> ('a \<times> 's) option) \<Rightarrow> 's \<Rightarrow> 'a option \<times> 's" where
  "get_call get s = (case get s of None \<Rightarrow> (None, s) | Some (x, s') \<Rightarrow> (Some x, s'))"

fun fifo_run :: "('a \<Rightarrow> 's \<Rightarrow> 's option) \<Rightarrow> ('s \<Rightarrow> ('a \<times> 's) option) \<Rightarrow> 'a option list \<Rightarrow> 's \<Rightarrow>
    's \<times> 'a list \<times> 'a list" where
  "fifo_run put get [] s = (s, [], [])"
| "fifo_run put get (Some x # es) s = (case put x s of
     None \<Rightarrow> fifo_run put get es s
   | Some s' \<Rightarrow> (case fifo_run put get es s' of (s'', acc, del) \<Rightarrow> (s'', x # acc, del)))"
| "fifo_run put get (None # es) s = (case get s of
     None \<Rightarrow> fifo_run put get es s
   | Some (x, s') \<Rightarrow> (case fifo_run put get es s' of (s'', acc, del) \<Rightarrow> (s'', acc, x # del)))"

lemma fifo_run_calls: "fifo_run put get es s = calls_run (put_call put) (get_call get) es s"
  by (induction put get es s rule: fifo_run.induct) (auto simp: put_call_def get_call_def split: option.split prod.split)

locale bounded_fifo =
  fixes inv :: "'s \<Rightarrow> bool" and content :: "'s \<Rightarrow> 'a list" and capacity :: nat
    and put :: "'a \<Rightarrow> 's \<Rightarrow> 's option" and get :: "'s \<Rightarrow> ('a \<times> 's) option"
  assumes put_Some: "inv s \<Longrightarrow> put x s = Some s' \<Longrightarrow> inv s' \<and> content s' = content s @ [x]"
    and put_None: "inv s \<Longrightarrow> put x s = None \<longleftrightarrow> length (content s) = capacity"
    and content_bound: "inv s \<Longrightarrow> length (content s) \<le> capacity"
    and get_Some: "inv s \<Longrightarrow> get s = Some (x, s') \<Longrightarrow> inv s' \<and> content s = x # content s'"
    and get_None: "inv s \<Longrightarrow> get s = None \<longleftrightarrow> content s = []"

sublocale bounded_fifo \<subseteq> calls: fifo_calls inv content capacity "\<lambda>_. True" "put_call put" "get_call get"
proof unfold_locales
  show "inv s' \<and> content s' = (if b then content s @ [x] else content s) \<and> (b \<longleftrightarrow> True \<and> length (content s) < capacity)"
    if "inv s" "put_call put x s = (b, s')" for s x b s'
    using that put_Some [of s x] put_None [of s x] content_bound [of s]
    by (cases "put x s") (auto simp: put_call_def)
  show "inv s' \<and> (case r of None \<Rightarrow> content s = [] \<and> content s' = [] | Some x \<Rightarrow> content s = x # content s')"
    if "inv s" "get_call get s = (r, s')" for s r s'
    using that get_Some [of s] get_None [of s] by (auto simp: get_call_def split: option.splits)
qed

context bounded_fifo
begin

lemma run_order:
  "inv s \<Longrightarrow> fifo_run put get es s = (s', acc, del) \<Longrightarrow> inv s' \<and> content s @ acc = del @ content s'"
  unfolding fifo_run_calls by (rule calls.calls_order)

end

end
