(* ===== verification/SafetyBuffer.thy ===== *)
theory SafetyBuffer
  imports RingBuffers "HOL-Library.Sublist"
begin

text \<open>
  The safety buffer (\<open>src/src/safety_buffer.c\<close>, \<open>src/include/safety_buffer.h\<close>): a ring of the NAL
  units of the last two seconds, their bytes in a RAM pool, a spill queue to a file on the memory
  stick that a writer thread drains, and the rewind to the last key frame.

  All static variables of the file are one record. A data pointer into \<open>ram_pool\<close> is an offset,
  NULL is \<open>None\<close>; a write-queue slot is the list of the bytes stored in it; ring indices, which the
  code keeps below the ring sizes, are naturals. The results of system calls (whether the mutex
  was taken, the descriptor \<open>sceIoOpen\<close> returns, what \<open>sceIoWrite\<close> returns, the time) are
  arguments of the operations. Logging and the counters used only for it are left out.
\<close>

subsection \<open>State\<close>

definition WRITE_QUEUE_SLOTS :: nat where [simp]: "WRITE_QUEUE_SLOTS = 12"
definition WRITE_QUEUE_BUF_SZ :: u32 where "WRITE_QUEUE_BUF_SZ = 64 * 1024"
definition SAFETY_BUFFER_SLOTS :: nat where [simp]: "SAFETY_BUFFER_SLOTS = 128"
definition SAFETY_BUFFER_SIZE_BYTES :: u32 where "SAFETY_BUFFER_SIZE_BYTES = 500 * 1024"
definition SAFETY_BUFFER_MAX_NAL_SIZE :: u32 where "SAFETY_BUFFER_MAX_NAL_SIZE = 256 * 1024"
definition SAFETY_BUFFER_DURATION_US :: u64 where "SAFETY_BUFFER_DURATION_US = 2000 * 1000"

datatype SafetyBufferState = SAFETY_BUFFER_IDLE | SAFETY_BUFFER_BUFFERING | SAFETY_BUFFER_REWIND
  | SAFETY_BUFFER_PAUSED

record SafetyBufferSlot =
  slot_data :: "nat option"
  slot_length :: u32
  slot_timestamp :: u64
  is_keyframe :: bool

record SafetyBuffer =
  initialized :: bool
  slots :: "SafetyBufferSlot list"
  ram_pool :: "u8 list"
  ram_pool_used :: u32
  write_head :: nat
  read_tail :: nat
  rewind_point :: nat
  buf_state :: SafetyBufferState
  fallback_fd :: int
  using_fallback :: bool
  total_nals_buffered :: u32
  total_bytes_buffered :: u32
  rewind_count :: u32
  fallback_writes :: u32
  fallback_drops :: u32
  oldest_timestamp :: u64
  newest_timestamp :: u64
  writer_running :: bool
  wq_slots :: "u8 list list"
  wq_head :: nat
  wq_tail :: nat
  queue_full_consec :: u32
  storage_fault :: bool
  show_rewind_icon :: bool
  rewind_icon_timeout :: u64
  current_pts :: u64

subsection \<open>Internal operations\<close>

definition allocate_from_pool :: "u32 \<Rightarrow> SafetyBuffer \<Rightarrow> nat option \<times> SafetyBuffer" where
  "allocate_from_pool sz s =
     (let sz = (sz + 63) AND NOT 63 in
      if ram_pool_used s + sz > SAFETY_BUFFER_SIZE_BYTES then (None, s)
      else (Some (unat (ram_pool_used s)), s\<lparr>ram_pool_used := ram_pool_used s + sz\<rparr>))"

text \<open>The ring write of \<open>write_to_fallback\<close>; \<open>None\<close> when the queue is full.\<close>

definition wq_put :: "u8 list \<Rightarrow> SafetyBuffer \<Rightarrow> SafetyBuffer option" where
  "wq_put nal s =
     (let next_head = ring_next WRITE_QUEUE_SLOTS (wq_head s) in
      if next_head = wq_tail s then None
      else Some (s\<lparr>wq_slots := (wq_slots s)[wq_head s := nal], wq_head := next_head\<rparr>))"

definition write_to_fallback :: "u8 list \<Rightarrow> SafetyBuffer \<Rightarrow> int \<times> SafetyBuffer" where
  "write_to_fallback nal s =
     (if fallback_fd s < 0 then (-1, s)
      else if of_nat (length nal) > WRITE_QUEUE_BUF_SZ
      then (-1, s\<lparr>fallback_drops := fallback_drops s + 1\<rparr>)
      else case wq_put nal s of
        None \<Rightarrow>
          (let s = s\<lparr>queue_full_consec := queue_full_consec s + 1, fallback_drops := fallback_drops s + 1\<rparr>
           in (-1, if queue_full_consec s \<ge> of_nat WRITE_QUEUE_SLOTS then s\<lparr>storage_fault := True\<rparr> else s))
      | Some s \<Rightarrow> (0, s\<lparr>queue_full_consec := 0, fallback_writes := fallback_writes s + 1\<rparr>))"

text \<open>The loop of \<open>evict_old_entries\<close>. At most \<open>SAFETY_BUFFER_SLOTS\<close> rounds are made, since the tail
  reaches the head within that many steps.\<close>

fun evict_loop :: "nat \<Rightarrow> u64 \<Rightarrow> SafetyBuffer \<Rightarrow> SafetyBuffer" where
  "evict_loop 0 cutoff s = s"
| "evict_loop (Suc fuel) cutoff s =
     (if read_tail s = write_head s then s
      else if slot_timestamp (slots s ! read_tail s) \<ge> cutoff then s
      else evict_loop fuel cutoff
        (s\<lparr>read_tail := ring_next SAFETY_BUFFER_SLOTS (read_tail s),
           oldest_timestamp := slot_timestamp (slots s ! read_tail s)\<rparr>))"

definition evict_old_entries :: "SafetyBuffer \<Rightarrow> SafetyBuffer" where
  "evict_old_entries s =
     (if newest_timestamp s = 0 then s
      else let cutoff_time = newest_timestamp s - SAFETY_BUFFER_DURATION_US;
               s = evict_loop SAFETY_BUFFER_SLOTS cutoff_time s
           in if read_tail s = write_head s then s\<lparr>ram_pool_used := 0\<rparr> else s)"

definition ring_prev :: "nat \<Rightarrow> nat \<Rightarrow> nat" where
  "ring_prev n i = (i + n - 1) mod n"

fun keyframe_loop :: "nat \<Rightarrow> SafetyBuffer \<Rightarrow> nat \<Rightarrow> nat option" where
  "keyframe_loop 0 s idx = None"
| "keyframe_loop (Suc fuel) s idx =
     (if idx = read_tail s then None
      else if slot_data (slots s ! idx) \<noteq> None \<and> is_keyframe (slots s ! idx) then Some idx
      else keyframe_loop fuel s (ring_prev SAFETY_BUFFER_SLOTS idx))"

text \<open>\<open>None\<close> is the result \<open>-1\<close>.\<close>

definition find_last_keyframe :: "SafetyBuffer \<Rightarrow> nat option" where
  "find_last_keyframe s = keyframe_loop SAFETY_BUFFER_SLOTS s (ring_prev SAFETY_BUFFER_SLOTS (write_head s))"

text \<open>One round of the inner loop of \<open>writer_thread\<close>: the slot at the tail is written (\<open>header_ok\<close> and
  \<open>payload_ret\<close> are the results of the two writes) and consumed.\<close>

definition writer_step :: "bool \<Rightarrow> int \<Rightarrow> SafetyBuffer \<Rightarrow> (u8 list \<times> SafetyBuffer) option" where
  "writer_step header_ok payload_ret s =
     (if wq_tail s = wq_head s then None
      else let nal = wq_slots s ! wq_tail s;
               s = (if fallback_fd s \<ge> 0 \<and> \<not> storage_fault s \<and>
                       (\<not> header_ok \<or> payload_ret < 0 \<or> payload_ret \<noteq> int (length nal))
                    then s\<lparr>storage_fault := True, fallback_fd := -1\<rparr> else s)
           in Some (nal, s\<lparr>wq_tail := ring_next WRITE_QUEUE_SLOTS (wq_tail s)\<rparr>))"

subsection \<open>Public operations\<close>

definition empty_slot :: SafetyBufferSlot where
  "empty_slot = \<lparr>slot_data = None, slot_length = 0, slot_timestamp = 0, is_keyframe = False\<rparr>"

text \<open>\<open>mutex_ok\<close> and \<open>sem_ok\<close> say whether the semaphores could be created. What the zeroing of the
  structure does not reach (the write queue, the icon, the fault flag) is kept.\<close>

definition safety_buffer_init :: "bool \<Rightarrow> bool \<Rightarrow> SafetyBuffer \<Rightarrow> int \<times> SafetyBuffer" where
  "safety_buffer_init mutex_ok sem_ok s =
     (if initialized s then (0, s)
      else
        let z = s\<lparr>slots := replicate SAFETY_BUFFER_SLOTS empty_slot, ram_pool := [], ram_pool_used := 0,
                write_head := 0, read_tail := 0, rewind_point := 0, buf_state := SAFETY_BUFFER_IDLE,
                fallback_fd := -1, using_fallback := False, total_nals_buffered := 0,
                total_bytes_buffered := 0, rewind_count := 0, fallback_writes := 0, fallback_drops := 0,
                oldest_timestamp := 0, newest_timestamp := 0, writer_running := False\<rparr> in
        if \<not> mutex_ok then (-1, z)
        else let z = z\<lparr>wq_head := 0, wq_tail := 0\<rparr> in
          if \<not> sem_ok then (-1, z)
          else (0, z\<lparr>ram_pool := replicate (unat SAFETY_BUFFER_SIZE_BYTES) 0,
                  buf_state := SAFETY_BUFFER_BUFFERING, writer_running := True, initialized := True\<rparr>))"

text \<open>The part of \<open>safety_buffer_store_nal\<close> behind the allocation: slot, statistics, head, eviction and
  the change from BUFFERING to IDLE.\<close>

definition commit_slot :: "nat option \<Rightarrow> u8 list \<Rightarrow> u64 \<Rightarrow> bool \<Rightarrow> SafetyBuffer \<Rightarrow> SafetyBuffer" where
  "commit_slot off nal pts keyframe s =
     (let len = of_nat (length nal); next_head = ring_next SAFETY_BUFFER_SLOTS (write_head s);
          s = s\<lparr>slots := (slots s)[write_head s := \<lparr>slot_data = off, slot_length = len,
                 slot_timestamp = pts, is_keyframe = keyframe\<rparr>],
              oldest_timestamp := (if oldest_timestamp s = 0 then pts else oldest_timestamp s),
              newest_timestamp := pts, total_nals_buffered := total_nals_buffered s + 1,
              total_bytes_buffered := total_bytes_buffered s + len, write_head := next_head\<rparr>;
          s = (if keyframe then s\<lparr>rewind_point := write_head s\<rparr> else s);
          s = evict_old_entries s
      in if buf_state s = SAFETY_BUFFER_BUFFERING \<and> newest_timestamp s - oldest_timestamp s \<ge> 500000
         then s\<lparr>buf_state := SAFETY_BUFFER_IDLE\<rparr> else s)"

definition copy_to_pool :: "nat \<Rightarrow> u8 list \<Rightarrow> SafetyBuffer \<Rightarrow> SafetyBuffer" where
  "copy_to_pool off nal s = s\<lparr>ram_pool := take off (ram_pool s) @ nal @ drop (off + length nal) (ram_pool s)\<rparr>"

text \<open>The step of \<open>safety_buffer_store_nal\<close> that makes room in a full ring.\<close>

definition drop_oldest :: "SafetyBuffer \<Rightarrow> SafetyBuffer" where
  "drop_oldest s = (if ring_next SAFETY_BUFFER_SLOTS (write_head s) = read_tail s
     then s\<lparr>read_tail := ring_next SAFETY_BUFFER_SLOTS (read_tail s)\<rparr> else s)"

definition safety_buffer_store_nal :: "bool \<Rightarrow> int \<Rightarrow> u8 list \<Rightarrow> u64 \<Rightarrow> bool \<Rightarrow> SafetyBuffer \<Rightarrow> SafetyBuffer" where
  "safety_buffer_store_nal locked open_fd nal pts keyframe s =
     (if \<not> initialized s \<or> length nal = 0 then s
      else if of_nat (length nal) > SAFETY_BUFFER_MAX_NAL_SIZE then s
      else if \<not> locked then s
      else
        let s = drop_oldest s in
        if \<not> using_fallback s then
          (case allocate_from_pool (of_nat (length nal)) s of
             (None, s) \<Rightarrow>
               (let s = s\<lparr>fallback_fd := open_fd\<rparr> in
                if open_fd \<ge> 0 then snd (write_to_fallback nal (s\<lparr>using_fallback := True\<rparr>)) else s)
           | (Some off, s) \<Rightarrow> commit_slot (Some off) nal pts keyframe (copy_to_pool off nal s))
        else
          (case write_to_fallback nal s of (r, s) \<Rightarrow>
             if r < 0 then s else commit_slot None nal pts keyframe s))"

definition safety_buffer_handle_packet_loss :: "bool \<Rightarrow> u64 \<Rightarrow> SafetyBuffer \<Rightarrow> SafetyBuffer" where
  "safety_buffer_handle_packet_loss locked now s =
     (if \<not> initialized s \<or> \<not> locked then s
      else s\<lparr>buf_state := SAFETY_BUFFER_REWIND, rewind_count := rewind_count s + 1,
             show_rewind_icon := True, rewind_icon_timeout := now + 2000000\<rparr>)"

definition safety_buffer_can_rewind :: "bool \<Rightarrow> SafetyBuffer \<Rightarrow> bool" where
  "safety_buffer_can_rewind locked s \<longleftrightarrow>
     initialized s \<and> locked \<and> write_head s \<noteq> read_tail s \<and> find_last_keyframe s \<noteq> None"

text \<open>The pool offset, length and time of the key frame; \<open>None\<close> when NULL is returned early.\<close>

definition safety_buffer_rewind :: "bool \<Rightarrow> SafetyBuffer \<Rightarrow> (nat option \<times> u32 \<times> u64) option \<times> SafetyBuffer" where
  "safety_buffer_rewind locked s =
     (if \<not> initialized s \<or> \<not> locked then (None, s)
      else case find_last_keyframe s of
        None \<Rightarrow> (None, s)
      | Some idx \<Rightarrow>
          (let slot = slots s ! idx; next = ring_next SAFETY_BUFFER_SLOTS idx in
           (Some (slot_data slot, slot_length slot, slot_timestamp slot),
            s\<lparr>write_head := next, rewind_point := next, buf_state := SAFETY_BUFFER_BUFFERING\<rparr>)))"

definition safety_buffer_get_stats :: "bool \<Rightarrow> SafetyBuffer \<Rightarrow> u32 \<times> u32 \<times> u32" where
  "safety_buffer_get_stats locked s =
     (if \<not> initialized s \<or> \<not> locked then (0, 0, 0)
      else (total_nals_buffered s, total_bytes_buffered s, rewind_count s))"

definition safety_buffer_clear :: "bool \<Rightarrow> int \<Rightarrow> SafetyBuffer \<Rightarrow> SafetyBuffer" where
  "safety_buffer_clear locked open_fd s =
     (if \<not> initialized s \<or> \<not> locked then s
      else let s = s\<lparr>write_head := 0, read_tail := 0, rewind_point := 0, ram_pool_used := 0,
                 slots := map (\<lambda>sl. sl\<lparr>slot_data := None, slot_length := 0\<rparr>) (slots s),
                 buf_state := SAFETY_BUFFER_BUFFERING, total_nals_buffered := 0,
                 total_bytes_buffered := 0, fallback_drops := 0\<rparr>
           in if using_fallback s \<and> fallback_fd s \<ge> 0 then s\<lparr>fallback_fd := open_fd\<rparr> else s)"

text \<open>The writer thread has ended when the rest of the shutdown runs.\<close>

definition safety_buffer_shutdown :: "SafetyBuffer \<Rightarrow> SafetyBuffer" where
  "safety_buffer_shutdown s =
     (if \<not> initialized s then s
      else s\<lparr>writer_running := False, ram_pool := [], initialized := False,
             fallback_fd := (if fallback_fd s \<ge> 0 then -1 else fallback_fd s)\<rparr>)"

definition safety_buffer_update_pts :: "u64 \<Rightarrow> SafetyBuffer \<Rightarrow> SafetyBuffer" where
  "safety_buffer_update_pts pts s = s\<lparr>current_pts := pts\<rparr>"

subsection \<open>The spill queue\<close>

definition wq_inv :: "SafetyBuffer \<Rightarrow> bool" where
  "wq_inv s \<longleftrightarrow> length (wq_slots s) = WRITE_QUEUE_SLOTS \<and> wq_head s < WRITE_QUEUE_SLOTS \<and>
     wq_tail s < WRITE_QUEUE_SLOTS"

definition wq_content :: "SafetyBuffer \<Rightarrow> u8 list list" where
  "wq_content s = ring (wq_slots s) (wq_head s) (wq_tail s)"

interpretation spill: bounded_fifo wq_inv wq_content "WRITE_QUEUE_SLOTS - 1" wq_put "writer_step hdr ret"
  for hdr :: bool and ret :: int
proof unfold_locales
  show "wq_inv s' \<and> wq_content s' = wq_content s @ [x]" if "wq_inv s" "wq_put x s = Some s'" for s s' x
    using that ring_put [of "wq_head s" "wq_slots s" "wq_tail s" x]
    by (auto simp: wq_inv_def wq_content_def wq_put_def Let_def split: if_splits)
  show "wq_put x s = None \<longleftrightarrow> length (wq_content s) = WRITE_QUEUE_SLOTS - 1" if "wq_inv s" for s x
    using that ring_full_iff [of "wq_head s" WRITE_QUEUE_SLOTS "wq_tail s"]
    by (auto simp: wq_inv_def wq_content_def wq_put_def Let_def)
  show "length (wq_content s) \<le> WRITE_QUEUE_SLOTS - 1" if "wq_inv s" for s
    using that ring_count_less [of "wq_head s" WRITE_QUEUE_SLOTS "wq_tail s"]
    by (auto simp: wq_inv_def wq_content_def)
  show "wq_inv s' \<and> wq_content s = x # wq_content s'" if "wq_inv s" "writer_step hdr ret s = Some (x, s')" for s s' x
    using that ring_skip [of "wq_head s" "wq_slots s" "wq_tail s"]
    by (auto simp: wq_inv_def wq_content_def writer_step_def Let_def split: if_splits)
  show "writer_step hdr ret s = None \<longleftrightarrow> wq_content s = []" if "wq_inv s" for s
    using that ring_empty_iff [of "wq_head s" "wq_slots s" "wq_tail s"]
    by (auto simp: wq_inv_def wq_content_def writer_step_def Let_def)
qed

subsection \<open>The invariant\<close>

definition slot_in_pool :: "nat \<Rightarrow> SafetyBufferSlot \<Rightarrow> bool" where
  "slot_in_pool used sl = (case slot_data sl of None \<Rightarrow> True | Some off \<Rightarrow> off + unat (slot_length sl) \<le> used)"

definition buffered_slots :: "SafetyBuffer \<Rightarrow> SafetyBufferSlot list" where
  "buffered_slots s = ring (slots s) (write_head s) (read_tail s)"

definition sb_inv :: "SafetyBuffer \<Rightarrow> bool" where
  "sb_inv s \<longleftrightarrow> length (slots s) = SAFETY_BUFFER_SLOTS \<and> write_head s < SAFETY_BUFFER_SLOTS \<and>
     read_tail s < SAFETY_BUFFER_SLOTS \<and> length (ram_pool s) = unat SAFETY_BUFFER_SIZE_BYTES \<and>
     ram_pool_used s \<le> SAFETY_BUFFER_SIZE_BYTES \<and>
     (\<forall>sl\<in>set (buffered_slots s). slot_in_pool (unat (ram_pool_used s)) sl)"

text \<open>What is in the buffer: bytes (when they are in RAM), time and key frame flag of each NAL unit.\<close>

type_synonym entry = "u8 list option \<times> u64 \<times> bool"

definition slot_entry :: "u8 list \<Rightarrow> SafetyBufferSlot \<Rightarrow> entry" where
  "slot_entry pool sl = (map_option (\<lambda>off. take (unat (slot_length sl)) (drop off pool)) (slot_data sl),
     slot_timestamp sl, is_keyframe sl)"

definition buffered :: "SafetyBuffer \<Rightarrow> entry list" where
  "buffered s = map (slot_entry (ram_pool s)) (buffered_slots s)"

lemma same_tail: "\<exists>rt old. (s :: SafetyBuffer) = s\<lparr>read_tail := rt, oldest_timestamp := old\<rparr>"
  by (intro exI [of _ "read_tail s"] exI [of _ "oldest_timestamp s"]) simp

lemma evict_loop_ok:
  assumes "length (slots s) = SAFETY_BUFFER_SLOTS" "write_head s < SAFETY_BUFFER_SLOTS" "read_tail s < SAFETY_BUFFER_SLOTS"
    and "ring_count SAFETY_BUFFER_SLOTS (write_head s) (read_tail s) \<le> fuel"
  shows "buffered_slots (evict_loop fuel cutoff s) = dropWhile (\<lambda>sl. slot_timestamp sl < cutoff) (buffered_slots s)"
    and "read_tail (evict_loop fuel cutoff s) < SAFETY_BUFFER_SLOTS"
    and "\<exists>rt old. evict_loop fuel cutoff s = s\<lparr>read_tail := rt, oldest_timestamp := old\<rparr>"
proof -
  have "buffered_slots (evict_loop fuel cutoff s) = dropWhile (\<lambda>sl. slot_timestamp sl < cutoff) (buffered_slots s) \<and>
     read_tail (evict_loop fuel cutoff s) < SAFETY_BUFFER_SLOTS \<and>
     (\<exists>rt old. evict_loop fuel cutoff s = s\<lparr>read_tail := rt, oldest_timestamp := old\<rparr>)"
    using assms
  proof (induction fuel arbitrary: s)
    case 0
    then have "write_head s = read_tail s" by (auto simp: ring_count_def split: if_splits)
    then show ?case using 0 by (auto simp: buffered_slots_def intro: same_tail)
  next
    case (Suc fuel)
    show ?case
    proof (cases "read_tail s = write_head s")
      case True
      then show ?thesis using Suc.prems by (auto simp: buffered_slots_def intro: same_tail)
    next
      case ne: False
      have sk: "buffered_slots s = slots s ! read_tail s # ring (slots s) (write_head s) (ring_next SAFETY_BUFFER_SLOTS (read_tail s))"
        using ring_skip [of "write_head s" "slots s" "read_tail s"] Suc.prems ne by (simp add: buffered_slots_def)
      show ?thesis
      proof (cases "slot_timestamp (slots s ! read_tail s) \<ge> cutoff")
        case True
        then show ?thesis using sk ne Suc.prems
          by (auto simp: not_less intro: same_tail)
      next
        case False
        let ?s1 = "s\<lparr>read_tail := ring_next SAFETY_BUFFER_SLOTS (read_tail s),
            oldest_timestamp := slot_timestamp (slots s ! read_tail s)\<rparr>"
        have len: "Suc (ring_count SAFETY_BUFFER_SLOTS (write_head s) (ring_next SAFETY_BUFFER_SLOTS (read_tail s))) =
            ring_count SAFETY_BUFFER_SLOTS (write_head s) (read_tail s)"
          using arg_cong [OF sk, of length] Suc.prems(1) by (simp add: buffered_slots_def)
        have "buffered_slots (evict_loop fuel cutoff ?s1) = dropWhile (\<lambda>sl. slot_timestamp sl < cutoff) (buffered_slots ?s1) \<and>
            read_tail (evict_loop fuel cutoff ?s1) < SAFETY_BUFFER_SLOTS \<and>
            (\<exists>rt old. evict_loop fuel cutoff ?s1 = ?s1\<lparr>read_tail := rt, oldest_timestamp := old\<rparr>)"
          using Suc.prems len by (intro Suc.IH) (auto simp del: SAFETY_BUFFER_SLOTS_def)
        then show ?thesis using sk False ne by (auto simp: not_le buffered_slots_def)
      qed
    qed
  qed
  then show "buffered_slots (evict_loop fuel cutoff s) = dropWhile (\<lambda>sl. slot_timestamp sl < cutoff) (buffered_slots s)"
    "read_tail (evict_loop fuel cutoff s) < SAFETY_BUFFER_SLOTS"
    "\<exists>rt old. evict_loop fuel cutoff s = s\<lparr>read_tail := rt, oldest_timestamp := old\<rparr>" by blast+
qed

text \<open>Eviction in terms of the entries.\<close>

definition fresh_only :: "u64 \<Rightarrow> entry list \<Rightarrow> entry list" where
  "fresh_only newest es = (if newest = 0 then es
     else dropWhile (\<lambda>(b, t, k). t < newest - SAFETY_BUFFER_DURATION_US) es)"

lemma evict_old_entries_ok:
  assumes "sb_inv s"
  shows "sb_inv (evict_old_entries s)" "buffered (evict_old_entries s) = fresh_only (newest_timestamp s) (buffered s)"
    and "ram_pool_used (evict_old_entries s) = (if newest_timestamp s \<noteq> 0 \<and> buffered (evict_old_entries s) = []
       then 0 else ram_pool_used s)"
proof -
  let ?cut = "newest_timestamp s - SAFETY_BUFFER_DURATION_US"
  define s1 where "s1 = evict_loop SAFETY_BUFFER_SLOTS ?cut s"
  have i: "length (slots s) = SAFETY_BUFFER_SLOTS" "write_head s < SAFETY_BUFFER_SLOTS" "read_tail s < SAFETY_BUFFER_SLOTS"
    using assms by (simp_all add: sb_inv_def)
  have "ring_count SAFETY_BUFFER_SLOTS (write_head s) (read_tail s) \<le> SAFETY_BUFFER_SLOTS"
    using ring_count_less [OF i(2,3)] by simp
  note ev = evict_loop_ok [OF i this, of ?cut, folded s1_def]
  obtain rt old where s1: "s1 = s\<lparr>read_tail := rt, oldest_timestamp := old\<rparr>" using ev(3) by blast
  have e: "evict_old_entries s = (if newest_timestamp s = 0 then s
      else if read_tail s1 = write_head s1 then s1\<lparr>ram_pool_used := 0\<rparr> else s1)"
    by (simp add: evict_old_entries_def s1_def Let_def del: SAFETY_BUFFER_SLOTS_def)
  have emp: "read_tail s1 = write_head s1 \<longleftrightarrow> buffered_slots s1 = []"
    using ring_empty_iff [of "write_head s1" "slots s1" "read_tail s1"] i ev(2) s1 by (auto simp: buffered_slots_def)
  have sub: "set (buffered_slots s1) \<subseteq> set (buffered_slots s)" unfolding ev(1) by (auto dest: set_dropWhileD)
  show "sb_inv (evict_old_entries s)"
    using assms ev(2) sub emp unfolding e by (auto simp: sb_inv_def s1 buffered_slots_def)
  have "buffered s1 = dropWhile (\<lambda>(b, t, k). t < ?cut) (buffered s)"
    using ev(1) by (simp add: buffered_def dropWhile_map comp_def slot_entry_def s1)
  then show "buffered (evict_old_entries s) = fresh_only (newest_timestamp s) (buffered s)"
    unfolding e by (auto simp: fresh_only_def buffered_def buffered_slots_def)
  show "ram_pool_used (evict_old_entries s) = (if newest_timestamp s \<noteq> 0 \<and> buffered (evict_old_entries s) = []
       then 0 else ram_pool_used s)"
    unfolding e using emp by (auto simp: s1 buffered_def buffered_slots_def)
qed

subsection \<open>Storing\<close>

text \<open>The ring makes room by dropping its oldest entry.\<close>

definition make_room :: "'a list \<Rightarrow> 'a list" where
  "make_room es = (if length es = SAFETY_BUFFER_SLOTS - 1 then tl es else es)"

lemma commit_slot_ok:
  assumes inv: "sb_inv s" and room: "ring_next SAFETY_BUFFER_SLOTS (write_head s) \<noteq> read_tail s"
    and off: "slot_in_pool (unat (ram_pool_used s))
      \<lparr>slot_data = off, slot_length = of_nat (length nal), slot_timestamp = pts, is_keyframe = key\<rparr>"
  defines "e \<equiv> slot_entry (ram_pool s)
      \<lparr>slot_data = off, slot_length = of_nat (length nal), slot_timestamp = pts, is_keyframe = key\<rparr>"
    and "out \<equiv> commit_slot off nal pts key s"
  shows "sb_inv out" "buffered out = fresh_only pts (buffered s @ [e])"
    and "ram_pool_used out = (if pts \<noteq> 0 \<and> buffered out = [] then 0 else ram_pool_used s)"
proof -
  let ?sl = "\<lparr>slot_data = off, slot_length = of_nat (length nal), slot_timestamp = pts, is_keyframe = key\<rparr>"
  define s1 where "s1 = s\<lparr>slots := (slots s)[write_head s := ?sl],
      oldest_timestamp := (if oldest_timestamp s = 0 then pts else oldest_timestamp s),
      newest_timestamp := pts, total_nals_buffered := total_nals_buffered s + 1,
      total_bytes_buffered := total_bytes_buffered s + of_nat (length nal),
      write_head := ring_next SAFETY_BUFFER_SLOTS (write_head s),
      rewind_point := (if key then ring_next SAFETY_BUFFER_SLOTS (write_head s) else rewind_point s)\<rparr>"
  have out: "out = (let s = evict_old_entries s1 in
      if buf_state s = SAFETY_BUFFER_BUFFERING \<and> newest_timestamp s - oldest_timestamp s \<ge> 500000
      then s\<lparr>buf_state := SAFETY_BUFFER_IDLE\<rparr> else s)"
    by (cases key) (simp_all add: out_def commit_slot_def s1_def Let_def)
  have bs: "buffered_slots s1 = buffered_slots s @ [?sl]"
    using inv room ring_put [of "write_head s" "slots s" "read_tail s" ?sl]
    by (simp add: buffered_slots_def s1_def sb_inv_def)
  have inv1: "sb_inv s1"
    using inv off bs by (simp add: sb_inv_def) (simp add: s1_def)
  note ev = evict_old_entries_ok [OF inv1]
  have same: "buffered (s\<lparr>buf_state := st\<rparr>) = buffered s" "sb_inv (s\<lparr>buf_state := st\<rparr>) = sb_inv s" for s st
    by (simp_all add: buffered_def buffered_slots_def sb_inv_def)
  have b1: "buffered s1 = buffered s @ [e]" unfolding buffered_def bs e_def by (simp add: s1_def)
  have n1: "newest_timestamp s1 = pts" "ram_pool_used s1 = ram_pool_used s" by (simp_all add: s1_def)
  show "sb_inv out" "buffered out = fresh_only pts (buffered s @ [e])"
    "ram_pool_used out = (if pts \<noteq> 0 \<and> buffered out = [] then 0 else ram_pool_used s)"
    using ev unfolding out Let_def by (simp_all add: same b1 n1)
qed

text \<open>Bytes written behind the used part of the pool leave the entries alone.\<close>

lemma copy_to_pool_ok:
  assumes inv: "sb_inv s" and used: "unat (ram_pool_used s) + length nal \<le> unat SAFETY_BUFFER_SIZE_BYTES"
    and more: "ram_pool_used s \<le> u" "u \<le> SAFETY_BUFFER_SIZE_BYTES"
  defines "out \<equiv> copy_to_pool (unat (ram_pool_used s)) nal (s\<lparr>ram_pool_used := u\<rparr>)"
  shows "sb_inv out" "buffered out = buffered s" "take (length nal) (drop (unat (ram_pool_used s)) (ram_pool out)) = nal"
proof -
  let ?k = "unat (ram_pool_used s)"
  have len: "length (ram_pool s) = unat SAFETY_BUFFER_SIZE_BYTES" using inv by (simp add: sb_inv_def)
  have pool: "ram_pool out = take ?k (ram_pool s) @ nal @ drop (?k + length nal) (ram_pool s)"
    by (simp add: out_def copy_to_pool_def)
  have bs: "buffered_slots out = buffered_slots s" by (simp add: out_def copy_to_pool_def buffered_slots_def)
  have in_pool: "slot_in_pool ?k sl" if "sl \<in> set (buffered_slots s)" for sl
    using inv that by (simp add: sb_inv_def)
  have "slot_in_pool (unat u) sl" if "sl \<in> set (buffered_slots s)" for sl
    using in_pool [OF that] more(1) by (auto simp: slot_in_pool_def word_le_nat_alt split: option.splits)
  then show "sb_inv out"
    using inv more(2) used len bs by (auto simp: sb_inv_def pool) (simp_all add: out_def copy_to_pool_def)
  have "slot_entry (ram_pool out) sl = slot_entry (ram_pool s) sl" if "sl \<in> set (buffered_slots s)" for sl
  proof (cases "slot_data sl")
    case (Some o')
    then have o: "o' + unat (slot_length sl) \<le> ?k" using in_pool [OF that] by (simp add: slot_in_pool_def)
    have "take (unat (slot_length sl)) (drop o' (ram_pool out)) = take (unat (slot_length sl)) (drop o' (take ?k (ram_pool s)))"
      using o len used by (simp add: pool)
    also have "\<dots> = take (unat (slot_length sl)) (drop o' (ram_pool s))"
      using o by (simp add: drop_take take_take min_absorb1)
    finally show ?thesis by (simp add: slot_entry_def Some)
  qed (simp add: slot_entry_def)
  then show "buffered out = buffered s" by (simp add: buffered_def bs)
  show "take (length nal) (drop ?k (ram_pool out)) = nal" using len used by (simp add: pool)
qed

definition pool_size_of :: "u8 list \<Rightarrow> u32" where
  "pool_size_of nal = (of_nat (length nal) + 63) AND NOT 63"

lemma pool_size_of_bounds:
  assumes "of_nat (length nal) \<le> SAFETY_BUFFER_MAX_NAL_SIZE" "length nal < 2 ^ 32"
  shows "length nal \<le> unat (pool_size_of nal)" "unat (pool_size_of nal) \<le> length nal + 63"
proof -
  define x where "x = (of_nat (length nal) :: u32)"
  have x: "unat x = length nal" using assms(2) by (simp add: x_def unat_of_nat)
  have le: "unat x \<le> 262144" using assms(1) by (simp add: x_def SAFETY_BUFFER_MAX_NAL_SIZE_def word_le_nat_alt)
  then have p: "unat (x + 63) = unat x + 63" by (simp add: unat_word_ariths)
  define y where "y = x + 63"
  have m: "(63 :: u32) = mask 6" by (simp add: mask_eq_exp_minus_1)
  have d: "(y AND mask 6) + (y AND NOT (mask 6)) = (y AND mask 6) OR (y AND NOT (mask 6))"
    by (rule disjunctive_add_eq_or) (simp add: bit_eq_iff bit_simps)
  have "(y AND mask 6) OR (y AND NOT (mask 6)) = y" by (auto simp: bit_eq_iff bit_simps)
  then have e: "y AND NOT 63 = y - take_bit 6 y" using d unfolding m take_bit_eq_mask by (simp add: algebra_simps)
  have t: "unat (take_bit 6 y) = unat y mod 64" by (simp add: take_bit_eq_mod unat_mod_distrib)
  then have "take_bit 6 y \<le> y" by (simp add: word_le_nat_alt)
  then have u: "unat (y AND NOT 63) = unat y - unat y mod 64" unfolding e by (simp add: unat_sub t)
  have "unat y = unat x + 63" using p by (simp add: y_def)
  then have "unat x \<le> unat (y AND NOT 63) \<and> unat (y AND NOT 63) \<le> unat x + 63"
    unfolding u using mod_less_divisor [of 64 "unat y"] by linarith
  then show "length nal \<le> unat (pool_size_of nal)" "unat (pool_size_of nal) \<le> length nal + 63"
    using x by (simp_all add: pool_size_of_def y_def flip: x_def)
qed

lemma drop_oldest_ok:
  assumes "sb_inv s"
  shows "sb_inv (drop_oldest s)" "buffered (drop_oldest s) = make_room (buffered s)"
    "ring_next SAFETY_BUFFER_SLOTS (write_head (drop_oldest s)) \<noteq> read_tail (drop_oldest s)"
    "ram_pool_used (drop_oldest s) = ram_pool_used s" "using_fallback (drop_oldest s) = using_fallback s"
    "fallback_fd (drop_oldest s) = fallback_fd s" "wq_content (drop_oldest s) = wq_content s" "wq_inv (drop_oldest s) = wq_inv s"
proof -
  have i: "write_head s < SAFETY_BUFFER_SLOTS" "read_tail s < SAFETY_BUFFER_SLOTS" "length (slots s) = SAFETY_BUFFER_SLOTS"
    using assms by (simp_all add: sb_inv_def)
  have full: "ring_next SAFETY_BUFFER_SLOTS (write_head s) = read_tail s \<longleftrightarrow> length (buffered s) = SAFETY_BUFFER_SLOTS - 1"
    using ring_full_iff [OF i(1,2)] i(3) by (simp add: buffered_def buffered_slots_def)
  have tl: "buffered_slots (drop_oldest s) = tl (buffered_slots s)"
    if "ring_next SAFETY_BUFFER_SLOTS (write_head s) = read_tail s"
    using that ring_skip_tl [of "write_head s" "slots s" "read_tail s"] i
    by (auto simp: drop_oldest_def buffered_slots_def ring_next_cases split: if_splits)
  show "sb_inv (drop_oldest s)"
  proof (cases "ring_next SAFETY_BUFFER_SLOTS (write_head s) = read_tail s")
    case True
    have "\<forall>sl\<in>set (buffered_slots (drop_oldest s)). slot_in_pool (unat (ram_pool_used s)) sl"
      unfolding tl [OF True] using assms by (auto simp: sb_inv_def dest: list.set_sel(2) [rotated])
        (metis list.sel(2) list.set_sel(2))
    then show ?thesis using assms True by (simp add: sb_inv_def) (simp add: drop_oldest_def)
  qed (use assms in \<open>simp add: drop_oldest_def\<close>)
  show "buffered (drop_oldest s) = make_room (buffered s)"
    using full tl by (auto simp: make_room_def buffered_def map_tl) (simp_all add: drop_oldest_def)
  show "ring_next SAFETY_BUFFER_SLOTS (write_head (drop_oldest s)) \<noteq> read_tail (drop_oldest s)"
    using i by (auto simp: drop_oldest_def ring_next_cases split: if_splits)
qed (simp_all add: drop_oldest_def wq_content_def wq_inv_def)

text \<open>
  The window without wrap-around. From two seconds on, a presentation time leaves the units of the last two
  seconds, seen from the oldest one. Below two seconds the cutoff of the code wraps around in 64 bits.
\<close>

definition in_window :: "u64 \<Rightarrow> entry \<Rightarrow> bool" where
  "in_window newest = (\<lambda>(b, t, k). unat newest \<le> unat t + 2000000)"

lemma duration: "unat SAFETY_BUFFER_DURATION_US = 2000000"
  by (simp add: SAFETY_BUFFER_DURATION_US_def)

lemma cutoff_late:
  assumes "2000000 \<le> unat pts"
  shows "(t < pts - SAFETY_BUFFER_DURATION_US) = (\<not> unat pts \<le> unat t + 2000000)"
proof -
  have "SAFETY_BUFFER_DURATION_US \<le> pts" using assms by (simp add: word_le_nat_alt duration)
  then have "unat (pts - SAFETY_BUFFER_DURATION_US) = unat pts - 2000000" by (simp add: unat_sub duration)
  then show ?thesis by (simp only: word_less_nat_alt) linarith
qed

lemma cutoff_early:
  assumes "unat pts < 2000000"
  shows "pts < pts - SAFETY_BUFFER_DURATION_US"
proof -
  have eq: "pts - SAFETY_BUFFER_DURATION_US = of_nat (unat pts + (2 ^ 64 - 2000000))"
    by (simp add: SAFETY_BUFFER_DURATION_US_def)
  have "unat pts + (2 ^ 64 - 2000000) < 2 ^ LENGTH(64)" using assms by simp
  then have "unat (pts - SAFETY_BUFFER_DURATION_US) = unat pts + (2 ^ 64 - 2000000)"
    unfolding eq unsigned_of_nat of_nat_id by (rule take_bit_nat_eq_self)
  then show ?thesis by (simp add: word_less_nat_alt)
qed

lemma fresh_only_window:
  assumes "2000000 \<le> unat pts"
  shows "fresh_only pts es = dropWhile (\<lambda>e. \<not> in_window pts e) es"
proof -
  have "(\<lambda>(b, t, k). t < pts - SAFETY_BUFFER_DURATION_US) = (\<lambda>e. \<not> in_window pts e)"
    by (auto simp only: in_window_def cutoff_late [OF assms] fun_eq_iff split: prod.split)
  moreover have "pts \<noteq> 0" using assms by auto
  ultimately show ?thesis by (simp only: fresh_only_def if_False)
qed

lemma fresh_only_early:
  assumes "0 < unat pts" "unat pts < 2000000" "\<forall>(b, t, k)\<in>set es. t \<le> pts"
  shows "fresh_only pts es = []"
proof -
  have "\<forall>(b, t, k)\<in>set es. t < pts - SAFETY_BUFFER_DURATION_US"
    using assms(3) cutoff_early [OF assms(2)] by (auto intro: le_less_trans)
  moreover have "pts \<noteq> 0" using assms(1) by auto
  ultimately show ?thesis by (auto simp: fresh_only_def dropWhile_eq_Nil_conv)
qed

lemma fresh_only_zero: "fresh_only 0 es = es"
  by (simp add: fresh_only_def)

lemma make_room_set: "set (make_room es) \<subseteq> set es"
  by (cases es) (auto simp: make_room_def)

text \<open>The reading of the ring after a store, in terms of the entries before it.\<close>

lemma store_in_ring:
  assumes inv: "sb_inv s" and init: "initialized s" "\<not> using_fallback s"
    and nal: "nal \<noteq> []" "length nal \<le> 256 * 1024"
    and room: "unat (ram_pool_used s) + unat (pool_size_of nal) \<le> 500 * 1024"
  shows "let s' = safety_buffer_store_nal True fd nal pts key s in
    sb_inv s' \<and> buffered s' = fresh_only pts (make_room (buffered s) @ [(Some nal, pts, key)]) \<and>
    ram_pool_used s' = (if pts \<noteq> 0 \<and> buffered s' = [] then 0 else ram_pool_used s + pool_size_of nal)"
proof -
  define s1 where "s1 = drop_oldest s"
  note d = drop_oldest_ok [OF inv, folded s1_def]
  let ?off = "unat (ram_pool_used s1)" and ?u = "ram_pool_used s1 + pool_size_of nal"
  have len: "length nal < 2 ^ 32" "unat (of_nat (length nal) :: u32) = length nal" "\<not> of_nat (length nal) > SAFETY_BUFFER_MAX_NAL_SIZE"
    using nal(2) by (simp_all add: SAFETY_BUFFER_MAX_NAL_SIZE_def word_le_nat_alt unat_of_nat not_less)
  then have nz: "of_nat (length nal) \<le> SAFETY_BUFFER_MAX_NAL_SIZE" by simp
  note pb = pool_size_of_bounds [OF nz len(1)]
  have sz: "unat SAFETY_BUFFER_SIZE_BYTES = 500 * 1024" by (simp add: SAFETY_BUFFER_SIZE_BYTES_def)
  have ub: "unat ?u = ?off + unat (pool_size_of nal)"
    using room d(4) by (intro unat_add_lem [THEN iffD1]) simp
  then have u: "ram_pool_used s1 \<le> ?u" "?u \<le> SAFETY_BUFFER_SIZE_BYTES"
    using room d(4) by (simp_all add: word_le_nat_alt sz)
  have fits: "?off + length nal \<le> unat SAFETY_BUFFER_SIZE_BYTES" using room d(4) pb(1) sz by simp
  define s2 where "s2 = copy_to_pool ?off nal (s1\<lparr>ram_pool_used := ?u\<rparr>)"
  note cp = copy_to_pool_ok [OF d(1) fits u, folded s2_def]
  have s2: "ram_pool_used s2 = ?u" "write_head s2 = write_head s1" "read_tail s2 = read_tail s1"
    by (simp_all add: s2_def copy_to_pool_def)
  have room2: "ring_next SAFETY_BUFFER_SLOTS (write_head s2) \<noteq> read_tail s2" using d(3) s2 by simp
  let ?sl = "\<lparr>slot_data = Some ?off, slot_length = of_nat (length nal), slot_timestamp = pts, is_keyframe = key\<rparr>"
  have in_pool: "slot_in_pool (unat (ram_pool_used s2)) ?sl" using ub pb(1) len(2) s2(1) by (simp add: slot_in_pool_def)
  have e: "slot_entry (ram_pool s2) ?sl = (Some nal, pts, key)" using cp(3) len(2) by (simp add: slot_entry_def)
  note cm = commit_slot_ok [OF cp(1) room2 in_pool]
  have "\<not> ram_pool_used s1 + pool_size_of nal > SAFETY_BUFFER_SIZE_BYTES" using u(2) by simp
  then have st: "safety_buffer_store_nal True fd nal pts key s = commit_slot (Some ?off) nal pts key s2"
    using init nal(1) len(3) d(5)
    by (simp add: safety_buffer_store_nal_def allocate_from_pool_def pool_size_of_def Let_def s2_def
        flip: s1_def)
  show ?thesis using cm unfolding Let_def st e cp(2) d(2) s2(1) by (simp add: d(4))
qed

text \<open>Operations that touch neither the ring nor the pool.\<close>

lemma sb_inv_other:
  assumes "slots s' = slots s" "write_head s' = write_head s" "read_tail s' = read_tail s"
    "ram_pool s' = ram_pool s" "ram_pool_used s' = ram_pool_used s"
  shows "sb_inv s' = sb_inv s" "buffered s' = buffered s"
  using assms by (simp_all add: sb_inv_def buffered_def buffered_slots_def)

lemma write_to_fallback_frame:
  assumes "write_to_fallback nal s = (r, s')"
  shows "slots s' = slots s" "write_head s' = write_head s" "read_tail s' = read_tail s"
    "ram_pool s' = ram_pool s" "ram_pool_used s' = ram_pool_used s" "initialized s' = initialized s"
  using assms by (auto simp: write_to_fallback_def wq_put_def Let_def split: if_splits option.splits)

lemma allocate_from_pool_ok:
  assumes inv: "ram_pool_used s \<le> SAFETY_BUFFER_SIZE_BYTES" and al: "allocate_from_pool (of_nat (length nal)) s = (Some off, s')"
    and nal: "of_nat (length nal) \<le> SAFETY_BUFFER_MAX_NAL_SIZE" "length nal < 2 ^ 32"
  shows "off = unat (ram_pool_used s)" "s' = s\<lparr>ram_pool_used := ram_pool_used s + pool_size_of nal\<rparr>"
    "unat (ram_pool_used s) + unat (pool_size_of nal) \<le> unat SAFETY_BUFFER_SIZE_BYTES"
proof -
  have r: "\<not> ram_pool_used s + pool_size_of nal > SAFETY_BUFFER_SIZE_BYTES"
    and o: "off = unat (ram_pool_used s)" "s' = s\<lparr>ram_pool_used := ram_pool_used s + pool_size_of nal\<rparr>"
    using al by (auto simp: allocate_from_pool_def pool_size_of_def Let_def split: if_splits)
  have "length nal \<le> 262144" using nal by (simp add: SAFETY_BUFFER_MAX_NAL_SIZE_def word_le_nat_alt unat_of_nat)
  then have "unat (pool_size_of nal) \<le> 262207" using pool_size_of_bounds(2) [OF nal] by simp
  moreover have "unat (ram_pool_used s) \<le> 512000"
    using inv by (simp add: SAFETY_BUFFER_SIZE_BYTES_def word_le_nat_alt)
  ultimately have "unat (ram_pool_used s + pool_size_of nal) = unat (ram_pool_used s) + unat (pool_size_of nal)"
    by (intro unat_add_lem [THEN iffD1]) simp
  then show "unat (ram_pool_used s) + unat (pool_size_of nal) \<le> unat SAFETY_BUFFER_SIZE_BYTES"
    using r by (simp add: not_less word_le_nat_alt)
qed (use al in \<open>auto simp: allocate_from_pool_def pool_size_of_def Let_def split: if_splits\<close>)

lemma sb_inv_store:
  assumes inv: "sb_inv s" and nal: "length nal < 2 ^ 32"
  shows "sb_inv (safety_buffer_store_nal locked fd nal pts key s)"
proof (cases "\<not> initialized s \<or> nal = [] \<or> of_nat (length nal) > SAFETY_BUFFER_MAX_NAL_SIZE \<or> \<not> locked")
  case True
  then show ?thesis using inv by (auto simp: safety_buffer_store_nal_def)
next
  case False
  define s1 where "s1 = drop_oldest s"
  note d = drop_oldest_ok [OF inv, folded s1_def]
  have st: "safety_buffer_store_nal locked fd nal pts key s =
     (if \<not> using_fallback s1 then
          (case allocate_from_pool (of_nat (length nal)) s1 of
             (None, s) \<Rightarrow>
               (let s = s\<lparr>fallback_fd := fd\<rparr> in
                if fd \<ge> 0 then snd (write_to_fallback nal (s\<lparr>using_fallback := True\<rparr>)) else s)
           | (Some off, s) \<Rightarrow> commit_slot (Some off) nal pts key (copy_to_pool off nal s))
        else
          (case write_to_fallback nal s1 of (r, s) \<Rightarrow>
             if r < 0 then s else commit_slot None nal pts key s))"
    using False by (simp add: safety_buffer_store_nal_def s1_def Let_def)
  show ?thesis
  proof (cases "using_fallback s1")
    case True
    obtain r s2 where w: "write_to_fallback nal s1 = (r, s2)" by fastforce
    note f = write_to_fallback_frame [OF w]
    have "sb_inv s2" using sb_inv_other(1) [OF f(1-5)] d(1) by simp
    moreover have "sb_inv (commit_slot None nal pts key s2)"
      using \<open>sb_inv s2\<close> d(3) f by (intro commit_slot_ok(1)) (simp_all add: slot_in_pool_def)
    ultimately show ?thesis using True w by (simp add: st)
  next
    case nf: False
    obtain res s2 where al: "allocate_from_pool (of_nat (length nal)) s1 = (res, s2)" by fastforce
    show ?thesis
    proof (cases res)
      case None
      then have s2: "s2 = s1" using al by (auto simp: allocate_from_pool_def Let_def split: if_splits)
      obtain r s3 where w: "write_to_fallback nal (s1\<lparr>fallback_fd := fd, using_fallback := True\<rparr>) = (r, s3)" by fastforce
      have "sb_inv s3" using sb_inv_other(1) [OF write_to_fallback_frame(1-5) [OF w]] sb_inv_other(1) [of _ s1] d(1) by simp
      moreover have "sb_inv (s1\<lparr>fallback_fd := fd\<rparr>)" using sb_inv_other(1) [of _ s1] d(1) by simp
      ultimately show ?thesis using nf al None s2 w by (simp add: st Let_def)
    next
      case (Some off)
      have nz: "of_nat (length nal) \<le> SAFETY_BUFFER_MAX_NAL_SIZE" using False by (simp add: not_less)
      have "ram_pool_used s1 \<le> SAFETY_BUFFER_SIZE_BYTES" using d(1) by (simp add: sb_inv_def)
      note a = allocate_from_pool_ok [OF this al [unfolded Some] nz nal]
      note pb = pool_size_of_bounds [OF nz nal]
      let ?u = "ram_pool_used s1 + pool_size_of nal"
      have "unat SAFETY_BUFFER_SIZE_BYTES < 2 ^ 32" by (simp add: SAFETY_BUFFER_SIZE_BYTES_def)
      then have ub: "unat ?u = unat (ram_pool_used s1) + unat (pool_size_of nal)"
        using a(3) by (intro unat_add_lem [THEN iffD1]) simp
      then have u: "ram_pool_used s1 \<le> ?u" "?u \<le> SAFETY_BUFFER_SIZE_BYTES"
        using a(3) by (simp_all add: word_le_nat_alt)
      have fits: "unat (ram_pool_used s1) + length nal \<le> unat SAFETY_BUFFER_SIZE_BYTES" using a(3) pb(1) by simp
      define s3 where "s3 = copy_to_pool off nal s2"
      have "sb_inv s3" using copy_to_pool_ok(1) [OF d(1) fits u] a(1,2) by (simp add: s3_def)
      moreover have "ram_pool_used s3 = ?u" "write_head s3 = write_head s1" "read_tail s3 = read_tail s1"
        by (simp_all add: s3_def copy_to_pool_def a(2))
      moreover have "unat (of_nat (length nal) :: u32) = length nal" using nal by (simp add: unat_of_nat)
      ultimately have "sb_inv (commit_slot (Some off) nal pts key s3)"
        using d(3) ub pb(1) a(1) by (intro commit_slot_ok(1)) (simp_all add: slot_in_pool_def)
      then show ?thesis using nf al Some by (simp add: st s3_def)
    qed
  qed
qed

subsection \<open>Rewinding\<close>

definition is_key :: "entry \<Rightarrow> bool" where
  "is_key = (\<lambda>(b, t, k). b \<noteq> None \<and> k)"

lemma ring_prev_index:
  assumes "t < n" "Suc j < n"
  shows "ring_prev n ((t + Suc j) mod n) = (t + j) mod n"
proof -
  have "ring_prev n ((t + Suc j) mod n) = ((t + Suc j) mod n + (n - 1)) mod n"
    using assms by (simp add: ring_prev_def)
  also have "\<dots> = (t + Suc j + (n - 1)) mod n" by (simp only: mod_add_left_eq)
  also have "t + Suc j + (n - 1) = t + j + n" using assms by simp
  finally show ?thesis by simp
qed

text \<open>The search from position \<open>j\<close> of the buffer down to position 1; position 0 is never looked at.\<close>

lemma keyframe_loop_ok:
  assumes "sb_inv s" "j < length (buffered_slots s)" "j < fuel"
  shows "case keyframe_loop fuel s ((read_tail s + j) mod SAFETY_BUFFER_SLOTS) of
      None \<Rightarrow> \<forall>i. 0 < i \<and> i \<le> j \<longrightarrow> \<not> is_key (buffered s ! i)
    | Some idx \<Rightarrow> \<exists>k. 0 < k \<and> k \<le> j \<and> idx = (read_tail s + k) mod SAFETY_BUFFER_SLOTS \<and>
        is_key (buffered s ! k) \<and> (\<forall>i. k < i \<and> i \<le> j \<longrightarrow> \<not> is_key (buffered s ! i))"
  using assms(2,3)
proof (induction j arbitrary: fuel)
  case 0
  then obtain f where "fuel = Suc f" by (cases fuel) auto
  moreover have "read_tail s < SAFETY_BUFFER_SLOTS" using assms(1) by (simp add: sb_inv_def)
  ultimately show ?case by simp
next
  case (Suc j)
  then obtain f where f: "fuel = Suc f" by (cases fuel) auto
  let ?n = SAFETY_BUFFER_SLOTS
  have i: "read_tail s < ?n" "write_head s < ?n" "length (slots s) = ?n" using assms(1) by (simp_all add: sb_inv_def)
  have j: "Suc j < ring_count ?n (write_head s) (read_tail s)" using Suc.prems i(3) by (simp add: buffered_slots_def)
  then have jn: "Suc j < ?n" using ring_count_less [OF i(2,1)] by linarith
  define idx where "idx = (read_tail s + Suc j) mod ?n"
  have ne: "idx \<noteq> read_tail s" using ring_index [OF i(1,2) j] i(1) jn by (auto simp: idx_def)
  have "buffered s ! Suc j = slot_entry (ram_pool s) (slots s ! idx)"
    using j i(3) by (simp add: buffered_def buffered_slots_def ring_def idx_def)
  then have key: "is_key (buffered s ! Suc j) \<longleftrightarrow> slot_data (slots s ! idx) \<noteq> None \<and> is_keyframe (slots s ! idx)"
    by (simp add: is_key_def slot_entry_def)
  have "keyframe_loop fuel s idx = (if is_key (buffered s ! Suc j) then Some idx
      else keyframe_loop f s ((read_tail s + j) mod ?n))"
    using key ne ring_prev_index [OF i(1) jn] by (simp add: f idx_def del: SAFETY_BUFFER_SLOTS_def)
  moreover have "j < length (buffered_slots s)" "j < f" using Suc.prems f by simp_all
  note IH = Suc.IH [OF this]
  ultimately show ?case
    unfolding idx_def [symmetric]
    by (cases "is_key (buffered s ! Suc j)")
      (use IH in \<open>auto simp: idx_def le_Suc_eq simp del: SAFETY_BUFFER_SLOTS_def split: option.splits
        intro: exI [of _ "Suc j"]\<close>)
qed

text \<open>What \<open>find_last_keyframe\<close> finds, as a position in the list of buffered entries, and what cutting
  the ring there leaves.\<close>

lemma find_last_keyframe_ok:
  assumes "sb_inv s" "buffered s = e # es"
  shows "case find_last_keyframe s of
      None \<Rightarrow> \<forall>x\<in>set es. \<not> is_key x
    | Some idx \<Rightarrow> \<exists>j<length es. idx = (read_tail s + Suc j) mod SAFETY_BUFFER_SLOTS \<and> is_key (es ! j) \<and>
        (\<forall>x\<in>set (drop (Suc j) es). \<not> is_key x)"
proof -
  let ?n = SAFETY_BUFFER_SLOTS
  have i: "read_tail s < ?n" "write_head s < ?n" "length (slots s) = ?n" using assms(1) by (simp_all add: sb_inv_def)
  have len: "length (buffered_slots s) = ring_count ?n (write_head s) (read_tail s)" using i(3) by (simp add: buffered_slots_def)
  define m where "m = length es"
  have m: "ring_count ?n (write_head s) (read_tail s) = Suc m"
    using len arg_cong [OF assms(2), of length] by (simp add: buffered_def m_def)
  then have "Suc m < ?n" using ring_count_less [OF i(2,1)] by linarith
  have "read_tail s + Suc m = write_head s \<or> read_tail s + Suc m = write_head s + ?n"
    using m i(1) by (auto simp: ring_count_def split: if_splits)
  then have "write_head s = (read_tail s + Suc m) mod ?n" using i(2) by auto
  then have "find_last_keyframe s = keyframe_loop ?n s ((read_tail s + m) mod ?n)"
    unfolding find_last_keyframe_def using ring_prev_index [OF i(1) \<open>Suc m < ?n\<close>] by simp
  moreover have "m < length (buffered_slots s)" "m < ?n" using len m \<open>Suc m < ?n\<close> by simp_all
  note kl = keyframe_loop_ok [OF assms(1) this]
  have past: "(\<forall>x\<in>set (drop j es). \<not> is_key x)" if "\<And>i. j < i \<Longrightarrow> i \<le> m \<Longrightarrow> \<not> is_key (buffered s ! i)" for j
    unfolding all_set_conv_all_nth
  proof (intro allI impI)
    fix i assume "i < length (drop j es)"
    then show "\<not> is_key (drop j es ! i)" using that [of "Suc (j + i)"] assms(2) by (simp add: m_def)
  qed
  show ?thesis
  proof (cases "find_last_keyframe s")
    case None
    then show ?thesis using kl past [of 0] calculation by simp
  next
    case (Some idx)
    then obtain k where k: "0 < k" "k \<le> m" "idx = (read_tail s + k) mod ?n" "is_key (buffered s ! k)"
      "\<And>i. k < i \<Longrightarrow> i \<le> m \<Longrightarrow> \<not> is_key (buffered s ! i)" using kl calculation by auto
    then obtain j where "k = Suc j" "j < m" by (cases k) auto
    then show ?thesis using Some k past [of k] assms(2) by (auto simp: m_def)
  qed
qed

lemma cut_at_entry:
  assumes "sb_inv s" "buffered s = e # es" "j < length es" "is_key (es ! j)"
    and idx: "idx = (read_tail s + Suc j) mod SAFETY_BUFFER_SLOTS"
  defines "s' \<equiv> s\<lparr>write_head := ring_next SAFETY_BUFFER_SLOTS idx,
      rewind_point := ring_next SAFETY_BUFFER_SLOTS idx, buf_state := SAFETY_BUFFER_BUFFERING\<rparr>"
  shows "sb_inv s' \<and> buffered s' = e # take j es @ [es ! j] \<and> (\<exists>off. slot_data (slots s ! idx) = Some off \<and>
    es ! j = (Some (take (unat (slot_length (slots s ! idx))) (drop off (ram_pool s))),
      slot_timestamp (slots s ! idx), True))"
proof -
  let ?n = SAFETY_BUFFER_SLOTS
  have i: "read_tail s < ?n" "write_head s < ?n" "length (slots s) = ?n" using assms(1) by (simp_all add: sb_inv_def)
  have "length (buffered_slots s) = Suc (length es)"
    using arg_cong [OF assms(2), of length] by (simp add: buffered_def)
  then have k: "Suc j < ring_count (length (slots s)) (write_head s) (read_tail s)"
    using assms(3) by (simp add: buffered_slots_def)
  have "buffered s ! Suc j = slot_entry (ram_pool s) (slots s ! idx)"
    using k idx i(3) nth_ring [of "Suc j" "slots s" "write_head s" "read_tail s"]
    by (simp add: buffered_def buffered_slots_def)
  then have sk: "es ! j = slot_entry (ram_pool s) (slots s ! idx)" using assms(2) by simp
  have cut: "buffered_slots s' = take (Suc (Suc j)) (buffered_slots s)"
    using ring_cut [OF _ _ k] i idx by (simp add: s'_def buffered_slots_def)
  then have "buffered s' = take (Suc (Suc j)) (buffered s)" by (simp add: buffered_def take_map s'_def)
  then have "buffered s' = e # take j es @ [es ! j]"
    using assms(2,3) by (simp add: take_Suc_conv_app_nth)
  moreover have "idx < ?n" using idx by simp
  then have "sb_inv s'" using assms(1) cut by (auto simp: sb_inv_def s'_def dest: in_set_takeD)
  ultimately show ?thesis using sk assms(4) by (auto simp: is_key_def slot_entry_def)
qed

text \<open>The property C28: rewinding a buffer that is not empty. The newest key frame behind the
  oldest entry is found (the oldest entry itself is never considered), its length and time are
  returned, and exactly the entries up to it stay.\<close>

theorem safety_buffer_rewind_refines:
  assumes "sb_inv s" "initialized s" "buffered s \<noteq> []"
  shows "case safety_buffer_rewind True s of
      (None, s') \<Rightarrow> s' = s \<and> (\<forall>e\<in>set (tl (buffered s)). \<not> is_key e)
    | (Some (off, len, ts), s') \<Rightarrow> (\<exists>pre bytes post. tl (buffered s) = pre @ (Some bytes, ts, True) # post \<and>
        (\<forall>e\<in>set post. \<not> is_key e) \<and> bytes = take (unat len) (drop (the off) (ram_pool s)) \<and>
        sb_inv s' \<and> buffered s' = hd (buffered s) # pre @ [(Some bytes, ts, True)])"
proof -
  obtain e es where b: "buffered s = e # es" using assms(3) by (cases "buffered s") auto
  note fl = find_last_keyframe_ok [OF assms(1) b]
  show ?thesis
  proof (cases "find_last_keyframe s")
    case None
    then show ?thesis using fl assms(2) b by (simp add: safety_buffer_rewind_def)
  next
    case (Some idx)
    then obtain j where j: "j < length es" "idx = (read_tail s + Suc j) mod SAFETY_BUFFER_SLOTS" "is_key (es ! j)"
      "\<forall>x\<in>set (drop (Suc j) es). \<not> is_key x" using fl by auto
    note cut = cut_at_entry [OF assms(1) b j(1,3,2)]
    then obtain off where off: "slot_data (slots s ! idx) = Some off" by blast
    have "es = take j es @ es ! j # drop (Suc j) es" using j(1) by (simp add: id_take_nth_drop)
    then show ?thesis using cut off b j(4) Some assms(2)
      by (auto simp: safety_buffer_rewind_def Let_def simp del: SAFETY_BUFFER_SLOTS_def)
  qed
qed

subsection \<open>The other operations\<close>

text \<open>Every operation keeps the invariant, a rewind provided the ring is not empty.\<close>

lemma sb_inv_rewind:
  assumes "sb_inv s" "buffered s \<noteq> []"
  shows "sb_inv (snd (safety_buffer_rewind locked s))"
proof (cases "initialized s \<and> locked")
  case True
  then show ?thesis using safety_buffer_rewind_refines [OF assms(1) _ assms(2)] assms(1)
    by (cases "safety_buffer_rewind True s") (auto split: option.splits)
qed (use assms in \<open>auto simp: safety_buffer_rewind_def\<close>)

lemma sb_inv_clear: "sb_inv s \<Longrightarrow> sb_inv (safety_buffer_clear locked fd s)"
  by (auto simp: safety_buffer_clear_def sb_inv_def buffered_slots_def Let_def)

lemma sb_inv_init: "fst (safety_buffer_init True True s) = 0 \<Longrightarrow> \<not> initialized s \<Longrightarrow> sb_inv (snd (safety_buffer_init True True s))"
  by (simp add: safety_buffer_init_def sb_inv_def buffered_slots_def)

text \<open>The state before the first initialization (all variables zero).\<close>

definition sb_zero :: SafetyBuffer where
  "sb_zero = \<lparr>initialized = False, slots = replicate SAFETY_BUFFER_SLOTS empty_slot, ram_pool = [],
     ram_pool_used = 0, write_head = 0, read_tail = 0, rewind_point = 0, buf_state = SAFETY_BUFFER_IDLE,
     fallback_fd = 0, using_fallback = False, total_nals_buffered = 0, total_bytes_buffered = 0,
     rewind_count = 0, fallback_writes = 0, fallback_drops = 0, oldest_timestamp = 0, newest_timestamp = 0,
     writer_running = False, wq_slots = replicate WRITE_QUEUE_SLOTS [], wq_head = 0, wq_tail = 0,
     queue_full_consec = 0, storage_fault = False, show_rewind_icon = False, rewind_icon_timeout = 0,
     current_pts = 0\<rparr>"

definition sb_start :: SafetyBuffer where
  "sb_start = snd (safety_buffer_init True True sb_zero)"

lemma sb_start: "sb_inv sb_start" "initialized sb_start" "buffered sb_start = []" "ram_pool_used sb_start = 0"
  "\<not> using_fallback sb_start" "wq_inv sb_start" "wq_content sb_start = []"
  by (simp_all add: sb_start_def safety_buffer_init_def sb_zero_def sb_inv_def buffered_def buffered_slots_def
      wq_inv_def wq_content_def)

subsection \<open>Reachable states\<close>

text \<open>Every operation of the decoder, control and writer threads, one at a time (the mutex), in any order and with
  any results of the system calls. A rewind may also come when the ring is empty.\<close>

inductive sb_step :: "SafetyBuffer \<Rightarrow> SafetyBuffer \<Rightarrow> bool" where
  init: "sb_step s (snd (safety_buffer_init mutex_ok sem_ok s))"
| store: "length nal < 2 ^ 32 \<Longrightarrow> sb_step s (safety_buffer_store_nal locked fd nal pts key s)"
| loss: "sb_step s (safety_buffer_handle_packet_loss locked now s)"
| rewind: "sb_step s (snd (safety_buffer_rewind locked s))"
| clear: "sb_step s (safety_buffer_clear locked fd s)"
| writer: "writer_step hdr ret s = Some (nal, s') \<Longrightarrow> sb_step s s'"
| shutdown: "sb_step s (safety_buffer_shutdown s)"
| pts: "sb_step s (safety_buffer_update_pts pts s)"

text \<open>What survives also the rewind of an empty ring: no slot, in use or stale, points outside the pool.\<close>

definition slot_safe :: "SafetyBufferSlot \<Rightarrow> bool" where
  "slot_safe sl = (case slot_data sl of None \<Rightarrow> True
     | Some off \<Rightarrow> off + unat (slot_length sl) \<le> unat SAFETY_BUFFER_SIZE_BYTES)"

definition mem_inv :: "SafetyBuffer \<Rightarrow> bool" where
  "mem_inv s \<longleftrightarrow> length (slots s) = SAFETY_BUFFER_SLOTS \<and> write_head s < SAFETY_BUFFER_SLOTS \<and>
     read_tail s < SAFETY_BUFFER_SLOTS \<and> ram_pool_used s \<le> SAFETY_BUFFER_SIZE_BYTES \<and>
     (initialized s \<longrightarrow> length (ram_pool s) = unat SAFETY_BUFFER_SIZE_BYTES) \<and> (\<forall>sl\<in>set (slots s). slot_safe sl)"

text \<open>Changes of other fields, and of the indices within the ring.\<close>

lemma mem_inv_same:
  assumes "mem_inv s" "slots s' = slots s" "write_head s' < SAFETY_BUFFER_SLOTS" "read_tail s' < SAFETY_BUFFER_SLOTS"
    "ram_pool_used s' \<le> ram_pool_used s" "ram_pool s' = ram_pool s" "initialized s' \<longrightarrow> initialized s"
  shows "mem_inv s'"
  using assms unfolding mem_inv_def by (metis order_trans)

lemma slot_next_less [simp]: "ring_next SAFETY_BUFFER_SLOTS i < SAFETY_BUFFER_SLOTS"
  by (simp add: ring_next_def)

lemma evict_loop_frame:
  "read_tail s < SAFETY_BUFFER_SLOTS \<Longrightarrow> read_tail (evict_loop n c s) < SAFETY_BUFFER_SLOTS \<and>
   (\<exists>rt old. evict_loop n c s = s\<lparr>read_tail := rt, oldest_timestamp := old\<rparr>)"
proof (induction n c s rule: evict_loop.induct)
  case (2 n c s)
  let ?s = "s\<lparr>read_tail := ring_next SAFETY_BUFFER_SLOTS (read_tail s), oldest_timestamp := slot_timestamp (slots s ! read_tail s)\<rparr>"
  show ?case
  proof (cases "read_tail s = write_head s \<or> slot_timestamp (slots s ! read_tail s) \<ge> c")
    case True
    then show ?thesis using 2(2) same_tail [of s] by auto
  next
    case False
    then have "evict_loop (Suc n) c s = evict_loop n c ?s" by simp
    then show ?thesis using 2(1) False by (auto simp del: SAFETY_BUFFER_SLOTS_def evict_loop.simps)
  qed
qed (auto intro: same_tail)

lemma mem_inv_evict: "mem_inv s \<Longrightarrow> mem_inv (evict_old_entries s)"
proof -
  assume inv: "mem_inv s"
  let ?t = "evict_loop SAFETY_BUFFER_SLOTS (newest_timestamp s - SAFETY_BUFFER_DURATION_US) s"
  have f: "read_tail ?t < SAFETY_BUFFER_SLOTS" "\<exists>rt old. ?t = s\<lparr>read_tail := rt, oldest_timestamp := old\<rparr>"
    using evict_loop_frame [of s SAFETY_BUFFER_SLOTS] inv by (simp_all add: mem_inv_def del: evict_loop.simps SAFETY_BUFFER_SLOTS_def)
  obtain rt old where t: "?t = s\<lparr>read_tail := rt, oldest_timestamp := old\<rparr>" using f(2) by blast
  have rt: "rt < SAFETY_BUFFER_SLOTS" using f(1) unfolding t by simp
  have "mem_inv (s\<lparr>read_tail := rt, oldest_timestamp := old\<rparr>)" "mem_inv (s\<lparr>read_tail := rt, oldest_timestamp := old, ram_pool_used := 0\<rparr>)"
    using inv rt by (simp_all add: mem_inv_def)
  then show ?thesis
    unfolding evict_old_entries_def Let_def t using inv by (simp only: split: if_split) simp
qed

lemma mem_inv_commit:
  assumes "mem_inv s" "slot_safe \<lparr>slot_data = off, slot_length = of_nat (length nal), slot_timestamp = pts, is_keyframe = key\<rparr>"
  shows "mem_inv (commit_slot off nal pts key s)"
proof -
  define s1 where "s1 = s\<lparr>slots := (slots s)[write_head s := \<lparr>slot_data = off, slot_length = of_nat (length nal), slot_timestamp = pts, is_keyframe = key\<rparr>],
      oldest_timestamp := (if oldest_timestamp s = 0 then pts else oldest_timestamp s),
      newest_timestamp := pts, total_nals_buffered := total_nals_buffered s + 1,
      total_bytes_buffered := total_bytes_buffered s + of_nat (length nal),
      write_head := ring_next SAFETY_BUFFER_SLOTS (write_head s),
      rewind_point := (if key then ring_next SAFETY_BUFFER_SLOTS (write_head s) else rewind_point s)\<rparr>"
  have out: "commit_slot off nal pts key s = (let s = evict_old_entries s1 in
      if buf_state s = SAFETY_BUFFER_BUFFERING \<and> newest_timestamp s - oldest_timestamp s \<ge> 500000
      then s\<lparr>buf_state := SAFETY_BUFFER_IDLE\<rparr> else s)"
    by (cases key) (simp_all add: commit_slot_def s1_def Let_def)
  have "mem_inv s1" using assms set_update_subset_insert [of "slots s" "write_head s"]
    by (auto simp: mem_inv_def s1_def simp del: SAFETY_BUFFER_SLOTS_def)
  then have "mem_inv (evict_old_entries s1)" by (rule mem_inv_evict)
  moreover have "mem_inv t \<Longrightarrow> mem_inv (t\<lparr>buf_state := st\<rparr>)" for t st by (simp add: mem_inv_def)
  ultimately show ?thesis unfolding out Let_def by simp
qed

lemma mem_inv_fallback: "mem_inv s \<Longrightarrow> write_to_fallback nal s = (r, s') \<Longrightarrow> mem_inv s'"
  using write_to_fallback_frame [of nal s r s'] by (intro mem_inv_same [of s s']) (simp_all add: mem_inv_def)

lemma mem_inv_allocated:
  assumes inv: "mem_inv s" and init: "initialized s" and al: "allocate_from_pool (of_nat (length nal)) s = (Some off, s')"
    and nal: "of_nat (length nal) \<le> SAFETY_BUFFER_MAX_NAL_SIZE" "length nal < 2 ^ 32"
  shows "mem_inv (commit_slot (Some off) nal pts key (copy_to_pool off nal s'))"
proof (rule mem_inv_commit)
  have used: "ram_pool_used s \<le> SAFETY_BUFFER_SIZE_BYTES" using inv by (simp add: mem_inv_def)
  note a = allocate_from_pool_ok [OF used al nal]
  let ?u = "ram_pool_used s + pool_size_of nal"
  have "unat SAFETY_BUFFER_SIZE_BYTES < 2 ^ 32" by (simp add: SAFETY_BUFFER_SIZE_BYTES_def)
  then have "unat ?u = unat (ram_pool_used s) + unat (pool_size_of nal)"
    using a(3) by (intro unat_add_lem [THEN iffD1]) simp
  then have u: "?u \<le> SAFETY_BUFFER_SIZE_BYTES" using a(3) by (simp add: word_le_nat_alt)
  have fits: "off + length nal \<le> unat SAFETY_BUFFER_SIZE_BYTES" using a(1,3) pool_size_of_bounds(1) [OF nal] by simp
  then show "slot_safe \<lparr>slot_data = Some off, slot_length = of_nat (length nal), slot_timestamp = pts, is_keyframe = key\<rparr>"
    using nal(2) by (simp add: slot_safe_def unat_of_nat)
  show "mem_inv (copy_to_pool off nal s')"
    using inv init u fits unfolding a(2) by (auto simp: mem_inv_def copy_to_pool_def simp del: SAFETY_BUFFER_SLOTS_def)
qed

lemma mem_inv_store:
  assumes inv: "mem_inv s" and nal: "length nal < 2 ^ 32"
  shows "mem_inv (safety_buffer_store_nal locked fd nal pts key s)"
proof (cases "\<not> initialized s \<or> nal = [] \<or> of_nat (length nal) > SAFETY_BUFFER_MAX_NAL_SIZE \<or> \<not> locked")
  case True
  then show ?thesis using inv by (auto simp: safety_buffer_store_nal_def)
next
  case False
  define s1 where "s1 = drop_oldest s"
  have s1: "mem_inv s1" "initialized s1"
    using inv False by (auto simp: s1_def drop_oldest_def mem_inv_def simp del: SAFETY_BUFFER_SLOTS_def)
  have st: "safety_buffer_store_nal locked fd nal pts key s =
     (if \<not> using_fallback s1 then
          (case allocate_from_pool (of_nat (length nal)) s1 of
             (None, s) \<Rightarrow>
               (let s = s\<lparr>fallback_fd := fd\<rparr> in
                if fd \<ge> 0 then snd (write_to_fallback nal (s\<lparr>using_fallback := True\<rparr>)) else s)
           | (Some off, s) \<Rightarrow> commit_slot (Some off) nal pts key (copy_to_pool off nal s))
        else
          (case write_to_fallback nal s1 of (r, s) \<Rightarrow>
             if r < 0 then s else commit_slot None nal pts key s))"
    using False by (simp add: safety_buffer_store_nal_def s1_def Let_def)
  have nz: "of_nat (length nal) \<le> SAFETY_BUFFER_MAX_NAL_SIZE" using False by (simp add: not_less)
  have fd: "mem_inv (s1\<lparr>fallback_fd := fd\<rparr>)" "mem_inv (s1\<lparr>fallback_fd := fd, using_fallback := True\<rparr>)"
    using s1(1) by (simp_all add: mem_inv_def)
  have none: "allocate_from_pool (of_nat (length nal)) s1 = (None, t) \<Longrightarrow> t = s1" for t
    by (auto simp: allocate_from_pool_def Let_def split: if_splits)
  obtain r t where w: "write_to_fallback nal s1 = (r, t)" by fastforce
  have t: "mem_inv t" "mem_inv (commit_slot None nal pts key t)"
    using mem_inv_fallback [OF s1(1) w] by (auto intro: mem_inv_commit simp: slot_safe_def)
  have full: "mem_inv (snd (write_to_fallback nal (s1\<lparr>fallback_fd := fd, using_fallback := True\<rparr>)))"
    using mem_inv_fallback [OF fd(2)] by (metis prod.collapse)
  show ?thesis
    using mem_inv_allocated [OF s1 _ nz nal, of _ _ pts key] full fd(1) none t w
    unfolding st Let_def by (auto split: prod.split option.split)
qed

lemma mem_inv_rewind: "mem_inv s \<Longrightarrow> mem_inv (snd (safety_buffer_rewind locked s))"
  by (auto simp: safety_buffer_rewind_def mem_inv_def Let_def simp del: SAFETY_BUFFER_SLOTS_def split: option.split)

lemma mem_inv_clear: "mem_inv s \<Longrightarrow> mem_inv (safety_buffer_clear locked fd s)"
  by (auto simp: safety_buffer_clear_def mem_inv_def slot_safe_def Let_def)

lemma mem_inv_init: "mem_inv s \<Longrightarrow> mem_inv (snd (safety_buffer_init m q s))"
  by (auto simp: safety_buffer_init_def mem_inv_def slot_safe_def empty_slot_def Let_def)

lemma mem_inv_step: "sb_step s s' \<Longrightarrow> mem_inv s \<Longrightarrow> mem_inv s'"
proof (induction rule: sb_step.induct)
  case (writer hdr ret s nal s')
  then show ?case by (intro mem_inv_same [of s s']) (auto simp: writer_step_def mem_inv_def Let_def split: if_splits)
next
  case (loss s locked now)
  then show ?case by (simp add: safety_buffer_handle_packet_loss_def mem_inv_def)
next
  case (pts s pts)
  then show ?case by (simp add: safety_buffer_update_pts_def mem_inv_def)
next
  case (shutdown s)
  then show ?case by (simp add: safety_buffer_shutdown_def mem_inv_def)
qed (simp_all add: mem_inv_store mem_inv_rewind mem_inv_clear mem_inv_init)

lemma mem_inv_reachable: "sb_step\<^sup>*\<^sup>* sb_zero s \<Longrightarrow> mem_inv s"
proof (induction rule: rtranclp_induct)
  case base
  then show ?case by (simp add: mem_inv_def sb_zero_def slot_safe_def empty_slot_def)
qed (rule mem_inv_step)

text \<open>The slot that the search for a key frame names is one of the ring.\<close>

lemma keyframe_loop_less: "keyframe_loop n s i = Some idx \<Longrightarrow> i < SAFETY_BUFFER_SLOTS \<Longrightarrow> idx < SAFETY_BUFFER_SLOTS"
  by (induction n s i rule: keyframe_loop.induct) (auto simp: ring_prev_def split: if_splits)

text \<open>The property C29: memory safety. In every state that any sequence of operations reaches from program start,
  initialisations that fail, shutdowns and rewinds of an empty ring included, the ring indices are in range,
  and while the buffer is initialised the bytes of every slot, in the ring or stale, lie inside the RAM
  pool; so do the bytes that a rewind hands out.\<close>

theorem safety_buffer_reachable:
  assumes "sb_step\<^sup>*\<^sup>* sb_zero s"
  shows "write_head s < SAFETY_BUFFER_SLOTS \<and> read_tail s < SAFETY_BUFFER_SLOTS \<and> length (slots s) = SAFETY_BUFFER_SLOTS \<and>
    ram_pool_used s \<le> SAFETY_BUFFER_SIZE_BYTES \<and>
    (initialized s \<longrightarrow> length (ram_pool s) = unat SAFETY_BUFFER_SIZE_BYTES \<and>
       (\<forall>sl\<in>set (slots s). case slot_data sl of None \<Rightarrow> True
          | Some off \<Rightarrow> off + unat (slot_length sl) \<le> length (ram_pool s))) \<and>
    (case fst (safety_buffer_rewind locked s) of Some (Some off, len, ts) \<Rightarrow> off + unat len \<le> length (ram_pool s) | _ \<Rightarrow> True)"
proof -
  have inv: "mem_inv s" by (rule mem_inv_reachable [OF assms])
  have slots: "case slot_data sl of None \<Rightarrow> True | Some off \<Rightarrow> off + unat (slot_length sl) \<le> length (ram_pool s)"
    if "initialized s" "sl \<in> set (slots s)" for sl
    using inv that by (force simp: mem_inv_def slot_safe_def split: option.splits)
  have "slots s ! idx \<in> set (slots s)" if "find_last_keyframe s = Some idx" for idx
    using inv keyframe_loop_less [of SAFETY_BUFFER_SLOTS s _ idx] that
    by (intro nth_mem) (auto simp: find_last_keyframe_def mem_inv_def ring_prev_def)
  then have "case fst (safety_buffer_rewind locked s) of Some (Some off, len, ts) \<Rightarrow> off + unat len \<le> length (ram_pool s) | _ \<Rightarrow> True"
    using slots by (auto simp: safety_buffer_rewind_def Let_def simp del: SAFETY_BUFFER_SLOTS_def split: option.splits)
      (metis option.simps(5))
  then show ?thesis using inv slots by (simp add: mem_inv_def)
qed

definition stored_key :: SafetyBuffer where
  "stored_key = safety_buffer_store_nal True 0 [0x65, 1, 2] 3000000 True
     (safety_buffer_store_nal True 0 [0x67, 9] 3000000 False sb_start)"

text \<open>A parameter set and a key frame are stored, the buffer is emptied and then rewound.\<close>

definition rewound_empty :: SafetyBuffer where
  "rewound_empty = snd (safety_buffer_rewind True (safety_buffer_clear True 0 stored_key))"

theorem safety_buffer_reachable_witness:
  "write_head rewound_empty < SAFETY_BUFFER_SLOTS \<and> ram_pool_used rewound_empty \<le> SAFETY_BUFFER_SIZE_BYTES"
proof -
  have "sb_step\<^sup>*\<^sup>* sb_zero sb_start" unfolding sb_start_def by (rule r_into_rtranclp, rule sb_step.init)
  also have "sb_step sb_start (safety_buffer_store_nal True 0 [0x67, 9] 3000000 False sb_start)"
    by (rule sb_step.store) simp
  also have "sb_step (safety_buffer_store_nal True 0 [0x67, 9] 3000000 False sb_start) stored_key"
    unfolding stored_key_def by (rule sb_step.store) simp
  also have "sb_step stored_key (safety_buffer_clear True 0 stored_key)" by (rule sb_step.clear)
  also have "sb_step (safety_buffer_clear True 0 stored_key) rewound_empty"
    unfolding rewound_empty_def by (rule sb_step.rewind)
  finally have "sb_step\<^sup>*\<^sup>* sb_zero rewound_empty" .
  from safety_buffer_reachable [OF this] show ?thesis by simp
qed

lemma pool_size_small: "length nal \<le> 64 \<Longrightarrow> unat (pool_size_of nal) \<le> 127"
  using pool_size_of_bounds(2) [of nal]
  by (simp add: SAFETY_BUFFER_MAX_NAL_SIZE_def word_le_nat_alt unat_of_nat)



lemma evict_frame: "initialized (evict_old_entries s) = initialized s \<and> using_fallback (evict_old_entries s) = using_fallback s"
proof -
  have "initialized (evict_loop f c s) = initialized s \<and> using_fallback (evict_loop f c s) = using_fallback s" for f c
    by (induction f arbitrary: s) auto
  then show ?thesis by (simp add: evict_old_entries_def Let_def del: evict_loop.simps)
qed

lemma commit_frame: "initialized (commit_slot off nal pts key s) = initialized s \<and>
    using_fallback (commit_slot off nal pts key s) = using_fallback s"
  using evict_frame by (simp add: commit_slot_def Let_def)

lemma store_frame: "initialized (safety_buffer_store_nal locked fd nal pts key s) = initialized s"
proof -
  have "initialized (drop_oldest s) = initialized s" by (simp add: drop_oldest_def)
  moreover have "initialized (snd (write_to_fallback nal t)) = initialized t" for t
    using write_to_fallback_frame(6) [of nal t] by (metis prod.collapse)
  moreover have "initialized (copy_to_pool off nal t) = initialized t" for off t by (simp add: copy_to_pool_def)
  ultimately show ?thesis
    using commit_frame write_to_fallback_frame(6)
    by (auto simp: safety_buffer_store_nal_def allocate_from_pool_def Let_def split: prod.splits)
qed

lemma stored_key: "buffered stored_key = [(Some [0x67, 9], 3000000, False), (Some [0x65, 1, 2], 3000000, True)]"
  "sb_inv stored_key" "initialized stored_key"
proof -
  let ?s = "safety_buffer_store_nal True 0 [0x67, 9] 3000000 False sb_start"
  have 1: "sb_inv ?s" "buffered ?s = [(Some [0x67, 9], 3000000, False)]" "ram_pool_used ?s = pool_size_of [0x67, 9]"
    using store_in_ring [OF sb_start(1,2,5), of "[0x67, 9]" 0 3000000 False]
      pool_size_small [of "[0x67, 9]"]
    by (simp_all add: Let_def sb_start make_room_def fresh_only_def SAFETY_BUFFER_DURATION_US_def)
  have al: "\<not> pool_size_of nal > SAFETY_BUFFER_SIZE_BYTES" if "length nal \<le> 64" for nal
    using pool_size_small [OF that] by (simp add: SAFETY_BUFFER_SIZE_BYTES_def word_less_nat_alt)
  have 2: "initialized ?s" "\<not> using_fallback ?s"
    using sb_start al [of "[0x67, 9]"] commit_frame
    by (simp_all add: safety_buffer_store_nal_def SAFETY_BUFFER_MAX_NAL_SIZE_def allocate_from_pool_def
        drop_oldest_def pool_size_of_def copy_to_pool_def)
  show "buffered stored_key = [(Some [0x67, 9], 3000000, False), (Some [0x65, 1, 2], 3000000, True)]" "sb_inv stored_key"
    using store_in_ring [OF 1(1) 2, of "[0x65, 1, 2]" 0 3000000 True]
      pool_size_small [of "[0x67, 9]"] pool_size_small [of "[0x65, 1, 2]"] 1
    by (simp_all add: stored_key_def Let_def make_room_def fresh_only_def SAFETY_BUFFER_DURATION_US_def)
  show "initialized stored_key" by (simp add: stored_key_def store_frame sb_start)
qed

theorem safety_buffer_rewind_refines_witness:
  "\<exists>off len s'. safety_buffer_rewind True stored_key = (Some (off, len, 3000000), s') \<and>
     buffered s' = [(Some [0x67, 9], 3000000, False), (Some [0x65, 1, 2], 3000000, True)]"
proof -
  obtain r s' where r: "safety_buffer_rewind True stored_key = (r, s')" by fastforce
  show ?thesis
    using safety_buffer_rewind_refines [OF stored_key(2,3)] r
    by (cases r) (auto simp: stored_key(1) is_key_def append_eq_Cons_conv Cons_eq_append_conv)
qed

subsection \<open>The spill queue between its two threads\<close>

text \<open>What the decode thread and the writer thread do to the queue: an attempt to spill a NAL unit, and a round of
  the writer with the results of its two writes.\<close>

datatype spill_event = Spill "u8 list" | Drain bool int

text \<open>The state at the end, the units whose spilling was reported as a success, the units the writer consumed, and
  those of them it wrote to the file completely.\<close>

fun spill_run :: "spill_event list \<Rightarrow> SafetyBuffer \<Rightarrow> SafetyBuffer \<times> u8 list list \<times> u8 list list \<times> u8 list list" where
  "spill_run [] s = (s, [], [], [])"
| "spill_run (Spill nal # es) s = (case write_to_fallback nal s of
     (r, s) \<Rightarrow> (case spill_run es s of (s, acc, taken, filed) \<Rightarrow> (s, (if r = 0 then nal # acc else acc), taken, filed)))"
| "spill_run (Drain header_ok payload_ret # es) s = (case writer_step header_ok payload_ret s of
     None \<Rightarrow> spill_run es s
   | Some (nal, s) \<Rightarrow> (case spill_run es s of (s', acc, taken, filed) \<Rightarrow>
       (s', acc, nal # taken, (if fallback_fd s \<ge> 0 \<and> \<not> storage_fault s then nal # filed else filed))))"

lemma write_to_fallback_ok:
  assumes "wq_inv s" "write_to_fallback nal s = (r, s')"
  shows "wq_inv s'" "wq_content s' = (if r = 0 then wq_content s @ [nal] else wq_content s)"
    "r = 0 \<longleftrightarrow> fallback_fd s \<ge> 0 \<and> of_nat (length nal) \<le> WRITE_QUEUE_BUF_SZ \<and> length (wq_content s) < WRITE_QUEUE_SLOTS - 1"
    "fallback_fd s' = fallback_fd s" "storage_fault s \<Longrightarrow> storage_fault s'"
    "fallback_writes s' = fallback_writes s + (if r = 0 then 1 else 0)"
proof -
  have same: "wq_inv (s\<lparr>fallback_drops := d, queue_full_consec := q, storage_fault := f\<rparr>) = wq_inv s"
    "wq_content (s\<lparr>fallback_drops := d, queue_full_consec := q, storage_fault := f\<rparr>) = wq_content s"
    "wq_inv (s\<lparr>fallback_drops := d\<rparr>) = wq_inv s" "wq_content (s\<lparr>fallback_drops := d\<rparr>) = wq_content s"
    "wq_inv (s\<lparr>queue_full_consec := q, fallback_drops := d\<rparr>) = wq_inv s"
    "wq_content (s\<lparr>queue_full_consec := q, fallback_drops := d\<rparr>) = wq_content s"
    "wq_inv (s\<lparr>queue_full_consec := q, fallback_drops := d, storage_fault := f\<rparr>) = wq_inv s"
    "wq_content (s\<lparr>queue_full_consec := q, fallback_drops := d, storage_fault := f\<rparr>) = wq_content s" for d q f
    by (simp_all add: wq_inv_def wq_content_def)
  have put: "wq_inv (t\<lparr>queue_full_consec := q, fallback_writes := w\<rparr>)"
    "wq_content (t\<lparr>queue_full_consec := q, fallback_writes := w\<rparr>) = wq_content s @ [nal]"
    "fallback_fd t = fallback_fd s" "storage_fault t = storage_fault s" "fallback_writes t = fallback_writes s"
    "length (wq_content s) < WRITE_QUEUE_SLOTS - 1"
    if "wq_put nal s = Some t" for t q w
  proof -
    have "length (wq_content s) \<noteq> WRITE_QUEUE_SLOTS - 1" using spill.put_None [OF assms(1), of nal] that by simp
    then show "length (wq_content s) < WRITE_QUEUE_SLOTS - 1" using spill.content_bound [OF assms(1)] by simp
    show "wq_inv (t\<lparr>queue_full_consec := q, fallback_writes := w\<rparr>)"
      "wq_content (t\<lparr>queue_full_consec := q, fallback_writes := w\<rparr>) = wq_content s @ [nal]"
      using spill.put_Some [OF assms(1) that] by (simp_all add: wq_inv_def wq_content_def)
    show "fallback_fd t = fallback_fd s" "storage_fault t = storage_fault s" "fallback_writes t = fallback_writes s"
      using that by (auto simp: wq_put_def Let_def split: if_splits)
  qed
  have none: "length (wq_content s) = WRITE_QUEUE_SLOTS - 1" if "wq_put nal s = None"
    using spill.put_None [OF assms(1), of nal] that by simp
  show "wq_inv s'" "wq_content s' = (if r = 0 then wq_content s @ [nal] else wq_content s)"
    "r = 0 \<longleftrightarrow> fallback_fd s \<ge> 0 \<and> of_nat (length nal) \<le> WRITE_QUEUE_BUF_SZ \<and> length (wq_content s) < WRITE_QUEUE_SLOTS - 1"
    "fallback_fd s' = fallback_fd s" "storage_fault s \<Longrightarrow> storage_fault s'"
    "fallback_writes s' = fallback_writes s + (if r = 0 then 1 else 0)"
    using assms put none unfolding write_to_fallback_def Let_def
    by (auto simp: same not_less simp del: WRITE_QUEUE_SLOTS_def split: if_splits option.splits)
qed

lemma writer_step_ok:
  assumes "wq_inv s" "writer_step header_ok payload_ret s = Some (nal, s')"
  shows "wq_inv s'" "wq_content s = nal # wq_content s'" "fallback_writes s' = fallback_writes s"
    "fallback_fd s < 0 \<Longrightarrow> fallback_fd s' < 0" "storage_fault s \<Longrightarrow> storage_fault s'"
  using spill.get_Some [OF assms] assms(2) by (auto simp: writer_step_def Let_def split: if_splits)

text \<open>Once the file is closed or has failed nothing is written any more.\<close>

lemma nothing_filed:
  "wq_inv s \<Longrightarrow> fallback_fd s < 0 \<or> storage_fault s \<Longrightarrow> spill_run es s = (s', acc, taken, filed) \<Longrightarrow> filed = []"
proof (induction es arbitrary: s acc taken filed)
  case (Cons ev es)
  show ?case
  proof (cases ev)
    case (Spill nal)
    obtain r t where w: "write_to_fallback nal s = (r, t)" by fastforce
    obtain u a k f where "spill_run es t = (u, a, k, f)" by (metis prod_cases4)
    then show ?thesis
      using Cons.IH [OF write_to_fallback_ok(1) [OF Cons.prems(1) w]] write_to_fallback_ok(4,5) [OF Cons.prems(1) w]
        Cons.prems(2,3) Spill w by auto
  next
    case (Drain h q)
    show ?thesis
    proof (cases "writer_step h q s")
      case None
      then show ?thesis using Cons.IH [OF Cons.prems(1,2)] Cons.prems(3) Drain by simp
    next
      case (Some p)
      obtain nal t where w: "writer_step h q s = Some (nal, t)" using Some by (cases p) simp
      obtain u a k f where "spill_run es t = (u, a, k, f)" by (metis prod_cases4)
      then show ?thesis
        using Cons.IH [OF writer_step_ok(1) [OF Cons.prems(1) w]] writer_step_ok(4,5) [OF Cons.prems(1) w]
          Cons.prems(2,3) Drain w by auto
    qed
  qed
qed simp

text \<open>The property C30: the spill queue. For every interleaving of the decode thread spilling NAL units and the
  writer thread taking them, whatever each write returns: the units reported as accepted are those the
  writer has taken followed by those still queued, in order, and no more than eleven are queued; what
  the file holds is a prefix of them; the counter counts them; and at every moment a unit is accepted if and
  only if the file is open, the unit fits a slot and fewer than eleven are queued.\<close>

theorem spill_queue_order:
  assumes "wq_inv s" "spill_run es s = (s', accepted, taken, filed)"
  shows "wq_content s @ accepted = taken @ wq_content s' \<and> length (wq_content s') \<le> WRITE_QUEUE_SLOTS - 1 \<and>
    prefix filed taken \<and> fallback_writes s' = fallback_writes s + of_nat (length accepted) \<and>
    (fst (write_to_fallback nal s') = 0 \<longleftrightarrow> fallback_fd s' \<ge> 0 \<and> of_nat (length nal) \<le> WRITE_QUEUE_BUF_SZ \<and>
       length (wq_content s') < WRITE_QUEUE_SLOTS - 1)"
proof -
  have "wq_inv s' \<and> wq_content s @ accepted = taken @ wq_content s' \<and> prefix filed taken \<and>
      fallback_writes s' = fallback_writes s + of_nat (length accepted)"
    using assms
  proof (induction es arbitrary: s accepted taken filed)
    case (Cons ev es)
    show ?case
    proof (cases ev)
      case (Spill x)
      obtain r t where w: "write_to_fallback x s = (r, t)" by fastforce
      obtain u a k f where e: "spill_run es t = (u, a, k, f)" by (metis prod_cases4)
      note ok = write_to_fallback_ok [OF Cons.prems(1) w]
      have "u = s'" "accepted = (if r = 0 then x # a else a)" "taken = k" "filed = f"
        using Cons.prems(2) Spill w e by auto
      then show ?thesis using Cons.IH [OF ok(1)] e ok(2,6) by (auto split: if_splits)
    next
      case (Drain h q)
      show ?thesis
      proof (cases "writer_step h q s")
        case None
        then show ?thesis using Cons.IH [OF Cons.prems(1)] Cons.prems(2) Drain by simp
      next
        case (Some p)
        obtain x t where w: "writer_step h q s = Some (x, t)" using Some by (cases p) simp
        obtain u a k f where e: "spill_run es t = (u, a, k, f)" by (metis prod_cases4)
        note ok = writer_step_ok [OF Cons.prems(1) w]
        have "u = s'" "accepted = a" "taken = x # k" "filed = (if fallback_fd t \<ge> 0 \<and> \<not> storage_fault t then x # f else f)"
          using Cons.prems(2) Drain w e by auto
        moreover have "\<not> (fallback_fd t \<ge> 0 \<and> \<not> storage_fault t) \<Longrightarrow> f = []"
          using nothing_filed [OF ok(1) _ e] by auto
        ultimately show ?thesis using Cons.IH [OF ok(1)] e ok(2,3) by auto
      qed
    qed
  qed simp
  moreover from this have "length (wq_content s') \<le> WRITE_QUEUE_SLOTS - 1" using spill.content_bound by blast
  moreover obtain r t where "write_to_fallback nal s' = (r, t)" by fastforce
  ultimately show ?thesis using write_to_fallback_ok(3) [of s' nal r t] by simp
qed

text \<open>Two units are spilled; the first is written, the writing of the second fails.\<close>

theorem spill_queue_order_witness:
  "\<exists>s'. spill_run [Spill [1], Spill [2], Drain True 1, Drain True 0] (sb_start\<lparr>fallback_fd := 3\<rparr>) = (s', [[1], [2]], [[1], [2]], [[1]]) \<and>
     wq_content s' = [] \<and> fallback_writes s' = 2"
proof -
  let ?s = "sb_start\<lparr>fallback_fd := 3\<rparr>"
  let ?es = "[Spill [1], Spill [2], Drain True 1, Drain True 0]"
  have c: "wq_inv ?s" "wq_content ?s = []" "fallback_writes ?s = 0"
    using sb_start(6,7) by (simp_all add: wq_inv_def wq_content_def) (simp add: sb_start_def safety_buffer_init_def sb_zero_def)
  have "\<exists>s'. spill_run ?es ?s = (s', [[1], [2]], [[1], [2]], [[1]])"
    by (simp add: sb_start_def safety_buffer_init_def sb_zero_def write_to_fallback_def wq_put_def writer_step_def
        ring_next_def WRITE_QUEUE_BUF_SZ_def Let_def)
  then obtain s' where r: "spill_run ?es ?s = (s', [[1], [2]], [[1], [2]], [[1]])" by blast
  from spill_queue_order [OF c(1) r, of "[]"] c(2,3) r show ?thesis by simp
qed

subsection \<open>Where the code departs from its intention\<close>

text \<open>A key frame that is the oldest entry is not found.\<close>

lemma oldest_keyframe_missed:
  assumes "sb_inv s" "initialized s" "buffered s = [e]"
  shows "fst (safety_buffer_rewind True s) = None"
  using safety_buffer_rewind_refines [of s] assms by (cases "safety_buffer_rewind True s") (auto split: option.splits)

end
