(* ===== verification/VideoState.thy ===== *)
theory VideoState
  imports Prelude
begin

text \<open>
  What the video path shares (include/decode_flags.h, avc_hardware_state.c): the flags that the FEC
  queue, the RTP reassembly and the decoder callback all read and write, the stream configuration,
  the requests they make of the control stream, and the wire fields they read from a packet.

  The effects of a module on the outside (a request to the host, a frame given to the player, a report
  to the signal monitor) are recorded in order in \<open>actions\<close>. Log lines are not.
\<close>

subsection \<open>Packet fields\<close>

definition read_le32 :: "u8 list \<Rightarrow> nat \<Rightarrow> u32" where
  "read_le32 p i = ucast (p ! i) OR push_bit 8 (ucast (p ! (i + 1)))
     OR push_bit 16 (ucast (p ! (i + 2))) OR push_bit 24 (ucast (p ! (i + 3)))"

definition read_be16 :: "u8 list \<Rightarrow> nat \<Rightarrow> u16" where
  "read_be16 p i = push_bit 8 (ucast (p ! i)) OR ucast (p ! (i + 1))"

definition le32 :: "u32 \<Rightarrow> u8 list" where
  "le32 v = [ucast v, ucast (drop_bit 8 v), ucast (drop_bit 16 v), ucast (drop_bit 24 v)]"

definition be16 :: "u16 \<Rightarrow> u8 list" where
  "be16 v = [ucast (drop_bit 8 v), ucast v]"

text \<open>Overwriting a field in place.\<close>

definition patch :: "nat \<Rightarrow> u8 list \<Rightarrow> u8 list \<Rightarrow> u8 list" where
  "patch i field p = take i p @ field @ drop (i + length field) p"

definition write_le32 :: "nat \<Rightarrow> u32 \<Rightarrow> u8 list \<Rightarrow> u8 list" where
  "write_le32 i v = patch i (le32 v)"

definition write_be16 :: "nat \<Rightarrow> u16 \<Rightarrow> u8 list \<Rightarrow> u8 list" where
  "write_be16 i v = patch i (be16 v)"

lemma length_fields [simp]: "length (le32 v) = 4" "length (be16 w) = 2"
  by (simp_all add: le32_def be16_def)

lemma length_patch [simp]: "i + length field \<le> length p \<Longrightarrow> length (patch i field p) = length p"
  by (simp add: patch_def)

lemma nth_patch: "i + length field \<le> length p \<Longrightarrow> k < length p \<Longrightarrow>
    patch i field p ! k = (if i \<le> k \<and> k < i + length field then field ! (k - i) else p ! k)"
  by (auto simp: patch_def nth_append add.commute)

lemma read_le32_patch_other:
  assumes "i + length field \<le> k \<or> k + 4 \<le> i" "i + length field \<le> length p" "k + 4 \<le> length p"
  shows "read_le32 (patch i field p) k = read_le32 p k"
  using assms by (auto simp: read_le32_def nth_patch)

lemma read_le32_le32:
  assumes "k + 4 \<le> length p" "\<And>j. j < 4 \<Longrightarrow> p ! (k + j) = le32 v ! j"
  shows "read_le32 p k = v"
proof -
  have "p ! k = ucast v" "p ! (k + 1) = ucast (drop_bit 8 v)"
      "p ! (k + 2) = ucast (drop_bit 16 v)" "p ! (k + 3) = ucast (drop_bit 24 v)"
    using assms(2) [of 0] assms(2) [of 1] assms(2) [of 2] assms(2) [of 3] by (simp_all add: le32_def)
  note bytes = this
  show ?thesis
  proof (intro bit_word_eqI)
    fix n assume "n < LENGTH(32)"
    then consider "n < 8" | m where "n = m + 8" "m < 8" | m where "n = m + 16" "m < 8"
      | m where "n = m + 24" "m < 8"
      by (cases "n < 8"; cases "n < 16"; cases "n < 24") (auto dest!: le_Suc_ex simp: not_less ac_simps)
    then show "bit (read_le32 p k) n = bit v n"
      unfolding read_le32_def bytes by cases (auto simp: bit_simps ac_simps)
  qed
qed

text \<open>The four bytes of a little-endian field are determined by the value they read as.\<close>

lemma le32_read_le32: "le32 (read_le32 p k) = [p ! k, p ! (k + 1), p ! (k + 2), p ! (k + 3)]"
  unfolding le32_def read_le32_def
  by (intro arg_cong2 [where f = Cons] refl bit_word_eqI) (auto simp: bit_simps dest: bit_imp_le_length)

lemma be16_read_be16: "be16 (read_be16 p k) = [p ! k, p ! (k + 1)]"
  unfolding be16_def read_be16_def
  by (intro arg_cong2 [where f = Cons] refl bit_word_eqI) (auto simp: bit_simps dest: bit_imp_le_length)

subsection \<open>Configuration and environment of one call\<close>

text \<open>
  The configuration fields the video path reads (\<open>g_psp_config\<close>, \<open>g_avc_entropy_mode\<close>) and what it
  takes from outside during one call: the clock, the pause flag, whether reopening the player works,
  and the result of \<open>psp_avc_player_decode\<close> on the access unit of a frame.
\<close>

record video_env =
  g_avc_entropy_mode :: int
  cabacTestMode :: bool
  audioEnabled :: bool
  cfg_fps :: int
  cfg_width :: int
  cfg_height :: int
  cfg_bitrate :: int
  cfg_packetSize :: int
  now_us :: u32
  g_decode_paused :: bool
  player_reset_ok :: bool
  psp_avc_player_decode :: "u32 \<Rightarrow> u8 list \<Rightarrow> int"

definition rtp_stream_is_cabac :: "video_env \<Rightarrow> bool" where
  "rtp_stream_is_cabac e =
     (let mode = g_avc_entropy_mode e
      in if mode = 0 \<or> mode = 1 then mode \<noteq> 0 else cabacTestMode e)"

subsection \<open>Flags and effects\<close>

datatype action =
    Request_idr | Request_idr_force | Request_idr_recovery_fast | Request_idr_startup
  | Request_rfi u32 u32
  | Report_frame_drop | Report_frame_ok
  | Packet_loss
  | Fec_status u32 "u16 list" u8
  | Player_reset
  | Player_decode u32 "u8 list"

record video_state =
  g_refs_corrupted :: bool
  g_idr_fully_decoded :: bool
  g_current_frame_is_corrupt :: bool
  g_saw_first_idr :: bool
  s_hw_reset_needed :: bool
  g_last_decode_output_ok :: bool
  g_avc_last_input_accepted :: bool
  g_fec_recovery_clean :: bool
  g_fec_requested_idr :: bool
  g_last_good_frame :: u32
  g_decode_current_frame_id :: u32
  g_frames_decoded :: int
  g_frames_dropped :: int
  g_decoder_alive_counter :: int
  actions :: "action list"

definition emit :: "action \<Rightarrow> 'a video_state_scheme \<Rightarrow> 'a video_state_scheme" where
  "emit a s = s\<lparr>actions := actions s @ [a]\<rparr>"

text \<open>The access units that reached the player, oldest first.\<close>

definition decoded :: "'a video_state_scheme \<Rightarrow> (u32 \<times> u8 list) list" where
  "decoded s = List.map_filter (\<lambda>a. case a of Player_decode f d \<Rightarrow> Some (f, d) | _ \<Rightarrow> None) (actions s)"

end
