(* ===== verification/DecoderCallback.thy ===== *)
theory DecoderCallback
  imports VideoState
begin

text \<open>
  The hardware branch of \<open>rtp_frame_complete_callback\<close> (decoder_thread.c): the gate between a
  reassembled access unit and Sony's decoder. It decides, from the shared flags and from whether the
  unit carries an IDR slice, if the unit may enter the decoder at all, and turns the decoder's answer
  into flags and requests. The timing values for the HUD are left out.
\<close>

subsection \<open>Scanning an access unit\<close>

definition nal_start :: "u8 list \<Rightarrow> nat \<Rightarrow> nat" where
  "nal_start d p =
     (if d ! p = 0 \<and> d ! (p + 1) = 0
      then if d ! (p + 2) = 1 then 3 else if d ! (p + 2) = 0 \<and> d ! (p + 3) = 1 then 4 else 0
      else 0)"

function nal_scan :: "u8 list \<Rightarrow> nat \<Rightarrow> bool \<Rightarrow> bool \<times> bool" where
  "nal_scan d p sync =
     (if p + 4 < length d then
        let sc = nal_start d p in
        if 0 < sc \<and> p + sc < length d then
          let nal_type = d ! (p + sc) AND 0x1F;
              sync' = (sync \<or> nal_type = 7 \<or> nal_type = 8) in
          if nal_type = 5 then (True, True)
          else if 1 \<le> nal_type \<and> nal_type \<le> 5 then (False, sync')
          else nal_scan d (p + sc + 1) sync'
        else nal_scan d (p + 1) sync
      else (False, sync))"
  by auto
termination
  by (relation "measure (\<lambda>(d, p, sync). length d - p)") auto

declare nal_scan.simps [simp del]

definition nal_scan_headers :: "u8 list \<Rightarrow> bool \<times> bool" where
  "nal_scan_headers d = (if length d \<le> 4 then (False, False) else nal_scan d 0 False)"

subsection \<open>The callback\<close>

definition hardware_request_reset :: "'a video_state_scheme \<Rightarrow> 'a video_state_scheme" where
  "hardware_request_reset s = s\<lparr>s_hw_reset_needed := True\<rparr>"

definition hardware_request_ref_resync :: "'a video_state_scheme \<Rightarrow> 'a video_state_scheme" where
  "hardware_request_ref_resync s =
     s\<lparr>g_refs_corrupted := True, g_saw_first_idr := False, g_idr_fully_decoded := False\<rparr>"

definition PSP_AVC_PROFILE_CHANGE_REQUIRED :: int where
  "PSP_AVC_PROFILE_CHANGE_REQUIRED = 4"

text \<open>Reacting to what the player answered.\<close>

definition player_result :: "int \<Rightarrow> bool \<Rightarrow> 'a video_state_scheme \<Rightarrow> 'a video_state_scheme" where
  "player_result r has_idr s =
     (if r = 0 \<or> r = 3 then
        let s = s\<lparr>g_avc_last_input_accepted := True\<rparr>;
            s = (if has_idr then s\<lparr>g_saw_first_idr := True, g_idr_fully_decoded := True\<rparr> else s)
        in if r = 0 then s\<lparr>g_last_decode_output_ok := True, g_frames_decoded := g_frames_decoded s + 1\<rparr>
           else s
      else if r = 2 then emit Request_idr_startup s
      else if r = PSP_AVC_PROFILE_CHANGE_REQUIRED then
        s\<lparr>g_refs_corrupted := True, g_saw_first_idr := False, g_idr_fully_decoded := False\<rparr>
      else if r < 0 then
        emit Request_idr_force
          (s\<lparr>s_hw_reset_needed := True, g_frames_dropped := g_frames_dropped s + 1\<rparr>)
      else s)"

definition player_submit :: "video_env \<Rightarrow> u8 list \<Rightarrow> bool \<Rightarrow> 'a video_state_scheme \<Rightarrow> 'a video_state_scheme" where
  "player_submit e d has_idr s =
     (let s = s\<lparr>g_decoder_alive_counter := g_decoder_alive_counter s + 1\<rparr>;
          fid = g_decode_current_frame_id s
      in player_result (psp_avc_player_decode e fid d) has_idr (emit (Player_decode fid d) s))"

text \<open>Reopening the session, only ever at an IDR; None when the unit is not submitted.\<close>

definition player_reopen :: "video_env \<Rightarrow> bool \<Rightarrow> 'a video_state_scheme \<Rightarrow> bool \<times> 'a video_state_scheme" where
  "player_reopen e has_idr s =
     (if \<not> s_hw_reset_needed s then (True, s)
      else if \<not> has_idr then (False, emit Request_idr_startup s)
      else let s = emit Player_reset s in
        if \<not> player_reset_ok e then (False, s\<lparr>s_hw_reset_needed := True\<rparr>)
        else (True, emit Request_idr_force
          (s\<lparr>s_hw_reset_needed := False, g_refs_corrupted := False, g_idr_fully_decoded := False\<rparr>)))"

definition rtp_frame_complete_callback :: "video_env \<Rightarrow> u8 list \<Rightarrow> 'a video_state_scheme \<Rightarrow> 'a video_state_scheme" where
  "rtp_frame_complete_callback e d s =
     (let s = s\<lparr>g_last_decode_output_ok := False, g_avc_last_input_accepted := False\<rparr> in
      if d = [] then s else
      let has_idr = fst (nal_scan_headers d) in
      if g_current_frame_is_corrupt s then emit Request_idr_force (hardware_request_ref_resync s)
      else if g_decode_paused e then hardware_request_reset s
      else if g_refs_corrupted s \<and> \<not> has_idr then emit Request_idr_startup s
      else
        let s = (if g_refs_corrupted s
                 then s\<lparr>g_refs_corrupted := False, g_saw_first_idr := False, g_idr_fully_decoded := False\<rparr>
                 else s);
            (ready, s) = player_reopen e has_idr s
        in if ready then player_submit e d has_idr s else s)"

subsection \<open>Facts\<close>

lemma decoded_emit: "decoded (emit a s) = decoded s @ (case a of Player_decode f d \<Rightarrow> [(f, d)] | _ \<Rightarrow> [])"
  by (cases a) (auto simp: decoded_def emit_def List.map_filter_def)

lemma decoded_upd [simp]:
  "decoded (s\<lparr>g_refs_corrupted := b\<rparr>) = decoded s"
  "decoded (s\<lparr>g_idr_fully_decoded := b\<rparr>) = decoded s"
  "decoded (s\<lparr>g_current_frame_is_corrupt := b\<rparr>) = decoded s"
  "decoded (s\<lparr>g_saw_first_idr := b\<rparr>) = decoded s"
  "decoded (s\<lparr>s_hw_reset_needed := b\<rparr>) = decoded s"
  "decoded (s\<lparr>g_last_decode_output_ok := b\<rparr>) = decoded s"
  "decoded (s\<lparr>g_avc_last_input_accepted := b\<rparr>) = decoded s"
  "decoded (s\<lparr>g_fec_recovery_clean := b\<rparr>) = decoded s"
  "decoded (s\<lparr>g_fec_requested_idr := b\<rparr>) = decoded s"
  "decoded (s\<lparr>g_last_good_frame := f\<rparr>) = decoded s"
  "decoded (s\<lparr>g_decode_current_frame_id := f\<rparr>) = decoded s"
  "decoded (s\<lparr>g_frames_decoded := n\<rparr>) = decoded s"
  "decoded (s\<lparr>g_frames_dropped := n\<rparr>) = decoded s"
  "decoded (s\<lparr>g_decoder_alive_counter := n\<rparr>) = decoded s"
  by (simp_all add: decoded_def)

lemma emit_sel [simp]:
  "g_refs_corrupted (emit a s) = g_refs_corrupted s"
  "g_idr_fully_decoded (emit a s) = g_idr_fully_decoded s"
  "g_current_frame_is_corrupt (emit a s) = g_current_frame_is_corrupt s"
  "g_saw_first_idr (emit a s) = g_saw_first_idr s"
  "s_hw_reset_needed (emit a s) = s_hw_reset_needed s"
  "g_avc_last_input_accepted (emit a s) = g_avc_last_input_accepted s"
  "g_fec_recovery_clean (emit a s) = g_fec_recovery_clean s"
  "g_last_good_frame (emit a s) = g_last_good_frame s"
  "g_decode_current_frame_id (emit a s) = g_decode_current_frame_id s"
  by (simp_all add: emit_def)

text \<open>A unit is scanned as an IDR only if an IDR slice follows a start code in it.\<close>

lemma nal_scan_idr:
  "fst (nal_scan d p sync) \<Longrightarrow>
   \<exists>i. p \<le> i \<and> 0 < nal_start d i \<and> i + nal_start d i < length d \<and> d ! (i + nal_start d i) AND 0x1F = 5"
proof (induction "length d - p" arbitrary: p sync rule: less_induct)
  case less
  define sc where "sc = nal_start d p"
  have p: "p + 4 < length d"
    using less.prems by (subst (asm) nal_scan.simps) (simp split: if_splits)
  show ?case
  proof (cases "0 < sc \<and> p + sc < length d \<and> d ! (p + sc) AND 0x1F = 5")
    case True
    then show ?thesis unfolding sc_def by blast
  next
    case False
    with less.prems p nal_scan.simps [of d p sync]
    have "fst (nal_scan d (p + sc + 1) (sync \<or> d ! (p + sc) AND 31 = 7 \<or> d ! (p + sc) AND 31 = 8))
        \<or> fst (nal_scan d (p + 1) sync)"
      by (simp add: Let_def sc_def split: if_splits)
    then obtain q sync' where q: "p < q" "fst (nal_scan d q sync')"
      by (metis add_strict_increasing2 le_add1 less_add_one zero_less_one le_imp_less_Suc Suc_eq_plus1)
    with p have "length d - q < length d - p" by simp
    from less.hyps [OF this q(2)] q(1) show ?thesis by (meson less_imp_le order_trans)
  qed
qed

lemma player_result_refs:
  "decoded (player_result r i s) = decoded s"
  "g_refs_corrupted (player_result r i s) \<longleftrightarrow> g_refs_corrupted s \<or> r = PSP_AVC_PROFILE_CHANGE_REQUIRED"
  by (simp_all add: player_result_def Let_def decoded_emit PSP_AVC_PROFILE_CHANGE_REQUIRED_def)

lemma player_reopen_ready:
  "player_reopen e i s = (True, s') \<Longrightarrow> \<not> s_hw_reset_needed s' \<and> (s_hw_reset_needed s \<longrightarrow> i \<and> \<not> g_refs_corrupted s')
     \<and> (g_refs_corrupted s' \<longrightarrow> g_refs_corrupted s)
     \<and> decoded s' = decoded s \<and> g_decode_current_frame_id s' = g_decode_current_frame_id s"
  by (auto simp: player_reopen_def Let_def decoded_emit split: if_splits)

lemma player_reopen_refused:
  "player_reopen e i s = (False, s') \<Longrightarrow> s_hw_reset_needed s' \<and> decoded s' = decoded s
     \<and> g_refs_corrupted s' = g_refs_corrupted s"
  by (auto simp: player_reopen_def Let_def decoded_emit split: if_splits)

subsection \<open>The gate\<close>

text \<open>Until an IDR re-seeds the decoder, its references cannot be trusted.\<close>

definition awaiting_idr :: "'a video_state_scheme \<Rightarrow> bool" where
  "awaiting_idr s \<longleftrightarrow> g_refs_corrupted s \<or> s_hw_reset_needed s"

definition may_enter :: "video_env \<Rightarrow> u8 list \<Rightarrow> 'a video_state_scheme \<Rightarrow> bool" where
  "may_enter e d s \<longleftrightarrow> d \<noteq> [] \<and> \<not> g_current_frame_is_corrupt s \<and> \<not> g_decode_paused e
     \<and> (awaiting_idr s \<longrightarrow> fst (nal_scan_headers d)) \<and> (s_hw_reset_needed s \<longrightarrow> player_reset_ok e)"

lemma callback_gate:
  "decoded (rtp_frame_complete_callback e d s) =
     (if may_enter e d s then decoded s @ [(g_decode_current_frame_id s, d)] else decoded s) \<and>
   (awaiting_idr (rtp_frame_complete_callback e d s) \<longleftrightarrow>
     (if may_enter e d s
      then psp_avc_player_decode e (g_decode_current_frame_id s) d < 0
        \<or> psp_avc_player_decode e (g_decode_current_frame_id s) d = PSP_AVC_PROFILE_CHANGE_REQUIRED
      else awaiting_idr s \<or> d \<noteq> [] \<and> (g_current_frame_is_corrupt s \<or> g_decode_paused e)))"
  by (simp add: rtp_frame_complete_callback_def may_enter_def awaiting_idr_def player_reopen_def
      player_submit_def player_result_def hardware_request_reset_def hardware_request_ref_resync_def
      decoded_emit Let_def PSP_AVC_PROFILE_CHANGE_REQUIRED_def)

text \<open>An accepted unit is one that entered the decoder.\<close>

lemma callback_accepted:
  "g_avc_last_input_accepted (rtp_frame_complete_callback e d s) \<Longrightarrow> may_enter e d s"
  by (auto simp: rtp_frame_complete_callback_def may_enter_def awaiting_idr_def player_reopen_def
      hardware_request_reset_def hardware_request_ref_resync_def Let_def split: if_splits)

text \<open>The property C16: what the gate lets through: an access unit enters the player at most once per callback, under
  the id of the frame being delivered, never while the frame is marked corrupt or decoding is paused,
  and, while the references are corrupt or a reset of the session is pending, only when it carries an
  IDR slice (and the session reopens). Afterwards the decoder waits for an IDR exactly when the player
  refused the unit, or, if nothing was submitted, when it waited before or the frame was corrupt or
  paused.\<close>

theorem decoder_gate:
  "decoded (rtp_frame_complete_callback e d s) =
     (if may_enter e d s then decoded s @ [(g_decode_current_frame_id s, d)] else decoded s) \<and>
   (awaiting_idr (rtp_frame_complete_callback e d s) \<longleftrightarrow>
     (if may_enter e d s
      then psp_avc_player_decode e (g_decode_current_frame_id s) d < 0
        \<or> psp_avc_player_decode e (g_decode_current_frame_id s) d = PSP_AVC_PROFILE_CHANGE_REQUIRED
      else awaiting_idr s \<or> d \<noteq> [] \<and> (g_current_frame_is_corrupt s \<or> g_decode_paused e)))"
  by (rule callback_gate)

end
