(* ===== verification/RtpReassembly.thy ===== *)
theory RtpReassembly
  imports DecoderCallback
begin

text \<open>
  RTP reassembly (rtp_reassembly.c): packets of the current frame are appended to one assembly buffer
  and the frame is handed to the decoder callback when its last packet has arrived. The module also
  runs the loss recovery of the stream: it waits for a reference-invalidation (RFI) frame or for an
  IDR and drops everything else meanwhile.

  The buffer is modelled by its filled prefix, so \<open>assembly_pos\<close> is its length. Times are the clock of
  the call (\<open>now_us\<close>). Log lines, the counters that only rate-limit them and the telemetry of usable
  bytes are left out. The calls into the decoder callback are the ones of DecoderCallback.
\<close>

subsection \<open>State\<close>

definition MAX_ASSEMBLY_SIZE :: nat where "MAX_ASSEMBLY_SIZE = 256 * 1024"
definition RFI_WAIT_MIN_US :: u32 where "RFI_WAIT_MIN_US = 200000"
definition IDR_WAIT_MIN_US :: u32 where "IDR_WAIT_MIN_US = 2000000"
definition IDR_WAIT_LOG_INTERVAL :: u32 where "IDR_WAIT_LOG_INTERVAL = 30"
definition NO_FRAME :: u32 where "NO_FRAME = 0xFFFFFFFF"

record reassembly = video_state +
  assembly_buffer :: "u8 list"
  current_frame_id :: u32
  s_last_seen_frame_id :: u32
  expected_seq :: u16
  reassembling :: bool
  g_frame_had_gaps :: bool
  g_saw_first_sof :: bool
  g_frame_overflow :: bool
  s_consec_gap_frames :: u32
  s_waiting_for_ref_inval_frame :: bool
  s_waiting_for_idr_frame :: bool
  s_ref_inval_start :: u32
  s_ref_inval_end :: u32
  s_idr_wait_loss_start :: u32
  s_idr_wait_loss_end :: u32
  s_ref_inval_wait_start_us :: u32
  s_idr_wait_start_us :: u32
  s_rfi_wait_drop_count :: u32
  s_idr_wait_drop_count :: u32
  s_current_frame_idr_recovery :: bool
  s_current_idr_loss_start :: u32
  s_current_idr_loss_end :: u32
  g_host_processing_us :: u32
  g_host_processing_sample_us :: u32
  g_host_processing_valid :: bool

subsection \<open>Modes and limits\<close>

definition rtp_is_cavlc_performance_mode :: "video_env \<Rightarrow> bool" where
  "rtp_is_cavlc_performance_mode e \<longleftrightarrow>
     \<not> rtp_stream_is_cabac e \<and> cfg_fps e \<ge> 30 \<and> cfg_width e \<le> 320 \<and> cfg_height e \<le> 180"

definition rtp_is_cabac_mode :: "video_env \<Rightarrow> bool" where
  "rtp_is_cabac_mode e \<longleftrightarrow> rtp_stream_is_cabac e"

definition rtp_is_cabac_performance_mode :: "video_env \<Rightarrow> bool" where
  "rtp_is_cabac_performance_mode e \<longleftrightarrow>
     rtp_is_cabac_mode e \<and> \<not> audioEnabled e \<and> cfg_fps e \<ge> 30 \<and> cfg_width e \<le> 320 \<and> cfg_height e \<le> 180"

definition rtp_is_cabac_quality_audio_mode :: "video_env \<Rightarrow> bool" where
  "rtp_is_cabac_quality_audio_mode e \<longleftrightarrow>
     rtp_is_cabac_mode e \<and> audioEnabled e \<and> cfg_width e = 480 \<and> cfg_height e = 272
     \<and> 0 < cfg_fps e \<and> cfg_fps e \<le> 15"

definition rtp_request_idr_force_for_mode :: "video_env \<Rightarrow> 'a video_state_scheme \<Rightarrow> 'a video_state_scheme" where
  "rtp_request_idr_force_for_mode e =
     emit (if rtp_is_cabac_performance_mode e then Request_idr_recovery_fast else Request_idr_force)"

definition rtp_rfi_wait_min_us :: "video_env \<Rightarrow> u32" where
  "rtp_rfi_wait_min_us e =
     (if rtp_is_cavlc_performance_mode e then 500000
      else if rtp_is_cabac_performance_mode e then 450000
      else if rtp_is_cabac_quality_audio_mode e then 650000
      else if rtp_is_cabac_mode e then 400000
      else RFI_WAIT_MIN_US)"

definition rtp_rfi_wait_ref_span_max :: "video_env \<Rightarrow> u32" where
  "rtp_rfi_wait_ref_span_max e =
     (if rtp_is_cavlc_performance_mode e then 90
      else if rtp_is_cabac_performance_mode e then 36
      else if rtp_is_cabac_quality_audio_mode e then 36
      else if rtp_is_cabac_mode e then 24
      else 6)"

definition rtp_frame_span :: "u32 \<Rightarrow> u32 \<Rightarrow> u32" where
  "rtp_frame_span start_frame end_frame =
     (if start_frame = 0 \<or> sint (end_frame - start_frame) < 0 then 1 else end_frame - start_frame + 1)"

definition rtp_rfi_span_exceeds_window :: "video_env \<Rightarrow> u32 \<Rightarrow> u32 \<Rightarrow> bool" where
  "rtp_rfi_span_exceeds_window e start_frame end_frame \<longleftrightarrow>
     \<not> rtp_is_cavlc_performance_mode e
     \<and> rtp_frame_span start_frame end_frame > rtp_rfi_wait_ref_span_max e"

definition effective_fps :: "video_env \<Rightarrow> u32" where
  "effective_fps e = (if cfg_fps e > 0 then word_of_int (cfg_fps e) else 20)"

definition rtp_rfi_wait_max_drops :: "video_env \<Rightarrow> u32" where
  "rtp_rfi_wait_max_drops e =
     (if rtp_is_cavlc_performance_mode e then 4
      else if rtp_is_cabac_performance_mode e then 18
      else if rtp_is_cabac_quality_audio_mode e then 20
      else if rtp_is_cabac_mode e then 12
      else min (max (effective_fps e) 4) 4)"

definition rtp_idr_wait_max_drops :: "video_env \<Rightarrow> u32" where
  "rtp_idr_wait_max_drops e = min (max (effective_fps e * 2) 20) 60"

definition rtp_wait_elapsed :: "video_env \<Rightarrow> u32 \<Rightarrow> u32 \<Rightarrow> bool" where
  "rtp_wait_elapsed e start_us min_us \<longleftrightarrow> start_us \<noteq> 0 \<and> now_us e - start_us \<ge> min_us"

subsection \<open>Waiting for a recovery frame\<close>

definition rtp_advance_decoded_frame :: "u32 \<Rightarrow> 'a video_state_scheme \<Rightarrow> 'a video_state_scheme" where
  "rtp_advance_decoded_frame frame_id s =
     (if g_avc_last_input_accepted s \<and> g_idr_fully_decoded s \<and> \<not> g_current_frame_is_corrupt s
         \<and> (g_last_good_frame s = 0 \<or> sint (frame_id - g_last_good_frame s) > 0)
      then s\<lparr>g_last_good_frame := frame_id\<rparr> else s)"

definition rtp_clear_ref_inval_wait :: "reassembly \<Rightarrow> reassembly" where
  "rtp_clear_ref_inval_wait s =
     s\<lparr>s_waiting_for_ref_inval_frame := False, s_ref_inval_start := 0, s_ref_inval_end := 0,
       s_ref_inval_wait_start_us := 0, s_rfi_wait_drop_count := 0\<rparr>"

definition rtp_clear_idr_wait :: "reassembly \<Rightarrow> reassembly" where
  "rtp_clear_idr_wait s =
     s\<lparr>s_waiting_for_idr_frame := False, s_idr_wait_loss_start := 0, s_idr_wait_loss_end := 0,
       s_idr_wait_start_us := 0, s_idr_wait_drop_count := 0\<rparr>"

definition rtp_clear_current_idr_recovery :: "reassembly \<Rightarrow> reassembly" where
  "rtp_clear_current_idr_recovery s =
     s\<lparr>s_current_frame_idr_recovery := False, s_current_idr_loss_start := 0, s_current_idr_loss_end := 0\<rparr>"

text \<open>The lost range of a loss report, and widening a range that is already being waited for.\<close>

definition loss_from :: "u32 \<Rightarrow> u32 \<Rightarrow> u32" where
  "loss_from start_frame end_frame =
     (if start_frame = 0 \<or> sint (end_frame - start_frame) < 0 then end_frame else start_frame)"

definition widen_idr_loss :: "u32 \<Rightarrow> u32 \<Rightarrow> reassembly \<Rightarrow> reassembly" where
  "widen_idr_loss start_frame end_frame s =
     s\<lparr>s_idr_wait_loss_start :=
         (if sint (start_frame - s_idr_wait_loss_start s) < 0 then start_frame else s_idr_wait_loss_start s),
       s_idr_wait_loss_end :=
         (if sint (end_frame - s_idr_wait_loss_end s) > 0 then end_frame else s_idr_wait_loss_end s)\<rparr>"

definition rtp_start_idr_wait :: "video_env \<Rightarrow> u32 \<Rightarrow> u32 \<Rightarrow> reassembly \<Rightarrow> reassembly" where
  "rtp_start_idr_wait e start_frame end_frame s =
     (let was_waiting = s_waiting_for_idr_frame s;
          start_frame = loss_from start_frame end_frame;
          s = (if \<not> was_waiting
               then s\<lparr>s_idr_wait_loss_start := start_frame, s_idr_wait_loss_end := end_frame,
                      s_idr_wait_drop_count := 0, s_idr_wait_start_us := now_us e\<rparr>
               else widen_idr_loss start_frame end_frame s);
          s = rtp_clear_ref_inval_wait (s\<lparr>s_waiting_for_idr_frame := True\<rparr>);
          s = s\<lparr>g_refs_corrupted := True, g_idr_fully_decoded := False\<rparr>
      in if was_waiting then emit Request_idr s else rtp_request_idr_force_for_mode e s)"

definition rtp_mark_waiting_for_ref_inval :: "video_env \<Rightarrow> u32 \<Rightarrow> u32 \<Rightarrow> reassembly \<Rightarrow> reassembly" where
  "rtp_mark_waiting_for_ref_inval e start_frame end_frame s =
     (let start_frame = loss_from start_frame end_frame in
      if rtp_rfi_span_exceeds_window e start_frame end_frame \<and> g_last_good_frame s \<noteq> 0
      then rtp_start_idr_wait e start_frame end_frame s
      else if \<not> s_waiting_for_ref_inval_frame s
      then s\<lparr>s_ref_inval_start := start_frame, s_ref_inval_end := end_frame,
             s_waiting_for_ref_inval_frame := True, s_rfi_wait_drop_count := 0,
             s_ref_inval_wait_start_us := now_us e\<rparr>
      else
        let s = s\<lparr>s_ref_inval_start :=
                    (if sint (start_frame - s_ref_inval_start s) < 0 then start_frame else s_ref_inval_start s),
                  s_ref_inval_end :=
                    (if sint (end_frame - s_ref_inval_end s) > 0 then end_frame else s_ref_inval_end s)\<rparr>
        in if rtp_rfi_span_exceeds_window e (s_ref_inval_start s) (s_ref_inval_end s) \<and> g_last_good_frame s \<noteq> 0
           then rtp_start_idr_wait e (s_ref_inval_start s) (s_ref_inval_end s) s
           else s)"

definition rtp_reassembly_note_frame_loss :: "video_env \<Rightarrow> u32 \<Rightarrow> u32 \<Rightarrow> reassembly \<Rightarrow> reassembly" where
  "rtp_reassembly_note_frame_loss e start_frame end_frame s =
     (let start_frame = loss_from start_frame end_frame in
      if s_waiting_for_idr_frame s then widen_idr_loss start_frame end_frame s
      else if (g_refs_corrupted s \<or> \<not> g_idr_fully_decoded s) \<and> g_last_good_frame s = 0
      then rtp_start_idr_wait e start_frame end_frame s
      else rtp_mark_waiting_for_ref_inval e start_frame end_frame s)"

subsection \<open>NAL helpers\<close>

definition is_annexb_start :: "u8 list \<Rightarrow> nat \<Rightarrow> nat" where
  "is_annexb_start d i =
     (if i + 3 < length d \<and> d ! i = 0 \<and> d ! (i + 1) = 0 \<and> d ! (i + 2) = 1 then 3
      else if i + 4 < length d \<and> d ! i = 0 \<and> d ! (i + 1) = 0 \<and> d ! (i + 2) = 0 \<and> d ! (i + 3) = 1 then 4
      else 0)"

function idr_nal_loop :: "u8 list \<Rightarrow> nat \<Rightarrow> bool" where
  "idr_nal_loop d i =
     (if i < length d then
        let sc = is_annexb_start d i in
        if 0 < sc \<and> i + sc < length d
        then if d ! (i + sc) AND 0x1F = 5 then True else idr_nal_loop d (i + sc + 1)
        else idr_nal_loop d (i + 1)
      else False)"
  by auto
termination
  by (relation "measure (\<lambda>(d, i). length d - i)") auto

declare idr_nal_loop.simps [simp del]

definition payload_contains_idr_nal :: "u8 list \<Rightarrow> bool" where
  "payload_contains_idr_nal d \<longleftrightarrow>
     d \<noteq> [] \<and>
     (idr_nal_loop d 0 \<or>
      (let nal_type = d ! 0 AND 0x1F
       in nal_type = 5 \<or>
          nal_type = 28 \<and> length d \<ge> 2 \<and> d ! 1 AND 0x80 \<noteq> 0 \<and> d ! 1 AND 0x1F = 5))"

definition append_to_frame :: "u8 list \<Rightarrow> reassembly \<Rightarrow> reassembly" where
  "append_to_frame d s =
     (if d = [] then s
      else if length (assembly_buffer s) + length d > MAX_ASSEMBLY_SIZE then s\<lparr>g_frame_overflow := True\<rparr>
      else s\<lparr>assembly_buffer := assembly_buffer s @ d\<rparr>)"

text \<open>For evaluation: the comparison on integers, which keeps numerals binary.\<close>

lemma append_to_frame_code [code]:
  "append_to_frame d s =
     (if d = [] then s
      else if int (length (assembly_buffer s)) + int (length d) > 262144 then s\<lparr>g_frame_overflow := True\<rparr>
      else s\<lparr>assembly_buffer := assembly_buffer s @ d\<rparr>)"
  by (simp add: append_to_frame_def MAX_ASSEMBLY_SIZE_def)

definition append_start_code :: "reassembly \<Rightarrow> reassembly" where
  "append_start_code = append_to_frame [0, 0, 0, 1]"

subsection \<open>Packet headers\<close>

text \<open>The RTP header, with its optional fixed extension, and the NV header behind it.\<close>

record rtp_packet =
  pk_seq :: u16
  pk_frame :: u32
  pk_first :: bool
  pk_last :: bool
  pk_payload :: "u8 list"

definition rtp_data_offset :: "u8 list \<Rightarrow> nat" where
  "rtp_data_offset p = (if p ! 0 AND 0x10 \<noteq> 0 then 16 else 12)"

definition rtp_parse :: "u8 list \<Rightarrow> rtp_packet option" where
  "rtp_parse p =
     (if length p < 12 then None
      else let off = rtp_data_offset p in
        if length p < off + 16 then None
        else let flags = p ! (off + 8) in
          if flags AND NOT (0x01 OR 0x02 OR 0x04) \<noteq> 0 then None
          else let fec_block_num = drop_bit 4 (p ! (off + 11)) AND 0x03 in
            Some \<lparr>pk_seq = read_be16 p 2, pk_frame = read_le32 p (off + 4),
                  pk_first = (flags AND 0x04 \<noteq> 0 \<and> fec_block_num = 0),
                  pk_last = (flags AND 0x02 \<noteq> 0 \<or> p ! 1 AND 0x80 \<noteq> 0),
                  pk_payload = drop (off + 16) p\<rparr>)"

text \<open>Sunshine's frame header: its length, the frame type (or -1), and the host latency.\<close>

definition frame_header :: "u8 list \<Rightarrow> nat \<times> int" where
  "frame_header d =
     (if d \<noteq> [] \<and> (d ! 0 = 0x01 \<or> d ! 0 = 0x81)
      then (if d ! 0 = 0x01 then 8 else 44, if length d \<ge> 4 then uint (d ! 3) else -1)
      else (0, -1))"

definition note_host_latency :: "video_env \<Rightarrow> u8 list \<Rightarrow> reassembly \<Rightarrow> reassembly" where
  "note_host_latency e d s =
     (if length d \<ge> 8 \<and> d ! 0 = 0x01
      then s\<lparr>g_host_processing_us := read_le32 d 4, g_host_processing_sample_us := now_us e,
             g_host_processing_valid := True\<rparr>
      else s)"

subsection \<open>A packet, step by step\<close>

definition is_duplicate :: "u32 \<Rightarrow> reassembly \<Rightarrow> bool" where
  "is_duplicate frame_id s \<longleftrightarrow>
     g_idr_fully_decoded s \<and> g_last_good_frame s \<noteq> 0 \<and> sint (frame_id - g_last_good_frame s) \<le> 0"

definition transport_delta :: "u32 \<Rightarrow> reassembly \<Rightarrow> int" where
  "transport_delta frame_id s =
     (if s_last_seen_frame_id s \<noteq> NO_FRAME then sint (frame_id - s_last_seen_frame_id s) else 0)"

definition seq_gap_at_boundary :: "rtp_packet \<Rightarrow> reassembly \<Rightarrow> bool" where
  "seq_gap_at_boundary k s \<longleftrightarrow>
     pk_frame k \<noteq> current_frame_id s \<and> current_frame_id s \<noteq> NO_FRAME \<and> pk_seq k \<noteq> expected_seq s"

definition note_massive_jump :: "video_env \<Rightarrow> int \<Rightarrow> bool \<Rightarrow> u32 \<Rightarrow> reassembly \<Rightarrow> reassembly" where
  "note_massive_jump e delta seq_gap frame_id s =
     (if delta > 100 \<and> seq_gap \<and> \<not> s_waiting_for_idr_frame s \<and> \<not> s_waiting_for_ref_inval_frame s
      then let loss_start = s_last_seen_frame_id s + 1 in
        emit (Request_rfi loss_start frame_id) (rtp_mark_waiting_for_ref_inval e loss_start frame_id s)
      else s)"

definition note_frame_seen :: "u32 \<Rightarrow> reassembly \<Rightarrow> reassembly" where
  "note_frame_seen frame_id s =
     (if s_last_seen_frame_id s = NO_FRAME \<or> sint (frame_id - s_last_seen_frame_id s) > 0
      then s\<lparr>s_last_seen_frame_id := frame_id\<rparr> else s)"

definition switch_frame :: "rtp_packet \<Rightarrow> reassembly \<Rightarrow> reassembly" where
  "switch_frame k s =
     (if pk_frame k = current_frame_id s then s
      else
        let s = (if reassembling s \<and> assembly_buffer s \<noteq> []
                 then emit Report_frame_drop
                   (emit (if g_last_good_frame s = 0 then Request_idr
                          else Request_rfi (current_frame_id s) (current_frame_id s)) s)
                 else s)
        in s\<lparr>assembly_buffer := [], current_frame_id := pk_frame k, reassembling := False,
             g_frame_had_gaps := False, g_frame_overflow := False, g_saw_first_sof := False,
             expected_seq := pk_seq k\<rparr>)"

definition check_seq :: "rtp_packet \<Rightarrow> reassembly \<Rightarrow> reassembly" where
  "check_seq k s =
     (let s = (if pk_seq k \<noteq> expected_seq s then emit Packet_loss (s\<lparr>g_frame_had_gaps := True\<rparr>) else s)
      in s\<lparr>expected_seq := pk_seq k + 1\<rparr>)"

definition start_frame :: "reassembly \<Rightarrow> reassembly" where
  "start_frame s =
     rtp_clear_current_idr_recovery
       (s\<lparr>reassembling := True, assembly_buffer := [], g_saw_first_sof := True, g_frame_overflow := False\<rparr>)"

text \<open>Giving the frame up at its first packet.\<close>

definition abandon_frame :: "reassembly \<Rightarrow> reassembly" where
  "abandon_frame s =
     s\<lparr>reassembling := False, assembly_buffer := [], g_saw_first_sof := False, g_fec_recovery_clean := False\<rparr>"

text \<open>A jump of the frame id: a loss, a pacing skip, or covered by a recovery frame.\<close>

definition note_transport_gap ::
    "video_env \<Rightarrow> u32 \<Rightarrow> int \<Rightarrow> bool \<Rightarrow> u32 \<Rightarrow> bool \<Rightarrow> reassembly \<Rightarrow> reassembly" where
  "note_transport_gap e prev delta seq_gap frame_id is_ref s =
     (if delta > 1 \<and> \<not> s_waiting_for_idr_frame s \<and> \<not> s_waiting_for_ref_inval_frame s
         \<and> g_idr_fully_decoded s \<and> g_last_good_frame s \<noteq> 0
      then
        let loss_start = prev + 1; loss_end = frame_id - 1 in
        if rtp_is_cabac_performance_mode e \<and> \<not> seq_gap \<and> delta - 1 \<le> 3 then s
        else if rtp_is_cabac_mode e \<and> \<not> is_ref
        then emit Report_frame_drop (emit (Request_rfi loss_start loss_end)
               (rtp_mark_waiting_for_ref_inval e loss_start loss_end s))
        else if \<not> seq_gap then s
        else if is_ref then s
        else if rtp_is_cavlc_performance_mode e
        then emit Report_frame_drop (emit (Request_rfi loss_start loss_end)
               (rtp_mark_waiting_for_ref_inval e loss_start loss_end s))
        else emit Report_frame_drop (rtp_mark_waiting_for_ref_inval e loss_start loss_end s)
      else s)"

definition note_corrupt_refs :: "video_env \<Rightarrow> u32 \<Rightarrow> reassembly \<Rightarrow> reassembly" where
  "note_corrupt_refs e frame_id s =
     (if g_refs_corrupted s \<and> \<not> s_waiting_for_idr_frame s
      then rtp_start_idr_wait e
             (if g_last_good_frame s \<noteq> 0 then g_last_good_frame s + 1 else frame_id) frame_id s
      else s)"

text \<open>While waiting for an IDR: accept it, or drop the frame and repeat the request now and then.\<close>

definition accept_idr :: "reassembly \<Rightarrow> reassembly" where
  "accept_idr s =
     rtp_clear_idr_wait
       (s\<lparr>s_current_frame_idr_recovery := True, s_current_idr_loss_start := s_idr_wait_loss_start s,
          s_current_idr_loss_end := s_idr_wait_loss_end s\<rparr>)"

definition drop_for_idr :: "video_env \<Rightarrow> reassembly \<Rightarrow> reassembly" where
  "drop_for_idr e s =
     (let n = s_idr_wait_drop_count s + 1;
          s = s\<lparr>s_idr_wait_drop_count := n\<rparr>;
          limit = rtp_idr_wait_max_drops e;
          waited = (\<lambda>us. rtp_wait_elapsed e (s_idr_wait_start_us s) us);
          s = (if n \<ge> limit \<and> waited IDR_WAIT_MIN_US \<and> n mod limit = 0 then emit Request_idr s else s);
          s = (if rtp_is_cabac_performance_mode e
               then if n = 1 \<or> waited 500000 \<and> n mod 8 = 0 then emit Request_idr_recovery_fast s else s
               else if n = 1 \<or> waited IDR_WAIT_MIN_US \<and> n mod (IDR_WAIT_LOG_INTERVAL * 2) = 0
               then emit Request_idr_force s
               else if waited IDR_WAIT_MIN_US \<and> n mod IDR_WAIT_LOG_INTERVAL = 0
               then emit Request_idr s
               else s)
      in abandon_frame s)"

text \<open>While waiting for an RFI frame: accept it, give up and wait for an IDR, or drop the frame. The
  flag says whether the frame is kept.\<close>

definition refs_restored :: "reassembly \<Rightarrow> reassembly" where
  "refs_restored s = (rtp_clear_ref_inval_wait s)\<lparr>g_refs_corrupted := False, g_idr_fully_decoded := True\<rparr>"

definition rfi_timeout :: "video_env \<Rightarrow> reassembly \<Rightarrow> bool \<times> reassembly" where
  "rfi_timeout e s =
     (let req_start = s_ref_inval_start s;
          req_end = (if s_ref_inval_end s < req_start then req_start else s_ref_inval_end s)
      in if rtp_is_cabac_mode e then (False, abandon_frame (rtp_start_idr_wait e req_start req_end s))
         else (True, emit (Request_rfi req_start req_end) (refs_restored s)))"

definition drop_for_rfi :: "video_env \<Rightarrow> u32 \<Rightarrow> reassembly \<Rightarrow> bool \<times> reassembly" where
  "drop_for_rfi e frame_id s =
     (let n = s_rfi_wait_drop_count s + 1;
          s = s\<lparr>s_rfi_wait_drop_count := n,
                s_ref_inval_end :=
                  (if sint (frame_id - s_ref_inval_end s) > 0 then frame_id else s_ref_inval_end s)\<rparr>
      in if rtp_rfi_span_exceeds_window e (s_ref_inval_start s) (s_ref_inval_end s)
         then (False, abandon_frame (rtp_start_idr_wait e (s_ref_inval_start s) (s_ref_inval_end s) s))
         else if n \<ge> rtp_rfi_wait_max_drops e
              \<and> rtp_wait_elapsed e (s_ref_inval_wait_start_us s) (rtp_rfi_wait_min_us e)
         then rfi_timeout e s
         else
           let s = (if n = 1 \<or> (rtp_is_cavlc_performance_mode e \<or> rtp_is_cabac_mode e) \<and> n mod 4 = 0
                       \<or> n mod 10 = 0
                    then emit (Request_rfi (s_ref_inval_start s)
                           (if s_ref_inval_end s < s_ref_inval_start s then s_ref_inval_start s
                            else s_ref_inval_end s)) s
                    else s)
           in (False, abandon_frame s))"

definition recovery_gate :: "video_env \<Rightarrow> u32 \<Rightarrow> bool \<Rightarrow> bool \<Rightarrow> reassembly \<Rightarrow> bool \<times> reassembly" where
  "recovery_gate e frame_id is_sync is_ref s =
     (if s_waiting_for_idr_frame s
      then if is_sync then (True, accept_idr s) else (False, drop_for_idr e s)
      else if s_waiting_for_ref_inval_frame s
      then if is_ref then (True, refs_restored s) else drop_for_rfi e frame_id s
      else (True, s))"

text \<open>The first packet of a frame. The result is the payload behind the frame header if the frame is
  kept.\<close>

definition first_packet :: "video_env \<Rightarrow> u32 \<Rightarrow> int \<Rightarrow> bool \<Rightarrow> rtp_packet \<Rightarrow> reassembly
    \<Rightarrow> u8 list option \<times> reassembly" where
  "first_packet e prev delta seq_gap k s =
     (if g_saw_first_sof s then (None, s)
      else
        let d = pk_payload k;
            (skip, frame_type) = frame_header d;
            s = note_host_latency e d (start_frame s);
            is_sync = (frame_type = 2 \<or> skip \<le> length d \<and> payload_contains_idr_nal (drop skip d));
            is_ref = (is_sync \<or> frame_type = 4 \<or> frame_type = 5);
            s = note_transport_gap e prev delta seq_gap (pk_frame k) is_ref s;
            s = note_corrupt_refs e (pk_frame k) s;
            (kept, s) = recovery_gate e (pk_frame k) is_sync is_ref s
        in if kept then (Some (drop skip d), s) else (None, s))"

subsection \<open>Completing a frame\<close>

definition drop_overflow :: "reassembly \<Rightarrow> reassembly" where
  "drop_overflow s =
     (let s = emit Request_idr (s\<lparr>g_refs_corrupted := True, g_current_frame_is_corrupt := True,
                g_idr_fully_decoded := False\<rparr>)
      in s\<lparr>g_fec_recovery_clean := False, s_consec_gap_frames := 0, reassembling := False,
           assembly_buffer := [], g_frame_overflow := False\<rparr>)"

definition note_gap_frame :: "video_env \<Rightarrow> u32 \<Rightarrow> reassembly \<Rightarrow> reassembly" where
  "note_gap_frame e frame_id s =
     (let s = s\<lparr>s_consec_gap_frames := s_consec_gap_frames s + 1, g_current_frame_is_corrupt := False\<rparr>;
          lgf = g_last_good_frame s;
          s = (if lgf = 0 then emit Request_idr_force (s\<lparr>g_idr_fully_decoded := False\<rparr>)
               else if s_current_frame_idr_recovery s
               then rtp_start_idr_wait e
                      (if s_current_idr_loss_start s \<noteq> 0 then s_current_idr_loss_start s else lgf + 1)
                      frame_id s
               else
                 let s = emit (Request_rfi (lgf + 1) frame_id)
                           (rtp_mark_waiting_for_ref_inval e (lgf + 1) frame_id s)
                 in if s_consec_gap_frames s \<ge> 4
                    then s\<lparr>g_refs_corrupted := True, g_idr_fully_decoded := False\<rparr> else s)
      in emit Report_frame_drop s)"

definition note_frame_gaps :: "video_env \<Rightarrow> u32 \<Rightarrow> reassembly \<Rightarrow> reassembly" where
  "note_frame_gaps e frame_id s =
     (if g_frame_had_gaps s \<and> \<not> g_fec_recovery_clean s then note_gap_frame e frame_id s
      else if g_frame_had_gaps s
      then s\<lparr>g_current_frame_is_corrupt := False, s_consec_gap_frames := 0\<rparr>
      else s\<lparr>s_consec_gap_frames := 0\<rparr>)"

definition deliver_frame :: "video_env \<Rightarrow> u32 \<Rightarrow> reassembly \<Rightarrow> reassembly" where
  "deliver_frame e frame_id s =
     (let s = s\<lparr>g_last_decode_output_ok := False, g_decode_current_frame_id := frame_id\<rparr>
      in rtp_advance_decoded_frame frame_id (rtp_frame_complete_callback e (assembly_buffer s) s))"

definition complete_frame :: "video_env \<Rightarrow> u32 \<Rightarrow> reassembly \<Rightarrow> reassembly" where
  "complete_frame e frame_id s =
     (if assembly_buffer s \<noteq> [] \<and> reassembling s \<and> g_frame_overflow s then drop_overflow s
      else
        let s = (if assembly_buffer s \<noteq> [] \<and> reassembling s
                 then
                   let drop_corrupt_frame = (g_frame_had_gaps s \<and> \<not> g_fec_recovery_clean s);
                       s = note_frame_gaps e frame_id s;
                       s = rtp_clear_current_idr_recovery (s\<lparr>g_fec_recovery_clean := False\<rparr>)
                   in if drop_corrupt_frame then s else deliver_frame e frame_id s
                 else s)
        in s\<lparr>reassembling := False, assembly_buffer := [], g_frame_overflow := False\<rparr>)"

definition append_payload :: "bool \<Rightarrow> u8 list \<Rightarrow> reassembly \<Rightarrow> reassembly" where
  "append_payload first d s =
     append_to_frame d (if first \<and> is_annexb_start d 0 = 0 then append_start_code s else s)"

subsection \<open>Entry points\<close>

text \<open>What precedes the payload: duplicates, jumps of the frame id, the switch to another frame, the
  sequence check, and the first packet.\<close>

definition admit_packet :: "video_env \<Rightarrow> rtp_packet \<Rightarrow> reassembly \<Rightarrow> u8 list option \<times> reassembly" where
  "admit_packet e k s =
     (let frame_id = pk_frame k;
          prev = s_last_seen_frame_id s;
          delta = transport_delta frame_id s;
          seq_gap = seq_gap_at_boundary k s;
          s = note_frame_seen frame_id (note_massive_jump e delta seq_gap frame_id s);
          s = check_seq k (switch_frame k s)
      in if pk_first k then first_packet e prev delta seq_gap k s else (Some (pk_payload k), s))"

definition process_parsed :: "video_env \<Rightarrow> rtp_packet \<Rightarrow> reassembly \<Rightarrow> reassembly" where
  "process_parsed e k s =
     (if is_duplicate (pk_frame k) s then s
      else case admit_packet e k s of
          (None, s) \<Rightarrow> s
        | (Some d, s) \<Rightarrow>
            if \<not> reassembling s \<or> d = [] then s
            else
              let s = append_payload (pk_first k) d s
              in if pk_last k then complete_frame e (pk_frame k) s else s)"

definition rtp_reassembly_process_packet :: "video_env \<Rightarrow> u8 list \<Rightarrow> reassembly \<Rightarrow> reassembly" where
  "rtp_reassembly_process_packet e p s =
     (case rtp_parse p of None \<Rightarrow> s | Some k \<Rightarrow> process_parsed e k s)"

definition rtp_reassembly_reset :: "reassembly \<Rightarrow> reassembly" where
  "rtp_reassembly_reset s =
     rtp_clear_current_idr_recovery (rtp_clear_idr_wait (rtp_clear_ref_inval_wait
       (s\<lparr>g_host_processing_us := 0, g_host_processing_sample_us := 0, g_host_processing_valid := False,
         assembly_buffer := [], current_frame_id := NO_FRAME, s_last_seen_frame_id := NO_FRAME,
         expected_seq := 0, reassembling := False, g_frame_had_gaps := False, g_frame_overflow := False,
         g_saw_first_sof := False, s_consec_gap_frames := 0\<rparr>)))"

definition rtp_reassembly_prepare_fec_frame :: "u32 \<Rightarrow> reassembly \<Rightarrow> reassembly" where
  "rtp_reassembly_prepare_fec_frame frame_id s =
     (if current_frame_id s \<noteq> frame_id then s
      else s\<lparr>assembly_buffer := [], reassembling := False, g_frame_had_gaps := False,
             g_frame_overflow := False, g_saw_first_sof := False, expected_seq := 0\<rparr>)"

definition rtp_reassembly_note_fec_frame_complete :: "u16 \<Rightarrow> reassembly \<Rightarrow> reassembly" where
  "rtp_reassembly_note_fec_frame_complete next_seq s = s\<lparr>expected_seq := next_seq\<rparr>"

text \<open>The module at program start: its static initialisers.\<close>

definition reassembly_zero :: reassembly where
  "reassembly_zero = \<lparr>g_refs_corrupted = False, g_idr_fully_decoded = False, g_current_frame_is_corrupt = False,
     g_saw_first_idr = False, s_hw_reset_needed = False, g_last_decode_output_ok = False,
     g_avc_last_input_accepted = False, g_fec_recovery_clean = False, g_fec_requested_idr = False,
     g_last_good_frame = 0, g_decode_current_frame_id = 0, g_frames_decoded = 0, g_frames_dropped = 0,
     g_decoder_alive_counter = 0, actions = [], assembly_buffer = [], current_frame_id = NO_FRAME,
     s_last_seen_frame_id = NO_FRAME, expected_seq = 0, reassembling = False, g_frame_had_gaps = False,
     g_saw_first_sof = False, g_frame_overflow = False, s_consec_gap_frames = 0,
     s_waiting_for_ref_inval_frame = False, s_waiting_for_idr_frame = False, s_ref_inval_start = 0,
     s_ref_inval_end = 0, s_idr_wait_loss_start = 0, s_idr_wait_loss_end = 0,
     s_ref_inval_wait_start_us = 0, s_idr_wait_start_us = 0, s_rfi_wait_drop_count = 0,
     s_idr_wait_drop_count = 0, s_current_frame_idr_recovery = False, s_current_idr_loss_start = 0,
     s_current_idr_loss_end = 0, g_host_processing_us = 0, g_host_processing_sample_us = 0,
     g_host_processing_valid = False\<rparr>"

end
