(* ===== verification/RtpFrames.thy ===== *)
theory RtpFrames
  imports RtpReassembly "HOL-Library.Sublist"
begin

text \<open>
  What reassembly guarantees. The recovery machinery only touches the recovery state: on the part of
  the state that carries the frame (\<open>core\<close>) each helper is the identity. Over this the invariant
  of a run of all entry points of the module is proved: a unit that reaches the player is the payload of packets
  of one frame, from its first to its last, and these are consecutive unless the FEC queue vouched for
  the frame.
\<close>

subsection \<open>The part of the state that carries the frame\<close>

definition core :: "reassembly \<Rightarrow> u8 list \<times> u32 \<times> u16 \<times> bool \<times> bool \<times> bool \<times> bool \<times> bool
    \<times> (u32 \<times> u8 list) list" where
  "core s = (assembly_buffer s, current_frame_id s, expected_seq s, reassembling s, g_frame_had_gaps s,
     g_saw_first_sof s, g_frame_overflow s, g_fec_recovery_clean s, decoded s)"

named_theorems core_simps "operations that leave the frame alone"

lemma core_emit [core_simps]:
  "core (emit Request_idr s) = core s"
  "core (emit Request_idr_force s) = core s"
  "core (emit Request_idr_recovery_fast s) = core s"
  "core (emit (Request_rfi a b) s) = core s"
  "core (emit Report_frame_drop s) = core s"
  "core (emit Packet_loss s) = core s"
  "core (emit Request_idr_startup s) = core s"
  "core (emit Player_reset s) = core s"
  by (simp_all add: core_def emit_def decoded_def List.map_filter_def)

lemma core_upd [core_simps]:
  "core (s\<lparr>g_refs_corrupted := x0\<rparr>) = core s"
  "core (s\<lparr>g_idr_fully_decoded := x1\<rparr>) = core s"
  "core (s\<lparr>g_current_frame_is_corrupt := x2\<rparr>) = core s"
  "core (s\<lparr>g_saw_first_idr := x3\<rparr>) = core s"
  "core (s\<lparr>s_hw_reset_needed := x4\<rparr>) = core s"
  "core (s\<lparr>g_last_decode_output_ok := x5\<rparr>) = core s"
  "core (s\<lparr>g_avc_last_input_accepted := x6\<rparr>) = core s"
  "core (s\<lparr>g_fec_requested_idr := x7\<rparr>) = core s"
  "core (s\<lparr>g_last_good_frame := x8\<rparr>) = core s"
  "core (s\<lparr>g_decode_current_frame_id := x9\<rparr>) = core s"
  "core (s\<lparr>g_frames_decoded := x10\<rparr>) = core s"
  "core (s\<lparr>g_frames_dropped := x11\<rparr>) = core s"
  "core (s\<lparr>g_decoder_alive_counter := x12\<rparr>) = core s"
  "core (s\<lparr>s_last_seen_frame_id := x13\<rparr>) = core s"
  "core (s\<lparr>s_consec_gap_frames := x14\<rparr>) = core s"
  "core (s\<lparr>s_waiting_for_ref_inval_frame := x15\<rparr>) = core s"
  "core (s\<lparr>s_waiting_for_idr_frame := x16\<rparr>) = core s"
  "core (s\<lparr>s_ref_inval_start := x17\<rparr>) = core s"
  "core (s\<lparr>s_ref_inval_end := x18\<rparr>) = core s"
  "core (s\<lparr>s_idr_wait_loss_start := x19\<rparr>) = core s"
  "core (s\<lparr>s_idr_wait_loss_end := x20\<rparr>) = core s"
  "core (s\<lparr>s_ref_inval_wait_start_us := x21\<rparr>) = core s"
  "core (s\<lparr>s_idr_wait_start_us := x22\<rparr>) = core s"
  "core (s\<lparr>s_rfi_wait_drop_count := x23\<rparr>) = core s"
  "core (s\<lparr>s_idr_wait_drop_count := x24\<rparr>) = core s"
  "core (s\<lparr>s_current_frame_idr_recovery := x25\<rparr>) = core s"
  "core (s\<lparr>s_current_idr_loss_start := x26\<rparr>) = core s"
  "core (s\<lparr>s_current_idr_loss_end := x27\<rparr>) = core s"
  "core (s\<lparr>g_host_processing_us := x28\<rparr>) = core s"
  "core (s\<lparr>g_host_processing_sample_us := x29\<rparr>) = core s"
  "core (s\<lparr>g_host_processing_valid := x30\<rparr>) = core s"
  by (simp_all add: core_def decoded_def)

lemma core_clear [core_simps]:
  "core (rtp_clear_ref_inval_wait s) = core s"
  "core (rtp_clear_idr_wait s) = core s"
  "core (rtp_clear_current_idr_recovery s) = core s"
  "core (widen_idr_loss a b s) = core s"
  "core (note_host_latency e d s) = core s"
  "core (accept_idr s) = core s"
  "core (rtp_request_idr_force_for_mode e s) = core s"
  by (simp_all add: core_simps rtp_clear_ref_inval_wait_def rtp_clear_idr_wait_def
      rtp_clear_current_idr_recovery_def widen_idr_loss_def note_host_latency_def accept_idr_def
      rtp_request_idr_force_for_mode_def)

lemma core_start_idr_wait [core_simps]: "core (rtp_start_idr_wait e a b s) = core s"
  by (simp add: rtp_start_idr_wait_def Let_def core_simps)

lemma core_mark_waiting [core_simps]: "core (rtp_mark_waiting_for_ref_inval e a b s) = core s"
  by (simp add: rtp_mark_waiting_for_ref_inval_def Let_def core_simps)

lemma core_note_loss [core_simps]: "core (rtp_reassembly_note_frame_loss e a b s) = core s"
  by (simp add: rtp_reassembly_note_frame_loss_def Let_def core_simps)

lemma core_transport [core_simps]:
  "core (note_massive_jump e dl g f s) = core s"
  "core (note_frame_seen f s) = core s"
  "core (note_transport_gap e p dl g f r s) = core s"
  "core (note_corrupt_refs e f s) = core s"
  "core (refs_restored s) = core s"
  by (simp_all add: note_massive_jump_def note_frame_seen_def note_transport_gap_def
      note_corrupt_refs_def refs_restored_def Let_def core_simps)

lemma core_note_gap_frame [core_simps]: "core (note_gap_frame e f s) = core s"
  by (simp add: note_gap_frame_def Let_def core_simps)

lemma core_completion [core_simps]:
  "core (note_frame_gaps e f s) = core s"
  "core (rtp_advance_decoded_frame f s) = core s"
  by (simp_all add: note_frame_gaps_def rtp_advance_decoded_frame_def core_simps)

text \<open>Dropping the frame at its first packet.\<close>

definition dropped :: "reassembly \<Rightarrow> reassembly \<Rightarrow> bool" where
  "dropped s s' \<longleftrightarrow> core s' = core (abandon_frame s)"

lemma core_abandon_cong: "core s = core t \<Longrightarrow> core (abandon_frame s) = core (abandon_frame t)"
  by (simp add: core_def abandon_frame_def decoded_def)

lemma dropped_abandon: "core t = core s \<Longrightarrow> dropped s (abandon_frame t)"
  unfolding dropped_def by (rule core_abandon_cong)

lemma dropped_for_idr: "dropped s (drop_for_idr e s)"
  unfolding drop_for_idr_def Let_def by (intro dropped_abandon) (simp add: core_simps)

lemma dropped_for_rfi:
  assumes "drop_for_rfi e f s = (kept, s')"
  shows "if kept then core s' = core s else dropped s s'"
  using assms unfolding drop_for_rfi_def rfi_timeout_def Let_def
  by (auto split: if_splits intro!: dropped_abandon simp: core_simps)

lemma recovery_gate_core:
  assumes "recovery_gate e f sy r s = (kept, s')"
  shows "if kept then core s' = core s else dropped s s'"
  using assms dropped_for_rfi [of e f s kept s'] dropped_for_idr [of s e]
  by (auto simp: recovery_gate_def core_simps split: if_splits)

lemma core_decode: "core (emit (Player_decode f d) s) = (assembly_buffer s, current_frame_id s, expected_seq s,
     reassembling s, g_frame_had_gaps s, g_saw_first_sof s, g_frame_overflow s, g_fec_recovery_clean s,
     decoded s @ [(f, d)])"
  by (simp add: core_def decoded_emit) (simp add: emit_def)

lemma core_player_result [core_simps]: "core (player_result r i s) = core s"
  by (simp add: player_result_def Let_def core_simps)

lemma core_player_reopen: "core (snd (player_reopen e i s)) = core s"
  by (simp add: player_reopen_def Let_def core_simps)

lemma core_player_submit: "core (player_submit e d i s) = core (emit (Player_decode (g_decode_current_frame_id s) d) s)"
  by (simp add: player_submit_def Let_def core_simps core_decode)

lemma core_callback:
  "core (rtp_frame_complete_callback e d s) =
     (if may_enter e d s then core (emit (Player_decode (g_decode_current_frame_id s) d) s) else core s)"
proof -
  have *: "core t = core s \<Longrightarrow> g_decode_current_frame_id t = g_decode_current_frame_id s \<Longrightarrow>
      core (player_submit e d i t) = core (emit (Player_decode (g_decode_current_frame_id s) d) s)" for t i
    unfolding core_player_submit core_decode by (simp add: core_def)
  show ?thesis
    by (simp add: rtp_frame_complete_callback_def may_enter_def awaiting_idr_def player_reopen_def
        hardware_request_reset_def hardware_request_ref_resync_def Let_def core_simps *)
qed

lemma core_deliver:
  "\<exists>b. core (deliver_frame e f s) =
     (if b then core (emit (Player_decode f (assembly_buffer s)) s) else core s)"
proof -
  let ?t = "s\<lparr>g_last_decode_output_ok := False, g_decode_current_frame_id := f\<rparr>"
  have "core (emit (Player_decode f d) ?t) = core (emit (Player_decode f d) s)" for d
    unfolding core_decode by (simp)
  then show ?thesis
    by (simp add: deliver_frame_def Let_def core_simps core_callback) blast
qed

subsection \<open>One packet\<close>

definition arrived :: "rtp_packet \<Rightarrow> reassembly \<Rightarrow> reassembly" where
  "arrived k s = check_seq k (switch_frame k s)"

lemma core_arrived:
  "core (arrived k s) =
     (if pk_frame k = current_frame_id s
      then (assembly_buffer s, pk_frame k, pk_seq k + 1, reassembling s,
            g_frame_had_gaps s \<or> pk_seq k \<noteq> expected_seq s, g_saw_first_sof s, g_frame_overflow s,
            g_fec_recovery_clean s, decoded s)
      else ([], pk_frame k, pk_seq k + 1, False, False, False, False, g_fec_recovery_clean s, decoded s))"
  by (simp add: arrived_def check_seq_def switch_frame_def core_def Let_def decoded_emit)
     (simp add: emit_def decoded_def List.map_filter_def)

lemma core_arrived_cong: "core s = core t \<Longrightarrow> core (arrived k s) = core (arrived k t)"
  unfolding core_arrived by (simp add: core_def)

lemma core_start_frame:
  "core (start_frame s) = ([], current_frame_id s, expected_seq s, True, g_frame_had_gaps s, True, False,
     g_fec_recovery_clean s, decoded s)"
  by (simp add: start_frame_def core_def rtp_clear_current_idr_recovery_def decoded_def)

lemma core_start_frame_cong: "core s = core t \<Longrightarrow> core (start_frame s) = core (start_frame t)"
  by (simp only: core_start_frame) (simp add: core_def)

lemma dropped_cong: "core s = core t \<Longrightarrow> dropped s u \<Longrightarrow> dropped t u"
  unfolding dropped_def using core_abandon_cong by metis

definition first_body :: "rtp_packet \<Rightarrow> u8 list" where
  "first_body k = drop (fst (frame_header (pk_payload k))) (pk_payload k)"

lemma first_packet_core:
  assumes "first_packet e prev delta g k s = (r, s')" "\<not> g_saw_first_sof s"
  shows "(r = Some (first_body k) \<and> core s' = core (start_frame s)) \<or> (r = None \<and> dropped (start_frame s) s')"
proof -
  obtain skip ft where h: "frame_header (pk_payload k) = (skip, ft)" by (cases "frame_header (pk_payload k)")
  define sy where "sy = (ft = 2 \<or> skip \<le> length (pk_payload k) \<and> payload_contains_idr_nal (drop skip (pk_payload k)))"
  define rf where "rf = (sy \<or> ft = 4 \<or> ft = 5)"
  define t where "t = note_corrupt_refs e (pk_frame k) (note_transport_gap e prev delta g (pk_frame k) rf
      (note_host_latency e (pk_payload k) (start_frame s)))"
  have t: "core t = core (start_frame s)" by (simp add: t_def core_simps)
  obtain kept u where gate: "recovery_gate e (pk_frame k) sy rf t = (kept, u)"
    by (cases "recovery_gate e (pk_frame k) sy rf t")
  have "r = (if kept then Some (drop skip (pk_payload k)) else None) \<and> s' = u"
    using assms h gate by (auto simp: first_packet_def Let_def sy_def rf_def t_def split: if_splits)
  with recovery_gate_core [OF gate] t show ?thesis
    by (auto simp: first_body_def h intro: dropped_cong split: if_splits)
qed

lemma admit_core:
  assumes "admit_packet e k s = (r, s')"
  shows "if \<not> pk_first k then r = Some (pk_payload k) \<and> core s' = core (arrived k s)
     else if g_saw_first_sof (arrived k s) then r = None \<and> core s' = core (arrived k s)
     else (r = Some (first_body k) \<and> core s' = core (start_frame (arrived k s)))
       \<or> (r = None \<and> dropped (start_frame (arrived k s)) s')"
proof -
  define t where "t = arrived k (note_frame_seen (pk_frame k) (note_massive_jump e
      (transport_delta (pk_frame k) s) (seq_gap_at_boundary k s) (pk_frame k) s))"
  have t: "core t = core (arrived k s)"
    unfolding t_def by (rule core_arrived_cong) (simp add: core_simps)
  then have saw: "g_saw_first_sof t \<longleftrightarrow> g_saw_first_sof (arrived k s)" by (simp add: core_def)
  have eq: "admit_packet e k s = (if pk_first k then first_packet e (s_last_seen_frame_id s)
      (transport_delta (pk_frame k) s) (seq_gap_at_boundary k s) k t else (Some (pk_payload k), t))"
    by (simp add: admit_packet_def Let_def t_def arrived_def)
  show ?thesis
  proof (cases "pk_first k \<and> \<not> g_saw_first_sof t")
    case True
    then show ?thesis
      using assms eq saw first_packet_core [of e _ _ _ k t r s'] core_start_frame_cong [OF t]
      by (auto intro: dropped_cong)
  next
    case False
    then show ?thesis
      using assms eq saw t by (auto simp: first_packet_def split: if_splits)
  qed
qed

definition start_code_for :: "bool \<Rightarrow> u8 list \<Rightarrow> u8 list" where
  "start_code_for first d = (if first \<and> is_annexb_start d 0 = 0 then [0, 0, 0, 1] else [])"

lemma core_append:
  assumes "d \<noteq> []"
  obtains a ov where "core (append_payload first d s) = (a, current_frame_id s, expected_seq s,
       reassembling s, g_frame_had_gaps s, g_saw_first_sof s, ov, g_fec_recovery_clean s, decoded s)"
     "ov \<or> \<not> g_frame_overflow s \<and> a = assembly_buffer s @ start_code_for first d @ d"
     "length (assembly_buffer s) \<le> MAX_ASSEMBLY_SIZE \<Longrightarrow> length a \<le> MAX_ASSEMBLY_SIZE"
     "g_frame_overflow s \<Longrightarrow> ov"
     "ov \<Longrightarrow> g_frame_overflow s \<or> length (assembly_buffer s) + length (start_code_for first d) + length d > MAX_ASSEMBLY_SIZE"
proof (rule that)
  let ?t = "append_payload first d s"
  show "core ?t = (assembly_buffer ?t, current_frame_id s, expected_seq s,
       reassembling s, g_frame_had_gaps s, g_saw_first_sof s, g_frame_overflow ?t, g_fec_recovery_clean s, decoded s)"
    by (simp add: append_payload_def append_start_code_def append_to_frame_def core_def decoded_def)
  show "g_frame_overflow ?t \<or> \<not> g_frame_overflow s \<and> assembly_buffer ?t = assembly_buffer s @ start_code_for first d @ d"
    "g_frame_overflow ?t \<Longrightarrow> g_frame_overflow s \<or>
       length (assembly_buffer s) + length (start_code_for first d) + length d > MAX_ASSEMBLY_SIZE"
    using assms by (auto simp: append_payload_def append_start_code_def append_to_frame_def start_code_for_def)
  show "length (assembly_buffer ?t) \<le> MAX_ASSEMBLY_SIZE" if "length (assembly_buffer s) \<le> MAX_ASSEMBLY_SIZE"
    using that by (simp add: append_payload_def append_start_code_def append_to_frame_def)
  show "g_frame_overflow s \<Longrightarrow> g_frame_overflow ?t"
    by (simp add: append_payload_def append_start_code_def append_to_frame_def)
qed

lemma core_complete:
  obtains b where "core (complete_frame e f s) = ([], current_frame_id s, expected_seq s, False, g_frame_had_gaps s,
       g_saw_first_sof s, False, g_fec_recovery_clean s \<and> \<not> (assembly_buffer s \<noteq> [] \<and> reassembling s),
       if b then decoded s @ [(f, assembly_buffer s)] else decoded s)"
     "b \<longrightarrow> assembly_buffer s \<noteq> [] \<and> reassembling s \<and> \<not> g_frame_overflow s \<and>
        (g_frame_had_gaps s \<longrightarrow> g_fec_recovery_clean s)"
proof -
  define fin where "fin = (\<lambda>s :: reassembly. s\<lparr>reassembling := False, assembly_buffer := [], g_frame_overflow := False\<rparr>)"
  have fin: "core (fin t) = ([], current_frame_id t, expected_seq t, False, g_frame_had_gaps t,
       g_saw_first_sof t, False, g_fec_recovery_clean t, decoded t)" for t
    by (simp add: fin_def core_def decoded_def)
  define t where "t = rtp_clear_current_idr_recovery ((note_frame_gaps e f s)\<lparr>g_fec_recovery_clean := False\<rparr>)"
  have "core (note_frame_gaps e f s) = core s" by (simp add: core_simps)
  then have "core ((note_frame_gaps e f s)\<lparr>g_fec_recovery_clean := False\<rparr>) = core (s\<lparr>g_fec_recovery_clean := False\<rparr>)"
    unfolding core_def by simp
  then have t: "core t = core (s\<lparr>g_fec_recovery_clean := False\<rparr>)"
    by (simp only: t_def core_simps)
  consider "assembly_buffer s = [] \<or> \<not> reassembling s"
    | "assembly_buffer s \<noteq> []" "reassembling s" "g_frame_overflow s"
    | "assembly_buffer s \<noteq> []" "reassembling s" "\<not> g_frame_overflow s" "g_frame_had_gaps s" "\<not> g_fec_recovery_clean s"
    | "assembly_buffer s \<noteq> []" "reassembling s" "\<not> g_frame_overflow s" "g_frame_had_gaps s \<longrightarrow> g_fec_recovery_clean s"
    by blast
  then show ?thesis
  proof cases
    case 1
    then have "complete_frame e f s = fin s" by (auto simp: complete_frame_def fin_def)
    with 1 show ?thesis by (intro that [of False]) (auto simp: fin)
  next
    case 2
    then have "complete_frame e f s = drop_overflow s" by (simp add: complete_frame_def)
    with 2 show ?thesis
      by (intro that [of False]) (simp_all add: drop_overflow_def core_def emit_def decoded_def List.map_filter_def)
  next
    case 3
    then have "complete_frame e f s = fin t" by (simp add: complete_frame_def fin_def t_def Let_def)
    with 3 t show ?thesis by (intro that [of False]) (auto simp: fin, simp_all add: core_def)
  next
    case 4
    then have eq: "complete_frame e f s = fin (deliver_frame e f t)"
      by (auto simp: complete_frame_def fin_def t_def Let_def)
    have t': "assembly_buffer t = assembly_buffer s" "current_frame_id t = current_frame_id s"
        "expected_seq t = expected_seq s" "g_frame_had_gaps t = g_frame_had_gaps s"
        "g_saw_first_sof t = g_saw_first_sof s" "\<not> g_fec_recovery_clean t" "decoded t = decoded s"
      using t by (simp_all add: core_def)
    obtain b where "core (deliver_frame e f t) = (if b then core (emit (Player_decode f (assembly_buffer t)) t) else core t)"
      using core_deliver by blast
    then have "current_frame_id (deliver_frame e f t) = current_frame_id s \<and> expected_seq (deliver_frame e f t) = expected_seq s
        \<and> g_frame_had_gaps (deliver_frame e f t) = g_frame_had_gaps s \<and> g_saw_first_sof (deliver_frame e f t) = g_saw_first_sof s
        \<and> \<not> g_fec_recovery_clean (deliver_frame e f t)
        \<and> decoded (deliver_frame e f t) = (if b then decoded s @ [(f, assembly_buffer s)] else decoded s)"
      using t' by (cases b) (simp_all add: core_decode core_def [of t] core_def [of "deliver_frame e f t"])
    then show ?thesis
      using 4 by (intro that [of b]) (simp_all add: eq fin)
  qed
qed

subsection \<open>What may happen to the reassembly\<close>

text \<open>
  Every call into the module: a packet, a reported loss, a reset, and the two calls of the FEC queue before and after it
  submits a frame; and the writes of other modules to the shared state: the queue's verdict on the frame
  (\<open>g_fec_recovery_clean\<close>), the recovery flags, and requests to the host.
\<close>

datatype reassembly_event =
    Packet video_env "u8 list"
  | Frame_loss video_env u32 u32
  | Reset
  | Prepare_fec u32
  | Fec_complete u16
  | Verdict bool
  | Flags bool bool bool bool u32
  | Request action

fun reassembly_step :: "reassembly_event \<Rightarrow> reassembly \<Rightarrow> reassembly" where
  "reassembly_step (Packet e p) s = rtp_reassembly_process_packet e p s"
| "reassembly_step (Frame_loss e a b) s = rtp_reassembly_note_frame_loss e a b s"
| "reassembly_step Reset s = rtp_reassembly_reset s"
| "reassembly_step (Prepare_fec f) s = rtp_reassembly_prepare_fec_frame f s"
| "reassembly_step (Fec_complete n) s = rtp_reassembly_note_fec_frame_complete n s"
| "reassembly_step (Verdict b) s = s\<lparr>g_fec_recovery_clean := b\<rparr>"
| "reassembly_step (Flags refs idr corrupt requested good) s =
     s\<lparr>g_refs_corrupted := refs, g_idr_fully_decoded := idr, g_current_frame_is_corrupt := corrupt,
       g_fec_requested_idr := requested, g_last_good_frame := good\<rparr>"
| "reassembly_step (Request a) s = (case a of Player_decode f d \<Rightarrow> s | _ \<Rightarrow> emit a s)"

definition reassembly_run :: "reassembly_event list \<Rightarrow> reassembly \<Rightarrow> reassembly" where
  "reassembly_run = fold reassembly_step"

text \<open>The packets among the events, as the module parses them.\<close>

fun received :: "reassembly_event \<Rightarrow> rtp_packet list" where
  "received (Packet e p) = (case rtp_parse p of None \<Rightarrow> [] | Some k \<Rightarrow> [k])"
| "received _ = []"

definition packets :: "reassembly_event list \<Rightarrow> rtp_packet list" where
  "packets es = concat (map received es)"

lemma packets_simps [simp]: "packets [] = []" "packets (xs @ ys) = packets xs @ packets ys"
    "packets (ev # es) = received ev @ packets es"
  by (simp_all add: packets_def)

subsection \<open>Units are made of consecutive packets\<close>

text \<open>
  The bytes of a run of packets of one frame are the payloads in order, the first without the frame header and
  behind a start code; another first packet (a repeated one) contributes nothing.
\<close>

definition run_bytes :: "rtp_packet list \<Rightarrow> u8 list" where
  "run_bytes ks =
     (let d = first_body (hd ks) in
      (if d = [] then [] else start_code_for True d) @ d @
      concat (map (\<lambda>k. if pk_first k then [] else pk_payload k) (tl ks)))"

lemma run_bytes_snoc:
  "ks \<noteq> [] \<Longrightarrow> run_bytes (ks @ [k]) = run_bytes ks @ (if pk_first k then [] else pk_payload k)"
  by (simp add: run_bytes_def Let_def)

text \<open>\<open>selected xs ys\<close>: \<open>xs\<close> is \<open>ys\<close> without some of its packets; all other events are there.\<close>

definition is_packet :: "reassembly_event \<Rightarrow> bool" where
  "is_packet ev \<longleftrightarrow> (\<exists>e p. ev = Packet e p)"

definition selected :: "reassembly_event list \<Rightarrow> reassembly_event list \<Rightarrow> bool" where
  "selected xs ys \<longleftrightarrow> subseq xs ys \<and> filter (\<lambda>ev. \<not> is_packet ev) xs = filter (\<lambda>ev. \<not> is_packet ev) ys"

text \<open>All packets belong to frame \<open>f\<close>, and neither a reset nor the announcement of the same frame interrupts them.\<close>

fun within :: "u32 \<Rightarrow> reassembly_event \<Rightarrow> bool" where
  "within f (Packet e p) = (case rtp_parse p of None \<Rightarrow> True | Some k \<Rightarrow> pk_frame k = f)"
| "within f Reset = False"
| "within f (Prepare_fec g) = (g \<noteq> f)"
| "within f _ = True"

text \<open>The sequence number that is due: the next one, or the one the FEC queue has named since.\<close>

fun due_after :: "reassembly_event \<Rightarrow> u16 \<Rightarrow> u16" where
  "due_after (Packet e p) q = (case rtp_parse p of None \<Rightarrow> q | Some k \<Rightarrow> pk_seq k + 1)"
| "due_after (Fec_complete n) q = n"
| "due_after _ q = q"

fun in_sequence :: "u16 \<Rightarrow> reassembly_event list \<Rightarrow> bool" where
  "in_sequence q [] = True"
| "in_sequence q (ev # es) \<longleftrightarrow> (\<forall>k\<in>set (received ev). pk_seq k = q) \<and> in_sequence (due_after ev q) es"

text \<open>A run of packets of frame \<open>f\<close> at the end of the history: it starts with a first packet.\<close>

definition frame_run :: "reassembly_event list \<Rightarrow> u32 \<Rightarrow> reassembly_event list \<Rightarrow> bool" where
  "frame_run hist f xs \<longleftrightarrow> (\<exists>pre ys. hist = pre @ ys \<and> selected xs ys) \<and> xs \<noteq> [] \<and>
     (\<exists>k. received (hd xs) = [k] \<and> pk_first k) \<and> list_all (within f) xs"

definition gap_free :: "reassembly_event list \<Rightarrow> bool" where
  "gap_free xs \<longleftrightarrow> in_sequence (pk_seq (hd (packets xs))) xs"

text \<open>The last verdict of the FEC queue was that the frame is complete.\<close>

definition vouched :: "reassembly_event list \<Rightarrow> bool" where
  "vouched es = fold (\<lambda>ev v. case ev of Verdict b \<Rightarrow> b | _ \<Rightarrow> v) es False"

definition unit_from :: "reassembly_event list \<Rightarrow> u32 \<times> u8 list \<Rightarrow> bool" where
  "unit_from hist u \<longleftrightarrow> (\<exists>pre post xs k. hist = pre @ post \<and> frame_run pre (fst u) xs \<and>
     received (last xs) = [k] \<and> pk_last k \<and> snd u = run_bytes (packets xs) \<and> (gap_free xs \<or> vouched pre))"

lemma selected_keep: "selected xs ys \<Longrightarrow> selected (xs @ [ev]) (ys @ [ev])"
  by (auto simp: selected_def)

lemma selected_refl: "selected xs xs"
  by (simp add: selected_def)

lemma selected_skip: "selected xs ys \<Longrightarrow> is_packet ev \<Longrightarrow> selected xs (ys @ [ev])"
  using list_emb_append_mono [of "(=)" xs ys "[]" "[ev]"] by (simp add: selected_def)

lemma within_last:
  assumes "frame_run hist f xs" "within f ev"
  shows "frame_run (hist @ [ev]) f (xs @ [ev])"
  using assms selected_keep unfolding frame_run_def by (fastforce simp: hd_append)

lemma run_skip: "frame_run hist f xs \<Longrightarrow> is_packet ev \<Longrightarrow> frame_run (hist @ [ev]) f xs"
  using selected_skip unfolding frame_run_def by fastforce

lemma run_start: "received ev = [k] \<Longrightarrow> pk_first k \<Longrightarrow> within (pk_frame k) ev \<Longrightarrow> frame_run (hist @ [ev]) (pk_frame k) [ev]"
  unfolding frame_run_def using selected_refl [of "[ev]"] by auto

lemma run_packets:
  assumes "frame_run hist f xs"
  shows "packets xs \<noteq> []" "hd (packets (xs @ ys)) = hd (packets xs)" "xs \<noteq> []"
  using assms by (cases xs; auto simp: frame_run_def)+

lemma in_sequence_snoc:
  "in_sequence q (xs @ [ev]) \<longleftrightarrow> in_sequence q xs \<and> (\<forall>k\<in>set (received ev). pk_seq k = fold due_after xs q)"
  by (induction xs arbitrary: q) auto

lemma gap_free_snoc:
  "frame_run hist f xs \<Longrightarrow> gap_free (xs @ [ev]) \<longleftrightarrow> gap_free xs \<and>
     (\<forall>k\<in>set (received ev). pk_seq k = fold due_after xs (pk_seq (hd (packets xs))))"
  unfolding gap_free_def using run_packets(2) in_sequence_snoc by metis

lemma vouched_snoc: "vouched (es @ [ev]) = (case ev of Verdict b \<Rightarrow> b | _ \<Rightarrow> vouched es)"
  by (cases ev) (simp_all add: vouched_def)

lemma unit_from_more: "unit_from hist u \<Longrightarrow> unit_from (hist @ es) u"
  unfolding unit_from_def by (metis append.assoc)

text \<open>The invariant: what the assembly buffer holds. \<open>P\<close> is for what is known just behind a packet.\<close>

definition due :: "reassembly_event list \<Rightarrow> u16" where
  "due xs = fold due_after xs (pk_seq (hd (packets xs)))"

definition frame_inv_by :: "(reassembly_event list \<Rightarrow> bool) \<Rightarrow> reassembly_event list \<Rightarrow> reassembly \<Rightarrow> bool" where
  "frame_inv_by P hist s \<longleftrightarrow>
     (g_fec_recovery_clean s \<longrightarrow> vouched hist) \<and> (reassembling s \<longrightarrow> g_saw_first_sof s) \<and>
     (reassembling s \<and> \<not> g_frame_overflow s \<longrightarrow>
        (\<exists>xs. frame_run hist (current_frame_id s) xs \<and> assembly_buffer s = run_bytes (packets xs) \<and>
              (\<not> g_frame_had_gaps s \<longrightarrow> gap_free xs \<and> expected_seq s = due xs) \<and> P xs)) \<and>
     (\<forall>u\<in>set (decoded s). unit_from hist u)"

abbreviation frame_inv :: "reassembly_event list \<Rightarrow> reassembly \<Rightarrow> bool" where
  "frame_inv \<equiv> frame_inv_by (\<lambda>_. True)"

lemma frame_inv_cong: "core s = core t \<Longrightarrow> frame_inv_by P hist s = frame_inv_by P hist t"
  unfolding core_def frame_inv_by_def by simp

lemma frame_inv_weaken: "frame_inv_by P hist s \<Longrightarrow> frame_inv hist s"
  unfolding frame_inv_by_def by blast

text \<open>A packet that is not looked at, and an event that only changes what is due.\<close>

lemma frame_inv_skip:
  assumes "frame_inv hist s" "is_packet ev"
  shows "frame_inv (hist @ [ev]) s"
proof -
  have "vouched (hist @ [ev]) = vouched hist" using assms(2) by (auto simp: vouched_snoc is_packet_def)
  then show ?thesis using assms run_skip unit_from_more unfolding frame_inv_by_def by metis
qed

lemma due_snoc: "frame_run hist f xs \<Longrightarrow> due (xs @ [ev]) = due_after ev (due xs)"
  unfolding due_def using run_packets(2) by (metis comp_apply fold_append fold_simps(1) fold_simps(2) id_apply)

lemma frame_inv_other:
  assumes inv: "frame_inv hist s" and ev: "\<not> is_packet ev" "within (current_frame_id s) ev \<or> \<not> reassembling t"
    and t: "g_fec_recovery_clean t = (case ev of Verdict b \<Rightarrow> b | _ \<Rightarrow> g_fec_recovery_clean s)"
      "reassembling t \<longrightarrow> reassembling s \<and> g_saw_first_sof t = g_saw_first_sof s \<and> current_frame_id t = current_frame_id s \<and>
         assembly_buffer t = assembly_buffer s \<and> g_frame_had_gaps t = g_frame_had_gaps s \<and>
         g_frame_overflow t = g_frame_overflow s \<and> expected_seq t = due_after ev (expected_seq s)"
      "decoded t = decoded s"
  shows "frame_inv (hist @ [ev]) t"
proof -
  have none: "received ev = []" using ev(1) by (cases ev) (auto simp: is_packet_def)
  have "\<exists>xs. frame_run (hist @ [ev]) (current_frame_id t) xs \<and> assembly_buffer t = run_bytes (packets xs) \<and>
      (\<not> g_frame_had_gaps t \<longrightarrow> gap_free xs \<and> expected_seq t = due xs)" if "reassembling t" "\<not> g_frame_overflow t"
  proof -
    have "reassembling s \<and> \<not> g_frame_overflow s" using that t(2) by simp
    then obtain xs where xs: "frame_run hist (current_frame_id s) xs" "assembly_buffer s = run_bytes (packets xs)"
      "\<not> g_frame_had_gaps s \<longrightarrow> gap_free xs \<and> expected_seq s = due xs"
      using inv unfolding frame_inv_by_def by blast
    have "within (current_frame_id s) ev" using ev(2) that(1) by blast
    from within_last [OF xs(1) this] show ?thesis
      using xs t(2) that(1) none gap_free_snoc [OF xs(1), of ev] due_snoc [OF xs(1), of ev]
      by (intro exI [of _ "xs @ [ev]"]) auto
  qed
  moreover have "g_fec_recovery_clean t \<longrightarrow> vouched (hist @ [ev])"
    using inv t(1) unfolding frame_inv_by_def vouched_snoc by (cases ev) auto
  moreover have "\<forall>u\<in>set (decoded t). unit_from (hist @ [ev]) u"
    using inv t(3) unit_from_more unfolding frame_inv_by_def by simp
  moreover have "reassembling t \<longrightarrow> g_saw_first_sof t" using inv t(2) unfolding frame_inv_by_def by auto
  ultimately show ?thesis unfolding frame_inv_by_def by blast
qed

text \<open>What a packet of the current frame does to a run in progress, before its payload is looked at.\<close>

lemma arrived_sel:
  assumes "core t = core (arrived k s)"
  shows "current_frame_id t = pk_frame k" "expected_seq t = pk_seq k + 1" "decoded t = decoded s"
    "g_fec_recovery_clean t = g_fec_recovery_clean s"
    "g_saw_first_sof t \<longrightarrow> pk_frame k = current_frame_id s \<and> g_saw_first_sof s"
    "reassembling t \<longrightarrow> pk_frame k = current_frame_id s \<and> reassembling s \<and> assembly_buffer t = assembly_buffer s
       \<and> g_frame_overflow t = g_frame_overflow s \<and> g_saw_first_sof t = g_saw_first_sof s
       \<and> (\<not> g_frame_had_gaps t \<longrightarrow> \<not> g_frame_had_gaps s \<and> pk_seq k = expected_seq s)"
  using assms unfolding core_arrived by (auto simp: core_def [of t] split: if_splits)


text \<open>A state in which the packet's bytes have been dealt with: either nothing is in progress, or the
  run has grown by the packet.\<close>

lemma frame_inv_grown:
  assumes inv: "frame_inv hist s" and ev: "received ev = [k]" "is_packet ev" and t: "core t = core (arrived k s)"
    and bytes: "reassembling t \<longrightarrow>
      assembly_buffer u = assembly_buffer t @ (if pk_first k then [] else pk_payload k) \<or> g_frame_overflow u"
    and u: "current_frame_id u = current_frame_id t" "expected_seq u = expected_seq t"
      "reassembling u = reassembling t" "g_frame_had_gaps u = g_frame_had_gaps t"
      "g_saw_first_sof u = g_saw_first_sof t" "g_frame_overflow t \<longrightarrow> g_frame_overflow u"
      "g_fec_recovery_clean u = g_fec_recovery_clean t" "decoded u = decoded t"
  shows "frame_inv_by (\<lambda>xs. received (last xs) = [k]) (hist @ [ev]) u"
proof -
  note a = arrived_sel [OF t]
  obtain e p where e: "ev = Packet e p" "rtp_parse p = Some k"
    using ev by (auto simp: is_packet_def split: option.splits)
  have "\<exists>xs. frame_run (hist @ [ev]) (current_frame_id u) xs \<and> assembly_buffer u = run_bytes (packets xs) \<and>
              (\<not> g_frame_had_gaps u \<longrightarrow> gap_free xs \<and> expected_seq u = due xs) \<and> received (last xs) = [k]"
    if p: "reassembling u" "\<not> g_frame_overflow u"
  proof -
    have s: "reassembling s" "\<not> g_frame_overflow s" "pk_frame k = current_frame_id s" "assembly_buffer t = assembly_buffer s"
      "\<not> g_frame_had_gaps u \<longrightarrow> \<not> g_frame_had_gaps s \<and> pk_seq k = expected_seq s"
      using p u a(6) by auto
    then obtain xs where xs: "frame_run hist (current_frame_id s) xs" "assembly_buffer s = run_bytes (packets xs)"
        "\<not> g_frame_had_gaps s \<longrightarrow> gap_free xs \<and> expected_seq s = due xs"
      using inv unfolding frame_inv_by_def by blast
    have id: "current_frame_id u = current_frame_id s" using u(1) a(1) s(3) by simp
    have "within (current_frame_id s) ev" using e s(3) by simp
    then have "frame_run (hist @ [ev]) (current_frame_id u) (xs @ [ev])" using within_last [OF xs(1)] id by simp
    moreover have "assembly_buffer u = run_bytes (packets (xs @ [ev]))"
      using bytes p u(3) s(4) xs(2) ev(1) run_bytes_snoc [OF run_packets(1) [OF xs(1)], of k] by simp
    moreover have "gap_free (xs @ [ev]) \<and> expected_seq u = due (xs @ [ev])" if "\<not> g_frame_had_gaps u"
      using that s(5) xs(3) gap_free_snoc [OF xs(1), of ev] due_snoc [OF xs(1), of ev] ev(1) e u(2) a(2) by (simp add: due_def)
    ultimately show ?thesis using ev(1) by (intro exI [of _ "xs @ [ev]"]) simp
  qed
  moreover have "\<forall>v\<in>set (decoded u). unit_from (hist @ [ev]) v"
    using inv a(3) u unit_from_more unfolding frame_inv_by_def by simp
  moreover have "g_fec_recovery_clean u \<longrightarrow> vouched (hist @ [ev])"
    using inv a(4) u e unfolding frame_inv_by_def by (simp add: vouched_snoc)
  moreover have "reassembling u \<longrightarrow> g_saw_first_sof u"
    using inv a(5,6) u unfolding frame_inv_by_def by auto
  ultimately show ?thesis unfolding frame_inv_by_def by blast
qed

lemma frame_inv_started:
  assumes inv: "frame_inv hist s" and ev: "received ev = [k]" "is_packet ev"
    and t: "core t = core (start_frame (arrived k s))" and "pk_first k"
    and bytes: "assembly_buffer u = run_bytes [k] \<or> g_frame_overflow u"
    and u: "current_frame_id u = current_frame_id t" "expected_seq u = expected_seq t"
      "g_saw_first_sof u = g_saw_first_sof t"
      "g_fec_recovery_clean u = g_fec_recovery_clean t" "decoded u = decoded t"
  shows "frame_inv_by (\<lambda>xs. received (last xs) = [k]) (hist @ [ev]) u"
proof -
  note a = arrived_sel [OF refl, of k s]
  obtain e p where e: "ev = Packet e p" "rtp_parse p = Some k"
    using ev by (auto simp: is_packet_def split: option.splits)
  have c: "current_frame_id t = pk_frame k" "expected_seq t = pk_seq k + 1" "decoded t = decoded s"
      "g_fec_recovery_clean t = g_fec_recovery_clean s" "g_saw_first_sof t"
    using t a(1-4) unfolding core_start_frame by (simp_all add: core_def)
  have "frame_run (hist @ [ev]) (current_frame_id u) [ev]"
    using run_start [OF ev(1) assms(5), of hist] e c(1) u(1) by simp
  moreover have "gap_free [ev]" "expected_seq u = due [ev]" "packets [ev] = [k]"
    using ev(1) e c(2) u(2) by (simp_all add: gap_free_def due_def)
  moreover have "\<forall>v\<in>set (decoded u). unit_from (hist @ [ev]) v"
    using inv c(3) u unit_from_more unfolding frame_inv_by_def by simp
  moreover have "g_fec_recovery_clean u \<longrightarrow> vouched (hist @ [ev])"
    using inv c(4) u(4) e unfolding frame_inv_by_def by (simp add: vouched_snoc)
  ultimately show ?thesis
    using bytes c(5) u(3) ev(1) unfolding frame_inv_by_def by (intro conjI impI exI [of _ "[ev]"]) auto
qed

lemma frame_inv_dropped:
  assumes "frame_inv hist s" "dropped t u" "decoded t = decoded s"
  shows "frame_inv (hist @ [ev]) u"
  using assms unit_from_more unfolding dropped_def abandon_frame_def core_def frame_inv_by_def
  by (simp add: decoded_def)

lemma frame_inv_complete:
  assumes inv: "frame_inv_by (\<lambda>xs. received (last xs) = [k]) hist u" and k: "pk_last k" "pk_frame k = current_frame_id u"
  shows "frame_inv hist (complete_frame e (pk_frame k) u)"
proof -
  obtain b where c: "core (complete_frame e (pk_frame k) u) = ([], current_frame_id u, expected_seq u, False, g_frame_had_gaps u,
       g_saw_first_sof u, False, g_fec_recovery_clean u \<and> \<not> (assembly_buffer u \<noteq> [] \<and> reassembling u),
       if b then decoded u @ [(pk_frame k, assembly_buffer u)] else decoded u)"
    and b: "b \<longrightarrow> assembly_buffer u \<noteq> [] \<and> reassembling u \<and> \<not> g_frame_overflow u \<and>
        (g_frame_had_gaps u \<longrightarrow> g_fec_recovery_clean u)"
    by (rule core_complete [of e "pk_frame k" u])
  have "unit_from hist (pk_frame k, assembly_buffer u)" if b
  proof -
    have "reassembling u \<and> \<not> g_frame_overflow u" using b that by blast
    then obtain xs where "frame_run hist (current_frame_id u) xs" "assembly_buffer u = run_bytes (packets xs)"
      "\<not> g_frame_had_gaps u \<longrightarrow> gap_free xs \<and> expected_seq u = due xs" "received (last xs) = [k]"
      using inv unfolding frame_inv_by_def by blast
    moreover have "g_frame_had_gaps u \<longrightarrow> vouched hist" using b that inv unfolding frame_inv_by_def by blast
    ultimately show ?thesis
      using k unfolding unit_from_def by (intro exI [of _ hist] exI [of _ "[]"] exI [of _ xs] exI [of _ k]) auto
  qed
  then show ?thesis
    using c inv unfolding frame_inv_by_def core_def by simp
qed

lemma frame_inv_process:
  assumes inv: "frame_inv hist s" and ev: "received ev = [k]" "is_packet ev"
  shows "frame_inv (hist @ [ev]) (process_parsed e k s)"
proof (cases "is_duplicate (pk_frame k) s")
  case True
  then show ?thesis using frame_inv_skip [OF inv ev(2)] by (simp add: process_parsed_def)
next
  case False
  obtain r t where adm: "admit_packet e k s = (r, t)" by (cases "admit_packet e k s")
  note ad = admit_core [OF adm]
  note a = arrived_sel [OF refl, of k s]
  have grown: "frame_inv_by (\<lambda>xs. received (last xs) = [k]) (hist @ [ev]) t"
    if "core t = core (arrived k s)" "pk_first k \<or> pk_payload k = [] \<or> \<not> reassembling t"
    using frame_inv_grown [OF inv ev that(1), of t] that(2) by auto
  have started: "frame_inv_by (\<lambda>xs. received (last xs) = [k]) (hist @ [ev]) t"
    if "core t = core (start_frame (arrived k s))" "pk_first k" "first_body k = []"
  proof -
    have "assembly_buffer t = []" using that(1) by (simp add: core_start_frame) (simp add: core_def)
    then show ?thesis
      using frame_inv_started [OF inv ev that(1,2), of t] that(3) by (simp add: run_bytes_def)
  qed
  show ?thesis
  proof (cases r)
    case None
    then have eq: "process_parsed e k s = t" using False adm by (simp add: process_parsed_def)
    from None ad have "pk_first k" by (auto split: if_splits)
    with None ad consider "core t = core (arrived k s)" | "dropped (start_frame (arrived k s)) t"
      by (auto split: if_splits)
    then show ?thesis
    proof cases
      case 1
      with grown \<open>pk_first k\<close> show ?thesis unfolding eq using frame_inv_weaken by blast
    next
      case 2
      have "decoded (start_frame (arrived k s)) = decoded s"
        using core_start_frame [of "arrived k s"] a(3) by (simp add: core_def)
      with 2 show ?thesis unfolding eq by (rule frame_inv_dropped [OF inv])
    qed
  next
    case (Some d)
    have t: "if pk_first k then core t = core (start_frame (arrived k s)) \<and> d = first_body k
             else core t = core (arrived k s) \<and> d = pk_payload k"
      using ad Some by (auto split: if_splits)
    show ?thesis
    proof (cases "\<not> reassembling t \<or> d = []")
      case True
      then have "process_parsed e k s = t" using False adm Some by (simp add: process_parsed_def)
      moreover have "reassembling t" if "pk_first k"
        using t that by (simp add: core_start_frame) (simp add: core_def)
      ultimately show ?thesis
        using True t grown started frame_inv_weaken by (metis (no_types, lifting))
    next
      case d: False
      then have "d \<noteq> []" by simp
      from core_append [OF this, of "pk_first k" t] obtain b ov where
        ap: "core (append_payload (pk_first k) d t) = (b, current_frame_id t, expected_seq t,
           reassembling t, g_frame_had_gaps t, g_saw_first_sof t, ov, g_fec_recovery_clean t, decoded t)"
          "ov \<or> \<not> g_frame_overflow t \<and> b = assembly_buffer t @ start_code_for (pk_first k) d @ d"
          "g_frame_overflow t \<Longrightarrow> ov"
        by metis
      define u where "u = append_payload (pk_first k) d t"
      have u: "assembly_buffer u = b" "current_frame_id u = current_frame_id t" "expected_seq u = expected_seq t"
        "reassembling u = reassembling t" "g_frame_had_gaps u = g_frame_had_gaps t"
        "g_saw_first_sof u = g_saw_first_sof t" "g_frame_overflow u = ov"
        "g_fec_recovery_clean u = g_fec_recovery_clean t" "decoded u = decoded t"
        using ap(1) unfolding u_def [symmetric] core_def by simp_all
      have inv_u: "frame_inv_by (\<lambda>xs. received (last xs) = [k]) (hist @ [ev]) u"
      proof (cases "pk_first k")
        case True
        with t have "assembly_buffer t = []" by (simp add: core_start_frame) (simp add: core_def)
        with True t ap(2) \<open>d \<noteq> []\<close> u have "assembly_buffer u = run_bytes [k] \<or> g_frame_overflow u"
          by (auto simp: run_bytes_def Let_def)
        with True t u show ?thesis by (intro frame_inv_started [OF inv ev, of t u]) simp_all
      next
        case False
        with t ap u show ?thesis by (intro frame_inv_grown [OF inv ev, of t u]) (auto simp: start_code_for_def)
      qed
      have "current_frame_id u = pk_frame k"
        using t u(2) a(1) by (auto simp: core_start_frame core_def [of t] core_def [of "arrived k s"] split: if_splits)
      then have "frame_inv (hist @ [ev]) (if pk_last k then complete_frame e (pk_frame k) u else u)"
        using frame_inv_complete [OF inv_u] frame_inv_weaken [OF inv_u] by simp
      moreover have "process_parsed e k s = (if pk_last k then complete_frame e (pk_frame k) u else u)"
        using False d adm Some by (simp add: process_parsed_def u_def Let_def)
      ultimately show ?thesis by simp
    qed
  qed
qed

subsection \<open>Runs\<close>

lemma core_request: "core (reassembly_step (Request a) s) = core s"
  by (cases a) (simp_all add: core_def emit_def decoded_def List.map_filter_def)

lemma frame_inv_event: "frame_inv hist s \<Longrightarrow> frame_inv (hist @ [ev]) (reassembly_step ev s)"
proof (cases ev)
  case (Packet e p)
  then show "frame_inv hist s \<Longrightarrow> ?thesis"
    using frame_inv_process [of hist s ev _ e] frame_inv_skip [of hist s ev]
    by (auto simp: rtp_reassembly_process_packet_def is_packet_def split: option.split)
next
  case (Frame_loss e a b)
  then show "frame_inv hist s \<Longrightarrow> ?thesis"
    using core_note_loss [of e a b s]
    by (intro frame_inv_other [of hist s]) (auto simp: is_packet_def core_def)
next
  case (Request a)
  then show "frame_inv hist s \<Longrightarrow> ?thesis"
    using core_request [of a s] by (intro frame_inv_other [of hist s]) (auto simp: is_packet_def core_def simp del: reassembly_step.simps)
next
  case Reset
  then show "frame_inv hist s \<Longrightarrow> ?thesis"
    by (intro frame_inv_other [of hist s]) (auto simp: is_packet_def rtp_reassembly_reset_def rtp_clear_current_idr_recovery_def
      rtp_clear_idr_wait_def rtp_clear_ref_inval_wait_def decoded_def)
next
  case (Prepare_fec f)
  then show "frame_inv hist s \<Longrightarrow> ?thesis"
    by (intro frame_inv_other [of hist s]) (auto simp: is_packet_def rtp_reassembly_prepare_fec_frame_def decoded_def)
qed (auto intro!: frame_inv_other [of hist s] simp: is_packet_def rtp_reassembly_note_fec_frame_complete_def decoded_def)

lemma frame_inv_run: "frame_inv hist s \<Longrightarrow> frame_inv (hist @ es) (reassembly_run es s)"
proof (induction es arbitrary: hist s)
  case (Cons ev es)
  then show ?case using Cons.IH [OF frame_inv_event [OF Cons.prems]] by (simp add: reassembly_run_def)
qed (simp add: reassembly_run_def)

text \<open>No unit is larger than the assembly buffer.\<close>

definition size_inv :: "reassembly \<Rightarrow> bool" where
  "size_inv s \<longleftrightarrow> length (assembly_buffer s) \<le> MAX_ASSEMBLY_SIZE \<and>
     (\<forall>u\<in>set (decoded s). length (snd u) \<le> MAX_ASSEMBLY_SIZE)"

lemma size_inv_core: "core s = (b, f, q, r, g, w, ov, c, ds) \<Longrightarrow>
    size_inv s \<longleftrightarrow> length b \<le> MAX_ASSEMBLY_SIZE \<and> (\<forall>u\<in>set ds. length (snd u) \<le> MAX_ASSEMBLY_SIZE)"
  by (simp add: core_def size_inv_def)

lemma size_inv_cong: "core s = core t \<Longrightarrow> size_inv s = size_inv t"
  by (simp add: core_def size_inv_def)

lemma size_inv_arrived: "size_inv s \<Longrightarrow> size_inv (arrived k s)"
  using core_arrived [of k s] by (auto simp: core_def size_inv_def split: if_splits)

lemma size_inv_started: "size_inv s \<Longrightarrow> size_inv (start_frame s)"
  using core_start_frame [of s] by (simp add: core_def size_inv_def)

lemma size_inv_dropped: "size_inv s \<Longrightarrow> dropped s t \<Longrightarrow> size_inv t"
  by (simp add: dropped_def core_def size_inv_def abandon_frame_def decoded_def)

lemma size_inv_append: "size_inv s \<Longrightarrow> d \<noteq> [] \<Longrightarrow> size_inv (append_payload first d s)"
  using core_append [of d first s] by (metis size_inv_core size_inv_def)

lemma size_inv_complete: "size_inv s \<Longrightarrow> size_inv (complete_frame e f s)"
  by (rule core_complete [of e f s]) (auto simp: size_inv_core size_inv_def [of s] split: if_splits)

lemma size_inv_process:
  assumes "size_inv s"
  shows "size_inv (process_parsed e k s)"
proof -
  obtain r t where adm: "admit_packet e k s = (r, t)" by (cases "admit_packet e k s")
  have a: "size_inv (arrived k s)" by (rule size_inv_arrived [OF assms])
  consider "core t = core (arrived k s)" | "core t = core (start_frame (arrived k s))"
    | "dropped (start_frame (arrived k s)) t"
    using admit_core [OF adm] by (auto split: if_splits)
  then have t: "size_inv t"
    by cases (use a size_inv_cong size_inv_started [OF a] size_inv_dropped [OF size_inv_started [OF a]] in blast)+
  then have "size_inv (if pk_last k then complete_frame e (pk_frame k) (append_payload (pk_first k) d t)
      else append_payload (pk_first k) d t)" if "d \<noteq> []" for d
    using size_inv_append [OF _ that] size_inv_complete by simp
  then show ?thesis
    using assms adm t by (auto simp: process_parsed_def Let_def split: option.splits)
qed

lemma size_inv_event: "size_inv s \<Longrightarrow> size_inv (reassembly_step ev s)"
proof (cases ev)
  case (Packet e p)
  then show "size_inv s \<Longrightarrow> ?thesis"
    by (simp add: rtp_reassembly_process_packet_def size_inv_process split: option.split)
next
  case (Frame_loss e a b)
  then show "size_inv s \<Longrightarrow> ?thesis" using size_inv_cong [OF core_note_loss] by simp
next
  case (Request a)
  then show "size_inv s \<Longrightarrow> ?thesis" using size_inv_cong [OF core_request] by blast
qed (simp_all add: size_inv_def rtp_reassembly_reset_def rtp_clear_current_idr_recovery_def
    rtp_clear_idr_wait_def rtp_clear_ref_inval_wait_def decoded_def rtp_reassembly_prepare_fec_frame_def
    rtp_reassembly_note_fec_frame_complete_def)

lemma size_inv_run: "size_inv s \<Longrightarrow> size_inv (reassembly_run es s)"
  by (induction es arbitrary: s) (simp_all add: reassembly_run_def size_inv_event)


text \<open>The property C5: bounds. In the same runs, of all calls into the module, the filled part of the assembly buffer never
  exceeds its 256 KB, and neither does any access unit handed to the player.\<close>

theorem rtp_units_bounded:
  "length (assembly_buffer (reassembly_run es reassembly_zero)) \<le> MAX_ASSEMBLY_SIZE \<and>
   list_all (\<lambda>u. length (snd u) \<le> MAX_ASSEMBLY_SIZE) (decoded (reassembly_run es reassembly_zero))"
proof -
  have "size_inv reassembly_zero"
    by (simp add: size_inv_def reassembly_zero_def decoded_def List.map_filter_def)
  from size_inv_run [OF this, of es] show ?thesis by (simp add: size_inv_def list_all_iff)
qed

end
