(* ===== verification/RtpDelivery.thy ===== *)
theory RtpDelivery
  imports RtpFrames
begin

text \<open>
  The converse of RtpFrames: what does reach the player. A frame whose packets arrive in order is
  delivered with exactly its bytes; while an IDR is awaited nothing but a sync frame is; no unit
  exceeds the assembly buffer; and a frame that is marked corrupt stops everything behind it.
\<close>

subsection \<open>The part of the state that steers recovery\<close>

definition steering :: "reassembly \<Rightarrow> bool \<times> bool \<times> bool \<times> bool \<times> u32 \<times> bool \<times> bool" where
  "steering s = (g_refs_corrupted s, g_idr_fully_decoded s, g_current_frame_is_corrupt s, s_hw_reset_needed s,
     g_last_good_frame s, s_waiting_for_idr_frame s, s_waiting_for_ref_inval_frame s)"

text \<open>A frame in progress: the bytes so far, and what is expected next.\<close>

definition collecting :: "u32 \<Rightarrow> u8 list \<Rightarrow> u16 \<Rightarrow> reassembly \<Rightarrow> bool" where
  "collecting f d q s \<longleftrightarrow> current_frame_id s = f \<and> assembly_buffer s = d \<and> expected_seq s = q \<and> reassembling s
     \<and> \<not> g_frame_had_gaps s \<and> g_saw_first_sof s \<and> \<not> g_frame_overflow s"

lemma append_collecting:
  assumes "collecting f d q s" "length d + length x \<le> MAX_ASSEMBLY_SIZE"
  shows "collecting f (d @ x) q (append_to_frame x s) \<and> steering (append_to_frame x s) = steering s
     \<and> decoded (append_to_frame x s) = decoded s"
  using assms by (auto simp: append_to_frame_def collecting_def steering_def decoded_def)

lemma append_nil: "append_to_frame [] s = s"
  by (simp add: append_to_frame_def)

text \<open>Another packet of the frame.\<close>

lemma admit_next:
  assumes c: "collecting f d q s" and k: "pk_frame k = f" "pk_seq k = q" "\<not> pk_first k"
  shows "\<exists>t. admit_packet e k s = (Some (pk_payload k), t) \<and> collecting f d (q + 1) t \<and>
     steering t = steering s \<and> decoded t = decoded s"
proof -
  have 1: "note_massive_jump e (transport_delta (pk_frame k) s) (seq_gap_at_boundary k s) (pk_frame k) s = s"
    using c k by (simp add: note_massive_jump_def seq_gap_at_boundary_def collecting_def)
  let ?t = "check_seq k (switch_frame k (note_frame_seen (pk_frame k) s))"
  have "collecting f d (q + 1) ?t \<and> steering ?t = steering s \<and> decoded ?t = decoded s"
    using c k by (auto simp: collecting_def steering_def check_seq_def switch_frame_def note_frame_seen_def decoded_def)
  then show ?thesis using k 1 by (simp add: admit_packet_def Let_def)
qed

text \<open>The first packet of a frame, when nothing is awaited.\<close>

definition quiet :: "u32 \<Rightarrow> reassembly \<Rightarrow> bool" where
  "quiet f s \<longleftrightarrow> \<not> is_duplicate f s \<and> f \<noteq> current_frame_id s \<and> transport_delta f s \<le> 1 \<and>
     \<not> g_refs_corrupted s \<and> \<not> g_current_frame_is_corrupt s \<and> \<not> s_hw_reset_needed s \<and>
     \<not> s_waiting_for_idr_frame s \<and> \<not> s_waiting_for_ref_inval_frame s"

lemma steering_switch [simp]: "steering (switch_frame k s) = steering s" "steering (check_seq k s) = steering s"
  "steering (note_frame_seen f s) = steering s" "steering (start_frame s) = steering s"
  "steering (note_host_latency e d s) = steering s"
  by (simp_all add: steering_def switch_frame_def check_seq_def note_frame_seen_def start_frame_def
      note_host_latency_def rtp_clear_current_idr_recovery_def emit_def Let_def)

lemma admit_first:
  assumes q: "quiet f s" and k: "pk_frame k = f" "pk_first k"
  shows "\<exists>t. admit_packet e k s = (Some (first_body k), t) \<and> collecting f [] (pk_seq k + 1) t \<and>
     steering t = steering s \<and> decoded t = decoded s"
proof -
  have 1: "note_massive_jump e (transport_delta (pk_frame k) s) g (pk_frame k) s = s" for g
    using q k by (simp add: note_massive_jump_def quiet_def)
  define u where "u = check_seq k (switch_frame k (note_frame_seen (pk_frame k) s))"
  define t where "t = note_host_latency e (pk_payload k) (start_frame u)"
  have su: "steering t = steering s" by (simp add: t_def u_def)
  have "core u = core (arrived k s)"
    unfolding u_def arrived_def [symmetric] by (rule core_arrived_cong) (simp add: core_simps)
  then have cu: "core u = ([], f, pk_seq k + 1, False, False, False, False, g_fec_recovery_clean s, decoded s)"
    using q k by (simp add: core_arrived quiet_def)
  then have "core t = ([], f, pk_seq k + 1, True, False, True, False, g_fec_recovery_clean s, decoded s)"
    unfolding t_def core_clear core_start_frame by (simp add: core_def)
  then have t: "collecting f [] (pk_seq k + 1) t" "decoded t = decoded s"
    by (simp_all add: core_def collecting_def)
  obtain skip ft where h: "frame_header (pk_payload k) = (skip, ft)" by (cases "frame_header (pk_payload k)")
  have same: "note_transport_gap e p (transport_delta f s) g (pk_frame k) r t = t" "note_corrupt_refs e (pk_frame k) t = t"
     "recovery_gate e (pk_frame k) sy r t = (True, t)" for p g r sy
    using q su by (simp_all add: note_transport_gap_def note_corrupt_refs_def recovery_gate_def quiet_def steering_def)
  have "\<not> g_saw_first_sof u" using cu by (simp add: core_def)
  then have "first_packet e (s_last_seen_frame_id s) (transport_delta f s) g k u = (Some (first_body k), t)" for g
    unfolding first_packet_def using h same k
    by (simp add: Let_def t_def [symmetric] first_body_def)
  then have "admit_packet e k s = (Some (first_body k), t)"
    using k 1 by (simp add: admit_packet_def Let_def u_def)
  then show ?thesis using t su by blast
qed

text \<open>The last step: a complete frame without gaps.\<close>

lemma complete_collected:
  assumes c: "collecting f d q s" and "d \<noteq> []" and k: "\<not> g_refs_corrupted s" "\<not> g_current_frame_is_corrupt s"
    "\<not> s_hw_reset_needed s" "\<not> g_decode_paused e"
  shows "decoded (complete_frame e f s) = decoded s @ [(f, d)]"
proof -
  let ?t = "(rtp_clear_current_idr_recovery (s\<lparr>s_consec_gap_frames := 0, g_fec_recovery_clean := False\<rparr>))
      \<lparr>g_last_decode_output_ok := False, g_decode_current_frame_id := f\<rparr>"
  have "decoded (complete_frame e f s) = decoded (rtp_frame_complete_callback e d ?t)"
    using c \<open>d \<noteq> []\<close> core_completion(2) [of f "rtp_frame_complete_callback e d ?t"]
    by (simp add: complete_frame_def collecting_def note_frame_gaps_def deliver_frame_def Let_def
        rtp_clear_current_idr_recovery_def core_def) (simp add: decoded_def)
  also have "\<dots> = decoded ?t @ [(f, d)]"
    using callback_gate [of e d ?t] k \<open>d \<noteq> []\<close>
    by (simp add: may_enter_def awaiting_idr_def rtp_clear_current_idr_recovery_def)
  finally show ?thesis
    by (simp add: rtp_clear_current_idr_recovery_def decoded_def)
qed

subsection \<open>A frame in order\<close>

text \<open>The packets of a frame as they were sent.\<close>

definition whole_frame :: "u32 \<Rightarrow> rtp_packet list \<Rightarrow> bool" where
  "whole_frame f ks \<longleftrightarrow> ks \<noteq> [] \<and> (\<forall>k\<in>set ks. pk_frame k = f) \<and>
     pk_first (hd ks) \<and> (\<forall>k\<in>set (tl ks). \<not> pk_first k \<and> pk_payload k \<noteq> []) \<and> first_body (hd ks) \<noteq> [] \<and>
     (\<forall>k\<in>set (butlast ks). \<not> pk_last k) \<and> pk_last (last ks) \<and>
     (\<forall>i<length ks. pk_seq (ks ! i) = pk_seq (hd ks) + of_nat i) \<and>
     length (run_bytes ks) \<le> MAX_ASSEMBLY_SIZE"

definition awake :: "reassembly \<Rightarrow> bool" where
  "awake s \<longleftrightarrow> \<not> g_refs_corrupted s \<and> \<not> g_current_frame_is_corrupt s \<and> \<not> s_hw_reset_needed s"

lemma steering_awake: "steering s = steering t \<Longrightarrow> awake s = awake t"
  "steering s = steering t \<Longrightarrow> is_duplicate f s = is_duplicate f t"
  by (simp_all add: steering_def awake_def is_duplicate_def)

text \<open>A payload behind what has been collected.\<close>

lemma collect_payload:
  assumes c: "collecting f d q s" and "x \<noteq> []" "awake s" "\<not> g_decode_paused e"
    and room: "length d + length (start_code_for first x) + length x \<le> MAX_ASSEMBLY_SIZE"
  defines "t \<equiv> append_payload first x s"
  shows "collecting f (d @ start_code_for first x @ x) q t \<and> steering t = steering s \<and> decoded t = decoded s"
    "decoded (complete_frame e f t) = decoded s @ [(f, d @ start_code_for first x @ x)]"
proof -
  have 1: "collecting f (d @ start_code_for first x) q (append_to_frame (start_code_for first x) s)
     \<and> steering (append_to_frame (start_code_for first x) s) = steering s
     \<and> decoded (append_to_frame (start_code_for first x) s) = decoded s"
    using append_collecting [OF c, of "start_code_for first x"] room by simp
  have t: "t = append_to_frame x (append_to_frame (start_code_for first x) s)"
    unfolding t_def append_payload_def append_start_code_def start_code_for_def
    by (cases "first \<and> is_annexb_start x 0 = 0") (simp_all only: append_nil simp_thms if_True if_False)
  show 2: "collecting f (d @ start_code_for first x @ x) q t \<and> steering t = steering s \<and> decoded t = decoded s"
    unfolding t using append_collecting [of f "d @ start_code_for first x" q _ x] 1 room by simp
  then have "collecting f (d @ start_code_for first x @ x) q t" "steering t = steering s" "decoded t = decoded s"
    by simp_all
  note 3 = this
  have "awake t" using steering_awake(1) [OF 3(2)] \<open>awake s\<close> by simp
  then show "decoded (complete_frame e f t) = decoded s @ [(f, d @ start_code_for first x @ x)]"
    using complete_collected [OF 3(1)] 3(3) \<open>x \<noteq> []\<close> \<open>\<not> g_decode_paused e\<close> unfolding awake_def by simp
qed

definition process_all :: "video_env \<Rightarrow> rtp_packet list \<Rightarrow> reassembly \<Rightarrow> reassembly" where
  "process_all e = fold (process_parsed e)"

lemma deliver_rest:
  assumes "collecting f d q s" "awake s" "\<not> is_duplicate f s" "\<not> g_decode_paused e" "ks \<noteq> []"
    "\<forall>k\<in>set ks. pk_frame k = f \<and> \<not> pk_first k \<and> pk_payload k \<noteq> []"
    "\<forall>k\<in>set (butlast ks). \<not> pk_last k" "pk_last (last ks)" "\<forall>i<length ks. pk_seq (ks ! i) = q + of_nat i"
    "length d + length (concat (map pk_payload ks)) \<le> MAX_ASSEMBLY_SIZE"
  shows "decoded (process_all e ks s) = decoded s @ [(f, d @ concat (map pk_payload ks))]"
  using assms
proof (induction ks arbitrary: d q s)
  case (Cons k ks)
  have k: "pk_frame k = f" "pk_seq k = q" "\<not> pk_first k" "pk_payload k \<noteq> []" using Cons.prems by (auto dest: spec [of _ 0])
  obtain t where t: "admit_packet e k s = (Some (pk_payload k), t)" "collecting f d (q + 1) t"
      "steering t = steering s" "decoded t = decoded s"
    using admit_next [OF Cons.prems(1) k(1-3)] by blast
  let ?u = "append_payload False (pk_payload k) t"
  have "awake t" using t(3) Cons.prems(2) steering_awake(1) by blast
  note u = collect_payload [OF t(2) k(4) this Cons.prems(4), of False]
  have room: "length d + length (start_code_for False (pk_payload k)) + length (pk_payload k) \<le> MAX_ASSEMBLY_SIZE"
    using Cons.prems(10) by (simp add: start_code_for_def)
  have step: "process_parsed e k s = (if pk_last k then complete_frame e f ?u else ?u)"
    using Cons.prems(3) k t(1,2) by (simp add: process_parsed_def Let_def collecting_def)
  show ?case
  proof (cases "ks = []")
    case True
    then show ?thesis using Cons.prems(8) step u(2) [OF room] t by (simp add: process_all_def start_code_for_def)
  next
    case False
    have seqs: "\<forall>i<length ks. pk_seq (ks ! i) = q + 1 + of_nat i"
      using Cons.prems(9) by (auto simp: algebra_simps dest: spec [of _ "Suc _"])
    have c: "collecting f (d @ pk_payload k) (q + 1) ?u" "steering ?u = steering s" "decoded ?u = decoded s"
      using u(1) [OF room] t by (simp_all add: start_code_for_def)
    have "\<not> pk_last k" using Cons.prems(7) False by simp
    then have "process_all e (k # ks) s = process_all e ks ?u" using step by (simp add: process_all_def)
    also have "decoded \<dots> = decoded ?u @ [(f, (d @ pk_payload k) @ concat (map pk_payload ks))]"
      using Cons.prems steering_awake [OF c(2)] False
      by (intro Cons.IH [OF c(1) _ _ _ _ _ _ _ seqs]) auto
    finally show ?thesis using c by simp
  qed
qed simp

lemma fold_parsed:
  "map rtp_parse ps = map Some ks \<Longrightarrow> fold (rtp_reassembly_process_packet e) ps s = process_all e ks s"
proof (induction ps arbitrary: ks s)
  case (Cons p ps)
  then show ?case by (auto simp: rtp_reassembly_process_packet_def process_all_def)
qed (simp add: process_all_def)

lemma delivers_whole_frame:
  assumes "quiet f s" "whole_frame f ks" "\<not> g_decode_paused e"
  shows "decoded (process_all e ks s) = decoded s @ [(f, run_bytes ks)]"
proof -
  obtain k ks' where ks: "ks = k # ks'" using assms(2) by (cases ks) (auto simp: whole_frame_def)
  note w = assms(2) [unfolded whole_frame_def ks]
  obtain t where t: "admit_packet e k s = (Some (first_body k), t)" "collecting f [] (pk_seq k + 1) t"
      "steering t = steering s" "decoded t = decoded s"
    using admit_first [OF assms(1), of k e] w by auto
  let ?b = "start_code_for True (first_body k) @ first_body k"
  let ?u = "append_payload True (first_body k) t"
  have tail: "map (\<lambda>k. if pk_first k then [] else pk_payload k) ks' = map pk_payload ks'"
    using w by (intro map_cong) auto
  have bytes: "run_bytes ks = ?b @ concat (map pk_payload ks')"
    using w by (simp add: run_bytes_def ks Let_def tail)
  have room: "length ([] :: u8 list) + length (start_code_for True (first_body k)) + length (first_body k) \<le> MAX_ASSEMBLY_SIZE"
    using w bytes by (simp add: ks)
  have ne: "first_body k \<noteq> []" using w by simp
  have "awake t" using assms(1) steering_awake(1) [OF t(3)] by (simp add: quiet_def awake_def)
  note u = collect_payload [OF t(2) ne this assms(3) room]
  have step: "process_parsed e k s = (if pk_last k then complete_frame e f ?u else ?u)"
    using assms(1) t(1,2) w by (simp add: process_parsed_def Let_def collecting_def quiet_def)
  show ?thesis
  proof (cases "ks' = []")
    case True
    then show ?thesis using step u(2) w bytes t by (simp add: process_all_def ks)
  next
    case False
    have c: "collecting f ?b (pk_seq k + 1) ?u" "steering ?u = steering s" "decoded ?u = decoded s"
      using u(1) t by simp_all
    have seqs: "\<forall>i<length ks'. pk_seq (ks' ! i) = pk_seq k + 1 + of_nat i"
      using w by (auto simp: algebra_simps dest: spec [of _ "Suc _"])
    have "process_all e ks s = process_all e ks' ?u" using step w False by (simp add: process_all_def ks)
    also have "decoded \<dots> = decoded ?u @ [(f, ?b @ concat (map pk_payload ks'))]"
      using assms(1,3) w False bytes steering_awake [OF c(2)]
      by (intro deliver_rest [OF c(1) _ _ _ _ _ _ _ seqs]) (auto simp: quiet_def awake_def ks)
    finally show ?thesis using c bytes by simp
  qed
qed

text \<open>The property C2: delivery. When nothing is awaited, nothing is marked corrupt and decoding is
  not paused, a frame whose packets arrive in order from its first to its last, fits the assembly
  buffer and does not jump ahead in the frame ids reaches the player as one unit: the payloads
  without the frame header, behind a start code. Before its last packet nothing is delivered.\<close>

theorem rtp_delivers_frame:
  assumes "quiet f s" "whole_frame f ks" "\<not> g_decode_paused e" "map rtp_parse ps = map Some ks"
  shows "decoded (fold (rtp_reassembly_process_packet e) ps s) = decoded s @ [(f, run_bytes ks)]"
  unfolding fold_parsed [OF assms(4)] by (rule delivers_whole_frame [OF assms(1-3)])

subsection \<open>Waiting for an IDR\<close>

text \<open>What counts as a sync frame: the header's type 2, or an IDR slice in its first packet.\<close>

definition sync_packet :: "rtp_packet \<Rightarrow> bool" where
  "sync_packet k \<longleftrightarrow> snd (frame_header (pk_payload k)) = 2 \<or> payload_contains_idr_nal (first_body k)"

text \<open>An IDR is awaited and frame \<open>f\<close> is not being collected.\<close>

definition held :: "u32 \<Rightarrow> reassembly \<Rightarrow> bool" where
  "held f s \<longleftrightarrow> s_waiting_for_idr_frame s \<and> (current_frame_id s = f \<longrightarrow> \<not> reassembling s)"

lemma waiting_kept [simp]:
  "s_waiting_for_idr_frame (check_seq k s) = s_waiting_for_idr_frame s"
  "s_waiting_for_idr_frame (switch_frame k s) = s_waiting_for_idr_frame s"
  "s_waiting_for_idr_frame (note_frame_seen f s) = s_waiting_for_idr_frame s"
  "s_waiting_for_idr_frame (note_host_latency e d s) = s_waiting_for_idr_frame s"
  "s_waiting_for_idr_frame (start_frame s) = s_waiting_for_idr_frame s"
  by (simp_all add: check_seq_def switch_frame_def note_frame_seen_def note_host_latency_def start_frame_def
      rtp_clear_current_idr_recovery_def emit_def Let_def)

lemma waiting_drop [simp]: "s_waiting_for_idr_frame (drop_for_idr e s) = s_waiting_for_idr_frame s"
  by (simp add: drop_for_idr_def abandon_frame_def emit_def Let_def)

lemma first_packet_waiting:
  assumes "s_waiting_for_idr_frame s" "\<not> sync_packet k"
  shows "\<exists>t. first_packet e p dl g k s = (None, t) \<and> s_waiting_for_idr_frame t \<and>
    (g_saw_first_sof s \<and> t = s \<or> dropped (start_frame s) t)"
proof (cases "g_saw_first_sof s")
  case False
  obtain skip ft where h: "frame_header (pk_payload k) = (skip, ft)" by (cases "frame_header (pk_payload k)")
  let ?t = "note_host_latency e (pk_payload k) (start_frame s)"
  have n: "ft \<noteq> 2" "\<not> (skip \<le> length (pk_payload k) \<and> payload_contains_idr_nal (drop skip (pk_payload k)))"
    using assms(2) h by (simp_all add: sync_packet_def first_body_def)
  have "note_transport_gap e p dl g (pk_frame k) r ?t = ?t" "note_corrupt_refs e (pk_frame k) ?t = ?t" for r
    using assms(1) by (simp_all add: note_transport_gap_def note_corrupt_refs_def)
  then have "first_packet e p dl g k s = (None, drop_for_idr e ?t)"
    using False h n assms(1) by (simp add: first_packet_def recovery_gate_def Let_def)
  moreover have "dropped (start_frame s) (drop_for_idr e ?t)"
    by (rule dropped_cong [OF _ dropped_for_idr]) (simp add: core_simps)
  ultimately show ?thesis using assms(1) by simp
qed (simp add: first_packet_def assms)

lemma process_held:
  assumes h: "held f s" and k: "pk_frame k = f" "pk_first k \<longrightarrow> \<not> sync_packet k"
  shows "held f (process_parsed e k s) \<and> decoded (process_parsed e k s) = decoded s"
proof -
  define u where "u = check_seq k (switch_frame k (note_frame_seen f s))"
  have "note_massive_jump e dl g f s = s" for dl g using h by (simp add: note_massive_jump_def held_def)
  then have adm: "admit_packet e k s = (if pk_first k then first_packet e (s_last_seen_frame_id s)
      (transport_delta f s) (seq_gap_at_boundary k s) k u else (Some (pk_payload k), u))"
    using k by (simp add: admit_packet_def Let_def u_def)
  have "core u = core (arrived k s)"
    unfolding u_def arrived_def [symmetric] by (rule core_arrived_cong) (simp add: core_simps)
  note a = arrived_sel [OF this]
  have u: "s_waiting_for_idr_frame u" "\<not> reassembling u" "decoded u = decoded s"
    using h k a(3,6) by (auto simp: u_def held_def)
  show ?thesis
  proof (cases "is_duplicate f s")
    case True
    then show ?thesis using h k by (simp add: process_parsed_def)
  next
    case nd: False
    show ?thesis
    proof (cases "pk_first k")
      case True
      then obtain t where t: "admit_packet e k s = (None, t)" "s_waiting_for_idr_frame t"
          "g_saw_first_sof u \<and> t = u \<or> dropped (start_frame u) t"
        using first_packet_waiting [OF u(1), of k e] k adm by force
      have "\<not> reassembling t \<and> decoded t = decoded s"
        using t(3) u core_start_frame [of u]
        by (auto simp: dropped_def core_def abandon_frame_def decoded_def)
      then show ?thesis using nd k t by (simp add: process_parsed_def held_def)
    next
      case False
      then show ?thesis using nd k u adm by (simp add: process_parsed_def held_def)
    qed
  qed
qed

text \<open>The property C4: recovery. While an IDR is awaited, a frame whose first packet is not a sync frame
  never reaches the player, whichever of its packets arrive and in whatever order, and the wait goes
  on.\<close>

theorem rtp_idr_wait_holds:
  assumes "s_waiting_for_idr_frame s" "\<not> (reassembling s \<and> current_frame_id s = f)"
    and "\<forall>k\<in>set ks. pk_frame k = f \<and> (pk_first k \<longrightarrow> \<not> sync_packet k)" "map rtp_parse ps = map Some ks"
  shows "decoded (fold (rtp_reassembly_process_packet e) ps s) = decoded s \<and>
    s_waiting_for_idr_frame (fold (rtp_reassembly_process_packet e) ps s)"
proof -
  have "held f s" using assms(1,2) by (auto simp: held_def)
  with assms(3,4) have "held f (fold (rtp_reassembly_process_packet e) ps s) \<and>
      decoded (fold (rtp_reassembly_process_packet e) ps s) = decoded s"
  proof (induction ps arbitrary: ks s)
    case (Cons p ps)
    then obtain k ks' where ks: "ks = k # ks'" "rtp_parse p = Some k" "map rtp_parse ps = map Some ks'" by auto
    with process_held [OF Cons.prems(3), of k e] Cons.prems(1) Cons.IH [OF _ ks(3)]
    show ?case by (simp add: rtp_reassembly_process_packet_def)
  qed simp
  then show ?thesis by (simp add: held_def)
qed

subsection \<open>A frame marked corrupt\<close>

named_theorems corrupt_simps "operations that leave the corruption mark alone"

lemma corrupt_wait [corrupt_simps]:
  "g_current_frame_is_corrupt (rtp_clear_ref_inval_wait s) = g_current_frame_is_corrupt s"
  "g_current_frame_is_corrupt (rtp_clear_idr_wait s) = g_current_frame_is_corrupt s"
  "g_current_frame_is_corrupt (rtp_clear_current_idr_recovery s) = g_current_frame_is_corrupt s"
  "g_current_frame_is_corrupt (widen_idr_loss a b s) = g_current_frame_is_corrupt s"
  "g_current_frame_is_corrupt (note_host_latency e d s) = g_current_frame_is_corrupt s"
  "g_current_frame_is_corrupt (accept_idr s) = g_current_frame_is_corrupt s"
  "g_current_frame_is_corrupt (refs_restored s) = g_current_frame_is_corrupt s"
  "g_current_frame_is_corrupt (abandon_frame s) = g_current_frame_is_corrupt s"
  "g_current_frame_is_corrupt (start_frame s) = g_current_frame_is_corrupt s"
  "g_current_frame_is_corrupt (note_frame_seen f s) = g_current_frame_is_corrupt s"
  "g_current_frame_is_corrupt (check_seq k s) = g_current_frame_is_corrupt s"
  "g_current_frame_is_corrupt (switch_frame k s) = g_current_frame_is_corrupt s"
  "g_current_frame_is_corrupt (append_payload first d s) = g_current_frame_is_corrupt s"
  "g_current_frame_is_corrupt (rtp_request_idr_force_for_mode e s) = g_current_frame_is_corrupt s"
  by (simp_all add: rtp_clear_ref_inval_wait_def rtp_clear_idr_wait_def rtp_clear_current_idr_recovery_def
      widen_idr_loss_def note_host_latency_def accept_idr_def refs_restored_def abandon_frame_def
      start_frame_def note_frame_seen_def check_seq_def switch_frame_def append_payload_def
      append_start_code_def append_to_frame_def rtp_request_idr_force_for_mode_def Let_def)

lemma corrupt_start_idr_wait [corrupt_simps]:
  "g_current_frame_is_corrupt (rtp_start_idr_wait e a b s) = g_current_frame_is_corrupt s"
  by (simp add: rtp_start_idr_wait_def Let_def corrupt_simps)

lemma corrupt_mark_waiting [corrupt_simps]:
  "g_current_frame_is_corrupt (rtp_mark_waiting_for_ref_inval e a b s) = g_current_frame_is_corrupt s"
  by (simp add: rtp_mark_waiting_for_ref_inval_def Let_def corrupt_simps)

lemma corrupt_transport [corrupt_simps]:
  "g_current_frame_is_corrupt (note_massive_jump e dl g f s) = g_current_frame_is_corrupt s"
  "g_current_frame_is_corrupt (note_transport_gap e p dl g f r s) = g_current_frame_is_corrupt s"
  "g_current_frame_is_corrupt (note_corrupt_refs e f s) = g_current_frame_is_corrupt s"
  "g_current_frame_is_corrupt (drop_for_idr e s) = g_current_frame_is_corrupt s"
  by (simp_all add: note_massive_jump_def note_transport_gap_def note_corrupt_refs_def drop_for_idr_def
      Let_def corrupt_simps)

lemma corrupt_recovery_gate [corrupt_simps]:
  "g_current_frame_is_corrupt (snd (recovery_gate e f sy r s)) = g_current_frame_is_corrupt s"
  by (simp add: recovery_gate_def drop_for_rfi_def rfi_timeout_def Let_def corrupt_simps)

lemma corrupt_first_packet [corrupt_simps]:
  "g_current_frame_is_corrupt (snd (first_packet e p dl g k s)) = g_current_frame_is_corrupt s"
proof -
  have *: "recovery_gate e f sy r s = (kept, t) \<Longrightarrow> g_current_frame_is_corrupt t = g_current_frame_is_corrupt s"
    for f sy r s kept t
    using corrupt_recovery_gate [of e f sy r s] by simp
  show ?thesis
    by (auto simp: first_packet_def Let_def corrupt_simps split: prod.split dest: *)
qed

lemma corrupt_admit: "g_current_frame_is_corrupt (snd (admit_packet e k s)) = g_current_frame_is_corrupt s"
  by (simp add: admit_packet_def Let_def corrupt_simps)

lemma corrupt_complete:
  assumes "g_current_frame_is_corrupt s" "\<not> g_frame_had_gaps s"
  shows "g_current_frame_is_corrupt (complete_frame e f s) \<and> decoded (complete_frame e f s) = decoded s"
proof -
  have cb: "g_current_frame_is_corrupt (rtp_advance_decoded_frame f (rtp_frame_complete_callback e d t)) \<and>
      decoded (rtp_advance_decoded_frame f (rtp_frame_complete_callback e d t)) = decoded t"
    if "g_current_frame_is_corrupt t" for d and t :: reassembly
    using that by (simp add: rtp_advance_decoded_frame_def rtp_frame_complete_callback_def Let_def
        hardware_request_ref_resync_def decoded_emit)
  define t where "t = rtp_clear_current_idr_recovery ((s\<lparr>s_consec_gap_frames := 0\<rparr>)\<lparr>g_fec_recovery_clean := False\<rparr>)"
  have t: "g_current_frame_is_corrupt t" "decoded t = decoded s" "assembly_buffer t = assembly_buffer s"
    using assms(1) by (simp_all add: t_def rtp_clear_current_idr_recovery_def decoded_def)
  have fin: "g_current_frame_is_corrupt (u\<lparr>reassembling := False, assembly_buffer := [], g_frame_overflow := False\<rparr>) =
      g_current_frame_is_corrupt u"
    "decoded (u\<lparr>reassembling := False, assembly_buffer := [], g_frame_overflow := False\<rparr>) = decoded u" for u :: reassembly
    by (simp_all add: decoded_def)
  consider "assembly_buffer s = [] \<or> \<not> reassembling s"
    | "assembly_buffer s \<noteq> []" "reassembling s" "g_frame_overflow s"
    | "assembly_buffer s \<noteq> []" "reassembling s" "\<not> g_frame_overflow s" by blast
  then show ?thesis
  proof cases
    case 1
    then have "complete_frame e f s = s\<lparr>reassembling := False, assembly_buffer := [], g_frame_overflow := False\<rparr>"
      by (auto simp: complete_frame_def)
    then show ?thesis using assms(1) fin by simp
  next
    case 2
    then show ?thesis by (simp add: complete_frame_def drop_overflow_def decoded_def emit_def List.map_filter_def)
  next
    case 3
    then have eq: "complete_frame e f s = (deliver_frame e f t)\<lparr>reassembling := False, assembly_buffer := [], g_frame_overflow := False\<rparr>"
      using assms(2) by (simp add: complete_frame_def note_frame_gaps_def t_def Let_def)
    have "g_current_frame_is_corrupt (deliver_frame e f t) \<and> decoded (deliver_frame e f t) = decoded t"
      unfolding deliver_frame_def Let_def
      using cb [of "t\<lparr>g_last_decode_output_ok := False, g_decode_current_frame_id := f\<rparr>"] t(1) by simp
    then show ?thesis unfolding eq fin using t(2) by simp
  qed
qed

lemma decoded_append: "decoded (append_payload first x s) = decoded s"
  by (simp add: append_payload_def append_start_code_def append_to_frame_def decoded_def)

lemma gaps_complete: "g_frame_had_gaps (complete_frame e f s) = g_frame_had_gaps s"
  by (rule core_complete [of e f s]) (simp add: core_def)

lemma corrupt_process:
  assumes c: "g_current_frame_is_corrupt s" and g: "\<not> g_frame_had_gaps (process_parsed e k s)"
  shows "g_current_frame_is_corrupt (process_parsed e k s) \<and> decoded (process_parsed e k s) = decoded s"
proof -
  obtain r t where adm: "admit_packet e k s = (r, t)" by (cases "admit_packet e k s")
  have t: "g_current_frame_is_corrupt t" using corrupt_admit [of e k s] adm c by simp
  have "decoded (arrived k s) = decoded s" using core_arrived [of k s] by (auto simp: core_def split: if_splits)
  moreover from this have "decoded (start_frame (arrived k s)) = decoded s"
    using core_start_frame [of "arrived k s"] by (simp add: core_def)
  ultimately have d: "decoded t = decoded s"
    using admit_core [OF adm] by (auto simp: core_def dropped_def abandon_frame_def decoded_def split: if_splits)
  have ap: "g_current_frame_is_corrupt (append_payload first x t) \<and> decoded (append_payload first x t) = decoded s"
    for first x
    using t d by (simp add: corrupt_simps decoded_append)
  have comp: "g_current_frame_is_corrupt (complete_frame e f (append_payload first x t)) \<and>
      decoded (complete_frame e f (append_payload first x t)) = decoded s"
    if "\<not> g_frame_had_gaps (complete_frame e f (append_payload first x t))" for f first x
    using that ap [of first x] corrupt_complete unfolding gaps_complete by simp
  show ?thesis
  proof (cases "is_duplicate (pk_frame k) s")
    case True
    then show ?thesis using c by (simp add: process_parsed_def)
  next
    case nd: False
    show ?thesis
    proof (cases r)
      case None
      then show ?thesis using nd adm t d by (simp add: process_parsed_def)
    next
      case (Some x)
      then have eq: "process_parsed e k s = (if \<not> reassembling t \<or> x = [] then t
          else if pk_last k then complete_frame e (pk_frame k) (append_payload (pk_first k) x t)
          else append_payload (pk_first k) x t)"
        using nd adm by (simp add: process_parsed_def Let_def)
      show ?thesis using g t d ap comp unfolding eq by (cases "reassembling t \<and> x \<noteq> []") auto
    qed
  qed
qed

text \<open>The property C6: a corrupt mark stops the stream. Once the current frame is marked corrupt, which
  an overflow of the assembly buffer does, nothing reaches the player and the mark stays for as long
  as the packets arrive without a gap: not even an IDR is decoded. Only a frame with a gap clears it.\<close>

theorem rtp_corrupt_mark_sticks:
  assumes "g_current_frame_is_corrupt s"
    and "\<forall>n\<le>length ps. \<not> g_frame_had_gaps (fold (rtp_reassembly_process_packet e) (take n ps) s)"
  shows "g_current_frame_is_corrupt (fold (rtp_reassembly_process_packet e) ps s) \<and>
    decoded (fold (rtp_reassembly_process_packet e) ps s) = decoded s"
  using assms
proof (induction ps rule: rev_induct)
  case (snoc p ps)
  have "\<forall>n\<le>length ps. \<not> g_frame_had_gaps (fold (rtp_reassembly_process_packet e) (take n ps) s)"
  proof (intro allI impI)
    fix n assume "n \<le> length ps"
    then show "\<not> g_frame_had_gaps (fold (rtp_reassembly_process_packet e) (take n ps) s)"
      using snoc.prems(2) by (auto dest!: spec [of _ n])
  qed
  with snoc have IH: "g_current_frame_is_corrupt (fold (rtp_reassembly_process_packet e) ps s)"
      "decoded (fold (rtp_reassembly_process_packet e) ps s) = decoded s" by blast+
  have "\<not> g_frame_had_gaps (rtp_reassembly_process_packet e p (fold (rtp_reassembly_process_packet e) ps s))"
    using snoc.prems(2) by (auto dest!: spec [of _ "Suc (length ps)"])
  then have "g_current_frame_is_corrupt (rtp_reassembly_process_packet e p (fold (rtp_reassembly_process_packet e) ps s)) \<and>
      decoded (rtp_reassembly_process_packet e p (fold (rtp_reassembly_process_packet e) ps s)) = decoded s"
    unfolding rtp_reassembly_process_packet_def [of e p] using IH corrupt_process
    by (cases "rtp_parse p") simp_all
  then show ?case by simp
qed simp

subsection \<open>Concrete runs\<close>

text \<open>A packet built from its flags, sequence number, frame id and payload.\<close>

definition rtp_build :: "u8 \<Rightarrow> u16 \<Rightarrow> u32 \<Rightarrow> u8 list \<Rightarrow> u8 list" where
  "rtp_build flags q f d = [0x80, 0] @ be16 q @ replicate 8 0 @ replicate 4 0 @ le32 f @ flags # replicate 7 0 @ d"

definition env0 :: video_env where
  "env0 = \<lparr>g_avc_entropy_mode = 0, cabacTestMode = False, audioEnabled = True, cfg_fps = 30, cfg_width = 480,
     cfg_height = 272, cfg_bitrate = 500, cfg_packetSize = 1024, now_us = 1000, g_decode_paused = False,
     player_reset_ok = True, psp_avc_player_decode = (\<lambda>f d. 0)\<rparr>"

definition sof_packet :: "u8 list" where
  "sof_packet = rtp_build 5 9 7 [1, 0, 0, 2, 0, 0, 0, 0, 0, 0, 1, 0x65, 3]"

definition eof_packet :: "u8 list" where
  "eof_packet = rtp_build 3 10 7 [4, 5]"

definition p_sof_packet :: "u8 list" where
  "p_sof_packet = rtp_build 5 9 7 [1, 0, 0, 1, 0, 0, 0, 0, 0, 0, 1, 0x41, 3]"

lemma parsed_packets:
  "rtp_parse sof_packet = Some \<lparr>pk_seq = 9, pk_frame = 7, pk_first = True, pk_last = False,
     pk_payload = [1, 0, 0, 2, 0, 0, 0, 0, 0, 0, 1, 0x65, 3]\<rparr>"
  "rtp_parse eof_packet = Some \<lparr>pk_seq = 10, pk_frame = 7, pk_first = False, pk_last = True, pk_payload = [4, 5]\<rparr>"
  "rtp_parse p_sof_packet = Some \<lparr>pk_seq = 9, pk_frame = 7, pk_first = True, pk_last = False,
     pk_payload = [1, 0, 0, 1, 0, 0, 0, 0, 0, 0, 1, 0x41, 3]\<rparr>"
  by code_simp+

lemma quiet_zero: "quiet 7 reassembly_zero"
  by code_simp

theorem rtp_delivers_frame_witness:
  "decoded (fold (rtp_reassembly_process_packet env0) [sof_packet, eof_packet] reassembly_zero)
     = [(7, [0, 0, 1, 0x65, 3, 4, 5])]"
proof -
  let ?ks = "[the (rtp_parse sof_packet), the (rtp_parse eof_packet)]"
  have b: "run_bytes ?ks = [0, 0, 1, 0x65, 3, 4, 5]" unfolding parsed_packets by code_simp
  have "first_body (hd ?ks) \<noteq> []" unfolding parsed_packets by code_simp
  then have "whole_frame 7 ?ks"
    unfolding whole_frame_def b by (simp add: parsed_packets less_Suc_eq MAX_ASSEMBLY_SIZE_def)
  from rtp_delivers_frame [OF quiet_zero this, of env0 "[sof_packet, eof_packet]"] b
  show ?thesis by (simp add: parsed_packets env0_def reassembly_zero_def decoded_def List.map_filter_def)
qed

theorem rtp_idr_wait_holds_witness:
  "decoded (fold (rtp_reassembly_process_packet env0) [p_sof_packet, eof_packet]
      (reassembly_zero\<lparr>s_waiting_for_idr_frame := True\<rparr>)) = []"
proof -
  let ?s = "reassembly_zero\<lparr>s_waiting_for_idr_frame := True\<rparr>"
  have "\<not> sync_packet (the (rtp_parse p_sof_packet))" unfolding parsed_packets by code_simp
  then have "decoded (fold (rtp_reassembly_process_packet env0) [p_sof_packet, eof_packet] ?s) = decoded ?s"
    using rtp_idr_wait_holds [of ?s 7 "[the (rtp_parse p_sof_packet), the (rtp_parse eof_packet)]"
        "[p_sof_packet, eof_packet]" env0]
    by (simp add: parsed_packets reassembly_zero_def)
  then show ?thesis by (simp add: reassembly_zero_def decoded_def List.map_filter_def)
qed

theorem rtp_corrupt_mark_sticks_witness:
  "decoded (fold (rtp_reassembly_process_packet env0) [sof_packet, eof_packet]
      (reassembly_zero\<lparr>g_current_frame_is_corrupt := True\<rparr>)) = []"
proof -
  let ?s = "reassembly_zero\<lparr>g_current_frame_is_corrupt := True\<rparr>"
  have "list_all (\<lambda>n. \<not> g_frame_had_gaps (fold (rtp_reassembly_process_packet env0)
      (take n [sof_packet, eof_packet]) ?s)) [0..<3]" by code_simp
  then have "\<forall>n\<le>length [sof_packet, eof_packet]. \<not> g_frame_had_gaps (fold (rtp_reassembly_process_packet env0)
      (take n [sof_packet, eof_packet]) ?s)"
    by (auto simp: list_all_iff le_Suc_eq numeral_3_eq_3)
  then have "decoded (fold (rtp_reassembly_process_packet env0) [sof_packet, eof_packet] ?s) = decoded ?s"
    using rtp_corrupt_mark_sticks [of ?s "[sof_packet, eof_packet]" env0] by simp
  then show ?thesis by (simp add: reassembly_zero_def decoded_def List.map_filter_def)
qed

end
