(* ===== verification/RtpFec.thy ===== *)
theory RtpFec
  imports RtpReassembly ReedSolomon
begin

text \<open>
  The FEC queue (rtp_fec.c): the packets of the current frame are kept in slots by index, data first,
  then parity. A frame whose data is complete is handed to the reassembly; when a newer frame arrives
  the missing data of the current one is rebuilt with the Reed-Solomon codec or the frame is dropped
  and a replacement is requested. With CABAC streams packets of the next frame are held back for a
  while so that reordered parity can still arrive.

  A slot is \<open>None\<close> or the bytes of its packet (\<open>data[0 .. len)\<close>); the padding behind a short packet is
  added where the code zeroes it. Counters that the guards keep small are natural numbers, the others
  are machine words. The module's variables are split into those of the current frame (\<open>rtp_fec\<close>) and
  those of the held packets (\<open>fec_queue\<close>). The static context of rs.c, which the audio path shares,
  is \<open>s_rs_ctx\<close>; \<open>s_cached\<close> is the shape this module believes it has. Log lines, the counters that
  only limit them, and byte telemetry are left out.
\<close>

subsection \<open>State\<close>

definition FEC_MAX_PACKETS :: nat where "FEC_MAX_PACKETS = 128"
definition MAX_PKT_SIZE :: nat where "MAX_PKT_SIZE = 1500"
definition MAX_FEC_MULTI_BLOCKS :: nat where "MAX_FEC_MULTI_BLOCKS = 4"
definition UNRECOVERABLE_IDR_THRESHOLD :: int where "UNRECOVERABLE_IDR_THRESHOLD = 4"
definition CATASTROPHIC_LOSS_THRESHOLD :: nat where "CATASTROPHIC_LOSS_THRESHOLD = 3"
definition CONSECUTIVE_DROP_IDR_LIMIT :: u32 where "CONSECUTIVE_DROP_IDR_LIMIT = 120"
definition PRED_WINDOW_SIZE :: nat where "PRED_WINDOW_SIZE = 32"
definition PRED_RECENT_SIZE :: nat where "PRED_RECENT_SIZE = 8"
definition PRED_BURST_THRESH :: nat where "PRED_BURST_THRESH = 4"
definition CABAC_DEFERRED_PACKET_LIMIT :: nat where "CABAC_DEFERRED_PACKET_LIMIT = 24"
definition CABAC_DEFERRED_FRAME_SPAN_MAX :: u32 where "CABAC_DEFERRED_FRAME_SPAN_MAX = 1"

record fec_block =
  blk_data_packets :: nat
  blk_parity_packets :: nat
  blk_total_packets :: nat
  blk_received_count :: nat
  blk_received_data_count :: nat
  blk_fec_percentage :: nat
  blk_base_slot :: nat
  blk_max_slots :: nat
  blk_seen :: bool
  blk_recovered :: bool

record rtp_fec =
  vid :: reassembly
  g_slots :: "u8 list option list"
  g_current_frame :: u32
  g_lowest_seq :: u16
  g_data_packets :: nat
  g_parity_packets :: nat
  g_total_packets :: nat
  g_received_count :: nat
  g_received_from_network :: "bool list"
  g_network_received_count :: nat
  g_received_data_count :: nat
  g_received_parity_count :: nat
  g_highest_received_index :: nat
  g_fec_percentage :: nat
  g_frame_submitted :: bool
  g_initialized :: bool
  g_fec_last_highest_seq :: u16
  g_fec_last_next_contig_seq :: u16
  g_fec_last_missing_before_highest :: u16
  g_fec_last_data_pkts :: u16
  g_fec_last_parity_pkts :: u16
  g_fec_last_recv_data :: u16
  g_fec_last_recv_parity :: u16
  g_fec_last_fec_pct :: u8
  g_fec_blocks :: "fec_block list"
  g_num_fec_blocks :: nat
  g_fec_total_bytes_received :: u32
  g_fec_packets_received :: u32
  g_fec_packets_recovered :: u32
  g_fec_packets_failed :: u32
  g_fec_frames_dropped :: u32
  g_fec_recovery_attempts :: u32
  g_consecutive_frame_drops :: u32
  s_consec_unrecoverable :: int
  s_pred_window :: "bool list"
  s_pred_idx :: nat
  s_pred_count :: nat
  s_multi_send_counter :: nat
  s_fec_send_counter :: nat
  s_rs_ctx :: reed_solomon
  s_cached :: "(nat \<times> nat) option"
  s_dataDecodeMatrix :: "u8 list"

definition on_vid :: "(reassembly \<Rightarrow> reassembly) \<Rightarrow> rtp_fec \<Rightarrow> rtp_fec" where
  "on_vid f s = s\<lparr>vid := f (vid s)\<rparr>"

definition no_slots :: "u8 list option list" where
  "no_slots = replicate FEC_MAX_PACKETS None"

text \<open>The static initialisers.\<close>

definition block_zero :: fec_block where
  "block_zero = \<lparr>blk_data_packets = 0, blk_parity_packets = 0, blk_total_packets = 0, blk_received_count = 0,
     blk_received_data_count = 0, blk_fec_percentage = 0, blk_base_slot = 0, blk_max_slots = 0,
     blk_seen = False, blk_recovered = False\<rparr>"

definition fec_zero :: rtp_fec where
  "fec_zero = \<lparr>vid = reassembly_zero, g_slots = no_slots, g_current_frame = NO_FRAME, g_lowest_seq = 0,
     g_data_packets = 0, g_parity_packets = 0, g_total_packets = 0, g_received_count = 0,
     g_received_from_network = replicate FEC_MAX_PACKETS False, g_network_received_count = 0,
     g_received_data_count = 0, g_received_parity_count = 0, g_highest_received_index = 0,
     g_fec_percentage = 0, g_frame_submitted = False, g_initialized = False,
     g_fec_last_highest_seq = 0, g_fec_last_next_contig_seq = 0, g_fec_last_missing_before_highest = 0,
     g_fec_last_data_pkts = 0, g_fec_last_parity_pkts = 0, g_fec_last_recv_data = 0,
     g_fec_last_recv_parity = 0, g_fec_last_fec_pct = 0,
     g_fec_blocks = replicate MAX_FEC_MULTI_BLOCKS block_zero, g_num_fec_blocks = 1,
     g_fec_total_bytes_received = 0, g_fec_packets_received = 0, g_fec_packets_recovered = 0,
     g_fec_packets_failed = 0, g_fec_frames_dropped = 0, g_fec_recovery_attempts = 0,
     g_consecutive_frame_drops = 0, s_consec_unrecoverable = 0,
     s_pred_window = replicate PRED_WINDOW_SIZE False, s_pred_idx = 0, s_pred_count = 0,
     s_multi_send_counter = 0, s_fec_send_counter = 0,
     s_rs_ctx = \<lparr>data_shards = 0, parity_shards = 0, shards_total = 0, parity = []\<rparr>, s_cached = None,
     s_dataDecodeMatrix = replicate (DATA_SHARDS_MAX * DATA_SHARDS_MAX) 0\<rparr>"

subsection \<open>Receive status\<close>

definition reset_frame_receive_status :: "rtp_fec \<Rightarrow> rtp_fec" where
  "reset_frame_receive_status s =
     s\<lparr>g_received_from_network := replicate FEC_MAX_PACKETS False, g_network_received_count := 0,
       g_received_data_count := 0, g_received_parity_count := 0, g_highest_received_index := 0\<rparr>"

definition mark_frame_packet_received :: "nat \<Rightarrow> bool \<Rightarrow> rtp_fec \<Rightarrow> rtp_fec" where
  "mark_frame_packet_received index is_data s =
     (if index \<ge> FEC_MAX_PACKETS \<or> g_received_from_network s ! index then s
      else
        let s = s\<lparr>g_received_from_network := (g_received_from_network s)[index := True],
                  g_highest_received_index :=
                    (if g_network_received_count s = 0 \<or> index > g_highest_received_index s
                     then index else g_highest_received_index s),
                  g_network_received_count := g_network_received_count s + 1\<rparr>
        in if is_data then s\<lparr>g_received_data_count := g_received_data_count s + 1\<rparr>
           else s\<lparr>g_received_parity_count := g_received_parity_count s + 1\<rparr>)"

definition count_missing_current_data_packets :: "rtp_fec \<Rightarrow> nat" where
  "count_missing_current_data_packets s =
     length (filter (\<lambda>i. g_slots s ! i = None) [0..<min (g_data_packets s) FEC_MAX_PACKETS])"

definition rtp_fec_init :: "rtp_fec \<Rightarrow> rtp_fec" where
  "rtp_fec_init s =
     (reset_frame_receive_status (s\<lparr>g_slots := no_slots\<rparr>))
       \<lparr>g_current_frame := NO_FRAME, g_initialized := True, g_consecutive_frame_drops := 0\<rparr>"

text \<open>The part of \<open>rtp_fec_reset\<close> that does not concern the held packets.\<close>

definition reset_block :: "fec_block \<Rightarrow> fec_block" where
  "reset_block b =
     b\<lparr>blk_seen := False, blk_recovered := False, blk_received_count := 0, blk_received_data_count := 0\<rparr>"

definition reset_current :: "rtp_fec \<Rightarrow> rtp_fec" where
  "reset_current s =
     (reset_frame_receive_status
        (on_vid (\<lambda>v. v\<lparr>g_fec_recovery_clean := False\<rparr>)
          (s\<lparr>g_slots := no_slots, g_current_frame := NO_FRAME, g_lowest_seq := 0, g_data_packets := 0,
             g_parity_packets := 0, g_total_packets := 0, g_received_count := 0\<rparr>)))
       \<lparr>g_fec_percentage := 0, g_frame_submitted := False, s_consec_unrecoverable := 0,
         g_consecutive_frame_drops := 0, s_pred_window := replicate PRED_WINDOW_SIZE False,
         s_pred_idx := 0, s_pred_count := 0, g_num_fec_blocks := 1,
         g_fec_blocks := map reset_block (g_fec_blocks s),
         s_rs_ctx := (if s_cached s = None then s_rs_ctx s else reed_solomon_release (s_rs_ctx s)), s_cached := None\<rparr>"

definition rtp_get_video_stats :: "rtp_fec \<Rightarrow> u32 list" where
  "rtp_get_video_stats s =
     [g_fec_packets_received s, g_fec_packets_recovered s, g_fec_packets_failed s,
      g_fec_frames_dropped s, g_fec_recovery_attempts s, g_fec_total_bytes_received s,
      g_consecutive_frame_drops s]"

subsection \<open>Status reports\<close>

definition update_fec_status_cache :: "rtp_fec \<Rightarrow> rtp_fec" where
  "update_fec_status_cache s =
     (let total = g_total_packets s;
          scan_limit = (if total = 0 \<or> total > FEC_MAX_PACKETS then FEC_MAX_PACKETS else total);
          n = g_network_received_count s; highest = g_highest_received_index s;
          scan_limit = (if n > 0 \<and> highest + 1 > scan_limit then highest + 1 else scan_limit);
          net = g_received_from_network s;
          next_idx = length (takeWhile (\<lambda>x. x) (take scan_limit net));
          missing = (if n > 0 then length (filter (\<lambda>x. \<not> x) (take (min highest scan_limit) net)) else 0)
      in s\<lparr>g_fec_last_highest_seq := (if n > 0 then g_lowest_seq s + of_nat highest else g_lowest_seq s),
           g_fec_last_next_contig_seq := (if n > 0 then g_lowest_seq s + of_nat next_idx else g_lowest_seq s),
           g_fec_last_missing_before_highest := of_nat (min missing 0xFFFF),
           g_fec_last_data_pkts := of_nat (g_data_packets s),
           g_fec_last_parity_pkts := of_nat (g_parity_packets s),
           g_fec_last_recv_data := of_nat (g_received_data_count s),
           g_fec_last_recv_parity := of_nat (g_received_parity_count s),
           g_fec_last_fec_pct := of_nat (g_fec_percentage s)\<rparr>)"

text \<open>The call of \<open>control_stream_send_fec_status\<close> that three places make; its last two arguments are
  always 0 and 1.\<close>

definition send_fec_status :: "rtp_fec \<Rightarrow> rtp_fec" where
  "send_fec_status s =
     on_vid (emit (Fec_status (g_current_frame s)
       [g_fec_last_highest_seq s, g_fec_last_next_contig_seq s, g_fec_last_missing_before_highest s,
        g_fec_last_data_pkts s, g_fec_last_parity_pkts s, g_fec_last_recv_data s,
        g_fec_last_recv_parity s] (g_fec_last_fec_pct s))) s"

definition maybe_send_fec_status :: "rtp_fec \<Rightarrow> rtp_fec" where
  "maybe_send_fec_status s =
     (let s = update_fec_status_cache s; n = s_multi_send_counter s + 1
      in if n < 3 then s\<lparr>s_multi_send_counter := n\<rparr>
         else send_fec_status (s\<lparr>s_multi_send_counter := 0\<rparr>))"

subsection \<open>Packet geometry\<close>

definition rtp_nv_offset_from_packet :: "u8 list \<Rightarrow> nat option" where
  "rtp_nv_offset_from_packet p =
     (if length p < 12 then None
      else if p ! 0 AND 0x10 \<noteq> 0
      then if length p < 16 then None else if length p < 16 + 16 then None else Some 16
      else if length p < 12 + 16 then None else Some 12)"

definition packet_frame_index :: "u8 list \<Rightarrow> u32" where
  "packet_frame_index p =
     (if length p < 12 + 16 then NO_FRAME
      else if p ! 0 AND 0x10 \<noteq> 0
      then if length p < 16 + 16 then NO_FRAME else read_le32 p (16 + 4)
      else read_le32 p (12 + 4))"

definition fec_configured_packet_size :: "video_env \<Rightarrow> nat" where
  "fec_configured_packet_size e =
     (let packet_size = (if cfg_packetSize e > 0 then nat (cfg_packetSize e) else 1200);
          packet_size = packet_size - packet_size mod 16
      in if packet_size < 512 then 512 else if packet_size > 1392 then 1392 else packet_size)"

definition fec_recovery_symbol_size :: "video_env \<Rightarrow> nat" where
  "fec_recovery_symbol_size e =
     (let receive_size = fec_configured_packet_size e + 16;
          receive_size = (if receive_size > MAX_PKT_SIZE then MAX_PKT_SIZE else receive_size)
      in if receive_size < 12 + 16 then 12 + 16 else receive_size)"

definition fec_recovered_data_len :: "video_env \<Rightarrow> u8 list \<Rightarrow> nat \<Rightarrow> nat" where
  "fec_recovered_data_len e p receive_size =
     (let len = (if p ! 0 AND 0x10 \<noteq> 0 then 16 else 12) + fec_configured_packet_size e;
          len = (if len > receive_size then receive_size else len)
      in if len > MAX_PKT_SIZE then MAX_PKT_SIZE else len)"

text \<open>\<open>fec_slot_nv\<close> returns a pointer to the NV header of a slot: here the packet and the offset.\<close>

definition fec_slot_nv :: "nat \<Rightarrow> rtp_fec \<Rightarrow> (u8 list \<times> nat) option" where
  "fec_slot_nv slot s =
     (if slot \<ge> FEC_MAX_PACKETS then None
      else case g_slots s ! slot of
          None \<Rightarrow> None
        | Some p \<Rightarrow>
            if p = [] then None
            else (case rtp_nv_offset_from_packet p of None \<Rightarrow> None | Some off \<Rightarrow> Some (p, off)))"

definition fec_nv_stream_packet_index :: "u8 list \<Rightarrow> nat \<Rightarrow> u32" where
  "fec_nv_stream_packet_index p off = drop_bit 8 (read_le32 p off) AND 0x00FFFFFF"

subsection \<open>Recovered packets\<close>

text \<open>The packet a recovered header is patched from: the first other received one, preferably one that
  came from the network.\<close>

definition reference_packet :: "nat \<Rightarrow> rtp_fec \<Rightarrow> u8 list option" where
  "reference_packet slot s =
     (let others = filter (\<lambda>i. i \<noteq> slot \<and> (case g_slots s ! i of None \<Rightarrow> False | Some p \<Rightarrow> length p \<ge> 12))
                     [0..<min (g_total_packets s) FEC_MAX_PACKETS]
      in case filter (\<lambda>i. g_received_from_network s ! i) others @ others of
          [] \<Rightarrow> None
        | i # _ \<Rightarrow> g_slots s ! i)"

definition patched_header :: "u8 list \<Rightarrow> u16 \<Rightarrow> u32 \<Rightarrow> nat \<Rightarrow> nat \<Rightarrow> u8 list \<Rightarrow> u8 list" where
  "patched_header ref seq frame block_num last_block_num p =
     (let p = p[0 := ref ! 0, 1 := (p ! 1 AND 0x80) OR (ref ! 1 AND 0x7F)];
          p = patch 4 (take 8 (drop 4 ref)) (write_be16 2 seq p)
      in case rtp_nv_offset_from_packet p of
          None \<Rightarrow> p
        | Some off \<Rightarrow>
            (write_le32 (off + 4) frame p)
              [off + 11 := push_bit 4 (push_bit 2 (of_nat last_block_num AND 0x03)
                                       OR (of_nat block_num AND 0x03))])"

definition fec_patch_recovered_packet_header :: "nat \<Rightarrow> nat \<Rightarrow> nat \<Rightarrow> rtp_fec \<Rightarrow> rtp_fec" where
  "fec_patch_recovered_packet_header slot block_num last_block_num s =
     (if slot \<ge> FEC_MAX_PACKETS then s
      else case g_slots s ! slot of
          None \<Rightarrow> s
        | Some p \<Rightarrow>
            if length p < 12 then s
            else (case reference_packet slot s of
                None \<Rightarrow> s
              | Some ref \<Rightarrow>
                  s\<lparr>g_slots := (g_slots s)[slot := Some (patched_header ref
                      (g_lowest_seq s + of_nat slot) (g_current_frame s) block_num last_block_num p)]\<rparr>))"

definition spi_follows :: "u8 list \<times> nat \<Rightarrow> u8 list \<times> nat \<Rightarrow> bool" where
  "spi_follows prev this \<longleftrightarrow>
     (case (prev, this) of ((p, i), (q, j)) \<Rightarrow>
        fec_nv_stream_packet_index q j = (fec_nv_stream_packet_index p i + 1) AND 0x00FFFFFF)"

definition flags_fit :: "u8 \<Rightarrow> nat \<Rightarrow> nat \<Rightarrow> bool" where
  "flags_fit flags slot data_packets \<longleftrightarrow>
     flags AND NOT (0x04 OR 0x02 OR 0x01) = 0
     \<and> (slot = 0 \<longleftrightarrow> flags AND 0x04 \<noteq> 0)
     \<and> (slot + 1 = data_packets \<longleftrightarrow> flags AND 0x02 \<noteq> 0)
     \<and> (slot > 0 \<and> slot + 1 < data_packets \<longrightarrow> flags AND 0x01 \<noteq> 0)"

definition fec_validate_recovered_data_packet :: "nat \<Rightarrow> nat \<Rightarrow> rtp_fec \<Rightarrow> bool" where
  "fec_validate_recovered_data_packet slot data_packets s \<longleftrightarrow>
     (case fec_slot_nv slot s of
        None \<Rightarrow> False
      | Some (p, off) \<Rightarrow>
          flags_fit (p ! (off + 8)) slot data_packets
          \<and> (slot > 0 \<longrightarrow> (case fec_slot_nv (slot - 1) s of
               None \<Rightarrow> True | Some adj \<Rightarrow> spi_follows adj (p, off)))
          \<and> (slot + 1 < data_packets \<longrightarrow> (case fec_slot_nv (slot + 1) s of
               None \<Rightarrow> True | Some adj \<Rightarrow> spi_follows (p, off) adj)))"

subsection \<open>Loss prediction\<close>

definition record_result :: "bool \<Rightarrow> rtp_fec \<Rightarrow> rtp_fec" where
  "record_result dropped s =
     on_vid (emit (if dropped then Report_frame_drop else Report_frame_ok))
       (s\<lparr>s_pred_window := (s_pred_window s)[s_pred_idx s := dropped],
          s_pred_idx := (s_pred_idx s + 1) mod PRED_WINDOW_SIZE,
          s_pred_count := (if s_pred_count s < PRED_WINDOW_SIZE then s_pred_count s + 1 else s_pred_count s)\<rparr>)"

definition rtp_fec_get_predicted_loss :: "rtp_fec \<Rightarrow> nat" where
  "rtp_fec_get_predicted_loss s =
     (if s_pred_count s < PRED_RECENT_SIZE then 0
      else
        let recent_drops = length (filter
              (\<lambda>i. s_pred_window s ! ((s_pred_idx s + PRED_WINDOW_SIZE - 1 - i) mod PRED_WINDOW_SIZE))
              [0..<PRED_RECENT_SIZE])
        in if recent_drops \<ge> PRED_BURST_THRESH then recent_drops else 0)"

subsection \<open>Dropping a frame\<close>

definition note_current_frame_drop_for_recovery :: "video_env \<Rightarrow> rtp_fec \<Rightarrow> rtp_fec" where
  "note_current_frame_drop_for_recovery e s =
     (if g_last_good_frame (vid s) \<noteq> 0 \<and> g_current_frame s \<noteq> NO_FRAME
      then on_vid (rtp_reassembly_note_frame_loss e (g_current_frame s) (g_current_frame s)) s else s)"

definition request_current_frame_rfi :: "rtp_fec \<Rightarrow> rtp_fec" where
  "request_current_frame_rfi s =
     (if g_current_frame s \<noteq> NO_FRAME
      then on_vid (emit (Request_rfi (g_current_frame s) (g_current_frame s))) s else s)"

definition request_idr :: "rtp_fec \<Rightarrow> rtp_fec" where
  "request_idr s = on_vid (\<lambda>v. emit Request_idr (v\<lparr>g_idr_fully_decoded := False\<rparr>)) s"

definition count_drop :: "rtp_fec \<Rightarrow> rtp_fec" where
  "count_drop s =
     record_result True (s\<lparr>g_fec_frames_dropped := g_fec_frames_dropped s + 1,
       g_consecutive_frame_drops := g_consecutive_frame_drops s + 1\<rparr>)"

definition drop_current_frame_strict :: "video_env \<Rightarrow> rtp_fec \<Rightarrow> rtp_fec" where
  "drop_current_frame_strict e s =
     (let s = count_drop (send_fec_status (update_fec_status_cache s));
          s = (on_vid (\<lambda>v. v\<lparr>g_fec_recovery_clean := False\<rparr>) s)\<lparr>g_frame_submitted := True\<rparr>;
          s = note_current_frame_drop_for_recovery e s
      in if g_last_good_frame (vid s) = 0 \<or> g_refs_corrupted (vid s)
            \<or> g_consecutive_frame_drops s \<ge> CONSECUTIVE_DROP_IDR_LIMIT
         then
           let s = on_vid (\<lambda>v. emit Request_idr
                     (v\<lparr>g_idr_fully_decoded := False, g_fec_requested_idr := True\<rparr>)) s
           in if g_consecutive_frame_drops s \<ge> CONSECUTIVE_DROP_IDR_LIMIT
              then s\<lparr>g_consecutive_frame_drops := 0\<rparr> else s
         else request_current_frame_rfi s)"

text \<open>Too few packets for a recovery: the frame is dropped and the request escalates with the number of
  drops in a row.\<close>

definition request_after_loss :: "video_env \<Rightarrow> nat \<Rightarrow> rtp_fec \<Rightarrow> rtp_fec" where
  "request_after_loss e missing s =
     (let lgf = g_last_good_frame (vid s);
          escalate = (s_consec_unrecoverable s \<ge> UNRECOVERABLE_IDR_THRESHOLD
                      \<or> missing \<ge> CATASTROPHIC_LOSS_THRESHOLD * 2)
      in if lgf = 0 then (request_idr s)\<lparr>s_consec_unrecoverable := 0\<rparr>
         else if g_refs_corrupted (vid s)
         then if escalate then (request_idr s)\<lparr>s_consec_unrecoverable := 0\<rparr>
              else if s_waiting_for_idr_frame (vid s) then on_vid (emit Request_idr) s
              else on_vid (emit (Request_rfi (lgf + 1) (g_current_frame s))) s
         else if g_consecutive_frame_drops s \<ge> CONSECUTIVE_DROP_IDR_LIMIT
         then (request_idr s)\<lparr>g_consecutive_frame_drops := 0, s_consec_unrecoverable := 0\<rparr>
         else
           let s = (if s_waiting_for_idr_frame (vid s) then on_vid (emit Request_idr) s
                    else request_current_frame_rfi s)
           in if escalate
              then on_vid (\<lambda>v. rtp_reassembly_note_frame_loss e (lgf + 1) (g_current_frame s)
                     (v\<lparr>g_refs_corrupted := True, g_idr_fully_decoded := False\<rparr>)) s
              else s)"

definition drop_unrecoverable :: "video_env \<Rightarrow> nat \<Rightarrow> rtp_fec \<Rightarrow> rtp_fec" where
  "drop_unrecoverable e missing s =
     (let s = count_drop (s\<lparr>g_fec_packets_failed := g_fec_packets_failed s + of_nat missing\<rparr>);
          s = send_fec_status (update_fec_status_cache s);
          s = note_current_frame_drop_for_recovery e
                (s\<lparr>s_consec_unrecoverable := s_consec_unrecoverable s + 1\<rparr>)
      in (request_after_loss e missing s)\<lparr>g_frame_submitted := True\<rparr>)"

subsection \<open>Submitting a frame\<close>

text \<open>One slot: the frame id in its NV header is overwritten, in place, and the packet goes to the
  reassembly.\<close>

definition submit_slot :: "video_env \<Rightarrow> nat \<Rightarrow> rtp_fec \<Rightarrow> rtp_fec" where
  "submit_slot e i s =
     (if i \<ge> FEC_MAX_PACKETS then s
      else case g_slots s ! i of
        None \<Rightarrow> s
      | Some p \<Rightarrow>
          if p = [] then s
          else
            let p = (case rtp_nv_offset_from_packet p of
                       Some off \<Rightarrow> if length p > off + 8 then write_le32 (off + 4) (g_current_frame s) p else p
                     | None \<Rightarrow> p)
            in on_vid (rtp_reassembly_process_packet e p) (s\<lparr>g_slots := (g_slots s)[i := Some p]\<rparr>))"

definition report_submitted :: "rtp_fec \<Rightarrow> rtp_fec" where
  "report_submitted s =
     (let n = g_received_count s; d = g_data_packets s;
          s = s\<lparr>g_fec_last_highest_seq := g_lowest_seq s + (if n > 0 then of_nat (n - 1) else 0),
                g_fec_last_next_contig_seq := g_lowest_seq s + (if d > 0 then of_nat (d - 1) else 0),
                g_fec_last_missing_before_highest := 0,
                g_fec_last_data_pkts := of_nat d,
                g_fec_last_parity_pkts := of_nat (g_parity_packets s),
                g_fec_last_recv_data := of_nat (if n > d then d else n),
                g_fec_last_recv_parity := of_nat (if n > d then n - d else 0),
                g_fec_last_fec_pct := of_nat (g_fec_percentage s)\<rparr>;
          k = s_fec_send_counter s + 1
      in if k \<ge> 5 then send_fec_status (s\<lparr>s_fec_send_counter := 0\<rparr>) else s\<lparr>s_fec_send_counter := k\<rparr>)"

definition block_slots :: "fec_block \<Rightarrow> nat list" where
  "block_slots b = map (\<lambda>i. blk_base_slot b + i) [0..<min (blk_data_packets b) (blk_max_slots b)]"

definition submit_frame_packets :: "video_env \<Rightarrow> rtp_fec \<Rightarrow> rtp_fec" where
  "submit_frame_packets e s =
     (let s = on_vid (rtp_reassembly_prepare_fec_frame (g_current_frame s)) s in
      if g_num_fec_blocks s > 1
      then maybe_send_fec_status
             ((fold (submit_slot e)
                 (concat (map block_slots (filter blk_seen (take (g_num_fec_blocks s) (g_fec_blocks s))))) s)
               \<lparr>g_frame_submitted := True\<rparr>)
      else if g_slots s ! 0 = None \<and> g_data_packets s > 1 then drop_current_frame_strict e s
      else
        let s = (fold (submit_slot e) [0..<min (g_data_packets s) FEC_MAX_PACKETS] s)\<lparr>g_frame_submitted := True\<rparr>;
            s = (if g_num_fec_blocks s \<le> 1 \<and> g_total_packets s > 0
                 then on_vid (rtp_reassembly_note_fec_frame_complete
                        (g_lowest_seq s + of_nat (g_total_packets s))) s
                 else s)
        in report_submitted s)"

subsection \<open>Reed-Solomon recovery\<close>

text \<open>The shared context is reused if the remembered shape and the fields of the context agree with the
  frame. The matrix itself is not compared.\<close>

definition rs_context :: "nat \<Rightarrow> nat \<Rightarrow> rtp_fec \<Rightarrow> bool \<times> rtp_fec" where
  "rs_context d p s =
     (if s_cached s = Some (d, p) \<and> data_shards (s_rs_ctx s) = d \<and> parity_shards (s_rs_ctx s) = p then (True, s)
      else case reed_solomon_new (int d) (int p) of
          None \<Rightarrow> (False, s\<lparr>s_cached := None, s_rs_ctx := \<lparr>data_shards = d, parity_shards = p,
                     shards_total = d + p, parity = []\<rparr>\<rparr>)
        | Some rs \<Rightarrow> (True, s\<lparr>s_cached := Some (d, p), s_rs_ctx := rs\<rparr>))"

text \<open>The shards are the packets cut or padded to the symbol size, with zeros for the missing ones; an
  index without a slot is a null pointer.\<close>

definition slot_shard :: "nat \<Rightarrow> u8 list option \<Rightarrow> u8 list" where
  "slot_shard R q = (case q of None \<Rightarrow> replicate R 0 | Some p \<Rightarrow> take R p @ replicate (R - length p) 0)"

definition slot_mark :: "u8 list option \<Rightarrow> u8" where
  "slot_mark q = (if q = None then 1 else 0)"

definition block_marks :: "nat \<Rightarrow> nat \<Rightarrow> nat \<Rightarrow> rtp_fec \<Rightarrow> u8 list" where
  "block_marks base max_slots n s =
     map (\<lambda>i. if i < max_slots \<and> base + i < FEC_MAX_PACKETS then slot_mark (g_slots s ! (base + i)) else 1) [0..<n]"

definition block_shards :: "nat \<Rightarrow> nat \<Rightarrow> nat \<Rightarrow> nat \<Rightarrow> rtp_fec \<Rightarrow> u8 list list" where
  "block_shards base max_slots n R s =
     map (\<lambda>i. if i < max_slots \<and> base + i < FEC_MAX_PACKETS then slot_shard R (g_slots s ! (base + i)) else [])
       [0..<n]"

definition run_reconstruct :: "u8 list \<Rightarrow> u8 list list \<Rightarrow> nat \<Rightarrow> rtp_fec \<Rightarrow> int \<times> u8 list list \<times> rtp_fec" where
  "run_reconstruct marks sh R s =
     (case reed_solomon_reconstruct (s_rs_ctx s) marks (length marks) R (s_dataDecodeMatrix s, sh) of
        (ret, wrk, out) \<Rightarrow>
          (ret, out, s\<lparr>s_dataDecodeMatrix := wrk, g_fec_recovery_attempts := g_fec_recovery_attempts s + 1\<rparr>))"

definition install_slot ::
    "video_env \<Rightarrow> nat \<Rightarrow> nat \<Rightarrow> nat \<Rightarrow> nat \<Rightarrow> u8 list \<Rightarrow> rtp_fec \<Rightarrow> rtp_fec" where
  "install_slot e R block_num last_block_num slot d s =
     (let s = fec_patch_recovered_packet_header slot block_num last_block_num
                (s\<lparr>g_slots := (g_slots s)[slot := Some (take R d)]\<rparr>);
          p = the (g_slots s ! slot)
      in s\<lparr>g_slots := (g_slots s)[slot := Some (take (fec_recovered_data_len e p R) p)]\<rparr>)"

text \<open>The rebuilt packets are installed one after the other; the first one that does not look like the
  packet of its position stops the loop.\<close>

fun install_recovered ::
    "video_env \<Rightarrow> nat \<Rightarrow> u8 list \<Rightarrow> u8 list list \<Rightarrow> nat list \<Rightarrow> rtp_fec \<Rightarrow> bool \<times> rtp_fec" where
  "install_recovered e R marks out [] s = (True, s)"
| "install_recovered e R marks out (i # is) s =
     (if marks ! i = 0 then install_recovered e R marks out is s
      else
        let s = install_slot e R 0 0 i (out ! i) s in
        if fec_validate_recovered_data_packet i (g_data_packets s) s
        then install_recovered e R marks out is s
        else (False, s\<lparr>g_slots := (g_slots s)[i := None]\<rparr>))"

definition mark_refs_corrupt :: "rtp_fec \<Rightarrow> rtp_fec" where
  "mark_refs_corrupt = on_vid (\<lambda>v. v\<lparr>g_refs_corrupted := True, g_current_frame_is_corrupt := True\<rparr>)"

definition recover_and_submit :: "video_env \<Rightarrow> nat \<Rightarrow> rtp_fec \<Rightarrow> rtp_fec" where
  "recover_and_submit e missing s =
     (let R = fec_recovery_symbol_size e; total = g_total_packets s;
          marks = block_marks 0 FEC_MAX_PACKETS total s; sh = block_shards 0 FEC_MAX_PACKETS total R s;
          (ok, s) = rs_context (g_data_packets s) (g_parity_packets s) s
      in if \<not> ok then drop_current_frame_strict e (mark_refs_corrupt s)
         else
           let (ret, out, s) = run_reconstruct marks sh R s in
           if ret = 0
           then
             let (valid, s) = install_recovered e R marks out [0..<g_data_packets s] s in
             if \<not> valid
             then drop_current_frame_strict e
                    (on_vid (\<lambda>v. v\<lparr>g_fec_recovery_clean := False\<rparr>)
                      (s\<lparr>g_fec_packets_failed := g_fec_packets_failed s + of_nat missing\<rparr>))
             else submit_frame_packets e
                    (record_result False (on_vid (\<lambda>v. v\<lparr>g_fec_recovery_clean := True\<rparr>)
                      (s\<lparr>g_fec_packets_recovered := g_fec_packets_recovered s + of_nat missing\<rparr>)))
           else drop_current_frame_strict e
                  (on_vid (\<lambda>v. v\<lparr>g_idr_fully_decoded := False, g_fec_recovery_clean := False\<rparr>)
                    (mark_refs_corrupt
                      (s\<lparr>g_fec_packets_failed := g_fec_packets_failed s + of_nat missing\<rparr>))))"

subsection \<open>Several FEC blocks\<close>

text \<open>One block. The two flags collect whether some block cannot be recovered and whether the codec
  failed on one.\<close>

definition recover_block :: "video_env \<Rightarrow> nat \<Rightarrow> bool \<times> bool \<times> rtp_fec \<Rightarrow> bool \<times> bool \<times> rtp_fec" where
  "recover_block e b = (\<lambda>(unrec, failed, s).
     let blk = g_fec_blocks s ! b;
         d = blk_data_packets blk; base = blk_base_slot blk; max_slots = blk_max_slots blk;
         total = blk_total_packets blk; done_with = (\<lambda>s. s\<lparr>g_fec_blocks := (g_fec_blocks s)[b := blk\<lparr>blk_recovered := True\<rparr>]\<rparr>);
         missing = length (filter (\<lambda>i. base + i < FEC_MAX_PACKETS \<and> g_slots s ! (base + i) = None) [0..<min d max_slots])
     in if \<not> blk_seen blk \<or> total = 0 then (True, failed, s)
        else if missing = 0 then (unrec, failed, done_with s)
        else if blk_received_count blk < d then (True, failed, s)
        else
          let R = fec_recovery_symbol_size e;
              marks = block_marks base max_slots total s; sh = block_shards base max_slots total R s;
              (ok, s) = rs_context d (blk_parity_packets blk) s
          in if \<not> ok then (unrec, True, s)
             else
               let (ret, out, s) = run_reconstruct marks sh R s in
               if ret \<noteq> 0
               then (unrec, True, s\<lparr>g_fec_packets_failed := g_fec_packets_failed s + of_nat missing\<rparr>)
               else
                 let lost = filter (\<lambda>i. base + i < FEC_MAX_PACKETS \<and> marks ! i \<noteq> 0) [0..<min d max_slots];
                     s = fold (\<lambda>i. install_slot e R b (g_num_fec_blocks s - 1) (base + i) (out ! i)) lost s
                 in (unrec, failed, done_with
                       (s\<lparr>g_fec_packets_recovered := g_fec_packets_recovered s + of_nat (length lost)\<rparr>)))"

definition attempt_multi_block_recovery_and_submit :: "video_env \<Rightarrow> rtp_fec \<Rightarrow> rtp_fec" where
  "attempt_multi_block_recovery_and_submit e s =
     (let (unrec, failed, s) = fold (recover_block e) [0..<g_num_fec_blocks s] (False, False, s)
      in if unrec \<or> failed then drop_current_frame_strict e s
         else submit_frame_packets e
                (on_vid (\<lambda>v. v\<lparr>g_fec_recovery_clean := True\<rparr>) (s\<lparr>s_consec_unrecoverable := 0\<rparr>)))"

definition attempt_recovery_and_submit :: "video_env \<Rightarrow> rtp_fec \<Rightarrow> rtp_fec" where
  "attempt_recovery_and_submit e s =
     (if g_num_fec_blocks s > 1 then attempt_multi_block_recovery_and_submit e s
      else if g_data_packets s = 0 \<or> g_total_packets s = 0 \<or> g_total_packets s > FEC_MAX_PACKETS
      then submit_frame_packets e s
      else
        let missing = length (filter (\<lambda>i. g_slots s ! i = None) [0..<g_data_packets s]) in
        if missing = 0
        then submit_frame_packets e
               (record_result False (on_vid (\<lambda>v. v\<lparr>g_fec_recovery_clean := True\<rparr>)
                 (s\<lparr>s_consec_unrecoverable := 0, g_consecutive_frame_drops := 0\<rparr>)))
        else if g_received_count s < g_data_packets s then drop_unrecoverable e missing s
        else
          let s = s\<lparr>s_consec_unrecoverable := 0, g_consecutive_frame_drops := 0\<rparr>;
              parity_received = length (filter (\<lambda>i. g_slots s ! i \<noteq> None) [g_data_packets s..<g_total_packets s])
          in if parity_received < missing
             then drop_current_frame_strict e
                    (s\<lparr>g_fec_packets_failed := g_fec_packets_failed s + of_nat missing,
                       g_fec_recovery_attempts := g_fec_recovery_attempts s + 1\<rparr>)
             else recover_and_submit e missing s)"

subsection \<open>A packet\<close>

definition fec_max_reasonable_data_packets :: "video_env \<Rightarrow> nat" where
  "fec_max_reasonable_data_packets e =
     (let fps = (if cfg_fps e > 0 then word_of_int (cfg_fps e) else 15 :: u32);
          bitrate = (if cfg_bitrate e > 0 then word_of_int (cfg_bitrate e) else 500 :: u32);
          avg_pkts = ((bitrate * 1000 div 8) div fps) div 900;
          avg_pkts = (if avg_pkts < 1 then 1 else avg_pkts);
          max_pkts = avg_pkts * 20;
          max_pkts = (if max_pkts < 32 then 32 else max_pkts)
      in if max_pkts > of_nat FEC_MAX_PACKETS then FEC_MAX_PACKETS else unat max_pkts)"

record fec_packet =
  fp_seq :: u16
  fp_frame :: u32
  fp_data_pkts :: nat
  fp_index :: nat
  fp_pct :: nat
  fp_block :: nat
  fp_num_blocks :: nat

definition fp_parity :: "fec_packet \<Rightarrow> nat" where
  "fp_parity k = (fp_data_pkts k * fp_pct k + 99) div 100"

definition fp_total :: "fec_packet \<Rightarrow> nat" where
  "fp_total k = fp_data_pkts k + fp_parity k"

definition fec_parse :: "u8 list \<Rightarrow> fec_packet option" where
  "fec_parse p =
     (let off = (if p ! 0 AND 0x10 \<noteq> 0 then 16 else 12) in
      if length p < off + 16 then None
      else
        let info = read_le32 p (off + 12); multi = p ! (off + 11)
        in Some \<lparr>fp_seq = read_be16 p 2, fp_frame = read_le32 p (off + 4),
                 fp_data_pkts = unat (drop_bit 22 (info AND 0xFFC00000)),
                 fp_index = unat (drop_bit 12 (info AND 0x3FF000)),
                 fp_pct = unat (drop_bit 4 (info AND 0xFF0)),
                 fp_block = unat (drop_bit 4 multi AND 0x03),
                 fp_num_blocks = unat (drop_bit 6 multi AND 0x03) + 1\<rparr>)"

text \<open>The checks that end the handling of a packet before it touches the frame: \<open>Some True\<close> if it is
  consumed (stale, junk or corrupt), \<open>Some False\<close> if it is left to the reassembly.\<close>

definition fec_verdict :: "video_env \<Rightarrow> fec_packet \<Rightarrow> rtp_fec \<Rightarrow> bool option" where
  "fec_verdict e k s =
     (let delta = sint (fp_frame k - g_current_frame s) in
      if fp_block k \<ge> MAX_FEC_MULTI_BLOCKS then Some False
      else if g_current_frame s \<noteq> NO_FRAME \<and> (delta < 0 \<or> delta > 1000) then Some True
      else if fp_data_pkts k > FEC_MAX_PACKETS \<or> fp_data_pkts k > fec_max_reasonable_data_packets e
              \<or> fp_total k > FEC_MAX_PACKETS \<or> fp_index k \<ge> FEC_MAX_PACKETS
      then Some True
      else if fp_data_pkts k > 0 \<and> fp_index k \<ge> fp_total k then Some True
      else if fp_data_pkts k = 0 then Some False
      else None)"

definition submit_pending :: "video_env \<Rightarrow> rtp_fec \<Rightarrow> rtp_fec" where
  "submit_pending e s =
     (if g_current_frame s \<noteq> NO_FRAME \<and> \<not> g_frame_submitted s \<and> g_received_count s > 0
      then attempt_recovery_and_submit e s else s)"

definition fresh_block :: "fec_packet \<Rightarrow> nat \<Rightarrow> nat \<Rightarrow> nat \<Rightarrow> fec_block" where
  "fresh_block k n spb b =
     (let single = (n = 1 \<and> b = 0)
      in \<lparr>blk_data_packets = (if single then fp_data_pkts k else 0),
          blk_parity_packets = (if single then fp_parity k else 0),
          blk_total_packets = (if single then fp_total k else 0),
          blk_received_count = 0, blk_received_data_count = 0,
          blk_fec_percentage = (if single then fp_pct k else 0),
          blk_base_slot = b * spb, blk_max_slots = spb, blk_seen = single, blk_recovered = False\<rparr>)"

definition start_fec_frame :: "fec_packet \<Rightarrow> rtp_fec \<Rightarrow> rtp_fec" where
  "start_fec_frame k s =
     (let n = (if fp_num_blocks k > MAX_FEC_MULTI_BLOCKS then MAX_FEC_MULTI_BLOCKS else fp_num_blocks k);
          spb = (if n > 1 then FEC_MAX_PACKETS div n else FEC_MAX_PACKETS)
      in (reset_frame_receive_status
            (s\<lparr>g_slots := no_slots, g_current_frame := fp_frame k,
               g_lowest_seq := fp_seq k - of_nat (fp_index k), g_data_packets := fp_data_pkts k,
               g_parity_packets := fp_parity k, g_total_packets := fp_total k,
               g_fec_percentage := fp_pct k, g_received_count := 0\<rparr>))
           \<lparr>g_frame_submitted := False, g_num_fec_blocks := n,
             g_fec_blocks := map (fresh_block k n spb) [0..<MAX_FEC_MULTI_BLOCKS]\<rparr>)"

definition frame_transition :: "video_env \<Rightarrow> fec_packet \<Rightarrow> rtp_fec \<Rightarrow> rtp_fec" where
  "frame_transition e k s =
     (if fp_frame k \<noteq> g_current_frame s then start_fec_frame k (submit_pending e s) else s)"

text \<open>The slot of the packet, if there is one; a block that is seen for the first time is set up.\<close>

definition open_block :: "fec_packet \<Rightarrow> fec_block \<Rightarrow> fec_block" where
  "open_block k blk =
     (if blk_seen blk then blk
      else blk\<lparr>blk_data_packets := fp_data_pkts k, blk_parity_packets := fp_parity k,
               blk_total_packets := fp_total k, blk_fec_percentage := fp_pct k,
               blk_received_count := 0, blk_received_data_count := 0, blk_seen := True\<rparr>)"

definition slot_index :: "fec_packet \<Rightarrow> rtp_fec \<Rightarrow> nat option \<times> rtp_fec" where
  "slot_index k s =
     (if g_num_fec_blocks s > 1
      then
        let blk = open_block k (g_fec_blocks s ! fp_block k);
            s = s\<lparr>g_fec_blocks := (g_fec_blocks s)[fp_block k := blk]\<rparr>;
            index = blk_base_slot blk + fp_index k
        in (if fp_index k \<ge> blk_max_slots blk \<or> index \<ge> FEC_MAX_PACKETS then None else Some index, s)
      else
        let index = unat (fp_seq k - g_lowest_seq s)
        in (if index \<ge> g_total_packets s \<or> index \<ge> FEC_MAX_PACKETS then None else Some index, s))"

definition count_in_block :: "fec_packet \<Rightarrow> fec_block \<Rightarrow> fec_block" where
  "count_in_block k blk =
     blk\<lparr>blk_received_count := blk_received_count blk + 1,
         blk_received_data_count := blk_received_data_count blk
           + (if fp_index k < blk_data_packets blk then 1 else 0)\<rparr>"

definition store_in_slot :: "u8 list \<Rightarrow> fec_packet \<Rightarrow> nat \<Rightarrow> rtp_fec \<Rightarrow> rtp_fec" where
  "store_in_slot p k index s =
     (if g_slots s ! index \<noteq> None then s
      else
        let multi = (g_num_fec_blocks s > 1);
            s = s\<lparr>g_slots := (g_slots s)[index := Some (take MAX_PKT_SIZE p)]\<rparr>;
            s = mark_frame_packet_received index
                  (if multi then fp_index k < blk_data_packets (g_fec_blocks s ! fp_block k)
                   else index < g_data_packets s) s;
            s = s\<lparr>g_received_count := g_received_count s + 1\<rparr>
        in if multi
           then s\<lparr>g_fec_blocks := (g_fec_blocks s)[fp_block k := count_in_block k (g_fec_blocks s ! fp_block k)]\<rparr>
           else s)"

definition frame_ready :: "rtp_fec \<Rightarrow> bool" where
  "frame_ready s \<longleftrightarrow>
     (if g_num_fec_blocks s \<le> 1 then g_received_data_count s \<ge> g_data_packets s
      else list_all (\<lambda>blk. blk_seen blk \<and> blk_received_data_count blk \<ge> blk_data_packets blk)
             (take (g_num_fec_blocks s) (g_fec_blocks s)))"

definition submit_if_ready :: "video_env \<Rightarrow> rtp_fec \<Rightarrow> rtp_fec" where
  "submit_if_ready e s =
     (if \<not> g_frame_submitted s \<and> frame_ready s then attempt_recovery_and_submit e s else s)"

definition store_packet :: "video_env \<Rightarrow> u8 list \<Rightarrow> fec_packet \<Rightarrow> rtp_fec \<Rightarrow> bool \<times> rtp_fec" where
  "store_packet e p k s =
     (case slot_index k s of
        (None, s) \<Rightarrow> (False, s)
      | (Some index, s) \<Rightarrow> (True, submit_if_ready e (store_in_slot p k index s)))"

text \<open>The counters and checks that come before the frame transition.\<close>

definition count_packet :: "u8 list \<Rightarrow> rtp_fec \<Rightarrow> rtp_fec" where
  "count_packet p s =
     s\<lparr>g_fec_total_bytes_received := g_fec_total_bytes_received s + of_nat (length p),
       g_fec_packets_received := g_fec_packets_received s + 1\<rparr>"

definition screen_packet :: "video_env \<Rightarrow> u8 list \<Rightarrow> rtp_fec \<Rightarrow> (bool + fec_packet) \<times> rtp_fec" where
  "screen_packet e p s =
     (if length p < 12 + 16 then (Inl False, s)
      else
        let s = count_packet p s in
        case fec_parse p of
          None \<Rightarrow> (Inl False, s)
        | Some k \<Rightarrow> (case fec_verdict e k s of Some consumed \<Rightarrow> (Inl consumed, s) | None \<Rightarrow> (Inr k, s)))"

text \<open>A packet that may not be held back (\<open>allow_defer\<close> is 0).\<close>

definition add_packet_now :: "video_env \<Rightarrow> u8 list \<Rightarrow> rtp_fec \<Rightarrow> bool \<times> rtp_fec" where
  "add_packet_now e p s =
     (case screen_packet e p s of
        (Inl consumed, s) \<Rightarrow> (consumed, s)
      | (Inr k, s) \<Rightarrow> store_packet e p k (frame_transition e k s))"

subsection \<open>What recovery leaves alone\<close>

text \<open>Recovering or dropping a frame does not change which frame it is, nor what has been received of it;
  every way through it ends with the frame marked as submitted.\<close>

definition frame_ident :: "rtp_fec \<Rightarrow> u32 \<times> u16 \<times> nat \<times> nat \<times> nat \<times> nat \<times> nat \<times> bool list \<times> nat \<times> bool" where
  "frame_ident s = (g_current_frame s, g_lowest_seq s, g_data_packets s, g_parity_packets s, g_total_packets s,
     g_received_count s, g_received_data_count s, g_received_from_network s, g_num_fec_blocks s, g_initialized s)"

named_theorems ident_simps "steps that keep the identity of the frame"

lemma frame_identD:
  assumes "frame_ident t = frame_ident s"
  shows "g_current_frame t = g_current_frame s" "g_lowest_seq t = g_lowest_seq s"
    "g_data_packets t = g_data_packets s" "g_parity_packets t = g_parity_packets s"
    "g_total_packets t = g_total_packets s" "g_received_count t = g_received_count s"
    "g_received_data_count t = g_received_data_count s" "g_received_from_network t = g_received_from_network s"
    "g_num_fec_blocks t = g_num_fec_blocks s" "g_initialized t = g_initialized s"
  using assms by (simp_all add: frame_ident_def)

lemma ident_upd [ident_simps]:
  "frame_ident (s\<lparr>vid := v\<rparr>) = frame_ident s" "frame_ident (s\<lparr>g_slots := x\<rparr>) = frame_ident s"
  "frame_ident (s\<lparr>g_frame_submitted := b\<rparr>) = frame_ident s"
  "frame_ident (s\<lparr>g_fec_blocks := bs\<rparr>) = frame_ident s"
  "frame_ident (s\<lparr>g_fec_packets_recovered := w\<rparr>) = frame_ident s"
  "frame_ident (s\<lparr>g_fec_packets_failed := w\<rparr>) = frame_ident s"
  "frame_ident (s\<lparr>g_fec_frames_dropped := w\<rparr>) = frame_ident s"
  "frame_ident (s\<lparr>g_fec_recovery_attempts := w\<rparr>) = frame_ident s"
  "frame_ident (s\<lparr>g_consecutive_frame_drops := w\<rparr>) = frame_ident s"
  "frame_ident (s\<lparr>s_consec_unrecoverable := i\<rparr>) = frame_ident s"
  "frame_ident (s\<lparr>s_multi_send_counter := n\<rparr>) = frame_ident s"
  "frame_ident (s\<lparr>s_fec_send_counter := n\<rparr>) = frame_ident s"
  "frame_ident (s\<lparr>s_cached := c\<rparr>) = frame_ident s" "frame_ident (s\<lparr>s_rs_ctx := r\<rparr>) = frame_ident s"
  "frame_ident (s\<lparr>s_dataDecodeMatrix := m\<rparr>) = frame_ident s"
  by (simp_all add: frame_ident_def)

lemma ident_steps [ident_simps]:
  "frame_ident (on_vid f s) = frame_ident s"
  "frame_ident (update_fec_status_cache s) = frame_ident s"
  "frame_ident (record_result b s) = frame_ident s"
  by (simp_all add: frame_ident_def on_vid_def update_fec_status_cache_def record_result_def Let_def)

lemma ident_requests [ident_simps]:
  "frame_ident (send_fec_status s) = frame_ident s"
  "frame_ident (maybe_send_fec_status s) = frame_ident s"
  "frame_ident (note_current_frame_drop_for_recovery e s) = frame_ident s"
  "frame_ident (request_current_frame_rfi s) = frame_ident s"
  "frame_ident (request_idr s) = frame_ident s"
  "frame_ident (count_drop s) = frame_ident s"
  "frame_ident (mark_refs_corrupt s) = frame_ident s"
  by (simp_all add: send_fec_status_def maybe_send_fec_status_def note_current_frame_drop_for_recovery_def
      request_current_frame_rfi_def request_idr_def count_drop_def mark_refs_corrupt_def ident_simps Let_def)

lemma ident_drop [ident_simps]:
  "frame_ident (drop_current_frame_strict e s) = frame_ident s"
  "frame_ident (request_after_loss e m s) = frame_ident s"
  "frame_ident (drop_unrecoverable e m s) = frame_ident s"
  by (simp_all add: drop_current_frame_strict_def request_after_loss_def drop_unrecoverable_def Let_def ident_simps)

lemma ident_submit_slot [ident_simps]: "frame_ident (submit_slot e i s) = frame_ident s"
  by (simp add: submit_slot_def ident_simps Let_def split: option.split)

lemma ident_fold [ident_simps]:
  "(\<And>i s. frame_ident (f i s) = frame_ident s) \<Longrightarrow> frame_ident (fold f is s) = frame_ident s"
  by (induction "is" arbitrary: s) auto

lemma ident_report [ident_simps]: "frame_ident (report_submitted s) = frame_ident s"
  unfolding report_submitted_def Let_def by (simp add: ident_simps) (simp add: frame_ident_def)

lemma ident_submit [ident_simps]: "frame_ident (submit_frame_packets e s) = frame_ident s"
  unfolding submit_frame_packets_def Let_def by (simp add: ident_simps)

lemma ident_patch [ident_simps]: "frame_ident (fec_patch_recovered_packet_header i b l s) = frame_ident s"
  by (simp add: fec_patch_recovered_packet_header_def ident_simps split: option.split)

lemma ident_install [ident_simps]: "frame_ident (install_slot e R b l i d s) = frame_ident s"
  by (simp add: install_slot_def Let_def ident_simps)

lemma ident_install_recovered [ident_simps]:
  "frame_ident (snd (install_recovered e R marks out is s)) = frame_ident s"
  by (induction e R marks out "is" s rule: install_recovered.induct) (simp_all add: Let_def ident_simps)

lemma ident_context [ident_simps]: "frame_ident (snd (rs_context d p s)) = frame_ident s"
  by (simp add: rs_context_def ident_simps split: option.split)

lemma ident_reconstruct [ident_simps]: "frame_ident (snd (snd (run_reconstruct marks sh R s))) = frame_ident s"
  by (simp add: run_reconstruct_def ident_simps split: prod.split)

lemma ident_recover [ident_simps]: "frame_ident (recover_and_submit e n s) = frame_ident s"
proof -
  obtain ok s1 where c: "rs_context (g_data_packets s) (g_parity_packets s) s = (ok, s1)" by fastforce
  obtain ret out s2 where r: "run_reconstruct (block_marks 0 FEC_MAX_PACKETS (g_total_packets s) s)
      (block_shards 0 FEC_MAX_PACKETS (g_total_packets s) (fec_recovery_symbol_size e) s)
      (fec_recovery_symbol_size e) s1 = (ret, out, s2)" by (metis prod_cases3)
  obtain valid s3 where i: "install_recovered e (fec_recovery_symbol_size e)
      (block_marks 0 FEC_MAX_PACKETS (g_total_packets s) s) out [0..<g_data_packets s2] s2 = (valid, s3)" by fastforce
  have "frame_ident s1 = frame_ident s" "frame_ident s2 = frame_ident s1" "frame_ident s3 = frame_ident s2"
    using ident_context [of "g_data_packets s" "g_parity_packets s" s] c
      ident_reconstruct [of "block_marks 0 FEC_MAX_PACKETS (g_total_packets s) s"
        "block_shards 0 FEC_MAX_PACKETS (g_total_packets s) (fec_recovery_symbol_size e) s" "fec_recovery_symbol_size e" s1] r
      ident_install_recovered [of e "fec_recovery_symbol_size e"
        "block_marks 0 FEC_MAX_PACKETS (g_total_packets s) s" out "[0..<g_data_packets s2]" s2] i by simp_all
  then show ?thesis
    unfolding recover_and_submit_def Let_def c prod.case r i by (simp add: ident_simps)
qed

lemma ident_recover_block: "frame_ident (snd (snd (recover_block e b (u, v, s)))) = frame_ident s"
proof -
  let ?blk = "g_fec_blocks s ! b"
  let ?marks = "block_marks (blk_base_slot ?blk) (blk_max_slots ?blk) (blk_total_packets ?blk) s"
  let ?sh = "block_shards (blk_base_slot ?blk) (blk_max_slots ?blk) (blk_total_packets ?blk) (fec_recovery_symbol_size e) s"
  obtain ok s1 where c: "rs_context (blk_data_packets ?blk) (blk_parity_packets ?blk) s = (ok, s1)" by fastforce
  obtain ret out s2 where r: "run_reconstruct ?marks ?sh (fec_recovery_symbol_size e) s1 = (ret, out, s2)"
    by (metis prod_cases3)
  have "frame_ident s1 = frame_ident s" "frame_ident s2 = frame_ident s1"
    using ident_context [of "blk_data_packets ?blk" "blk_parity_packets ?blk" s] c
      ident_reconstruct [of ?marks ?sh "fec_recovery_symbol_size e" s1] r by simp_all
  then show ?thesis
    unfolding recover_block_def Let_def prod.case c r by (simp add: ident_simps)
qed

lemma ident_recover_blocks:
  "frame_ident (snd (snd (fold (recover_block e) bs (u, v, s)))) = frame_ident s"
proof (induction bs arbitrary: u v s)
  case (Cons b bs)
  obtain u' v' s' where r: "recover_block e b (u, v, s) = (u', v', s')" by (metis prod_cases3)
  then show ?case using Cons [of u' v' s'] ident_recover_block [of e b u v s] by simp
qed simp

lemma ident_attempt [ident_simps]: "frame_ident (attempt_recovery_and_submit e s) = frame_ident s"
proof -
  obtain u v t where r: "fold (recover_block e) [0..<g_num_fec_blocks s] (False, False, s) = (u, v, t)"
    by (metis prod_cases3)
  then have "frame_ident t = frame_ident s"
    using ident_recover_blocks [of e "[0..<g_num_fec_blocks s]" False False s] by simp
  then have "frame_ident (attempt_multi_block_recovery_and_submit e s) = frame_ident s"
    by (simp add: attempt_multi_block_recovery_and_submit_def r ident_simps)
  then show ?thesis
    unfolding attempt_recovery_and_submit_def Let_def by (simp add: ident_simps)
qed

lemma submitted_vid [simp]: "g_frame_submitted (on_vid f s) = g_frame_submitted s"
  by (simp add: on_vid_def)

lemma submitted_after:
  "g_frame_submitted (drop_current_frame_strict e s)" "g_frame_submitted (drop_unrecoverable e m s)"
  by (simp_all add: drop_current_frame_strict_def drop_unrecoverable_def note_current_frame_drop_for_recovery_def
      request_current_frame_rfi_def Let_def)

lemma submitted_report [simp]:
  "g_frame_submitted (send_fec_status s) = g_frame_submitted s"
  "g_frame_submitted (update_fec_status_cache s) = g_frame_submitted s"
  "g_frame_submitted (maybe_send_fec_status s) = g_frame_submitted s"
  "g_frame_submitted (report_submitted s) = g_frame_submitted s"
  by (simp_all add: send_fec_status_def update_fec_status_cache_def maybe_send_fec_status_def report_submitted_def Let_def)

lemma submitted_submit: "g_frame_submitted (submit_frame_packets e s)"
  by (simp add: submit_frame_packets_def Let_def submitted_after)

lemma submitted_recover: "g_frame_submitted (recover_and_submit e m s)"
  by (simp add: recover_and_submit_def Let_def submitted_after submitted_submit split: prod.split)

lemma attempt_submits: "g_frame_submitted (attempt_recovery_and_submit e s)"
  by (simp add: attempt_recovery_and_submit_def attempt_multi_block_recovery_and_submit_def Let_def
      submitted_after submitted_submit submitted_recover split: prod.split)

end
