(* ===== verification/RtpFecQueue.thy ===== *)
theory RtpFecQueue
  imports RtpFec
begin

text \<open>
  The held packets of a CABAC stream (rtp_fec.c) and the module's entry points: while the current
  frame still lacks packets, up to 24 packets of the next frame wait in a queue; they are replayed as
  soon as the current frame is done. Here both loops are total functions: replaying shortens the
  queue, and the retry loop of \<open>rtp_fec_add_packet_inner\<close> replays at least one packet each time round.
\<close>

record fec_queue =
  fec :: rtp_fec
  s_deferred :: "u8 list list"
  s_deferred_frame :: u32
  s_deferred_overflow_count :: u32
  s_replaying_deferred :: bool

definition queue_zero :: fec_queue where
  "queue_zero = \<lparr>fec = fec_zero, s_deferred = [], s_deferred_frame = NO_FRAME, s_deferred_overflow_count = 0,
     s_replaying_deferred = False\<rparr>"

definition on_fec :: "(rtp_fec \<Rightarrow> rtp_fec) \<Rightarrow> fec_queue \<Rightarrow> fec_queue" where
  "on_fec f q = q\<lparr>fec := f (fec q)\<rparr>"

subsection \<open>Holding packets back\<close>

text \<open>\<open>refresh_deferred_front_frame\<close>.\<close>

fun front_frame :: "u8 list list \<Rightarrow> u32" where
  "front_frame [] = NO_FRAME"
| "front_frame (p # ps) = packet_frame_index p"

definition current_frame_needs_cabac_defer :: "video_env \<Rightarrow> rtp_fec \<Rightarrow> bool" where
  "current_frame_needs_cabac_defer e s =
     (if \<not> rtp_stream_is_cabac e \<or> g_current_frame s = NO_FRAME \<or> g_frame_submitted s
         \<or> g_received_count s = 0 \<or> g_data_packets s = 0
      then False
      else if g_num_fec_blocks s > 1
      then list_ex (\<lambda>blk. \<not> blk_seen blk \<or> blk_received_data_count blk < blk_data_packets blk
                      \<or> blk_received_count blk < blk_data_packets blk)
             (take (g_num_fec_blocks s) (g_fec_blocks s))
      else
        let missing = count_missing_current_data_packets s
        in if missing = 0 then False
           else if g_received_count s < g_data_packets s then True
           else g_received_parity_count s < missing)"

definition deferral_span :: "u32 \<Rightarrow> rtp_fec \<Rightarrow> u32" where
  "deferral_span frame s =
     (if g_current_frame s \<noteq> NO_FRAME \<and> sint (frame - g_current_frame s) > 0
      then frame - g_current_frame s else 0)"

definition defer_cabac_newer_packet :: "u8 list \<Rightarrow> u32 \<Rightarrow> fec_queue \<Rightarrow> bool \<times> fec_queue" where
  "defer_cabac_newer_packet p frame q =
     (if p = [] \<or> length p > MAX_PKT_SIZE then (False, q)
      else
        let q = (if s_deferred q = [] then q\<lparr>s_deferred_frame := frame\<rparr> else q);
            span = deferral_span frame (fec q)
        in if span = 0 \<or> span > CABAC_DEFERRED_FRAME_SPAN_MAX
              \<or> length (s_deferred q) \<ge> CABAC_DEFERRED_PACKET_LIMIT
           then (False, q\<lparr>s_deferred_overflow_count := s_deferred_overflow_count q + 1\<rparr>)
           else (True, q\<lparr>s_deferred := s_deferred q @ [p]\<rparr>))"

subsection \<open>Replaying them\<close>

fun skip_front :: "u32 \<Rightarrow> u8 list list \<Rightarrow> u32 \<Rightarrow> u8 list list \<times> u32" where
  "skip_front cur [] frame = ([], frame)"
| "skip_front cur (p # ps) frame =
     (if frame = cur then skip_front cur ps (front_frame ps) else (p # ps, frame))"

definition drop_submitted_deferred_frame_packets :: "fec_queue \<Rightarrow> fec_queue" where
  "drop_submitted_deferred_frame_packets q =
     (if g_frame_submitted (fec q)
      then let (ps, frame) = skip_front (g_current_frame (fec q)) (s_deferred q) (s_deferred_frame q)
           in q\<lparr>s_deferred := ps, s_deferred_frame := frame\<rparr>
      else q)"

definition can_replay :: "fec_queue \<Rightarrow> bool" where
  "can_replay q \<longleftrightarrow> g_current_frame (fec q) = NO_FRAME \<or> g_frame_submitted (fec q)
     \<or> s_deferred_frame q = g_current_frame (fec q)"

definition pop_front :: "fec_queue \<Rightarrow> fec_queue" where
  "pop_front q = q\<lparr>s_deferred := tl (s_deferred q), s_deferred_frame := front_frame (tl (s_deferred q))\<rparr>"

definition replay_front :: "video_env \<Rightarrow> fec_queue \<Rightarrow> fec_queue" where
  "replay_front e q = on_fec (\<lambda>s. snd (add_packet_now e (hd (s_deferred q)) s)) (pop_front q)"

lemma length_skip_front: "length (fst (skip_front cur ps frame)) \<le> length ps"
  by (induction cur ps frame rule: skip_front.induct) (auto intro: le_SucI)

lemma skip_front_suffix: "\<exists>xs. ps = xs @ fst (skip_front cur ps frame)"
proof (induction cur ps frame rule: skip_front.induct)
  case (2 cur p ps frame)
  then show ?case by (cases "frame = cur") (simp, metis append_Cons, simp)
qed simp

lemma drop_submitted_shorter [simp]:
  "length (s_deferred (drop_submitted_deferred_frame_packets q)) \<le> length (s_deferred q)"
  by (simp add: drop_submitted_deferred_frame_packets_def length_skip_front split: prod.split)
    (metis fst_conv length_skip_front)

lemma drop_submitted_fec [simp]:
  "fec (drop_submitted_deferred_frame_packets q) = fec q"
  "s_replaying_deferred (drop_submitted_deferred_frame_packets q) = s_replaying_deferred q"
  by (simp_all add: drop_submitted_deferred_frame_packets_def split: prod.split)

lemma replay_front_queue [simp]:
  "s_deferred (replay_front e q) = tl (s_deferred q)"
  "s_replaying_deferred (replay_front e q) = s_replaying_deferred q"
  "s_deferred_overflow_count (replay_front e q) = s_deferred_overflow_count q"
  by (simp_all add: replay_front_def on_fec_def pop_front_def)

function replay_loop :: "video_env \<Rightarrow> fec_queue \<Rightarrow> fec_queue" where
  "replay_loop e q =
     (let q = drop_submitted_deferred_frame_packets q in
      if s_deferred q = [] \<or> \<not> can_replay q then q else replay_loop e (replay_front e q))"
  by pat_completeness auto
termination
proof (relation "measure (\<lambda>(e, q). length (s_deferred q))", goal_cases)
  case (2 e q q')
  then show ?case
    using drop_submitted_shorter [of q] by (cases "s_deferred q'") (auto simp del: drop_submitted_shorter)
qed simp

declare replay_loop.simps [simp del]

definition drain_deferred_cabac_packets :: "video_env \<Rightarrow> fec_queue \<Rightarrow> fec_queue" where
  "drain_deferred_cabac_packets e q =
     (if s_replaying_deferred q then q
      else (replay_loop e (q\<lparr>s_replaying_deferred := True\<rparr>))\<lparr>s_replaying_deferred := False\<rparr>)"

lemma replay_loop_shorter: "length (s_deferred (replay_loop e q)) \<le> length (s_deferred q)"
proof (induction e q rule: replay_loop.induct)
  case (1 e q)
  show ?case
    using "1.IH" drop_submitted_shorter [of q]
    by (subst replay_loop.simps) (auto simp: Let_def simp del: drop_submitted_shorter)
qed

lemma replay_loop_progress:
  assumes "g_frame_submitted (fec q)" "s_deferred q \<noteq> []"
  shows "length (s_deferred (replay_loop e q)) < length (s_deferred q)"
proof -
  let ?q = "drop_submitted_deferred_frame_packets q"
  have c: "can_replay ?q" using assms(1) by (simp add: can_replay_def)
  have le: "length (s_deferred ?q) \<le> length (s_deferred q)" by simp
  show ?thesis
  proof (cases "s_deferred ?q")
    case Nil
    then show ?thesis using assms(2) by (subst replay_loop.simps) simp
  next
    case (Cons p ps)
    then have "replay_loop e q = replay_loop e (replay_front e ?q)"
      using c by (subst replay_loop.simps) (simp add: Let_def)
    then show ?thesis using replay_loop_shorter [of e "replay_front e ?q"] Cons le by simp
  qed
qed

lemma drain_empty: "s_deferred q = [] \<Longrightarrow> fec (drain_deferred_cabac_packets e q) = fec q \<and> s_deferred (drain_deferred_cabac_packets e q) = []"
  by (simp add: drain_deferred_cabac_packets_def replay_loop.simps drop_submitted_deferred_frame_packets_def Let_def)

lemma drain_progress:
  assumes "g_frame_submitted (fec q)"
  shows "length (s_deferred (drain_deferred_cabac_packets e q)) < length (s_deferred q)
    \<or> length (s_deferred (drain_deferred_cabac_packets e q)) = length (s_deferred q)
      \<and> fec (drain_deferred_cabac_packets e q) = fec q"
proof (cases "s_replaying_deferred q \<or> s_deferred q = []")
  case True
  then show ?thesis using drain_empty [of q e] by (auto simp: drain_deferred_cabac_packets_def)
next
  case False
  then show ?thesis
    using replay_loop_progress [of "q\<lparr>s_replaying_deferred := True\<rparr>" e] assms
    by (simp add: drain_deferred_cabac_packets_def)
qed

subsection \<open>A packet that may be held back\<close>

text \<open>The retry loop (\<open>process_frame_transition\<close>): the flag is true if the packet has been held back,
  otherwise the frame of the packet is the current one.\<close>

lemma needs_defer_pending:
  "current_frame_needs_cabac_defer e s \<Longrightarrow> submit_pending e s = attempt_recovery_and_submit e s"
  by (auto simp: current_frame_needs_cabac_defer_def submit_pending_def split: if_splits)

lemma not_needs_defer_submitted: "g_frame_submitted s \<Longrightarrow> \<not> current_frame_needs_cabac_defer e s"
  by (simp add: current_frame_needs_cabac_defer_def)

lemma defer_refused:
  "defer_cabac_newer_packet p f q = (d, q') \<Longrightarrow> \<not> d \<Longrightarrow> fec q' = fec q \<and> s_deferred q' = s_deferred q"
  by (auto simp: defer_cabac_newer_packet_def Let_def split: if_splits)

function transition_loop :: "video_env \<Rightarrow> u8 list \<Rightarrow> fec_packet \<Rightarrow> fec_queue \<Rightarrow> bool \<times> fec_queue" where
  "transition_loop e p k q =
     (if fp_frame k = g_current_frame (fec q) then (False, q)
      else if fp_frame k > g_current_frame (fec q) \<and> current_frame_needs_cabac_defer e (fec q)
      then (let (deferred, q) = defer_cabac_newer_packet p (fp_frame k) q in
            if deferred then (True, q)
            else transition_loop e p k (drain_deferred_cabac_packets e (on_fec (submit_pending e) q)))
      else (False, on_fec (\<lambda>s. start_fec_frame k (submit_pending e s)) q))"
  by pat_completeness auto
termination
proof (relation "measure (\<lambda>(e, p, k, q). 2 * length (s_deferred q)
     + (if current_frame_needs_cabac_defer e (fec q) then 1 else 0))", goal_cases)
  case (2 e p k q r d q')
  then have "defer_cabac_newer_packet p (fp_frame k) q = (d, q')" "\<not> d" by simp_all
  then have d: "fec q' = fec q" "s_deferred q' = s_deferred q" using defer_refused by blast+
  have n: "current_frame_needs_cabac_defer e (fec q)" using 2 by simp
  let ?q = "on_fec (submit_pending e) q'"
  have s: "g_frame_submitted (fec ?q)"
    using needs_defer_pending [OF n] attempt_submits by (simp add: on_fec_def d)
  have "length (s_deferred ?q) = length (s_deferred q)" by (simp add: on_fec_def d)
  then show ?case
    using drain_progress [OF s, of e] n not_needs_defer_submitted [OF s, of e] by auto
qed simp

declare transition_loop.simps [simp del]

definition rtp_fec_add_packet_inner :: "video_env \<Rightarrow> u8 list \<Rightarrow> fec_queue \<Rightarrow> bool \<times> fec_queue" where
  "rtp_fec_add_packet_inner e p q =
     (case screen_packet e p (fec q) of
        (Inl consumed, s) \<Rightarrow> (consumed, q\<lparr>fec := s\<rparr>)
      | (Inr k, s) \<Rightarrow>
          (case transition_loop e p k (q\<lparr>fec := s\<rparr>) of
             (True, q) \<Rightarrow> (True, q)
           | (False, q) \<Rightarrow> (let (consumed, s) = store_packet e p k (fec q) in (consumed, q\<lparr>fec := s\<rparr>))))"

subsection \<open>Entry points\<close>

definition queue_init :: "fec_queue \<Rightarrow> fec_queue" where
  "queue_init q =
     (on_fec rtp_fec_init q)\<lparr>s_deferred := [], s_deferred_frame := NO_FRAME, s_replaying_deferred := False\<rparr>"

definition rtp_fec_reset :: "fec_queue \<Rightarrow> fec_queue" where
  "rtp_fec_reset q =
     (on_fec reset_current q)\<lparr>s_deferred := [], s_deferred_frame := NO_FRAME, s_replaying_deferred := False\<rparr>"

definition rtp_fec_add_packet :: "video_env \<Rightarrow> u8 list \<Rightarrow> fec_queue \<Rightarrow> bool \<times> fec_queue" where
  "rtp_fec_add_packet e p q =
     (let q = (if g_initialized (fec q) then q else queue_init q);
          (consumed, q) = rtp_fec_add_packet_inner e p (drain_deferred_cabac_packets e q)
      in (consumed, drain_deferred_cabac_packets e q))"

subsection \<open>Without held packets\<close>

text \<open>While nothing is held back and the packet need not wait, the entry point handles it at once.\<close>

lemma add_packet_undeferred:
  assumes "g_initialized (fec q)" "s_deferred q = []" "screen_packet e p (fec q) = (Inr k, s)"
    and "fp_frame k = g_current_frame s \<or> \<not> current_frame_needs_cabac_defer e s"
  shows "fec (snd (rtp_fec_add_packet e p q)) = snd (add_packet_now e p (fec q)) \<and>
    s_deferred (snd (rtp_fec_add_packet e p q)) = []"
proof -
  let ?q = "drain_deferred_cabac_packets e q"
  have d: "fec ?q = fec q" "s_deferred ?q = []" using drain_empty [OF assms(2), of e] by simp_all
  have "transition_loop e p k (?q\<lparr>fec := s\<rparr>) = (False, ?q\<lparr>fec := frame_transition e k s\<rparr>)"
    using assms(4) by (subst transition_loop.simps) (auto simp: frame_transition_def on_fec_def)
  then have i: "snd (rtp_fec_add_packet_inner e p ?q) = ?q\<lparr>fec := snd (add_packet_now e p (fec q))\<rparr>"
    using assms(3) d(1) by (simp add: rtp_fec_add_packet_inner_def add_packet_now_def split: prod.split)
  have "snd (rtp_fec_add_packet e p q) = drain_deferred_cabac_packets e (snd (rtp_fec_add_packet_inner e p ?q))"
    using assms(1) by (simp add: rtp_fec_add_packet_def split: prod.split)
  then show ?thesis using drain_empty [of "?q\<lparr>fec := snd (add_packet_now e p (fec q))\<rparr>" e] d(2) i by simp
qed

lemma not_needs_defer_received: "g_received_count s = 0 \<or> g_current_frame s = NO_FRAME \<Longrightarrow> \<not> current_frame_needs_cabac_defer e s"
  by (auto simp: current_frame_needs_cabac_defer_def)

end
