(* ===== verification/RtpFecRecovery.thy ===== *)
theory RtpFecRecovery
  imports RtpFecQueue ReedSolomonDecode RtpDelivery
begin

text \<open>
  The FEC queue end to end. A frame is sent as \<open>d\<close> data and \<open>m\<close> parity packets; if any \<open>d\<close> of them
  arrive, in any order and with repetitions, the player gets the frame exactly once and with exactly
  the bytes that a reception without loss would give.

  Sunshine computes the parity before it writes some header fields, so the packets on the wire agree
  with the encoded shards only in some byte columns (\<open>codec_cols\<close>); the fields in the others are
  rebuilt by \<open>fec_patch_recovered_packet_header\<close>. The codec works column by column, which is what
  makes this sound.
\<close>

subsection \<open>Fields of a packet\<close>

definition codec_cols :: "nat \<Rightarrow> nat set" where
  "codec_cols off = {c. c = 1 \<or> off \<le> c \<and> c < off + 4 \<or> c = off + 8 \<or> off + 16 \<le> c}"

lemma write_le32_same: "i + 4 \<le> length p \<Longrightarrow> write_le32 i (read_le32 p i) p = p"
  by (intro nth_equalityI)
    (auto simp: write_le32_def nth_patch le32_read_le32 less_Suc_eq numeral_eq_Suc nth_Cons split: nat.splits)

lemma read_le32_cong:
  "(\<And>k. i \<le> k \<Longrightarrow> k < i + 4 \<Longrightarrow> p ! k = r ! k) \<Longrightarrow> read_le32 p i = read_le32 r i"
  by (simp add: read_le32_def)

lemma read_be16_patched:
  "k + 2 \<le> length p \<Longrightarrow> p ! k = be16 v ! 0 \<Longrightarrow> p ! (k + 1) = be16 v ! 1 \<Longrightarrow> read_be16 p k = v"
proof -
  assume "p ! k = be16 v ! 0" "p ! (k + 1) = be16 v ! 1"
  then have b: "p ! k = ucast (drop_bit 8 v)" "p ! (k + 1) = ucast v" by (simp_all add: be16_def)
  show ?thesis
    unfolding read_be16_def b by (intro bit_word_eqI) (auto simp: bit_simps)
qed

lemma rtp_nv_offset_eq:
  "rtp_nv_offset_from_packet p = (let off = rtp_data_offset p in if length p < 12 \<or> length p < off + 16 then None else Some off)"
  by (simp add: rtp_nv_offset_from_packet_def rtp_data_offset_def)

text \<open>The header of a rebuilt packet: what \<open>fec_patch_recovered_packet_header\<close> writes, and that it
  leaves the columns of the codec alone, but for the low bits of the RTP payload type.\<close>

lemma patched_header_fields:
  fixes ref p :: "u8 list" and sq :: u16 and fr :: u32
  assumes p: "off + 16 \<le> length p" and off: "off = (if ref ! 0 AND 0x10 \<noteq> 0 then 16 else 12)" and ref: "12 \<le> length ref"
  defines "r \<equiv> patched_header ref sq fr 0 0 p"
  shows "length r = length p" "r ! 0 = ref ! 0" "r ! 1 = (p ! 1 AND 0x80) OR (ref ! 1 AND 0x7F)"
    "read_be16 r 2 = sq" "read_le32 r (off + 4) = fr" "r ! (off + 11) = 0"
    "\<And>c. off \<le> c \<Longrightarrow> c < off + 4 \<or> off + 8 \<le> c \<Longrightarrow> c \<noteq> off + 11 \<Longrightarrow> c < length p \<Longrightarrow> r ! c = p ! c"
proof -
  define p1 where "p1 = p[0 := ref ! 0, 1 := (p ! 1 AND 0x80) OR (ref ! 1 AND 0x7F)]"
  define p2 where "p2 = patch 4 (take 8 (drop 4 ref)) (write_be16 2 sq p1)"
  have off12: "12 \<le> off" and ne: "p \<noteq> []" using off p by auto
  have l1: "length p1 = length p" by (simp add: p1_def)
  have w: "length (write_be16 2 sq p1) = length p" using p off12 by (simp add: write_be16_def l1)
  have l2: "length p2 = length p" unfolding p2_def using p off12 ref w by simp
  have n2: "p2 ! c = (if 4 \<le> c \<and> c < 12 then ref ! c else if c = 2 \<or> c = 3 then be16 sq ! (c - 2) else p1 ! c)"
    if "c < length p" for c
    using that p off12 ref w by (auto simp: p2_def nth_patch write_be16_def l1)
  have o2: "rtp_nv_offset_from_packet p2 = Some off"
  proof -
    have "p2 ! 0 = ref ! 0" using n2 [of 0] ne by (simp add: p1_def)
    then have "rtp_data_offset p2 = off" using off by (simp add: rtp_data_offset_def)
    then show ?thesis using p l2 by (simp add: rtp_nv_offset_eq)
  qed
  have r: "r = (write_le32 (off + 4) fr p2)[off + 11 := 0]"
    unfolding r_def patched_header_def Let_def p1_def [symmetric] p2_def [symmetric] o2 by simp
  show lr: "length r = length p" using p l2 by (simp add: r write_le32_def)
  have nr: "r ! c = (if c = off + 11 then 0 else if off + 4 \<le> c \<and> c < off + 8 then le32 fr ! (c - (off + 4)) else p2 ! c)"
    if "c < length p" for c
    using that p l2 by (auto simp: r write_le32_def nth_patch nth_list_update)
  show "r ! 0 = ref ! 0" "r ! 1 = (p ! 1 AND 0x80) OR (ref ! 1 AND 0x7F)"
    using nr [of 0] nr [of 1] n2 [of 0] n2 [of 1] p off12 ne by (auto simp: p1_def)
  show "read_be16 r 2 = sq"
    using nr [of 2] nr [of 3] n2 [of 2] n2 [of 3] p off12 lr by (intro read_be16_patched) auto
  show "read_le32 r (off + 4) = fr"
    using p lr by (intro read_le32_le32) (auto simp: nr)
  show "r ! (off + 11) = 0" using nr [of "off + 11"] p by simp
  show "r ! c = p ! c" if "off \<le> c" "c < off + 4 \<or> off + 8 \<le> c" "c \<noteq> off + 11" "c < length p" for c
    using nr [OF that(4)] n2 [OF that(4)] that off12 by (auto simp: p1_def)
qed

text \<open>A packet that stands for the \<open>i\<close>-th one that was sent: the reassembly reads the same from it, and so
  does the check of recovered packets.\<close>

definition stands_for :: "nat \<Rightarrow> rtp_packet \<Rightarrow> u8 list \<Rightarrow> u8 list \<Rightarrow> bool" where
  "stands_for off k w r \<longleftrightarrow> rtp_parse r = Some k \<and> rtp_nv_offset_from_packet r = Some off \<and>
     r ! (off + 8) = w ! (off + 8) \<and> fec_nv_stream_packet_index r off = fec_nv_stream_packet_index w off"

text \<open>The fields of a data packet as it is sent.\<close>

definition wire_data :: "nat \<Rightarrow> nat \<Rightarrow> u16 \<Rightarrow> u32 \<Rightarrow> rtp_packet \<Rightarrow> u8 list \<Rightarrow> bool" where
  "wire_data off ps sq fr k w \<longleftrightarrow> rtp_data_offset w = off \<and> length w = off + ps \<and> 16 \<le> ps \<and>
     rtp_parse w = Some k \<and> pk_seq k = sq \<and> pk_frame k = fr \<and> drop_bit 4 (w ! (off + 11)) AND 0x03 = 0"

lemma wire_data_stands: "wire_data off ps sq fr k w \<Longrightarrow> stands_for off k w w"
  by (auto simp: wire_data_def stands_for_def rtp_nv_offset_eq rtp_data_offset_def)

lemma rebuilt_stands:
  assumes w: "wire_data off ps sq fr k w" and ref: "rtp_data_offset ref = off" "12 \<le> length ref"
    and p: "length p = R" "off + ps \<le> R" "same_on (codec_cols off) R p (slot_shard R (Some w))"
  shows "stands_for off k w (take (off + ps) (patched_header ref sq fr 0 0 p))"
proof -
  let ?r = "patched_header ref sq fr 0 0 p"
  have lw: "length w = off + ps" "16 \<le> ps" "12 \<le> off" and oR: "off + 16 \<le> length p"
    using w p by (auto simp: wire_data_def rtp_data_offset_def)
  note f = patched_header_fields [OF oR _ ref(2), where sq = sq and fr = fr]
  have off: "off = (if ref ! 0 AND 0x10 \<noteq> 0 then 16 else 12)" using ref(1) by (simp add: rtp_data_offset_def)
  note f = f [OF off]
  have same: "p ! c = w ! c" if "c \<in> codec_cols off" "c < off + ps" for c
    using p(2,3) that lw(1) by (auto simp: same_on_def slot_shard_def nth_append)
  have fl: "?r ! (off + 8) = w ! (off + 8)" "?r ! 1 AND 0x80 = w ! 1 AND 0x80"
  proof -
    show "?r ! (off + 8) = w ! (off + 8)"
      using f(7) [of "off + 8"] same [of "off + 8"] lw p by (simp add: codec_cols_def)
    have "p ! 1 = w ! 1" using same [of 1] lw by (simp add: codec_cols_def)
    moreover have "((x AND 0x80) OR (y AND 0x7F)) AND 0x80 = x AND (0x80 :: u8)" for x y
      by (simp add: bit.conj_disj_distrib2 and.assoc)
    ultimately show "?r ! 1 AND 0x80 = w ! 1 AND 0x80" unfolding f(3) by simp
  qed
  let ?t = "take (off + ps) ?r"
  have lt: "length ?t = off + ps" using f(1) p by simp
  have t: "?t ! c = ?r ! c" if "c < off + ps" for c using that by simp
  have ot: "rtp_data_offset ?t = off" using f(2) ref(1) lw by (simp add: rtp_data_offset_def)
  have seq: "read_be16 ?t 2 = sq" "read_le32 ?t (off + 4) = fr"
    using f(4,5) lw t by (simp_all add: read_be16_def read_le32_def)
  have pay: "drop (off + 16) ?t = drop (off + 16) w"
  proof (rule nth_equalityI)
    fix i assume "i < length (drop (off + 16) ?t)"
    then have i: "off + 16 + i < off + ps" using lt by simp
    then show "drop (off + 16) ?t ! i = drop (off + 16) w ! i"
      using f(7) [of "off + 16 + i"] same [of "off + 16 + i"] lt lw p by (simp add: codec_cols_def)
  qed (simp only: length_drop lt lw)
  have kw: "k = \<lparr>pk_seq = read_be16 w 2, pk_frame = read_le32 w (off + 4),
      pk_first = (w ! (off + 8) AND 0x04 \<noteq> 0), pk_last = (w ! (off + 8) AND 0x02 \<noteq> 0 \<or> w ! 1 AND 0x80 \<noteq> 0),
      pk_payload = drop (off + 16) w\<rparr>" and ok: "w ! (off + 8) AND NOT (0x01 OR 0x02 OR 0x04) = 0"
    using w by (auto simp: wire_data_def rtp_parse_def Let_def split: if_splits)
  have t8: "?t ! (off + 8) = w ! (off + 8)" "?t ! 1 AND 0x80 = w ! 1 AND 0x80" "?t ! (off + 11) = 0"
    using t fl f(6) lw by simp_all
  have "rtp_parse ?t = Some k"
    using lt lw seq ok w unfolding rtp_parse_def Let_def ot t8 pay
    by (simp add: kw wire_data_def)
  moreover have "rtp_nv_offset_from_packet ?t = Some off"
    using lt lw ot by (simp add: rtp_nv_offset_eq)
  moreover have "read_le32 ?t off = read_le32 w off"
  proof (rule read_le32_cong)
    fix c assume c: "off \<le> c" "c < off + 4"
    then show "?t ! c = w ! c" using t [of c] f(7) [of c] same [of c] lw p by (simp add: codec_cols_def)
  qed
  ultimately show ?thesis
    using t8(1) by (simp add: stands_for_def fec_nv_stream_packet_index_def)
qed

end
