(* ===== verification/RtpFecTransparent.thy ===== *)
theory RtpFecTransparent
  imports RtpFecRecovery
begin

text \<open>
  A frame sent with parity, received in part: the queue fills its slots, rebuilds what is missing and
  hands the frame over. The theorem at the end says that any \<open>d\<close> of its packets suffice.
\<close>

subsection \<open>A frame as it is sent\<close>

definition encoded :: "nat \<Rightarrow> nat \<Rightarrow> nat \<Rightarrow> nat \<Rightarrow> u8 list list \<Rightarrow> bool" where
  "encoded off R d m ws \<longleftrightarrow>
     (\<exists>rs sh. reed_solomon_new (int d) (int m) = Some rs \<and> length sh = d + m \<and> (\<forall>s\<in>set sh. length s = R) \<and>
        (\<forall>i<d + m. same_on (codec_cols off) R (slot_shard R (Some (ws ! i)))
           (reed_solomon_encode rs sh (d + m) R ! i)))"

text \<open>The FEC fields a packet carries.\<close>

definition fec_fields :: "nat \<Rightarrow> nat \<Rightarrow> u32 \<Rightarrow> u16 \<Rightarrow> nat \<Rightarrow> fec_packet" where
  "fec_fields d pct f q i = \<lparr>fp_seq = q + of_nat i, fp_frame = f, fp_data_pkts = d, fp_index = i, fp_pct = pct,
     fp_block = 0, fp_num_blocks = 1\<rparr>"

definition sent_frame :: "video_env \<Rightarrow> nat \<Rightarrow> nat \<Rightarrow> nat \<Rightarrow> nat \<Rightarrow> u32 \<Rightarrow> u16 \<Rightarrow> rtp_packet list \<Rightarrow> u8 list list \<Rightarrow> bool" where
  "sent_frame e off pct d m f q ks ws \<longleftrightarrow>
     (off = 12 \<or> off = 16) \<and> m = (d * pct + 99) div 100 \<and> d + m \<le> FEC_MAX_PACKETS \<and>
     d \<le> fec_max_reasonable_data_packets e \<and> f \<noteq> NO_FRAME \<and>
     length ks = d \<and> length ws = d + m \<and> whole_frame f ks \<and>
     (\<forall>i<d + m. rtp_data_offset (ws ! i) = off \<and> off + 16 \<le> length (ws ! i) \<and> length (ws ! i) \<le> MAX_PKT_SIZE \<and>
        fec_parse (ws ! i) = Some (fec_fields d pct f q i)) \<and>
     (\<forall>i<d. wire_data off (fec_configured_packet_size e) (q + of_nat i) f (ks ! i) (ws ! i) \<and>
        flags_fit (ws ! i ! (off + 8)) i d \<and> (i + 1 < d \<longrightarrow> spi_follows (ws ! i, off) (ws ! (i + 1), off))) \<and>
     (0 < m \<longrightarrow> encoded off (fec_recovery_symbol_size e) d m ws)"

lemma sent_frameD:
  assumes "sent_frame e off pct d m f q ks ws"
  shows "0 < d" "d + m \<le> 128" "d \<le> fec_max_reasonable_data_packets e" "f \<noteq> NO_FRAME" "length ks = d"
    "length ws = d + m" "whole_frame f ks" "m = (d * pct + 99) div 100"
  using assms by (auto simp: sent_frame_def whole_frame_def FEC_MAX_PACKETS_def)

lemma sent_packetD:
  assumes "sent_frame e off pct d m f q ks ws" "i < d + m"
  shows "rtp_data_offset (ws ! i) = off" "off + 16 \<le> length (ws ! i)" "28 \<le> length (ws ! i)" "length (ws ! i) \<le> MAX_PKT_SIZE"
    "fec_parse (ws ! i) = Some (fec_fields d pct f q i)"
  using assms by (auto simp: sent_frame_def)

lemma fec_fields_simps [simp]:
  "fp_seq (fec_fields d pct f q i) = q + of_nat i" "fp_frame (fec_fields d pct f q i) = f"
  "fp_data_pkts (fec_fields d pct f q i) = d" "fp_index (fec_fields d pct f q i) = i"
  "fp_pct (fec_fields d pct f q i) = pct" "fp_block (fec_fields d pct f q i) = 0"
  "fp_num_blocks (fec_fields d pct f q i) = 1"
  "fp_parity (fec_fields d pct f q i) = (d * pct + 99) div 100"
  "fp_total (fec_fields d pct f q i) = d + (d * pct + 99) div 100"
  by (simp_all add: fec_fields_def fp_parity_def fp_total_def)

subsection \<open>Filling the slots\<close>

text \<open>The packets \<open>S\<close> of the frame have arrived.\<close>

definition holding :: "nat \<Rightarrow> nat \<Rightarrow> u32 \<Rightarrow> u16 \<Rightarrow> u8 list list \<Rightarrow> nat set \<Rightarrow> rtp_fec \<Rightarrow> bool" where
  "holding d m f q ws S s \<longleftrightarrow> S \<subseteq> {..<d + m} \<and>
     frame_ident s = (f, q, d, m, d + m, card S, card (S \<inter> {..<d}), map (\<lambda>i. i \<in> S) [0..<128], 1, True) \<and>
     g_slots s = map (\<lambda>i. if i \<in> S then Some (ws ! i) else None) [0..<128]"

text \<open>What filling the slots does not touch.\<close>

definition outside :: "rtp_fec \<Rightarrow> reassembly \<times> (nat \<times> nat) option \<times> reed_solomon \<times> u8 list \<times> bool" where
  "outside s = (vid s, s_cached s, s_rs_ctx s, s_dataDecodeMatrix s, g_frame_submitted s)"

lemma outsideD:
  assumes "outside t = outside s"
  shows "vid t = vid s" "s_cached t = s_cached s" "s_rs_ctx t = s_rs_ctx s"
    "s_dataDecodeMatrix t = s_dataDecodeMatrix s" "g_frame_submitted t = g_frame_submitted s"
  using assms by (simp_all add: outside_def)

lemma map_upt_update:
  "i < n \<Longrightarrow> (map g [0..<n])[i := x] = map (\<lambda>k. if k = i then x else g k) [0..<n]"
  by (intro nth_equalityI) (auto simp: nth_list_update)

lemma store_holding:
  assumes h: "holding d m f q ws S s" and i: "i < d + m" "d + m \<le> 128" "length (ws ! i) \<le> MAX_PKT_SIZE"
  shows "holding d m f q ws (insert i S) (store_in_slot (ws ! i) k i s)"
    "outside (store_in_slot (ws ! i) k i s) = outside s"
proof -
  note H = h [unfolded holding_def frame_ident_def prod.inject]
  have i128: "i < 128" using i by simp
  have fin: "finite S" using H finite_subset by blast
  have "holding d m f q ws (insert i S) (store_in_slot (ws ! i) k i s) \<and>
      outside (store_in_slot (ws ! i) k i s) = outside s"
  proof (cases "i \<in> S")
    case True
    then have "store_in_slot (ws ! i) k i s = s" using H i128 by (simp add: store_in_slot_def)
    then show ?thesis using h True by (simp add: insert_absorb)
  next
    case False
    let ?s = "store_in_slot (ws ! i) k i s"
    have st: "g_slots s ! i = None" "\<not> g_received_from_network s ! i" "g_num_fec_blocks s = 1" using H False i128 by simp_all
    have c: "card (insert i S \<inter> {..<d}) = card (S \<inter> {..<d}) + (if i < d then 1 else 0)"
      using False fin by (simp add: Int_insert_left)
    have "frame_ident ?s = (f, q, d, m, d + m, card (insert i S), card (insert i S \<inter> {..<d}),
        map (\<lambda>k. k \<in> insert i S) [0..<128], 1, True)"
      using H st i128 fin False c
      by (simp add: store_in_slot_def mark_frame_packet_received_def FEC_MAX_PACKETS_def frame_ident_def Let_def
          map_upt_update)
    moreover have "g_slots ?s = map (\<lambda>k. if k \<in> insert i S then Some (ws ! k) else None) [0..<128]"
      using H st i128 i(3)
      by (simp add: store_in_slot_def mark_frame_packet_received_def FEC_MAX_PACKETS_def Let_def map_upt_update)
    moreover have "outside ?s = outside s"
      using st by (simp add: store_in_slot_def mark_frame_packet_received_def outside_def Let_def)
    ultimately show ?thesis using H i(1) by (simp add: holding_def)
  qed
  then show "holding d m f q ws (insert i S) (store_in_slot (ws ! i) k i s)"
    "outside (store_in_slot (ws ! i) k i s) = outside s" by simp_all
qed

lemma count_packet_keeps [simp]:
  "holding d m f q ws S (count_packet p s) = holding d m f q ws S s" "outside (count_packet p s) = outside s"
  "g_current_frame (count_packet p s) = g_current_frame s" "frame_ident (count_packet p s) = frame_ident s"
  by (simp_all add: count_packet_def holding_def frame_ident_def outside_def)

lemma sent_verdict:
  assumes "sent_frame e off pct d m f q ks ws" "i < d + m"
    and "g_current_frame s = NO_FRAME \<or> 0 \<le> sint (f - g_current_frame s) \<and> sint (f - g_current_frame s) \<le> 1000"
  shows "fec_verdict e (fec_fields d pct f q i) s = None"
  using assms(2,3) sent_frameD [OF assms(1)]
  by (auto simp: fec_verdict_def Let_def MAX_FEC_MULTI_BLOCKS_def FEC_MAX_PACKETS_def)

lemma screen_sent:
  assumes sf: "sent_frame e off pct d m f q ks ws" and i: "i < d + m"
    and "g_current_frame s = NO_FRAME \<or> 0 \<le> sint (f - g_current_frame s) \<and> sint (f - g_current_frame s) \<le> 1000"
  shows "screen_packet e (ws ! i) s = (Inr (fec_fields d pct f q i), count_packet (ws ! i) s)"
proof -
  have "fec_verdict e (fec_fields d pct f q i) (count_packet (ws ! i) s) = None"
    using assms(3) by (intro sent_verdict [OF sf i]) simp
  then show ?thesis using sent_packetD [OF sf i] by (simp add: screen_packet_def Let_def)
qed

lemma store_sent:
  assumes h: "holding d m f q ws S s" and i: "i < d + m" "d + m \<le> 128"
  shows "store_packet e (ws ! i) (fec_fields d pct f q i) s =
    (True, submit_if_ready e (store_in_slot (ws ! i) (fec_fields d pct f q i) i s))"
proof -
  have "unat (of_nat i :: 16 word) = i" using i by (simp add: unat_of_nat)
  then have "slot_index (fec_fields d pct f q i) s = (Some i, s)"
    using h i by (simp add: slot_index_def holding_def frame_ident_def Let_def FEC_MAX_PACKETS_def)
  then show ?thesis by (simp add: store_packet_def)
qed

text \<open>One more packet of the current frame.\<close>

lemma add_sent:
  assumes sf: "sent_frame e off pct d m f q ks ws" and h: "holding d m f q ws S s" and i: "i < d + m"
  obtains s' where "snd (add_packet_now e (ws ! i) s) = submit_if_ready e s'"
    "holding d m f q ws (insert i S) s'" "outside s' = outside s"
proof -
  let ?k = "fec_fields d pct f q i" and ?c = "count_packet (ws ! i) s"
  have cur: "g_current_frame s = f" using h by (simp add: holding_def frame_ident_def)
  have c: "holding d m f q ws S ?c" "g_current_frame ?c = f" using h cur by simp_all
  have b: "d + m \<le> 128" using sent_frameD(2) [OF sf] .
  have "add_packet_now e (ws ! i) s = (True, submit_if_ready e (store_in_slot (ws ! i) ?k i ?c))"
    using screen_sent [OF sf i, of s] cur c store_sent [OF c(1) i b]
    by (simp add: add_packet_now_def frame_transition_def)
  then show ?thesis
    using store_holding [OF c(1) i b sent_packetD(4) [OF sf i]] by (intro that [of "store_in_slot (ws ! i) ?k i ?c"]) simp_all
qed

text \<open>The first packet of the frame.\<close>

definition nothing_pending :: "rtp_fec \<Rightarrow> bool" where
  "nothing_pending s \<longleftrightarrow> g_current_frame s = NO_FRAME \<or> g_frame_submitted s \<or> g_received_count s = 0"

lemma start_holding:
  assumes sf: "sent_frame e off pct d m f q ks ws" and "g_initialized s"
  shows "holding d m f q ws {} (start_fec_frame (fec_fields d pct f q i) s)"
    "vid (start_fec_frame (fec_fields d pct f q i) s) = vid s"
    "s_cached (start_fec_frame (fec_fields d pct f q i) s) = s_cached s"
    "s_rs_ctx (start_fec_frame (fec_fields d pct f q i) s) = s_rs_ctx s"
    "s_dataDecodeMatrix (start_fec_frame (fec_fields d pct f q i) s) = s_dataDecodeMatrix s"
    "\<not> g_frame_submitted (start_fec_frame (fec_fields d pct f q i) s)"
  using assms sent_frameD(8) [OF sf]
  by (simp_all add: start_fec_frame_def holding_def frame_ident_def reset_frame_receive_status_def no_slots_def
      FEC_MAX_PACKETS_def MAX_FEC_MULTI_BLOCKS_def Let_def map_replicate_const)

subsection \<open>Handing the frame over\<close>

text \<open>The slots of the data packets \<open>D\<close> hold packets that stand for the ones that were sent.\<close>

definition good_slots :: "nat \<Rightarrow> rtp_packet list \<Rightarrow> u8 list list \<Rightarrow> nat set \<Rightarrow> rtp_fec \<Rightarrow> bool" where
  "good_slots off ks ws D s \<longleftrightarrow> length (g_slots s) = 128 \<and>
     (\<forall>i\<in>D. \<exists>p. g_slots s ! i = Some p \<and> stands_for off (ks ! i) (ws ! i) p)"

lemma stands_for_frame:
  assumes "stands_for off k w p" "pk_frame k = f"
  shows "write_le32 (off + 4) f p = p" "off + 16 \<le> length p" "p \<noteq> []"
proof -
  have o: "rtp_data_offset p = off" "off + 16 \<le> length p"
    using assms(1) by (auto simp: stands_for_def rtp_nv_offset_eq Let_def split: if_splits)
  then have "read_le32 p (off + 4) = f"
    using assms by (auto simp: stands_for_def rtp_parse_def Let_def split: if_splits)
  then show "write_le32 (off + 4) f p = p" using write_le32_same [of "off + 4" p] o(2) by simp
  show "off + 16 \<le> length p" "p \<noteq> []" using o(2) by auto
qed

lemma submit_good_slot:
  assumes "g_slots s ! i = Some p" "stands_for off k w p" "pk_frame k = g_current_frame s" "i < 128"
  shows "submit_slot e i s = on_vid (process_parsed e k) s"
proof -
  note f = stands_for_frame [OF assms(2,3)]
  have "rtp_nv_offset_from_packet p = Some off" "rtp_parse p = Some k" using assms(2) by (simp_all add: stands_for_def)
  moreover have "(g_slots s)[i := Some p] = g_slots s" using assms(1) list_update_id [of "g_slots s" i] by simp
  ultimately show ?thesis
    using assms(1,4) f by (simp add: submit_slot_def FEC_MAX_PACKETS_def rtp_reassembly_process_packet_def Let_def on_vid_def)
qed

lemma submit_good_slots:
  assumes g: "good_slots off ks ws {..<d} s" and f: "\<forall>k\<in>set ks. pk_frame k = g_current_frame s"
    and "length ks = d" "d \<le> 128" "n \<le> d"
  shows "fold (submit_slot e) [0..<n] s = on_vid (process_all e (take n ks)) s"
  using assms(5)
proof (induction n)
  case 0
  then show ?case by (simp add: on_vid_def process_all_def)
next
  case (Suc n)
  let ?s = "on_vid (process_all e (take n ks)) s"
  have "\<exists>p. g_slots s ! n = Some p \<and> stands_for off (ks ! n) (ws ! n) p"
    using g Suc.prems unfolding good_slots_def by auto
  then obtain p where p: "g_slots s ! n = Some p" "stands_for off (ks ! n) (ws ! n) p" by blast
  have "submit_slot e n ?s = on_vid (process_parsed e (ks ! n)) ?s"
    using p f Suc.prems assms(3,4) by (intro submit_good_slot [where p = p]) (auto simp: on_vid_def)
  then show ?case
    using Suc assms(3) by (simp add: take_Suc_conv_app_nth process_all_def on_vid_def)
qed

lemma decoded_other_event [simp]:
  "(\<forall>f d. a \<noteq> Player_decode f d) \<Longrightarrow> decoded (emit a s) = decoded s"
  by (cases a) (simp_all add: decoded_def emit_def List.map_filter_def)

lemma quiet_core:
  "quiet f (emit a s) = quiet f s" "quiet f (s\<lparr>g_fec_recovery_clean := b\<rparr>) = quiet f s"
  by (simp_all add: quiet_def is_duplicate_def transport_delta_def emit_def)

lemma decoded_report [simp]:
  "decoded (vid (report_submitted s)) = decoded (vid s)"
  "decoded (rtp_reassembly_note_fec_frame_complete x v) = decoded v"
  "decoded (v\<lparr>g_fec_recovery_clean := b\<rparr>) = decoded v"
  by (simp_all add: report_submitted_def send_fec_status_def on_vid_def Let_def rtp_reassembly_note_fec_frame_complete_def)
    (simp_all add: decoded_def)

text \<open>A complete frame is handed over as a whole.\<close>

lemma submit_delivers:
  assumes g: "good_slots off ks ws {..<d} s" and q: "quiet f (vid s)" and w: "whole_frame f ks" "length ks = d" "d \<le> 128"
    and s: "g_current_frame s = f" "g_data_packets s = d" "g_num_fec_blocks s = 1" "\<not> g_decode_paused e"
  shows "decoded (vid (submit_frame_packets e s)) = decoded (vid s) @ [(f, run_bytes ks)]"
proof -
  have prep: "on_vid (rtp_reassembly_prepare_fec_frame (g_current_frame s)) s = s"
    using q s(1) by (auto simp: on_vid_def rtp_reassembly_prepare_fec_frame_def quiet_def)
  have "0 < d" using w by (auto simp: whole_frame_def)
  then obtain p0 where "g_slots s ! 0 = Some p0" using g unfolding good_slots_def by auto
  moreover have "fold (submit_slot e) [0..<d] s = on_vid (process_all e ks) s"
    using submit_good_slots [OF g _ w(2,3) order_refl] w s(1) by (simp add: whole_frame_def)
  ultimately have "decoded (vid (submit_frame_packets e s)) = decoded (process_all e ks (vid s))"
    using s(2,3) w(3) unfolding submit_frame_packets_def prep Let_def
    by (simp add: FEC_MAX_PACKETS_def min_absorb1) (simp add: on_vid_def)
  then show ?thesis using delivers_whole_frame [OF q w(1) s(4)] by simp
qed

subsection \<open>Rebuilding the missing packets\<close>

lemma packet_sizes:
  "512 \<le> fec_configured_packet_size e" "fec_configured_packet_size e \<le> 1392"
  "fec_recovery_symbol_size e = fec_configured_packet_size e + 16"
proof -
  show b: "512 \<le> fec_configured_packet_size e" "fec_configured_packet_size e \<le> 1392"
    by (simp_all add: fec_configured_packet_size_def Let_def)
  then show "fec_recovery_symbol_size e = fec_configured_packet_size e + 16"
    by (simp add: fec_recovery_symbol_size_def MAX_PKT_SIZE_def Let_def)
qed

lemma recovered_len:
  "rtp_data_offset p = off \<Longrightarrow> off \<le> 16 \<Longrightarrow>
   fec_recovered_data_len e p (fec_recovery_symbol_size e) = off + fec_configured_packet_size e"
  using packet_sizes [of e] by (auto simp: fec_recovered_data_len_def rtp_data_offset_def MAX_PKT_SIZE_def Let_def)

text \<open>The state while the packets below \<open>n\<close> have been rebuilt.\<close>

definition rebuilding :: "nat \<Rightarrow> rtp_packet list \<Rightarrow> u8 list list \<Rightarrow> nat set \<Rightarrow> nat \<Rightarrow> rtp_fec \<Rightarrow> rtp_fec \<Rightarrow> bool" where
  "rebuilding off ks ws S n s t \<longleftrightarrow> frame_ident t = frame_ident s \<and> vid t = vid s \<and> length (g_slots t) = 128 \<and>
     (\<forall>i\<in>S. g_slots t ! i = Some (ws ! i)) \<and>
     (\<forall>i<n. i \<notin> S \<longrightarrow> (\<exists>p. g_slots t ! i = Some p \<and> stands_for off (ks ! i) (ws ! i) p)) \<and>
     (\<forall>i<128. n \<le> i \<and> i \<notin> S \<longrightarrow> g_slots t ! i = None)"

text \<open>A packet that came from the network serves as reference.\<close>

lemma network_reference:
  assumes "S \<noteq> {}" "S \<subseteq> {..<g_total_packets t}" "g_total_packets t \<le> 128" "n \<notin> S"
    and "g_received_from_network t = map (\<lambda>i. i \<in> S) [0..<128]"
    and "\<forall>i\<in>S. g_slots t ! i = Some (ws ! i) \<and> 12 \<le> length (ws ! i)"
  shows "\<exists>j\<in>S. reference_packet n t = Some (ws ! j)"
proof -
  let ?os = "filter (\<lambda>i. i \<noteq> n \<and> (case g_slots t ! i of None \<Rightarrow> False | Some p \<Rightarrow> length p \<ge> 12))
               [0..<min (g_total_packets t) FEC_MAX_PACKETS]"
  let ?net = "filter (\<lambda>i. g_received_from_network t ! i) ?os"
  have net: "j \<in> set ?net \<longleftrightarrow> j \<in> S" for j
    using assms by (auto simp: FEC_MAX_PACKETS_def)
  then have "?net \<noteq> []" using assms(1) by (metis all_not_in_conv empty_set)
  then obtain j js where j: "?net = j # js" by (cases ?net) auto
  then have jS: "j \<in> S" using net [of j] by simp
  have "reference_packet n t = g_slots t ! j" unfolding reference_packet_def Let_def j by simp
  then show ?thesis using jS assms(6) by auto
qed

lemma install_slot_stands:
  assumes sf: "sent_frame e off pct d m f q ks ws" and h: "holding d m f q ws S s" and ne: "S \<noteq> {}"
    and r: "rebuilding off ks ws S n s t" and n: "n < d" "n \<notin> S"
    and x: "length x = fec_recovery_symbol_size e"
      "same_on (codec_cols off) (fec_recovery_symbol_size e) x (slot_shard (fec_recovery_symbol_size e) (Some (ws ! n)))"
  shows "rebuilding off ks ws S (Suc n) s (install_slot e (fec_recovery_symbol_size e) 0 0 n x t)"
    "s_cached (install_slot e (fec_recovery_symbol_size e) 0 0 n x t) = s_cached t"
proof -
  let ?R = "fec_recovery_symbol_size e" and ?ps = "fec_configured_packet_size e"
  let ?t1 = "t\<lparr>g_slots := (g_slots t)[n := Some x]\<rparr>"
  note R = r [unfolded rebuilding_def]
  have id: "frame_ident t = (f, q, d, m, d + m, card S, card (S \<inter> {..<d}), map (\<lambda>i. i \<in> S) [0..<128], 1, True)"
    and S: "S \<subseteq> {..<d + m}" using R h by (simp_all add: holding_def)
  note b = sent_frameD [OF sf] and sz = packet_sizes [of e]
  have n128: "n < 128" using n b by simp
  have off: "off = 12 \<or> off = 16" using sf by (simp add: sent_frame_def)
  have "\<exists>j\<in>S. reference_packet n ?t1 = Some (ws ! j)"
  proof (rule network_reference [OF ne])
    show "\<forall>i\<in>S. g_slots ?t1 ! i = Some (ws ! i) \<and> 12 \<le> length (ws ! i)"
    proof
      fix i assume "i \<in> S"
      moreover from this have "i \<noteq> n" "i < d + m" using n S by auto
      ultimately show "g_slots ?t1 ! i = Some (ws ! i) \<and> 12 \<le> length (ws ! i)"
        using R sent_packetD(3) [OF sf, of i] by simp
    qed
  qed (use id S b n in \<open>simp_all add: frame_ident_def\<close>)
  then obtain j where j: "j \<in> S" "reference_packet n ?t1 = Some (ws ! j)" by blast
  then have oj: "rtp_data_offset (ws ! j) = off" "12 \<le> length (ws ! j)"
    using sent_packetD(1,3) [OF sf, of j] S by auto
  let ?p = "patched_header (ws ! j) (q + of_nat n) f 0 0 x"
  have "wire_data off ?ps (q + of_nat n) f (ks ! n) (ws ! n)" using sf n by (simp add: sent_frame_def)
  note st = rebuilt_stands [OF this oj x(1) _ x(2)]
  have "off + ?ps \<le> ?R" using off sz by auto
  note st = st [OF this]
  have o2: "off + 16 \<le> length x" using off sz x(1) by auto
  have "off = (if ws ! j ! 0 AND 0x10 \<noteq> 0 then 16 else 12)" using oj(1) by (simp add: rtp_data_offset_def)
  from patched_header_fields(2) [OF o2 this oj(2)] have "rtp_data_offset ?p = off"
    using oj(1) by (simp add: rtp_data_offset_def)
  then have len: "fec_recovered_data_len e ?p ?R = off + ?ps" using off by (intro recovered_len) auto
  have eq: "install_slot e ?R 0 0 n x t = t\<lparr>g_slots := (g_slots t)[n := Some (take (off + ?ps) ?p)]\<rparr>"
    using j n128 x(1) sz len id R
    by (simp add: install_slot_def fec_patch_recovered_packet_header_def FEC_MAX_PACKETS_def frame_ident_def)
  show "rebuilding off ks ws S (Suc n) s (install_slot e ?R 0 0 n x t)"
    unfolding eq rebuilding_def using R n n128 st
    by (auto simp: ident_simps nth_list_update less_Suc_eq)
  show "s_cached (install_slot e ?R 0 0 n x t) = s_cached t" by (simp add: eq)
qed

lemma slot_nv_stands:
  "g_slots t ! i = Some p \<Longrightarrow> stands_for off k w p \<Longrightarrow> i < 128 \<Longrightarrow> fec_slot_nv i t = Some (p, off)"
  using stands_for_frame(3) [of off k w p] by (auto simp: fec_slot_nv_def stands_for_def FEC_MAX_PACKETS_def)

lemma spi_stands:
  "stands_for off k w p \<Longrightarrow> stands_for off k' w' p' \<Longrightarrow> spi_follows (p, off) (p', off) = spi_follows (w, off) (w', off)"
  by (simp add: stands_for_def spi_follows_def)

lemma rebuilding_slot:
  assumes sf: "sent_frame e off pct d m f q ks ws" and r: "rebuilding off ks ws S n s t" and i: "i < d"
  shows "i < n \<or> i \<in> S \<Longrightarrow> \<exists>p. g_slots t ! i = Some p \<and> stands_for off (ks ! i) (ws ! i) p"
    "\<not> (i < n \<or> i \<in> S) \<Longrightarrow> g_slots t ! i = None"
proof -
  have "wire_data off (fec_configured_packet_size e) (q + of_nat i) f (ks ! i) (ws ! i)"
    using sf i by (simp add: sent_frame_def)
  from wire_data_stands [OF this] show "i < n \<or> i \<in> S \<Longrightarrow> \<exists>p. g_slots t ! i = Some p \<and> stands_for off (ks ! i) (ws ! i) p"
    using r unfolding rebuilding_def by (cases "i \<in> S") auto
  show "\<not> (i < n \<or> i \<in> S) \<Longrightarrow> g_slots t ! i = None"
    using r i sent_frameD(2) [OF sf] by (simp add: rebuilding_def)
qed

text \<open>The check of a rebuilt packet always succeeds.\<close>

lemma rebuilt_valid:
  assumes sf: "sent_frame e off pct d m f q ks ws" and r: "rebuilding off ks ws S (Suc n) s t" and n: "n < d"
  shows "fec_validate_recovered_data_packet n d t"
proof -
  have d: "d \<le> 128" using sent_frameD(2) [OF sf] by simp
  have w: "flags_fit (ws ! i ! (off + 8)) i d" "i + 1 < d \<Longrightarrow> spi_follows (ws ! i, off) (ws ! (i + 1), off)" if "i < d" for i
    using sf that by (simp_all add: sent_frame_def)
  obtain p where p: "g_slots t ! n = Some p" "stands_for off (ks ! n) (ws ! n) p"
    using rebuilding_slot(1) [OF sf r n] by auto
  have nv: "fec_slot_nv n t = Some (p, off)" using slot_nv_stands [OF p] n d by simp
  have adj: "case fec_slot_nv i t of None \<Rightarrow> True | Some (p', off') \<Rightarrow> off' = off \<and> stands_for off (ks ! i) (ws ! i) p'"
    if "i < d" for i
  proof (cases "g_slots t ! i")
    case None
    then show ?thesis by (simp add: fec_slot_nv_def)
  next
    case (Some p')
    then have "stands_for off (ks ! i) (ws ! i) p'" using rebuilding_slot [OF sf r that] by fastforce
    then show ?thesis using slot_nv_stands [OF Some] that d by simp
  qed
  have "flags_fit (p ! (off + 8)) n d" using w(1) [OF n] p(2) by (simp add: stands_for_def)
  moreover have "case fec_slot_nv (n - 1) t of None \<Rightarrow> True | Some a \<Rightarrow> spi_follows a (p, off)" if "n > 0"
  proof -
    have "n - 1 < d" "n - 1 + 1 < d" using n that by simp_all
    then show ?thesis using adj [of "n - 1"] w(2) [of "n - 1"] spi_stands [OF _ p(2)] that
      by (auto split: option.splits)
  qed
  moreover have "n + 1 < d \<Longrightarrow> case fec_slot_nv (n + 1) t of None \<Rightarrow> True | Some a \<Rightarrow> spi_follows (p, off) a"
    using adj [of "n + 1"] w(2) [OF n] spi_stands [OF p(2)] by (auto split: option.splits)
  ultimately show ?thesis by (simp add: fec_validate_recovered_data_packet_def nv)
qed

lemma rebuilding_next: "n \<in> S \<Longrightarrow> rebuilding off ks ws S n s t \<Longrightarrow> rebuilding off ks ws S (Suc n) s t"
  by (auto simp: rebuilding_def less_Suc_eq)

text \<open>The loop over the data packets.\<close>

lemma install_rebuilds:
  assumes sf: "sent_frame e off pct d m f q ks ws" and h: "holding d m f q ws S s" and ne: "S \<noteq> {}"
    and mk: "\<forall>i<d. marks ! i = (if i \<in> S then 0 else 1)"
    and out: "\<forall>i<d. i \<notin> S \<longrightarrow> length (out ! i) = fec_recovery_symbol_size e \<and>
        same_on (codec_cols off) (fec_recovery_symbol_size e) (out ! i) (slot_shard (fec_recovery_symbol_size e) (Some (ws ! i)))"
    and r: "rebuilding off ks ws S n s t" "n \<le> d"
  shows "\<exists>t'. install_recovered e (fec_recovery_symbol_size e) marks out [n..<d] t = (True, t') \<and>
     rebuilding off ks ws S d s t'"
  using r
proof (induction "d - n" arbitrary: n t)
  case 0
  then show ?case by auto
next
  case (Suc k)
  then have n: "n < d" by simp
  then have up: "[n..<d] = n # [Suc n..<d]" by (rule upt_conv_Cons)
  show ?case
  proof (cases "n \<in> S")
    case True
    then show ?thesis
      using Suc.hyps(1) [of "Suc n" t] Suc.hyps(2) Suc.prems n mk rebuilding_next [OF True] by (simp add: up)
  next
    case False
    let ?t = "install_slot e (fec_recovery_symbol_size e) 0 0 n (out ! n) t"
    have r: "rebuilding off ks ws S (Suc n) s ?t"
      using out n False by (intro install_slot_stands(1) [OF sf h ne Suc.prems(1) n False]) auto
    have "g_data_packets ?t = d" using r h by (simp add: rebuilding_def holding_def frame_ident_def)
    then have "install_recovered e (fec_recovery_symbol_size e) marks out [n..<d] t =
        install_recovered e (fec_recovery_symbol_size e) marks out [Suc n..<d] ?t"
      using mk n False rebuilt_valid [OF sf r n] by (simp add: up Let_def)
    then show ?thesis using Suc.hyps(1) [OF _ r] Suc.hyps(2) n by simp
  qed
qed

subsection \<open>The codec\<close>

text \<open>The remembered shape matches the shared context, which holds as long as only this module uses it.\<close>

definition context_ok :: "rtp_fec \<Rightarrow> bool" where
  "context_ok s \<longleftrightarrow> length (s_dataDecodeMatrix s) = 16384 \<and>
     (\<forall>d m. s_cached s = Some (d, m) \<longrightarrow> reed_solomon_new (int d) (int m) = Some (s_rs_ctx s))"

lemma rs_context_ok:
  assumes "context_ok s" "reed_solomon_new (int d) (int m) = Some rs"
  obtains s' where "rs_context d m s = (True, s')" "s_rs_ctx s' = rs" "frame_ident s' = frame_ident s"
    "vid s' = vid s" "g_slots s' = g_slots s" "s_dataDecodeMatrix s' = s_dataDecodeMatrix s"
proof (cases "s_cached s = Some (d, m) \<and> data_shards (s_rs_ctx s) = d \<and> parity_shards (s_rs_ctx s) = m")
  case True
  with assms have "s_rs_ctx s = rs" by (simp add: context_ok_def)
  with True show ?thesis by (intro that [of s]) (auto simp: rs_context_def)
next
  case False
  with assms(2) show ?thesis
    by (intro that [of "s\<lparr>s_cached := Some (d, m), s_rs_ctx := rs\<rparr>"]) (auto simp: rs_context_def ident_simps)
qed

lemma slot_shard_length [simp]: "length (slot_shard R q) = R"
  by (auto simp: slot_shard_def min_def split: option.split)

lemma block_shards_frame:
  assumes "length (g_slots s) = 128" "n \<le> 128"
  shows "block_marks 0 FEC_MAX_PACKETS n s = map (\<lambda>i. slot_mark (g_slots s ! i)) [0..<n]"
    "block_shards 0 FEC_MAX_PACKETS n R s = map (\<lambda>i. slot_shard R (g_slots s ! i)) [0..<n]"
  using assms by (auto simp: block_marks_def block_shards_def FEC_MAX_PACKETS_def)

lemma holding_slots:
  assumes "holding d m f q ws S s" "d + m \<le> 128"
  shows "length (g_slots s) = 128" "\<And>i. i < 128 \<Longrightarrow> g_slots s ! i = (if i \<in> S then Some (ws ! i) else None)"
    "length (filter (\<lambda>i. g_slots s ! i = None) [0..<d]) = d - card (S \<inter> {..<d})"
    "length (filter (\<lambda>i. g_slots s ! i \<noteq> None) [d..<d + m]) = card (S \<inter> {d..<d + m})"
proof -
  show s: "length (g_slots s) = 128" "\<And>i. i < 128 \<Longrightarrow> g_slots s ! i = (if i \<in> S then Some (ws ! i) else None)"
    using assms by (simp_all add: holding_def)
  have fl: "length (filter P [a..<b]) = card {i. a \<le> i \<and> i < b \<and> P i}" for P and a b :: nat
    by (subst distinct_card [symmetric]) (auto intro: arg_cong [where f = card])
  have 1: "{i. 0 \<le> i \<and> i < d \<and> g_slots s ! i = None} = {..<d} - S \<inter> {..<d}" using s(2) assms(2) by auto
  have "card ({..<d} - S \<inter> {..<d}) = d - card (S \<inter> {..<d})" by (subst card_Diff_subset) auto
  then show "length (filter (\<lambda>i. g_slots s ! i = None) [0..<d]) = d - card (S \<inter> {..<d})" unfolding fl 1 .
  have "{i. d \<le> i \<and> i < d + m \<and> g_slots s ! i \<noteq> None} = S \<inter> {d..<d + m}"
    using s(2) assms(2) by (auto split: if_splits)
  then show "length (filter (\<lambda>i. g_slots s ! i \<noteq> None) [d..<d + m]) = card (S \<inter> {d..<d + m})" unfolding fl by simp
qed

lemma card_split: "S \<subseteq> {..<d + m :: nat} \<Longrightarrow> card S = card (S \<inter> {..<d}) + card (S \<inter> {d..<d + m})"
proof -
  assume S: "S \<subseteq> {..<d + m}"
  then have fin: "finite S" by (rule finite_subset) simp
  have un: "S \<inter> {..<d} \<union> S \<inter> {d..<d + m} = S" using S by fastforce
  have "card (S \<inter> {..<d} \<union> S \<inter> {d..<d + m}) = card (S \<inter> {..<d}) + card (S \<inter> {d..<d + m})"
    using fin by (intro card_Un_disjoint) auto
  then show ?thesis unfolding un .
qed

lemma after_ok:
  fixes t :: rtp_fec
  defines "u \<equiv> record_result False (on_vid (\<lambda>v. v\<lparr>g_fec_recovery_clean := True\<rparr>) t)"
  shows "g_slots u = g_slots t" "frame_ident u = frame_ident t" "quiet f (vid u) = quiet f (vid t)"
    "decoded (vid u) = decoded (vid t)"
  by (simp_all add: u_def record_result_def on_vid_def quiet_core ident_simps frame_ident_def)

text \<open>Enough parity has arrived for the codec.\<close>

lemma marks_recoverable:
  assumes h: "holding d m f q ws S s" and b: "d + m \<le> 128" and k: "d \<le> card S"
    and rs: "data_shards rs = d" "parity_shards rs = m"
  shows "group_recoverable rs (map (\<lambda>i. slot_mark (g_slots s ! i)) [0..<d + m]) 1 0"
proof -
  let ?marks = "map (\<lambda>i. slot_mark (g_slots s ! i)) [0..<d + m]"
  have S: "S \<subseteq> {..<d + m}" using h by (simp add: holding_def)
  have 1: "filter (\<lambda>i. ?marks ! i \<noteq> 0) [0..<d] = filter (\<lambda>i. g_slots s ! i = None) [0..<d]"
    by (intro filter_cong) (auto simp: slot_mark_def)
  have "filter (\<lambda>i. ?marks ! i = 0) [d..<d + m] = filter (\<lambda>i. g_slots s ! i \<noteq> None) [d..<d + m]"
    by (intro filter_cong) (auto simp: slot_mark_def)
  then have 2: "length (filter (\<lambda>i. ?marks ! (d + i) = 0) [0..<m]) = card (S \<inter> {d..<d + m})"
    using holding_slots(4) [OF h b] arg_cong [OF map_add_upt [of d m], of "\<lambda>xs. length (filter (\<lambda>i. ?marks ! i = 0) xs)"]
    by (simp add: filter_map comp_def add.commute)
  show ?thesis
    using 1 2 holding_slots(3) [OF h b] k card_split [OF S] by (simp add: group_recoverable_def rs)
qed

text \<open>The recovery of a frame that is short of data packets but not of packets.\<close>

lemma reconstruct_frame:
  assumes sf: "sent_frame e off pct d m f q ks ws" and h: "holding d m f q ws S s" and k: "d \<le> card S" and m: "0 < m"
    and wrk: "length wrk = 16384"
  obtains rs wrk' out where "reed_solomon_new (int d) (int m) = Some rs"
    "reed_solomon_reconstruct rs (map (\<lambda>i. slot_mark (g_slots s ! i)) [0..<d + m]) (d + m) (fec_recovery_symbol_size e)
       (wrk, map (\<lambda>i. slot_shard (fec_recovery_symbol_size e) (g_slots s ! i)) [0..<d + m]) = (0, wrk', out)"
    "\<forall>i<d. length (out ! i) = fec_recovery_symbol_size e \<and>
       same_on (codec_cols off) (fec_recovery_symbol_size e) (out ! i) (slot_shard (fec_recovery_symbol_size e) (Some (ws ! i)))"
proof -
  let ?R = "fec_recovery_symbol_size e"
  note b = sent_frameD [OF sf]
  obtain rs sh where rs: "reed_solomon_new (int d) (int m) = Some rs" and sh: "length sh = d + m" "\<forall>s\<in>set sh. length s = ?R"
    and enc: "\<And>i. i < d + m \<Longrightarrow> same_on (codec_cols off) ?R (slot_shard ?R (Some (ws ! i))) (reed_solomon_encode rs sh (d + m) ?R ! i)"
    using sf m by (auto simp: sent_frame_def encoded_def)
  have D: "data_shards rs = d" "parity_shards rs = m" "shards_total rs = d + m"
    using reed_solomon_newD(1,2,5) [OF rs] by simp_all
  let ?marks = "map (\<lambda>i. slot_mark (g_slots s ! i)) [0..<d + m]" and ?sh = "map (\<lambda>i. slot_shard ?R (g_slots s ! i)) [0..<d + m]"
  have len: "length sh = 1 * shards_total rs" "\<forall>s\<in>set sh. ?R \<le> length s" "map length ?sh = map length sh"
    using sh by (auto simp: D list_eq_iff_nth_eq)
  have intact: "\<forall>i<1 * shards_total rs. ?marks ! i = 0 \<longrightarrow>
      same_on (codec_cols off) ?R (?sh ! i) (reed_solomon_encode rs sh (1 * shards_total rs) ?R ! i)"
    using enc holding_slots(2) [OF h b(2)] b(2) by (auto simp: D slot_mark_def split: if_splits)
  have "\<forall>g<1. group_recoverable rs ?marks 1 g" using marks_recoverable [OF h b(2) k D(1,2)] by simp
  from reconstruct_ok [OF codec_new [OF rs] len wrk intact this] obtain wrk' out where
    r: "reed_solomon_reconstruct rs ?marks (1 * shards_total rs) ?R (wrk, ?sh) = (0, wrk', out)"
      "map length out = map length sh" "\<forall>i<1 * data_shards rs. same_on (codec_cols off) ?R (out ! i) (sh ! i)" .
  have "length (out ! i) = ?R \<and> same_on (codec_cols off) ?R (out ! i) (slot_shard ?R (Some (ws ! i)))" if i: "i < d" for i
  proof
    have "length out = d + m" using r(2) sh(1) by (rule map_eq_imp_length_eq [THEN trans])
    then show "length (out ! i) = ?R" using r(2) sh i by (metis nth_map nth_mem trans_less_add1)
    have "reed_solomon_encode rs sh (d + m) ?R ! i = sh ! i" using encode_ok(2) [OF codec_new [OF rs] len(1,2), of i] i by (simp add: D)
    then show "same_on (codec_cols off) ?R (out ! i) (slot_shard ?R (Some (ws ! i)))"
      using enc [of i] r(3) i by (simp add: D same_on_def)
  qed
  then show ?thesis using r(1) by (intro that [OF rs]) (auto simp: D)
qed

lemma recover_delivers:
  assumes sf: "sent_frame e off pct d m f q ks ws" and h: "holding d m f q ws S s" and k: "d \<le> card S" and m: "0 < m"
    and c: "context_ok s" and qu: "quiet f (vid s)" "\<not> g_decode_paused e"
  shows "decoded (vid (recover_and_submit e n s)) = decoded (vid s) @ [(f, run_bytes ks)]"
proof -
  let ?R = "fec_recovery_symbol_size e"
  note b = sent_frameD [OF sf]
  note H = h [unfolded holding_def]
  have id: "g_data_packets s = d" "g_parity_packets s = m" "g_total_packets s = d + m"
    using H by (simp_all add: frame_ident_def)
  have "length (s_dataDecodeMatrix s) = 16384" using c by (simp add: context_ok_def)
  from reconstruct_frame [OF sf h k m this] obtain rs wrk' out where
    rs: "reed_solomon_new (int d) (int m) = Some rs" and
    r: "reed_solomon_reconstruct rs (map (\<lambda>i. slot_mark (g_slots s ! i)) [0..<d + m]) (d + m) ?R
       (s_dataDecodeMatrix s, map (\<lambda>i. slot_shard ?R (g_slots s ! i)) [0..<d + m]) = (0, wrk', out)" and
    out: "\<forall>i<d. length (out ! i) = ?R \<and> same_on (codec_cols off) ?R (out ! i) (slot_shard ?R (Some (ws ! i)))" .
  obtain s1 where s1: "rs_context d m s = (True, s1)" "s_rs_ctx s1 = rs" "frame_ident s1 = frame_ident s"
    "vid s1 = vid s" "g_slots s1 = g_slots s" "s_dataDecodeMatrix s1 = s_dataDecodeMatrix s"
    by (rule rs_context_ok [OF c rs])
  define s2 where "s2 = s1\<lparr>s_dataDecodeMatrix := wrk', g_fec_recovery_attempts := g_fec_recovery_attempts s1 + 1\<rparr>"
  note bm = block_shards_frame [OF holding_slots(1) [OF h b(2)] b(2)]
  have rec: "run_reconstruct (block_marks 0 FEC_MAX_PACKETS (d + m) s) (block_shards 0 FEC_MAX_PACKETS (d + m) ?R s) ?R s1 =
      (0, out, s2)"
    using r s1 by (simp add: run_reconstruct_def bm s2_def)
  have S: "S \<noteq> {}" using k b(1) by auto
  have rb: "rebuilding off ks ws S 0 s s2"
    using holding_slots [OF h b(2)] s1 H b(2) by (auto simp: rebuilding_def s2_def ident_simps)
  have mk: "\<forall>i<d. block_marks 0 FEC_MAX_PACKETS (d + m) s ! i = (if i \<in> S then 0 else 1)"
    using holding_slots(2) [OF h b(2)] b(2) by (simp add: bm slot_mark_def)
  have ou: "\<forall>i<d. i \<notin> S \<longrightarrow> length (out ! i) = ?R \<and>
      same_on (codec_cols off) ?R (out ! i) (slot_shard ?R (Some (ws ! i)))" using out by blast
  obtain t where t: "install_recovered e ?R (block_marks 0 FEC_MAX_PACKETS (d + m) s) out [0..<d] s2 = (True, t)"
      "rebuilding off ks ws S d s t"
    using install_rebuilds [OF sf h S mk ou rb] by blast
  define t1 where "t1 = t\<lparr>g_fec_packets_recovered := g_fec_packets_recovered t + of_nat n\<rparr>"
  note a = after_ok [where t = t1]
  have tt: "frame_ident t1 = frame_ident s" "vid t1 = vid s" "g_slots t1 = g_slots t"
    using t(2) by (simp_all add: t1_def rebuilding_def ident_simps)
  have good: "good_slots off ks ws {..<d} t1"
    unfolding good_slots_def using t(2) rebuilding_slot(1) [OF sf t(2)] tt(3) by (auto simp: rebuilding_def)
  let ?u = "record_result False (on_vid (\<lambda>v. v\<lparr>g_fec_recovery_clean := True\<rparr>) t1)"
  have "g_data_packets s2 = d" using s1(3) id by (simp add: s2_def frame_ident_def)
  then have "recover_and_submit e n s = submit_frame_packets e ?u"
    unfolding recover_and_submit_def Let_def id s1(1) prod.case rec using t(1) by (simp add: t1_def)
  moreover have "decoded (vid (submit_frame_packets e ?u)) = decoded (vid ?u) @ [(f, run_bytes ks)]"
  proof (rule submit_delivers)
    show "good_slots off ks ws {..<d} ?u" using good a(1) by (simp add: good_slots_def)
    show "quiet f (vid ?u)" using qu(1) a(3) tt(2) by simp
    show "g_current_frame ?u = f" "g_data_packets ?u = d" "g_num_fec_blocks ?u = 1"
      using a(2) tt(1) H by (simp_all add: frame_ident_def)
  qed (use b qu in auto)
  ultimately show ?thesis using a(4) tt(2) by simp
qed

subsection \<open>Any \<open>d\<close> packets suffice\<close>

lemma complete_delivers:
  assumes sf: "sent_frame e off pct d m f q ks ws" and h: "holding d m f q ws S s" and all: "{..<d} \<subseteq> S"
    and qu: "quiet f (vid s)" "\<not> g_decode_paused e"
  shows "decoded (vid (attempt_recovery_and_submit e s)) = decoded (vid s) @ [(f, run_bytes ks)]"
proof -
  note b = sent_frameD [OF sf]
  note H = h [unfolded holding_def frame_ident_def prod.inject]
  define t where "t = s\<lparr>s_consec_unrecoverable := 0, g_consecutive_frame_drops := 0\<rparr>"
  have tt: "g_slots t = g_slots s" "vid t = vid s" "frame_ident t = frame_ident s"
    by (simp_all add: t_def ident_simps)
  note a = after_ok [where t = t, unfolded tt]
  let ?u = "record_result False (on_vid (\<lambda>v. v\<lparr>g_fec_recovery_clean := True\<rparr>) t)"
  have st: "g_slots s ! i = Some (ws ! i)" if "i < d" for i using holding_slots(2) [OF h b(2)] that all b(2) by auto
  then have "filter (\<lambda>i. g_slots s ! i = None) [0..<d] = []" by (auto simp: filter_empty_conv)
  then have "attempt_recovery_and_submit e s = submit_frame_packets e ?u"
    using H b(1,2) by (simp add: attempt_recovery_and_submit_def FEC_MAX_PACKETS_def t_def)
  moreover have "decoded (vid (submit_frame_packets e ?u)) = decoded (vid ?u) @ [(f, run_bytes ks)]"
  proof (rule submit_delivers)
    have "stands_for off (ks ! i) (ws ! i) (ws ! i)" if "i < d" for i
      using sf that by (intro wire_data_stands) (auto simp: sent_frame_def)
    then show "good_slots off ks ws {..<d} ?u"
      using st holding_slots(1) [OF h b(2)] unfolding good_slots_def a(1) by simp
    show "quiet f (vid ?u)" using qu(1) a(3) by simp
    show "g_current_frame ?u = f" "g_data_packets ?u = d" "g_num_fec_blocks ?u = 1"
      using a(2) H by (simp_all add: frame_ident_def)
  qed (use b qu in auto)
  ultimately show ?thesis by (simp add: a(4))
qed

lemma incomplete_delivers:
  assumes sf: "sent_frame e off pct d m f q ks ws" and h: "holding d m f q ws S s" and k: "d \<le> card S" and "\<not> {..<d} \<subseteq> S"
    and c: "context_ok s" and qu: "quiet f (vid s)" "\<not> g_decode_paused e"
  shows "decoded (vid (attempt_recovery_and_submit e s)) = decoded (vid s) @ [(f, run_bytes ks)]"
proof -
  note b = sent_frameD [OF sf]
  note H = h [unfolded holding_def frame_ident_def prod.inject]
  have id: "g_num_fec_blocks s = 1" "g_data_packets s = d" "g_total_packets s = d + m" "g_received_count s = card S"
    using H by blast+
  let ?t = "s\<lparr>s_consec_unrecoverable := 0, g_consecutive_frame_drops := 0\<rparr>"
  let ?n = "length (filter (\<lambda>i. g_slots s ! i = None) [0..<d])"
  have n: "?n = d - card (S \<inter> {..<d})" by (rule holding_slots(3) [OF h b(2)])
  have "S \<inter> {..<d} \<subset> {..<d}" using assms(4) by blast
  from psubset_card_mono [OF _ this] have "card (S \<inter> {..<d}) < d" by simp
  moreover have S: "card S = card (S \<inter> {..<d}) + card (S \<inter> {d..<d + m})" using H by (intro card_split) blast
  ultimately have pos: "0 < ?n" "?n \<le> card (S \<inter> {d..<d + m})" "0 < card (S \<inter> {d..<d + m})" using k n by linarith+
  then have m: "0 < m" by (cases m) auto
  have "attempt_recovery_and_submit e s = recover_and_submit e ?n ?t"
    using id b(1,2) pos k holding_slots(4) [OF h b(2)]
    by (simp add: attempt_recovery_and_submit_def FEC_MAX_PACKETS_def Let_def)
  moreover have "holding d m f q ws S ?t" "context_ok ?t" using h c by (simp_all add: holding_def context_ok_def ident_simps)
  ultimately show ?thesis using recover_delivers [OF sf _ k m, of ?t ?n] qu by simp
qed

text \<open>The frame on its way: handed over once its data packets are all there, otherwise waiting.\<close>

definition arriving :: "nat \<Rightarrow> nat \<Rightarrow> u32 \<Rightarrow> u16 \<Rightarrow> rtp_packet list \<Rightarrow> u8 list list \<Rightarrow> reassembly \<Rightarrow> nat set \<Rightarrow> rtp_fec \<Rightarrow> bool" where
  "arriving d m f q ks ws v S s \<longleftrightarrow>
     (if {..<d} \<subseteq> S
      then g_frame_submitted s \<and> g_current_frame s = f \<and> g_num_fec_blocks s = 1 \<and> g_initialized s \<and>
        decoded (vid s) = decoded v @ [(f, run_bytes ks)]
      else \<not> g_frame_submitted s \<and> holding d m f q ws S s \<and> vid s = v \<and> context_ok s)"

lemma arriving_current:
  assumes "arriving d m f q ks ws v S s"
  shows "g_current_frame s = f" "g_initialized s"
  using assms by (auto simp: arriving_def holding_def frame_ident_def split: if_splits)

text \<open>What storing a packet leaves alone.\<close>

definition frame_done :: "rtp_fec \<Rightarrow> bool \<times> nat \<times> u32 \<times> bool \<times> reassembly" where
  "frame_done s = (g_frame_submitted s, g_num_fec_blocks s, g_current_frame s, g_initialized s, vid s)"

lemma mark_done [simp]: "frame_done (mark_frame_packet_received i x s) = frame_done s"
  by (simp add: mark_frame_packet_received_def frame_done_def Let_def)

lemma done_upd [simp]:
  "frame_done (s\<lparr>g_slots := x\<rparr>) = frame_done s" "frame_done (s\<lparr>g_received_count := n\<rparr>) = frame_done s"
  "frame_done (s\<lparr>g_fec_blocks := b\<rparr>) = frame_done s" "frame_done (count_packet p s) = frame_done s"
  by (simp_all add: frame_done_def count_packet_def)

lemma store_in_slot_done [simp]: "frame_done (store_in_slot p k i s) = frame_done s"
  unfolding store_in_slot_def Let_def by simp

lemma store_submitted:
  assumes "g_frame_submitted s" "g_num_fec_blocks s = 1"
  shows "frame_done (snd (store_packet e p k s)) = frame_done s"
proof -
  have "submit_if_ready e t = t" if "frame_done t = frame_done s" for t
    using that assms(1) by (simp add: submit_if_ready_def frame_done_def)
  then show ?thesis
    using assms(2) by (simp add: store_packet_def slot_index_def Let_def)
qed

lemma frame_ready_iff:
  assumes "holding d m f q ws S s"
  shows "frame_ready s \<longleftrightarrow> {..<d} \<subseteq> S"
proof -
  have "frame_ready s \<longleftrightarrow> d \<le> card (S \<inter> {..<d})"
    using assms by (simp add: frame_ready_def holding_def frame_ident_def)
  also have "\<dots> \<longleftrightarrow> S \<inter> {..<d} = {..<d}"
    by (metis card_lessThan card_seteq finite_lessThan inf_le2 order_refl)
  finally show ?thesis by blast
qed

lemma submit_if_ready_arriving:
  assumes sf: "sent_frame e off pct d m f q ks ws" and h: "holding d m f q ws S s" "context_ok s" "\<not> g_frame_submitted s"
    and qu: "quiet f (vid s)" "\<not> g_decode_paused e"
  shows "arriving d m f q ks ws (vid s) S (submit_if_ready e s)"
proof (cases "{..<d} \<subseteq> S")
  case True
  have "frame_ident (attempt_recovery_and_submit e s) = frame_ident s" by (rule ident_attempt)
  then show ?thesis
    using True h frame_ready_iff [OF h(1)] complete_delivers [OF sf h(1) True qu] attempt_submits
    by (simp add: arriving_def submit_if_ready_def holding_def frame_ident_def)
next
  case False
  then show ?thesis using h frame_ready_iff [OF h(1)] by (simp add: arriving_def submit_if_ready_def)
qed

lemma context_ok_outside: "outside t = outside s \<Longrightarrow> context_ok t = context_ok s"
  by (simp add: outside_def context_ok_def)

lemma add_arriving:
  assumes sf: "sent_frame e off pct d m f q ks ws" and a: "arriving d m f q ks ws v S s" and i: "i < d + m"
    and qu: "quiet f v" "\<not> g_decode_paused e"
  shows "arriving d m f q ks ws v (insert i S) (snd (add_packet_now e (ws ! i) s))"
proof (cases "{..<d} \<subseteq> S")
  case True
  then have t: "g_frame_submitted s" "g_current_frame s = f" "g_num_fec_blocks s = 1" "g_initialized s"
      "decoded (vid s) = decoded v @ [(f, run_bytes ks)]" using a by (simp_all add: arriving_def)
  let ?c = "count_packet (ws ! i) s"
  have c: "g_frame_submitted ?c" "g_num_fec_blocks ?c = 1" using t by (simp_all add: count_packet_def)
  have "add_packet_now e (ws ! i) s = store_packet e (ws ! i) (fec_fields d pct f q i) ?c"
    using screen_sent [OF sf i, of s] t(2) by (simp add: add_packet_now_def frame_transition_def)
  moreover have "{..<d} \<subseteq> insert i S" using True by blast
  moreover have "frame_done (snd (store_packet e (ws ! i) (fec_fields d pct f q i) ?c)) = frame_done s"
    using store_submitted [OF c] by simp
  ultimately show ?thesis using t by (simp add: arriving_def frame_done_def)
next
  case False
  then have h: "holding d m f q ws S s" "\<not> g_frame_submitted s" "vid s = v" "context_ok s"
    using a by (simp_all add: arriving_def)
  obtain s' where s': "snd (add_packet_now e (ws ! i) s) = submit_if_ready e s'"
      "holding d m f q ws (insert i S) s'" "outside s' = outside s"
    by (rule add_sent [OF sf h(1) i])
  note o = outsideD [OF s'(3)]
  show ?thesis
    using submit_if_ready_arriving [OF sf s'(2)] context_ok_outside [OF s'(3)] o h qu unfolding s'(1) by simp
qed

text \<open>Before the frame: nothing is pending, and the frame is newer by at most 1000.\<close>

definition ready_for :: "u32 \<Rightarrow> rtp_fec \<Rightarrow> bool" where
  "ready_for f s \<longleftrightarrow> g_initialized s \<and> nothing_pending s \<and> context_ok s \<and> quiet f (vid s) \<and>
     (g_current_frame s = NO_FRAME \<or> 0 < sint (f - g_current_frame s) \<and> sint (f - g_current_frame s) \<le> 1000)"

lemma add_first_arriving:
  assumes sf: "sent_frame e off pct d m f q ks ws" and r: "ready_for f s" and i: "i < d + m" and "\<not> g_decode_paused e"
  shows "arriving d m f q ks ws (vid s) {i} (snd (add_packet_now e (ws ! i) s))"
proof -
  let ?k = "fec_fields d pct f q i" and ?c = "count_packet (ws ! i) s"
  note R = r [unfolded ready_for_def]
  have new: "f \<noteq> g_current_frame s" using R sent_frameD(4) [OF sf] by auto
  have np: "submit_pending e ?c = ?c" using R by (auto simp: submit_pending_def nothing_pending_def count_packet_def)
  have c: "g_initialized ?c" "context_ok ?c" "vid ?c = vid s" using R by (simp_all add: count_packet_def context_ok_def)
  let ?s = "start_fec_frame ?k ?c"
  note st = start_holding [OF sf c(1), of i]
  have ctx: "context_ok ?s" using c(2) st by (simp add: context_ok_def)
  have b: "d + m \<le> 128" using sent_frameD(2) [OF sf] .
  have "add_packet_now e (ws ! i) s = (True, submit_if_ready e (store_in_slot (ws ! i) ?k i ?s))"
    using screen_sent [OF sf i, of s] R new np store_sent [OF st(1) i b]
    by (auto simp: add_packet_now_def frame_transition_def)
  moreover note h = store_holding [OF st(1) i b sent_packetD(4) [OF sf i], of ?k]
  moreover note o = outsideD [OF h(2)]
  moreover have "context_ok (store_in_slot (ws ! i) ?k i ?s)" using context_ok_outside [OF h(2)] ctx by simp
  ultimately show ?thesis
    using submit_if_ready_arriving [OF sf h(1)] R assms(4) st(2,6) c(3) by simp
qed

text \<open>The same through the entry point of the module: packets of this frame are never held back.\<close>

lemma add_first_public:
  assumes sf: "sent_frame e off pct d m f q ks ws" and r: "ready_for f (fec r)" "s_deferred r = []" and i: "i < d + m"
    and "\<not> g_decode_paused e"
  shows "arriving d m f q ks ws (vid (fec r)) {i} (fec (snd (rtp_fec_add_packet e (ws ! i) r)))"
    "s_deferred (snd (rtp_fec_add_packet e (ws ! i) r)) = []"
proof -
  let ?c = "count_packet (ws ! i) (fec r)"
  note R = r(1) [unfolded ready_for_def]
  have "\<not> current_frame_needs_cabac_defer e ?c"
    using R not_needs_defer_submitted [of ?c e] not_needs_defer_received [of ?c e]
    by (auto simp: nothing_pending_def count_packet_def)
  moreover have "screen_packet e (ws ! i) (fec r) = (Inr (fec_fields d pct f q i), ?c)"
    using R by (intro screen_sent [OF sf i]) auto
  moreover have "g_initialized (fec r)" using R by simp
  ultimately have u: "fec (snd (rtp_fec_add_packet e (ws ! i) r)) = snd (add_packet_now e (ws ! i) (fec r))"
    "s_deferred (snd (rtp_fec_add_packet e (ws ! i) r)) = []"
    using add_packet_undeferred [OF _ r(2)] by blast+
  then show "arriving d m f q ks ws (vid (fec r)) {i} (fec (snd (rtp_fec_add_packet e (ws ! i) r)))"
    "s_deferred (snd (rtp_fec_add_packet e (ws ! i) r)) = []"
    using add_first_arriving [OF sf r(1) i assms(5)] by simp_all
qed

lemma add_public:
  assumes sf: "sent_frame e off pct d m f q ks ws" and a: "arriving d m f q ks ws v S (fec r)" "s_deferred r = []"
    and i: "i < d + m" and qu: "quiet f v" "\<not> g_decode_paused e"
  shows "arriving d m f q ks ws v (insert i S) (fec (snd (rtp_fec_add_packet e (ws ! i) r)))"
    "s_deferred (snd (rtp_fec_add_packet e (ws ! i) r)) = []"
proof -
  let ?c = "count_packet (ws ! i) (fec r)"
  note cur = arriving_current [OF a(1)]
  have "screen_packet e (ws ! i) (fec r) = (Inr (fec_fields d pct f q i), ?c)"
    using cur by (intro screen_sent [OF sf i]) simp
  moreover have "fp_frame (fec_fields d pct f q i) = g_current_frame ?c" using cur by simp
  ultimately have u: "fec (snd (rtp_fec_add_packet e (ws ! i) r)) = snd (add_packet_now e (ws ! i) (fec r))"
    "s_deferred (snd (rtp_fec_add_packet e (ws ! i) r)) = []"
    using add_packet_undeferred [OF cur(2) a(2)] by blast+
  then show "arriving d m f q ks ws v (insert i S) (fec (snd (rtp_fec_add_packet e (ws ! i) r)))"
    "s_deferred (snd (rtp_fec_add_packet e (ws ! i) r)) = []"
    using add_arriving [OF sf a(1) i qu] by simp_all
qed

lemma run_arriving:
  assumes sf: "sent_frame e off pct d m f q ks ws" and qu: "quiet f v" "\<not> g_decode_paused e"
    and "arriving d m f q ks ws v S (fec r)" "s_deferred r = []" "set is \<subseteq> {..<d + m}"
  shows "arriving d m f q ks ws v (S \<union> set is) (fec (fold (\<lambda>i r. snd (rtp_fec_add_packet e (ws ! i) r)) is r))"
  using assms(4-)
proof (induction "is" arbitrary: S r)
  case (Cons i js)
  then have i: "i < d + m" by simp
  note a = add_public [OF sf Cons.prems(1,2) i qu]
  show ?case using Cons.IH [OF a] Cons.prems(3) by simp
qed simp

text \<open>When the next frame begins, a frame that is still incomplete is recovered.\<close>

lemma pending_delivers:
  assumes sf: "sent_frame e off pct d m f q ks ws" and qu: "quiet f v" "\<not> g_decode_paused e"
    and a: "arriving d m f q ks ws v S s" and k: "d \<le> card S"
  shows "decoded (vid (submit_pending e s)) = decoded v @ [(f, run_bytes ks)]"
proof (cases "{..<d} \<subseteq> S")
  case True
  then show ?thesis using a by (simp add: arriving_def submit_pending_def)
next
  case False
  then have h: "\<not> g_frame_submitted s" "holding d m f q ws S s" "vid s = v" "context_ok s"
    using a by (simp_all add: arriving_def)
  moreover have "g_current_frame s = f" "g_received_count s = card S" using h(2) by (simp_all add: holding_def frame_ident_def)
  ultimately have "submit_pending e s = attempt_recovery_and_submit e s"
    using sent_frameD(1,4) [OF sf] k by (simp add: submit_pending_def)
  then show ?thesis using incomplete_delivers [OF sf h(2) k False h(4) _ qu(2)] qu(1) h(3) by simp
qed

text \<open>The property C1: forward error correction is transparent. A frame is sent as \<open>d\<close> data and \<open>m\<close>
  parity packets, encoded as Sunshine does, and nothing is pending or awaited. If any \<open>d\<close> of its
  packets arrive, in any order and with repetitions, then by the time the next frame begins the
  player has been given the frame exactly once, with exactly the bytes of a reception without loss.\<close>

theorem fec_any_d_packets_suffice:
  assumes "sent_frame e off pct d m f q ks ws" "ready_for f (fec r)" "s_deferred r = []" "\<not> g_decode_paused e"
    and "set is \<subseteq> {..<d + m}" "d \<le> card (set is)"
  shows "decoded (vid (submit_pending e (fec (fold (\<lambda>i r. snd (rtp_fec_add_packet e (ws ! i) r)) is r)))) =
     decoded (vid (fec r)) @ [(f, run_bytes ks)]"
proof -
  have qu: "quiet f (vid (fec r))" using assms(2) by (simp add: ready_for_def)
  obtain i js where js: "is = i # js" using assms(6) sent_frameD(1) [OF assms(1)] by (cases "is") auto
  then have "i < d + m" "set js \<subseteq> {..<d + m}" using assms(5) by auto
  note run_arriving [OF assms(1) qu assms(4) add_first_public [OF assms(1-3) this(1) assms(4)] this(2)]
  from pending_delivers [OF assms(1) qu assms(4) this] show ?thesis using assms(6) js by simp
qed

subsection \<open>An example\<close>

text \<open>A frame of two data packets and one parity packet; the second data packet is lost and the parity
  arrives first.\<close>

definition wire_header :: "u8 \<Rightarrow> u8 \<Rightarrow> u8 list" where
  "wire_header i flags = [0x80, 0, 0, 100 + i, 0, 0, 0, 0, 0, 0, 0, 0, 0, 5 + i, 0, 0, 7, 0, 0, 0,
     flags, 0, 0x10, 0, 0x20, 0x03 + 0x10 * i, 0x80, 0]"

definition wire0 :: "u8 list" where "wire0 = wire_header 0 5 @ [0, 0, 1, 0x65] @ replicate 1004 0x11"
definition wire1 :: "u8 list" where "wire1 = wire_header 1 3 @ replicate 1008 0x22"

definition shards_sent :: "u8 list list" where
  "shards_sent = [slot_shard 1040 (Some wire0), slot_shard 1040 (Some wire1), replicate 1040 0]"

definition parity_sent :: "u8 list" where "parity_sent = reed_solomon_encode rs21 shards_sent 3 1040 ! 2"

text \<open>Sunshine writes these fields after it has computed the parity.\<close>

definition wire2 :: "u8 list" where
  "wire2 = parity_sent[0 := 0x80, 2 := 0, 3 := 102, 16 := 7, 17 := 0, 18 := 0, 19 := 0, 23 := 0,
     24 := 0x20, 25 := 0x23, 26 := 0x80, 27 := 0]"

lemma fec_parse_bytes:
  assumes "28 \<le> length w" "w ! 0 = 0x80" "w ! 2 = 0" "w ! 3 = 100 + of_nat i" "w ! 16 = 7" "w ! 17 = 0" "w ! 18 = 0" "w ! 19 = 0"
    "w ! 23 = 0" "w ! 24 = 0x20" "w ! 25 = 0x03 + 0x10 * of_nat i" "w ! 26 = 0x80" "w ! 27 = 0" "i < 3"
  shows "fec_parse w = Some (fec_fields 2 50 7 100 i)"
proof -
  have "i = 0 \<or> i = 1 \<or> i = 2" using assms(14) by auto
  then show ?thesis
    using assms(1-13)
    by (elim disjE) (simp_all add: fec_parse_def fec_fields_def read_le32_def read_be16_def Let_def)
qed

lemma parity_length: "length parity_sent = 1040" "length wire2 = 1040"
proof -
  have "length shards_sent = 1 * shards_total rs21" "\<forall>s\<in>set shards_sent. 1040 \<le> length s"
    by (simp_all add: shards_sent_def rs21)
  from encode_ok(1) [OF codec_new [OF rs21(1)] this] have "map length (reed_solomon_encode rs21 shards_sent 3 1040) = map length shards_sent"
    by (simp add: rs21)
  from arg_cong [OF this, of "\<lambda>xs. xs ! 2"] arg_cong [OF this, of length]
  show "length parity_sent = 1040" by (simp add: parity_sent_def shards_sent_def)
  then show "length wire2 = 1040" by (simp add: wire2_def)
qed

definition packets_sent :: "rtp_packet list" where
  "packets_sent = [\<lparr>pk_seq = 100, pk_frame = 7, pk_first = True, pk_last = False,
       pk_payload = [0, 0, 1, 0x65] @ replicate 1004 0x11\<rparr>,
     \<lparr>pk_seq = 101, pk_frame = 7, pk_first = False, pk_last = True, pk_payload = replicate 1008 0x22\<rparr>]"

lemma wire_lengths: "length wire0 = 1036" "length wire1 = 1036"
  by (simp_all add: wire0_def wire1_def wire_header_def)

lemma wire_packets: "wire_data 12 1024 100 7 (packets_sent ! 0) wire0" "wire_data 12 1024 101 7 (packets_sent ! 1) wire1"
  by (simp_all add: wire_data_def packets_sent_def rtp_data_offset_def wire_lengths rtp_parse_def Let_def)
    (simp_all add: wire0_def wire1_def wire_header_def read_be16_def read_le32_def)

lemma packets_whole: "whole_frame 7 packets_sent"
  "run_bytes packets_sent = [0, 0, 1, 0x65] @ replicate 1004 0x11 @ replicate 1008 0x22"
proof -
  have b: "first_body (packets_sent ! 0) = [0, 0, 1, 0x65] @ replicate 1004 0x11"
    by (simp add: first_body_def packets_sent_def frame_header_def)
  then have b1: "first_body (hd packets_sent) = [0, 0, 1, 0x65] @ replicate 1004 0x11" by (simp add: packets_sent_def)
  have "is_annexb_start ([0, 0, 1, 0x65] @ replicate 1004 0x11) 0 = 3" by (simp add: is_annexb_start_def)
  then show r: "run_bytes packets_sent = [0, 0, 1, 0x65] @ replicate 1004 0x11 @ replicate 1008 0x22"
    using b by (simp add: run_bytes_def start_code_for_def packets_sent_def Let_def)
  show "whole_frame 7 packets_sent"
    unfolding whole_frame_def r b1
    by (simp add: packets_sent_def less_Suc_eq MAX_ASSEMBLY_SIZE_def)
qed

lemma sent_encoded: "encoded 12 1040 2 1 [wire0, wire1, wire2]"
proof -
  have len: "length shards_sent = 1 * shards_total rs21" "\<forall>s\<in>set shards_sent. 1040 \<le> length s"
    by (simp_all add: shards_sent_def rs21)
  have e: "reed_solomon_encode rs21 shards_sent 3 1040 ! k = shards_sent ! k" if "k < 2" for k
    using encode_ok(2) [OF codec_new [OF rs21(1)] len, of k] that by (simp add: rs21)
  have "same_on (codec_cols 12) 1040 (slot_shard 1040 (Some ([wire0, wire1, wire2] ! i)))
      (reed_solomon_encode rs21 shards_sent (2 + 1) 1040 ! i)" if i: "i < 3" for i
  proof -
    consider "i = 0" | "i = 1" | "i = 2" using i by linarith
    then show ?thesis
    proof cases
      case 3
      have "slot_shard 1040 (Some wire2) = wire2" using parity_length by (simp add: slot_shard_def)
      then show ?thesis
        using 3 parity_length by (simp add: same_on_def codec_cols_def wire2_def parity_sent_def [symmetric])
    qed (use e [of 0] e [of 1] in \<open>simp_all add: shards_sent_def same_on_def\<close>)
  qed
  then show ?thesis
    unfolding encoded_def using rs21(1) by (intro exI [of _ rs21] exI [of _ shards_sent]) (auto simp: shards_sent_def)
qed

lemma frame_sent: "sent_frame env0 12 50 2 1 7 100 packets_sent [wire0, wire1, wire2]"
proof -
  have ps: "fec_configured_packet_size env0 = 1024" "fec_recovery_symbol_size env0 = 1040"
    by (simp_all add: fec_recovery_symbol_size_def fec_configured_packet_size_def env0_def MAX_PKT_SIZE_def Let_def)
  have mx: "2 \<le> fec_max_reasonable_data_packets env0" by code_simp
  have all3: "(\<forall>i<3. P i) \<longleftrightarrow> P 0 \<and> P 1 \<and> P (2::nat)" for P
    by (auto simp: less_Suc_eq numeral_3_eq_3 numeral_2_eq_2)
  have w2: "wire2 ! 0 = 0x80" "wire2 ! 2 = 0" "wire2 ! 3 = 102" "wire2 ! 16 = 7" "wire2 ! 17 = 0" "wire2 ! 18 = 0" "wire2 ! 19 = 0"
    "wire2 ! 23 = 0" "wire2 ! 24 = 0x20" "wire2 ! 25 = 0x23" "wire2 ! 26 = 0x80" "wire2 ! 27 = 0"
    using parity_length(1) by (simp_all add: wire2_def)
  have "fec_parse wire0 = Some (fec_fields 2 50 7 100 0)" "fec_parse wire1 = Some (fec_fields 2 50 7 100 1)"
    "fec_parse wire2 = Some (fec_fields 2 50 7 100 2)"
    by (rule fec_parse_bytes; simp add: wire0_def wire1_def wire_header_def w2 parity_length)+
  then have "\<forall>i<3. rtp_data_offset ([wire0, wire1, wire2] ! i) = 12 \<and> 12 + 16 \<le> length ([wire0, wire1, wire2] ! i) \<and>
     length ([wire0, wire1, wire2] ! i) \<le> MAX_PKT_SIZE \<and>
     fec_parse ([wire0, wire1, wire2] ! i) = Some (fec_fields 2 50 7 100 i)"
    unfolding all3 using w2(1) wire_lengths parity_length
    by (simp add: rtp_data_offset_def MAX_PKT_SIZE_def) (simp add: wire0_def wire1_def wire_header_def)
  moreover have "flags_fit (wire0 ! 20) 0 2" "flags_fit (wire1 ! 20) 1 2" "spi_follows (wire0, 12) (wire1, 12)"
    by (simp_all add: wire0_def wire1_def wire_header_def flags_fit_def spi_follows_def fec_nv_stream_packet_index_def read_le32_def)
  ultimately show ?thesis
    unfolding sent_frame_def ps
    using mx packets_whole(1) wire_packets sent_encoded
    by (simp add: all_less_two FEC_MAX_PACKETS_def NO_FRAME_def) (simp add: packets_sent_def)
qed

theorem fec_any_d_packets_suffice_witness:
  "decoded (vid (submit_pending env0 (fec (fold
       (\<lambda>i r. snd (rtp_fec_add_packet env0 ([wire0, wire1, wire2] ! i) r)) [2, 0] (queue_init queue_zero))))) =
     [(7, [0, 0, 1, 0x65] @ replicate 1004 0x11 @ replicate 1008 0x22)]"
proof -
  have z: "fec (queue_init queue_zero) = rtp_fec_init fec_zero" "s_deferred (queue_init queue_zero) = []"
    by (simp_all add: queue_init_def on_fec_def queue_zero_def)
  have v: "vid (rtp_fec_init fec_zero) = reassembly_zero" "decoded reassembly_zero = []"
    by (simp_all add: rtp_fec_init_def reset_frame_receive_status_def fec_zero_def reassembly_zero_def decoded_def
        List.map_filter_def)
  have "ready_for 7 (fec (queue_init queue_zero))"
    unfolding z(1) using quiet_zero v(1)
    by (simp add: ready_for_def nothing_pending_def context_ok_def rtp_fec_init_def reset_frame_receive_status_def
        DATA_SHARDS_MAX_def) (simp add: fec_zero_def DATA_SHARDS_MAX_def)
  from fec_any_d_packets_suffice [OF frame_sent this z(2), of "[2, 0]"] show ?thesis
    unfolding z(1) v packets_whole(2) by (simp add: env0_def)
qed

end
