(* ===== verification/RtpFecInvariant.thy ===== *)
theory RtpFecInvariant
  imports RtpFecQueue
begin

text \<open>
  The invariant of the FEC queue (rtp_fec.c) over every sequence of packets, resets and changes made by
  the other threads to what the queue shares with them: indices stay inside the arrays, every slot fits
  its buffer, and the counters are what they are meant to count.
\<close>

subsection \<open>The invariant of the current frame\<close>

definition slots_ok :: "u8 list option list \<Rightarrow> bool list \<Rightarrow> bool" where
  "slots_ok slots net \<longleftrightarrow> length slots = FEC_MAX_PACKETS \<and> length net = FEC_MAX_PACKETS \<and>
     (\<forall>i<FEC_MAX_PACKETS. (case slots ! i of None \<Rightarrow> \<not> net ! i | Some p \<Rightarrow> length p \<le> MAX_PKT_SIZE))"

definition blocks_ok :: "fec_block list \<Rightarrow> bool" where
  "blocks_ok bs \<longleftrightarrow> length bs = MAX_FEC_MULTI_BLOCKS \<and>
     list_all (\<lambda>b. blk_received_data_count b \<le> blk_received_count b) bs"

definition counts_ok :: "rtp_fec \<Rightarrow> bool" where
  "counts_ok s \<longleftrightarrow> g_data_packets s + g_parity_packets s = g_total_packets s \<and> g_total_packets s \<le> FEC_MAX_PACKETS \<and>
     count_list (g_received_from_network s) True = g_network_received_count s \<and>
     g_received_data_count s + g_received_parity_count s = g_network_received_count s \<and>
     g_received_count s = g_network_received_count s \<and> g_num_fec_blocks s \<in> {1..MAX_FEC_MULTI_BLOCKS}"

definition pred_ok :: "rtp_fec \<Rightarrow> bool" where
  "pred_ok s \<longleftrightarrow> length (s_pred_window s) = PRED_WINDOW_SIZE \<and> s_pred_idx s < PRED_WINDOW_SIZE \<and>
     s_pred_count s \<le> PRED_WINDOW_SIZE"

definition fec_inv :: "rtp_fec \<Rightarrow> bool" where
  "fec_inv s \<longleftrightarrow> slots_ok (g_slots s) (g_received_from_network s) \<and> blocks_ok (g_fec_blocks s) \<and>
     counts_ok s \<and> pred_ok s \<and> g_initialized s"

named_theorems fec_inv_intros "steps that keep the invariant of the current frame"

lemma inv_upd [simp]:
  "fec_inv (s\<lparr>vid := v\<rparr>) = fec_inv s" "fec_inv (s\<lparr>g_current_frame := f\<rparr>) = fec_inv s"
  "fec_inv (s\<lparr>g_lowest_seq := w\<rparr>) = fec_inv s" "fec_inv (s\<lparr>g_frame_submitted := b\<rparr>) = fec_inv s"
  "fec_inv (s\<lparr>g_fec_percentage := n\<rparr>) = fec_inv s"
  "fec_inv (s\<lparr>g_fec_packets_recovered := x\<rparr>) = fec_inv s" "fec_inv (s\<lparr>g_fec_packets_failed := x\<rparr>) = fec_inv s"
  "fec_inv (s\<lparr>g_fec_frames_dropped := x\<rparr>) = fec_inv s" "fec_inv (s\<lparr>g_fec_recovery_attempts := x\<rparr>) = fec_inv s"
  "fec_inv (s\<lparr>g_consecutive_frame_drops := x\<rparr>) = fec_inv s" "fec_inv (s\<lparr>s_consec_unrecoverable := i\<rparr>) = fec_inv s"
  "fec_inv (s\<lparr>s_multi_send_counter := n\<rparr>) = fec_inv s" "fec_inv (s\<lparr>s_fec_send_counter := n\<rparr>) = fec_inv s"
  "fec_inv (s\<lparr>s_cached := c\<rparr>) = fec_inv s" "fec_inv (s\<lparr>s_rs_ctx := r\<rparr>) = fec_inv s"
  "fec_inv (s\<lparr>s_dataDecodeMatrix := m\<rparr>) = fec_inv s"
  "fec_inv (s\<lparr>g_fec_total_bytes_received := x\<rparr>) = fec_inv s" "fec_inv (s\<lparr>g_fec_packets_received := x\<rparr>) = fec_inv s"
  by (simp_all add: fec_inv_def counts_ok_def pred_ok_def)

lemma inv_reports [simp]:
  "fec_inv (on_vid f s) = fec_inv s" "fec_inv (update_fec_status_cache s) = fec_inv s"
  "fec_inv (report_submitted s) = fec_inv s" "fec_inv (send_fec_status s) = fec_inv s"
  "fec_inv (maybe_send_fec_status s) = fec_inv s" "fec_inv (count_packet p s) = fec_inv s"
  by (simp_all add: on_vid_def update_fec_status_cache_def report_submitted_def send_fec_status_def
      maybe_send_fec_status_def count_packet_def Let_def) (simp_all add: fec_inv_def counts_ok_def pred_ok_def)

lemma inv_requests [simp]:
  "fec_inv (note_current_frame_drop_for_recovery e s) = fec_inv s" "fec_inv (request_current_frame_rfi s) = fec_inv s"
  "fec_inv (request_idr s) = fec_inv s" "fec_inv (mark_refs_corrupt s) = fec_inv s"
  "fec_inv (request_after_loss e m s) = fec_inv s"
  by (simp_all add: note_current_frame_drop_for_recovery_def request_current_frame_rfi_def request_idr_def
      mark_refs_corrupt_def request_after_loss_def Let_def)

lemma inv_record_result [fec_inv_intros]: "fec_inv s \<Longrightarrow> fec_inv (record_result b s)"
  by (simp add: record_result_def fec_inv_def counts_ok_def pred_ok_def on_vid_def)

lemma inv_drop [fec_inv_intros]:
  "fec_inv s \<Longrightarrow> fec_inv (count_drop s)"
  "fec_inv s \<Longrightarrow> fec_inv (drop_current_frame_strict e s)"
  "fec_inv s \<Longrightarrow> fec_inv (drop_unrecoverable e m s)"
  by (simp_all add: count_drop_def drop_current_frame_strict_def drop_unrecoverable_def Let_def inv_record_result)

subsection \<open>Slots\<close>

lemma slots_ok_update:
  assumes "slots_ok xs net" "length p \<le> MAX_PKT_SIZE"
  shows "slots_ok (xs[i := Some p]) net"
  using assms by (cases "i < length xs") (auto simp: slots_ok_def nth_list_update list_update_beyond)

lemma slots_ok_clear:
  assumes "slots_ok xs net" "\<not> net ! i"
  shows "slots_ok (xs[i := None]) net"
  using assms by (cases "i < length xs") (auto simp: slots_ok_def nth_list_update list_update_beyond)

lemma inv_slot [fec_inv_intros]: "fec_inv s \<Longrightarrow> length p \<le> MAX_PKT_SIZE \<Longrightarrow> fec_inv (s\<lparr>g_slots := (g_slots s)[i := Some p]\<rparr>)"
  by (simp add: fec_inv_def slots_ok_update counts_ok_def pred_ok_def)

lemma inv_slot_none: "fec_inv s \<Longrightarrow> \<not> g_received_from_network s ! i \<Longrightarrow> fec_inv (s\<lparr>g_slots := (g_slots s)[i := None]\<rparr>)"
  by (simp add: fec_inv_def slots_ok_clear counts_ok_def pred_ok_def)

lemma fec_inv_slot:
  assumes "fec_inv s" "i < FEC_MAX_PACKETS" "g_slots s ! i = Some p"
  shows "length p \<le> MAX_PKT_SIZE"
  using assms by (auto simp: fec_inv_def slots_ok_def split: option.splits)

lemma fec_inv_marked:
  assumes "fec_inv s" "i < FEC_MAX_PACKETS" "g_slots s ! i = None"
  shows "\<not> g_received_from_network s ! i"
  using assms by (auto simp: fec_inv_def slots_ok_def split: option.splits)

lemma length_patched_header:
  assumes "12 \<le> length p" "12 \<le> length ref"
  shows "length (patched_header ref sq f b l p) = length p"
  using assms by (auto simp: patched_header_def write_be16_def write_le32_def rtp_nv_offset_from_packet_def Let_def
      split: option.split if_splits)

lemma reference_packet_slot:
  assumes "reference_packet i s = Some ref"
  shows "12 \<le> length ref"
proof -
  define others where "others = filter (\<lambda>j. j \<noteq> i \<and> (case g_slots s ! j of None \<Rightarrow> False | Some p \<Rightarrow> length p \<ge> 12))
                     [0..<min (g_total_packets s) FEC_MAX_PACKETS]"
  have r: "(case filter (\<lambda>i. g_received_from_network s ! i) others @ others of
          [] \<Rightarrow> None | i # _ \<Rightarrow> g_slots s ! i) = Some ref"
    using assms unfolding reference_packet_def Let_def others_def by simp
  then obtain j js where j: "filter (\<lambda>i. g_received_from_network s ! i) others @ others = j # js"
    by (cases "filter (\<lambda>i. g_received_from_network s ! i) others @ others") auto
  then have "j \<in> set (filter (\<lambda>i. g_received_from_network s ! i) others @ others)" by simp
  then have "j \<in> set others" by auto
  then have "case g_slots s ! j of None \<Rightarrow> False | Some p \<Rightarrow> length p \<ge> 12" by (simp add: others_def)
  then show ?thesis using r j by simp
qed

lemma inv_patch [fec_inv_intros]:
  assumes "fec_inv s"
  shows "fec_inv (fec_patch_recovered_packet_header i b l s)"
proof -
  have "length (patched_header ref (g_lowest_seq s + of_nat i) (g_current_frame s) b l p) \<le> MAX_PKT_SIZE"
    if "i < FEC_MAX_PACKETS" "g_slots s ! i = Some p" "\<not> length p < 12" "reference_packet i s = Some ref" for p ref
    using that length_patched_header [of p ref] reference_packet_slot [of i s ref] fec_inv_slot [OF assms] by simp
  then show ?thesis
    using assms by (auto simp: fec_patch_recovered_packet_header_def intro!: inv_slot split: option.split)
qed

lemma symbol_size_max: "fec_recovery_symbol_size e \<le> MAX_PKT_SIZE"
  by (simp add: fec_recovery_symbol_size_def MAX_PKT_SIZE_def Let_def)

lemma recovered_len_max: "fec_recovered_data_len e p R \<le> MAX_PKT_SIZE"
  by (simp add: fec_recovered_data_len_def Let_def)

lemma inv_install [fec_inv_intros]:
  assumes "fec_inv s" "R \<le> MAX_PKT_SIZE"
  shows "fec_inv (install_slot e R b l i d s)"
proof -
  let ?s = "fec_patch_recovered_packet_header i b l (s\<lparr>g_slots := (g_slots s)[i := Some (take R d)]\<rparr>)"
  have "fec_inv (s\<lparr>g_slots := (g_slots s)[i := Some (take R d)]\<rparr>)"
    using assms by (intro inv_slot) auto
  then have "fec_inv ?s" by (rule inv_patch)
  moreover have "length (take (fec_recovered_data_len e (the (g_slots ?s ! i)) R) (the (g_slots ?s ! i))) \<le> MAX_PKT_SIZE"
    using recovered_len_max [of e "the (g_slots ?s ! i)" R] by simp
  ultimately show ?thesis unfolding install_slot_def Let_def by (rule inv_slot)
qed

lemma inv_install_recovered:
  assumes "fec_inv s" "R \<le> MAX_PKT_SIZE" "\<forall>i\<in>set is. marks ! i \<noteq> 0 \<longrightarrow> \<not> g_received_from_network s ! i"
  shows "fec_inv (snd (install_recovered e R marks out is s))"
  using assms
proof (induction e R marks out "is" s rule: install_recovered.induct)
  case (2 e R marks out i "is" s)
  let ?s = "install_slot e R 0 0 i (out ! i) s"
  have net: "g_received_from_network ?s = g_received_from_network s"
    using frame_identD(8) [OF ident_install [of e R 0 0 i "out ! i" s]] .
  consider "marks ! i = 0" | "marks ! i \<noteq> 0" "fec_validate_recovered_data_packet i (g_data_packets ?s) ?s"
    | "marks ! i \<noteq> 0" "\<not> fec_validate_recovered_data_packet i (g_data_packets ?s) ?s" by blast
  then show ?case
  proof cases
    case 1
    then show ?thesis using 2 by simp
  next
    case a: 2
    then show ?thesis using "2.IH"(2) [OF a(1) refl a(2)] "2.prems" inv_install [of s R] net by simp
  next
    case 3
    then show ?thesis using "2.prems" inv_install [of s R] net by (simp add: Let_def inv_slot_none)
  qed
qed simp

subsection \<open>Recovery and submission\<close>

lemma inv_fold: "(\<And>i s. fec_inv s \<Longrightarrow> fec_inv (f i s)) \<Longrightarrow> fec_inv s \<Longrightarrow> fec_inv (fold f is s)"
  by (induction "is" arbitrary: s) auto

lemma inv_submit_slot [fec_inv_intros]:
  assumes "fec_inv s"
  shows "fec_inv (submit_slot e i s)"
  using assms by (auto simp: submit_slot_def Let_def write_le32_def not_le intro!: inv_slot dest: fec_inv_slot
      split: option.split)

lemma inv_submit [fec_inv_intros]:
  assumes "fec_inv s"
  shows "fec_inv (submit_frame_packets e s)"
proof -
  have f: "fec_inv (fold (submit_slot e) is (on_vid g s))" for "is" g
    using assms by (intro inv_fold inv_submit_slot) simp_all
  then show ?thesis unfolding submit_frame_packets_def Let_def by (simp add: inv_drop assms)
qed

lemma inv_context [fec_inv_intros]: "fec_inv s \<Longrightarrow> fec_inv (snd (rs_context d p s))"
  by (simp add: rs_context_def split: option.split)

lemma inv_reconstruct [fec_inv_intros]: "fec_inv s \<Longrightarrow> fec_inv (snd (snd (run_reconstruct marks sh R s)))"
  by (simp add: run_reconstruct_def split: prod.split)

lemma inv_recover:
  assumes "fec_inv s"
  shows "fec_inv (recover_and_submit e n s)"
proof -
  let ?R = "fec_recovery_symbol_size e"
  let ?m = "block_marks 0 FEC_MAX_PACKETS (g_total_packets s) s"
  obtain ok s1 where c: "rs_context (g_data_packets s) (g_parity_packets s) s = (ok, s1)" by fastforce
  obtain ret out s2 where r: "run_reconstruct ?m (block_shards 0 FEC_MAX_PACKETS (g_total_packets s) ?R s) ?R s1
      = (ret, out, s2)" by (metis prod_cases3)
  obtain valid s3 where i: "install_recovered e ?R ?m out [0..<g_data_packets s2] s2 = (valid, s3)" by fastforce
  have id: "frame_ident s1 = frame_ident s" "frame_ident s2 = frame_ident s1"
    using ident_context [of "g_data_packets s" "g_parity_packets s" s] c
      ident_reconstruct [of ?m "block_shards 0 FEC_MAX_PACKETS (g_total_packets s) ?R s" ?R s1] r by simp_all
  have "fec_inv s1" using inv_context [OF assms, of "g_data_packets s" "g_parity_packets s"] c by simp
  then have "fec_inv s2" using inv_reconstruct [of s1 ?m _ ?R] r by (metis snd_conv)
  moreover have "\<not> g_received_from_network s2 ! j" if "j < g_data_packets s2" "?m ! j \<noteq> 0" for j
  proof -
    have d: "g_data_packets s2 = g_data_packets s" "g_received_from_network s2 = g_received_from_network s"
      using id by (simp_all add: frame_ident_def)
    have c: "g_data_packets s + g_parity_packets s = g_total_packets s" "g_total_packets s \<le> FEC_MAX_PACKETS"
      using assms by (simp_all add: fec_inv_def counts_ok_def)
    then have "j < g_total_packets s" "j < FEC_MAX_PACKETS" using that(1) d by linarith+
    then have "g_slots s ! j = None" using that(2) by (auto simp: block_marks_def slot_mark_def split: if_splits)
    then show ?thesis using fec_inv_marked [OF assms \<open>j < FEC_MAX_PACKETS\<close>] d(2) by simp
  qed
  ultimately have "fec_inv s3"
    using inv_install_recovered [of s2 ?R "[0..<g_data_packets s2]" ?m e out] symbol_size_max i by simp
  then show ?thesis using \<open>fec_inv s1\<close> \<open>fec_inv s2\<close>
    unfolding recover_and_submit_def Let_def c prod.case r i by (simp add: inv_drop inv_submit inv_record_result)
qed

lemma inv_blocks:
  assumes "fec_inv s" "blk_received_data_count b \<le> blk_received_count b"
  shows "fec_inv (s\<lparr>g_fec_blocks := (g_fec_blocks s)[i := b]\<rparr>)"
  using assms by (auto simp: fec_inv_def blocks_ok_def counts_ok_def pred_ok_def list_all_iff dest: set_update_subset_insert [THEN subsetD])

lemma inv_blocks_counted:
  assumes "fec_inv s" "blk_received_data_count b \<le> blk_received_count b"
  shows "fec_inv (s\<lparr>g_fec_packets_recovered := n, g_fec_blocks := (g_fec_blocks s)[i := b]\<rparr>)"
  using inv_blocks [of "s\<lparr>g_fec_packets_recovered := n\<rparr>", OF _ assms(2)] assms(1) by simp

lemma fec_inv_block:
  assumes "fec_inv s" "i < MAX_FEC_MULTI_BLOCKS"
  shows "blk_received_data_count (g_fec_blocks s ! i) \<le> blk_received_count (g_fec_blocks s ! i)"
  using assms by (auto simp: fec_inv_def blocks_ok_def list_all_length)

text \<open>One block: the codec may not touch a slot outside the block, and only lost slots are replaced.\<close>

lemma inv_recover_block:
  assumes "fec_inv s" "b < MAX_FEC_MULTI_BLOCKS"
  shows "fec_inv (snd (snd (recover_block e b (u, v, s))))"
proof -
  let ?blk = "g_fec_blocks s ! b" and ?R = "fec_recovery_symbol_size e"
  let ?marks = "block_marks (blk_base_slot ?blk) (blk_max_slots ?blk) (blk_total_packets ?blk) s"
  let ?sh = "block_shards (blk_base_slot ?blk) (blk_max_slots ?blk) (blk_total_packets ?blk) ?R s"
  obtain ok s1 where c: "rs_context (blk_data_packets ?blk) (blk_parity_packets ?blk) s = (ok, s1)" by fastforce
  obtain ret out s2 where r: "run_reconstruct ?marks ?sh ?R s1 = (ret, out, s2)" by (metis prod_cases3)
  have s1: "fec_inv s1" using inv_context [OF assms(1), of "blk_data_packets ?blk" "blk_parity_packets ?blk"] c by simp
  then have s2: "fec_inv s2" using inv_reconstruct [of s1 ?marks ?sh ?R] r by simp
  have blk: "blk_received_data_count ?blk \<le> blk_received_count ?blk" using fec_inv_block [OF assms] .
  have f: "fec_inv (fold (\<lambda>i. install_slot e ?R b n (g i) (out ! i)) is s2)" for "is" g n
    by (rule inv_fold [OF inv_install s2]) (auto intro: symbol_size_max)
  show ?thesis
    unfolding recover_block_def Let_def prod.case c r using assms(1) s1 s2 f blk
    by (simp add: inv_blocks inv_blocks_counted)
qed

lemma inv_recover_blocks:
  "fec_inv s \<Longrightarrow> \<forall>b\<in>set bs. b < MAX_FEC_MULTI_BLOCKS \<Longrightarrow> fec_inv (snd (snd (fold (recover_block e) bs (u, v, s))))"
proof (induction bs arbitrary: u v s)
  case (Cons b bs)
  obtain u' v' s' where r: "recover_block e b (u, v, s) = (u', v', s')" by (metis prod_cases3)
  then have "fec_inv s'" using inv_recover_block [of s b e u v] Cons.prems by simp
  then show ?case using Cons r by simp
qed simp

lemma inv_attempt [fec_inv_intros]:
  assumes "fec_inv s"
  shows "fec_inv (attempt_recovery_and_submit e s)"
proof -
  obtain u v t where r: "fold (recover_block e) [0..<g_num_fec_blocks s] (False, False, s) = (u, v, t)"
    by (metis prod_cases3)
  have "fec_inv t"
    using inv_recover_blocks [OF assms, of "[0..<g_num_fec_blocks s]" e False False] assms r
    by (simp add: fec_inv_def counts_ok_def)
  then have "fec_inv (attempt_multi_block_recovery_and_submit e s)"
    by (simp add: attempt_multi_block_recovery_and_submit_def r inv_drop inv_submit)
  then show ?thesis unfolding attempt_recovery_and_submit_def Let_def
    using assms by (simp add: inv_submit inv_record_result inv_drop inv_recover)
qed

subsection \<open>A packet\<close>

lemma slots_ok_fresh: "slots_ok no_slots (replicate FEC_MAX_PACKETS False)"
  by (simp add: slots_ok_def no_slots_def)

lemma count_list_replicate: "x \<noteq> y \<Longrightarrow> count_list (replicate n x) y = 0"
  by (induction n) auto

lemma inv_start [fec_inv_intros]:
  assumes "fec_inv s" "fp_total k \<le> FEC_MAX_PACKETS" "0 < fp_num_blocks k"
  shows "fec_inv (start_fec_frame k s)"
  using assms unfolding start_fec_frame_def Let_def
  by (simp add: fec_inv_def reset_frame_receive_status_def slots_ok_fresh blocks_ok_def counts_ok_def pred_ok_def
      list_all_iff fresh_block_def Let_def fp_total_def count_list_replicate MAX_FEC_MULTI_BLOCKS_def)

definition fec_packet_ok :: "fec_packet \<Rightarrow> bool" where
  "fec_packet_ok k \<longleftrightarrow> fp_total k \<le> FEC_MAX_PACKETS \<and> 0 < fp_num_blocks k \<and> fp_block k < MAX_FEC_MULTI_BLOCKS"

lemma screen_ok:
  assumes "screen_packet e p s = (r, s')" "fec_inv s"
  shows "fec_inv s'" "r = Inr k \<Longrightarrow> fec_packet_ok k"
  using assms by (auto simp: screen_packet_def fec_verdict_def fec_packet_ok_def fec_parse_def Let_def
      split: if_splits option.splits)

lemma inv_slot_index:
  assumes "fec_inv s" "slot_index k s = (r, s')"
  shows "fec_inv s'" "r = Some i \<Longrightarrow> i < FEC_MAX_PACKETS"
proof -
  have "blk_received_data_count (open_block k (g_fec_blocks s ! fp_block k)) \<le> blk_received_count (open_block k (g_fec_blocks s ! fp_block k))"
    if "fp_block k < MAX_FEC_MULTI_BLOCKS"
    using fec_inv_block [OF assms(1) that] by (simp add: open_block_def)
  moreover have "(g_fec_blocks s)[fp_block k := b] = g_fec_blocks s" if "\<not> fp_block k < MAX_FEC_MULTI_BLOCKS" for b
    using that assms(1) by (simp add: fec_inv_def blocks_ok_def list_update_beyond)
  moreover have "fec_inv (s\<lparr>g_fec_blocks := g_fec_blocks s\<rparr>)" using assms(1) by simp
  ultimately have "fec_inv (s\<lparr>g_fec_blocks := (g_fec_blocks s)[fp_block k := open_block k (g_fec_blocks s ! fp_block k)]\<rparr>)"
    using assms(1) inv_blocks by metis
  then show "fec_inv s'" "r = Some i \<Longrightarrow> i < FEC_MAX_PACKETS"
    using assms by (auto simp: slot_index_def Let_def split: if_splits)
qed

lemma count_list_set_True: "i < length xs \<Longrightarrow> \<not> xs ! i \<Longrightarrow> count_list (xs[i := True]) True = Suc (count_list xs True)"
  by (induction xs arbitrary: i) (auto simp: nth_Cons split: nat.splits)

lemma inv_store [fec_inv_intros]:
  assumes "fec_inv s" "i < FEC_MAX_PACKETS" "fp_block k < MAX_FEC_MULTI_BLOCKS"
  shows "fec_inv (store_in_slot p k i s)"
proof (cases "g_slots s ! i = None")
  case True
  define t where "t d = mark_frame_packet_received i d
      (s\<lparr>g_slots := (g_slots s)[i := Some (take MAX_PKT_SIZE p)]\<rparr>)" for d
  have net: "\<not> g_received_from_network s ! i" "length (g_received_from_network s) = FEC_MAX_PACKETS"
    using fec_inv_marked [OF assms(1,2) True] assms(1) by (auto simp: fec_inv_def slots_ok_def)
  have "slots_ok ((g_slots s)[i := Some (take MAX_PKT_SIZE p)]) ((g_received_from_network s)[i := True])"
    using assms(1,2) by (auto simp: fec_inv_def slots_ok_def nth_list_update split: option.splits)
  then have t: "fec_inv (t d\<lparr>g_received_count := g_received_count (t d) + 1\<rparr>)" for d
    using assms(1,2) net unfolding t_def mark_frame_packet_received_def Let_def
    by (auto simp: fec_inv_def counts_ok_def pred_ok_def count_list_set_True)
  have b: "blk_received_data_count (count_in_block k (g_fec_blocks (t d) ! fp_block k))
      \<le> blk_received_count (count_in_block k (g_fec_blocks (t d) ! fp_block k))" for d
    using fec_inv_block [OF t [of d] assms(3)] by (simp add: count_in_block_def)
  have "fec_inv (t d\<lparr>g_received_count := g_received_count (t d) + 1,
      g_fec_blocks := (g_fec_blocks (t d))[fp_block k := count_in_block k (g_fec_blocks (t d) ! fp_block k)]\<rparr>)" for d
    using inv_blocks [OF t b, of d "fp_block k" d] by simp
  then show ?thesis using t True by (simp add: store_in_slot_def Let_def t_def [symmetric])
qed (simp add: store_in_slot_def assms)

lemma inv_store_packet:
  assumes "fec_inv s" "fp_block k < MAX_FEC_MULTI_BLOCKS"
  shows "fec_inv (snd (store_packet e p k s))"
proof -
  obtain r t where r: "slot_index k s = (r, t)" by fastforce
  then have t: "fec_inv t" "\<And>i. r = Some i \<Longrightarrow> i < FEC_MAX_PACKETS" using inv_slot_index [OF assms(1)] by blast+
  have "fec_inv (submit_if_ready e (store_in_slot p k i t))" if "r = Some i" for i
    using inv_store [OF t(1) t(2) [OF that] assms(2)] by (simp add: submit_if_ready_def inv_attempt)
  then show ?thesis using r t(1) by (auto simp: store_packet_def split: option.split)
qed

lemma inv_submit_pending: "fec_inv s \<Longrightarrow> fec_inv (submit_pending e s)"
  by (simp add: submit_pending_def inv_attempt)

lemma inv_add_packet_now:
  assumes "fec_inv s"
  shows "fec_inv (snd (add_packet_now e p s))"
proof -
  obtain r t where r: "screen_packet e p s = (r, t)" by fastforce
  have "fec_inv (snd (store_packet e p k (frame_transition e k t)))" if "r = Inr k" for k
    using screen_ok [OF r assms] that
    by (intro inv_store_packet) (auto simp: fec_packet_ok_def frame_transition_def intro!: inv_start inv_submit_pending)
  then show ?thesis using r screen_ok [OF r assms] by (cases r) (auto simp: add_packet_now_def)
qed

subsection \<open>The held packets\<close>

definition held_ok :: "fec_queue \<Rightarrow> bool" where
  "held_ok q \<longleftrightarrow> length (s_deferred q) \<le> CABAC_DEFERRED_PACKET_LIMIT \<and>
     (\<forall>p\<in>set (s_deferred q). 12 + 16 \<le> length p \<and> length p \<le> MAX_PKT_SIZE) \<and>
     (s_deferred q \<noteq> [] \<longrightarrow> s_deferred_frame q = front_frame (s_deferred q))"

definition queue_inv :: "fec_queue \<Rightarrow> bool" where
  "queue_inv q \<longleftrightarrow> fec_inv (fec q) \<and> held_ok q"

text \<open>Nothing is held that could be handled: packets wait only while the current frame is still open and
  the first of them belongs to another frame.\<close>

definition settled :: "fec_queue \<Rightarrow> bool" where
  "settled q \<longleftrightarrow> \<not> s_replaying_deferred q \<and>
     (s_deferred q \<noteq> [] \<longrightarrow> g_current_frame (fec q) \<noteq> NO_FRAME \<and> \<not> g_frame_submitted (fec q) \<and>
        s_deferred_frame q \<noteq> g_current_frame (fec q))"

lemma queue_inv_fec: "queue_inv q \<Longrightarrow> fec_inv s \<Longrightarrow> queue_inv (q\<lparr>fec := s\<rparr>)"
  by (simp add: queue_inv_def held_ok_def)

lemma queue_inv_replaying [simp]: "queue_inv (q\<lparr>s_replaying_deferred := b\<rparr>) = queue_inv q"
  by (simp add: queue_inv_def held_ok_def)

lemma skip_front_frame:
  "ps \<noteq> [] \<longrightarrow> frame = front_frame ps \<Longrightarrow> skip_front cur ps frame = (qs, f) \<Longrightarrow> qs \<noteq> [] \<longrightarrow> f = front_frame qs"
  by (induction cur ps frame rule: skip_front.induct) (auto split: if_splits)

lemma held_suffix:
  assumes "held_ok q" "s_deferred q = xs @ ps" "ps \<noteq> [] \<longrightarrow> f = front_frame ps"
  shows "held_ok (q\<lparr>s_deferred := ps, s_deferred_frame := f\<rparr>)"
  using assms by (auto simp: held_ok_def)

lemma queue_inv_drop_submitted: "queue_inv q \<Longrightarrow> queue_inv (drop_submitted_deferred_frame_packets q)"
proof -
  assume q: "queue_inv q"
  obtain ps f where r: "skip_front (g_current_frame (fec q)) (s_deferred q) (s_deferred_frame q) = (ps, f)" by fastforce
  then obtain xs where "s_deferred q = xs @ ps" using skip_front_suffix [of "s_deferred q"] by (metis fst_conv)
  moreover have "ps \<noteq> [] \<longrightarrow> f = front_frame ps"
    using skip_front_frame [OF _ r] q by (simp add: queue_inv_def held_ok_def)
  ultimately show ?thesis
    using q held_suffix [of q xs ps f] r by (simp add: queue_inv_def drop_submitted_deferred_frame_packets_def)
qed

lemma queue_inv_replay_front:
  assumes "queue_inv q"
  shows "queue_inv (replay_front e q)"
proof -
  have "held_ok (pop_front q)"
    using assms by (cases "s_deferred q") (auto simp: pop_front_def queue_inv_def held_ok_def)
  moreover have "fec_inv (snd (add_packet_now e (hd (s_deferred q)) (fec q)))"
    using assms by (intro inv_add_packet_now) (simp add: queue_inv_def)
  moreover have "fec_inv (fec (pop_front q)) = fec_inv (fec q)" "fec (pop_front q) = fec q"
    by (simp_all add: pop_front_def)
  ultimately show ?thesis
    using queue_inv_fec [of "pop_front q"] assms by (simp add: replay_front_def on_fec_def queue_inv_def)
qed

lemma queue_inv_replay_loop: "queue_inv q \<Longrightarrow> queue_inv (replay_loop e q)"
proof (induction e q rule: replay_loop.induct)
  case (1 e q)
  then show ?case
    by (subst replay_loop.simps) (auto simp: Let_def queue_inv_drop_submitted queue_inv_replay_front)
qed

lemma queue_inv_drain: "queue_inv q \<Longrightarrow> queue_inv (drain_deferred_cabac_packets e q)"
  by (simp add: drain_deferred_cabac_packets_def queue_inv_replay_loop)

lemma replay_loop_settles:
  "s_deferred (replay_loop e q) = [] \<or> \<not> can_replay (replay_loop e q)"
proof (induction e q rule: replay_loop.induct)
  case (1 e q)
  show ?case
    using 1 by (subst (1 2) replay_loop.simps) (auto simp: Let_def)
qed

lemma drain_settles: "\<not> s_replaying_deferred q \<Longrightarrow> settled (drain_deferred_cabac_packets e q)"
  using replay_loop_settles [of e "q\<lparr>s_replaying_deferred := True\<rparr>"]
  by (auto simp: drain_deferred_cabac_packets_def settled_def can_replay_def)

lemma drain_not_replaying:
  "\<not> s_replaying_deferred q \<Longrightarrow> \<not> s_replaying_deferred (drain_deferred_cabac_packets e q)"
  using drain_settles [of q e] by (simp add: settled_def)

subsection \<open>The entry points\<close>

lemma parse_frame:
  assumes "fec_parse p = Some k" "12 + 16 \<le> length p"
  shows "packet_frame_index p = fp_frame k"
  using assms by (auto simp: fec_parse_def packet_frame_index_def Let_def split: if_splits)

lemma queue_inv_defer:
  assumes "queue_inv q" "defer_cabac_newer_packet p (fp_frame k) q = (d, q')" "fec_parse p = Some k" "12 + 16 \<le> length p"
  shows "queue_inv q'" "s_replaying_deferred q' = s_replaying_deferred q"
  using assms parse_frame [OF assms(3,4)]
  by (auto simp: defer_cabac_newer_packet_def Let_def queue_inv_def held_ok_def split: if_splits)
    (cases "s_deferred q"; auto)+

lemma queue_inv_transition:
  assumes "queue_inv q" "\<not> s_replaying_deferred q" "fec_packet_ok k" "fec_parse p = Some k" "12 + 16 \<le> length p"
  shows "queue_inv (snd (transition_loop e p k q)) \<and> \<not> s_replaying_deferred (snd (transition_loop e p k q))"
  using assms
proof (induction e p k q rule: transition_loop.induct)
  case (1 e p k q)
  let ?c = "fp_frame k > g_current_frame (fec q) \<and> current_frame_needs_cabac_defer e (fec q)"
  consider "fp_frame k = g_current_frame (fec q)" | "fp_frame k \<noteq> g_current_frame (fec q)" "\<not> ?c"
    | "fp_frame k \<noteq> g_current_frame (fec q)" ?c by blast
  then show ?case
  proof cases
    case 1
    then show ?thesis using "1.prems" by (subst (1 2) transition_loop.simps) simp
  next
    case 2
    have "queue_inv (q\<lparr>fec := start_fec_frame k (submit_pending e (fec q))\<rparr>)"
      using "1.prems" by (intro queue_inv_fec inv_start inv_submit_pending) (auto simp: fec_packet_ok_def queue_inv_def)
    then show ?thesis using 2 "1.prems" by (subst (1 2) transition_loop.simps) (auto simp: on_fec_def)
  next
    case 3
    obtain d q' where d: "defer_cabac_newer_packet p (fp_frame k) q = (d, q')" by fastforce
    have q': "queue_inv q'" "\<not> s_replaying_deferred q'" using queue_inv_defer [OF _ d] "1.prems" by simp_all
    have "queue_inv (on_fec (submit_pending e) q')"
      unfolding on_fec_def using q' by (intro queue_inv_fec inv_submit_pending) (auto simp: queue_inv_def)
    then have "queue_inv (drain_deferred_cabac_packets e (on_fec (submit_pending e) q'))"
      "\<not> s_replaying_deferred (drain_deferred_cabac_packets e (on_fec (submit_pending e) q'))"
      using q' queue_inv_drain drain_not_replaying by (simp_all add: on_fec_def)
    then show ?thesis using 3 d q' "1.IH" [OF 3 d [symmetric] refl] "1.prems"
      by (subst (1 2) transition_loop.simps) (simp split: bool.split)
  qed
qed

lemma queue_inv_inner:
  assumes "queue_inv q" "\<not> s_replaying_deferred q"
  shows "queue_inv (snd (rtp_fec_add_packet_inner e p q)) \<and> \<not> s_replaying_deferred (snd (rtp_fec_add_packet_inner e p q))"
proof -
  have f: "fec_inv (fec q)" using assms(1) by (simp add: queue_inv_def)
  obtain r s where r: "screen_packet e p (fec q) = (r, s)" by fastforce
  note s = screen_ok [OF r f]
  show ?thesis
  proof (cases r)
    case (Inl a)
    then show ?thesis using r s(1) assms by (simp add: rtp_fec_add_packet_inner_def queue_inv_fec)
  next
    case (Inr k)
    have k: "fec_parse p = Some k" "12 + 16 \<le> length p"
      using r Inr by (auto simp: screen_packet_def Let_def split: if_splits option.splits)
    obtain d q' where d: "transition_loop e p k (q\<lparr>fec := s\<rparr>) = (d, q')" by fastforce
    have q': "queue_inv q'" "\<not> s_replaying_deferred q'"
      using queue_inv_transition [OF queue_inv_fec [OF assms(1) s(1)] _ s(2) [OF Inr] k, of e] assms(2) d by simp_all
    have "queue_inv (q'\<lparr>fec := snd (store_packet e p k (fec q'))\<rparr>)"
      using q'(1) s(2) [OF Inr] by (intro queue_inv_fec inv_store_packet) (auto simp: queue_inv_def fec_packet_ok_def)
    then show ?thesis using r Inr d q' by (auto simp: rtp_fec_add_packet_inner_def split: prod.split bool.split)
  qed
qed

lemma inv_init: "blocks_ok (g_fec_blocks s) \<Longrightarrow> counts_ok s \<Longrightarrow> pred_ok s \<Longrightarrow> g_received_count s = 0 \<Longrightarrow> fec_inv (rtp_fec_init s)"
  by (simp add: rtp_fec_init_def reset_frame_receive_status_def fec_inv_def slots_ok_fresh counts_ok_def pred_ok_def
      count_list_replicate)

lemma blocks_ok_reset: "blocks_ok bs \<Longrightarrow> blocks_ok (map reset_block bs)"
  by (simp add: blocks_ok_def list_all_iff reset_block_def)

lemma inv_reset [fec_inv_intros]: "fec_inv s \<Longrightarrow> fec_inv (reset_current s)"
  by (simp add: reset_current_def reset_frame_receive_status_def fec_inv_def slots_ok_fresh counts_ok_def pred_ok_def
      count_list_replicate on_vid_def blocks_ok_reset MAX_FEC_MULTI_BLOCKS_def PRED_WINDOW_SIZE_def)

lemma queue_inv_add_packet:
  assumes "queue_inv (if g_initialized (fec q) then q else queue_init q)" "\<not> s_replaying_deferred q"
  shows "queue_inv (snd (rtp_fec_add_packet e p q)) \<and> settled (snd (rtp_fec_add_packet e p q))"
proof -
  let ?q = "if g_initialized (fec q) then q else queue_init q"
  have r: "\<not> s_replaying_deferred ?q" using assms(2) by (simp add: queue_init_def on_fec_def)
  let ?d = "drain_deferred_cabac_packets e ?q"
  have "queue_inv (snd (rtp_fec_add_packet_inner e p ?d)) \<and> \<not> s_replaying_deferred (snd (rtp_fec_add_packet_inner e p ?d))"
    using queue_inv_drain [OF assms(1)] drain_not_replaying [OF r] by (rule queue_inv_inner)
  then show ?thesis
    using queue_inv_drain drain_settles unfolding rtp_fec_add_packet_def Let_def
    by (auto split: prod.split_asm prod.split)
qed

subsection \<open>Reachable states\<close>

text \<open>What can happen to the queue: a packet, a reset of the decoder, and whatever the other threads do to
  the shared video state and the shared codec context.\<close>

inductive fec_reachable :: "fec_queue \<Rightarrow> bool" where
  start: "fec_reachable queue_zero"
| packet: "fec_reachable q \<Longrightarrow> fec_reachable (snd (rtp_fec_add_packet e p q))"
| restart: "fec_reachable q \<Longrightarrow> fec_reachable (rtp_fec_reset q)"
| others: "fec_reachable q \<Longrightarrow> fec_reachable (on_fec (\<lambda>s. s\<lparr>vid := v, s_rs_ctx := rs\<rparr>) q)"

text \<open>Before the first packet the module is not initialised; what \<open>rtp_fec_init\<close> then leaves alone is zero.\<close>

definition asleep :: "fec_queue \<Rightarrow> bool" where
  "asleep q \<longleftrightarrow> s_deferred q = [] \<and> blocks_ok (g_fec_blocks (fec q)) \<and> counts_ok (fec q) \<and> pred_ok (fec q) \<and>
     g_received_count (fec q) = 0"

lemma asleep_zero: "asleep queue_zero"
  by (simp add: asleep_def queue_zero_def fec_zero_def blocks_ok_def block_zero_def counts_ok_def pred_ok_def
      list_all_iff count_list_replicate MAX_FEC_MULTI_BLOCKS_def PRED_WINDOW_SIZE_def)

lemma queue_inv_wake: "asleep q \<Longrightarrow> queue_inv (queue_init q)"
  by (simp add: asleep_def queue_init_def queue_inv_def held_ok_def on_fec_def inv_init)

lemma reachable_inv:
  assumes "fec_reachable q"
  shows "settled q \<and> (if g_initialized (fec q) then queue_inv q else asleep q)"
  using assms
proof induction
  case start
  then show ?case by (simp add: asleep_zero settled_def) (simp add: queue_zero_def fec_zero_def)
next
  case (packet q e p)
  then have "queue_inv (if g_initialized (fec q) then q else queue_init q)" "\<not> s_replaying_deferred q"
    using queue_inv_wake by (auto simp: settled_def)
  from queue_inv_add_packet [OF this] show ?case by (auto simp: queue_inv_def fec_inv_def)
next
  case (restart q)
  have i: "g_initialized (reset_current s) = g_initialized s" for s
    by (simp add: reset_current_def reset_frame_receive_status_def on_vid_def)
  have "blocks_ok (g_fec_blocks (reset_current (fec q))) \<and> counts_ok (reset_current (fec q)) \<and>
      pred_ok (reset_current (fec q)) \<and> g_received_count (reset_current (fec q)) = 0" if "asleep q"
    using that by (simp add: asleep_def reset_current_def reset_frame_receive_status_def counts_ok_def pred_ok_def
        count_list_replicate on_vid_def blocks_ok_reset MAX_FEC_MULTI_BLOCKS_def PRED_WINDOW_SIZE_def)
  then show ?case
    using restart inv_reset by (auto simp: rtp_fec_reset_def on_fec_def settled_def asleep_def queue_inv_def held_ok_def i)
next
  case (others q v rs)
  then show ?case
    by (auto simp: on_fec_def settled_def asleep_def queue_inv_def held_ok_def counts_ok_def pred_ok_def)
qed

text \<open>The property C9: in every state the FEC queue can reach, counters and array indices are right, slots
  and held packets fit their buffers, and packets are held only while the current frame is still open.\<close>

theorem fec_queue_reachable:
  assumes "fec_reachable q" "g_initialized (fec q)"
  shows "settled q \<and> held_ok q \<and> slots_ok (g_slots (fec q)) (g_received_from_network (fec q)) \<and>
    counts_ok (fec q) \<and> blocks_ok (g_fec_blocks (fec q)) \<and> pred_ok (fec q)"
  using reachable_inv [OF assms(1)] assms(2) by (simp add: queue_inv_def fec_inv_def)

text \<open>The first of two packets of a frame has arrived.\<close>

definition env_plain :: video_env where
  "env_plain = \<lparr>g_avc_entropy_mode = 0, cabacTestMode = False, audioEnabled = False, cfg_fps = 30, cfg_width = 480,
     cfg_height = 272, cfg_bitrate = 2000, cfg_packetSize = 1024, now_us = 0, g_decode_paused = False,
     player_reset_ok = True, psp_avc_player_decode = (\<lambda>f d. 0)\<rparr>"

definition packet_1_of_2 :: "u8 list" where
  "packet_1_of_2 = [0x80, 0, 0, 1] @ replicate 12 0 @ [0, 0, 0, 0, 7, 0, 0, 0, 5, 0, 0, 0, 0, 0, 0x80, 0]"

theorem fec_queue_reachable_witness:
  "let q = snd (rtp_fec_add_packet env_plain packet_1_of_2 queue_zero)
   in settled q \<and> held_ok q \<and> counts_ok (fec q) \<and> pred_ok (fec q)"
proof -
  let ?q = "snd (rtp_fec_add_packet env_plain packet_1_of_2 queue_zero)"
  have r: "fec_reachable ?q" by (rule fec_reachable.packet [OF fec_reachable.start])
  have "\<not> g_initialized (fec queue_zero)" "\<not> s_replaying_deferred queue_zero"
    by (simp_all add: queue_zero_def fec_zero_def)
  then have "queue_inv ?q"
    using queue_inv_add_packet [of queue_zero env_plain packet_1_of_2] queue_inv_wake [OF asleep_zero] by simp
  then have "g_initialized (fec ?q)" by (simp add: queue_inv_def fec_inv_def)
  from fec_queue_reachable [OF r this] show ?thesis by (simp add: Let_def)
qed

end
