(* ===== verification/RtpFecHeld.thy ===== *)
theory RtpFecHeld
  imports RtpFecInvariant
begin

text \<open>
  What becomes of the held packets of a CABAC stream (rtp_fec.c). Once the current frame is handed on, the
  packets held for the next one are replayed in the order of their arrival. If however the current frame
  is only ended by a packet of a later frame, the packets held for the frame in between are stale by the
  time they are looked at, and that frame is lost although it has arrived.
\<close>

subsection \<open>One replayed packet\<close>

definition well_formed :: "u8 list \<Rightarrow> fec_packet \<Rightarrow> bool" where
  "well_formed p k \<longleftrightarrow> 12 + 16 \<le> length p \<and> length p \<le> MAX_PKT_SIZE \<and> fec_parse p = Some k \<and>
     fp_block k < MAX_FEC_MULTI_BLOCKS"

lemma stale_packet_ignored:
  assumes "well_formed p k" "g_current_frame s \<noteq> NO_FRAME" "sint (fp_frame k - g_current_frame s) < 0"
  shows "add_packet_now e p s = (True, count_packet p s)"
  using assms by (simp add: well_formed_def add_packet_now_def screen_packet_def fec_verdict_def count_packet_def Let_def)

lemma count_packet_frame [simp]:
  "g_current_frame (count_packet p s) = g_current_frame s"
  "g_frame_submitted (count_packet p s) = g_frame_submitted s"
  "g_initialized (count_packet p s) = g_initialized s"
  by (simp_all add: count_packet_def)

lemma slot_index_frame:
  "slot_index k s = (r, t) \<Longrightarrow> g_current_frame t = g_current_frame s"
  "slot_index k s = (None, t) \<Longrightarrow> g_frame_submitted t = g_frame_submitted s"
  by (auto simp: slot_index_def Let_def split: if_splits)

lemma store_in_slot_frame: "g_current_frame (store_in_slot p k i s) = g_current_frame s"
  by (simp add: store_in_slot_def mark_frame_packet_received_def Let_def)

lemma store_packet_frame: "g_current_frame (snd (store_packet e p k s)) = g_current_frame s"
proof -
  obtain r t where r: "slot_index k s = (r, t)" by fastforce
  have "g_current_frame (submit_if_ready e u) = g_current_frame u" for u
    using frame_identD(1) [OF ident_attempt [of e u]] by (simp add: submit_if_ready_def)
  then show ?thesis using slot_index_frame(1) [OF r] r
    by (simp add: store_packet_def store_in_slot_frame split: option.split)
qed

lemma transition_frame: "g_current_frame (frame_transition e k s) = fp_frame k"
  by (simp add: frame_transition_def start_fec_frame_def reset_frame_receive_status_def Let_def)

lemma add_packet_now_frame:
  assumes "well_formed p k"
  shows "g_current_frame (snd (add_packet_now e p s)) = fp_frame k \<or>
    g_current_frame (snd (add_packet_now e p s)) = g_current_frame s \<and>
    g_frame_submitted (snd (add_packet_now e p s)) = g_frame_submitted s"
proof -
  obtain r t where r: "screen_packet e p s = (r, t)" by fastforce
  show ?thesis
  proof (cases r)
    case (Inl c)
    then have "t = count_packet p s" using r assms
      by (auto simp: screen_packet_def well_formed_def Let_def split: option.splits)
    then show ?thesis using r Inl by (simp add: add_packet_now_def)
  next
    case (Inr k')
    then have "k' = k" using r assms
      by (auto simp: screen_packet_def well_formed_def Let_def split: option.splits if_splits)
    then show ?thesis using r Inr
      by (simp add: add_packet_now_def store_packet_frame transition_frame)
  qed
qed

subsection \<open>Replay in order\<close>

definition replay :: "video_env \<Rightarrow> u8 list list \<Rightarrow> rtp_fec \<Rightarrow> rtp_fec" where
  "replay e = fold (\<lambda>p s. snd (add_packet_now e p s))"

lemma front_of_held:
  assumes "\<forall>p\<in>set ps. \<exists>k. well_formed p k \<and> fp_frame k = f" "ps \<noteq> []"
  shows "front_frame ps = f"
  using assms parse_frame by (cases ps) (auto simp: well_formed_def)

lemma skip_all:
  "\<forall>p\<in>set ps. \<exists>k. well_formed p k \<and> fp_frame k = f \<Longrightarrow> ps \<noteq> [] \<longrightarrow> g = f \<Longrightarrow> fst (skip_front f ps g) = []"
proof (induction ps arbitrary: g)
  case (Cons p ps)
  then show ?case using front_of_held [of ps f] by auto
qed simp

lemma replay_loop_held:
  assumes "\<forall>p\<in>set (s_deferred q). \<exists>k. well_formed p k \<and> fp_frame k = f"
    "s_deferred q \<noteq> [] \<longrightarrow> s_deferred_frame q = f"
    "g_current_frame (fec q) = f \<or> g_frame_submitted (fec q)"
  shows "\<exists>xs ys. s_deferred q = xs @ ys \<and> fec (replay_loop e q) = replay e xs (fec q) \<and>
    s_deferred (replay_loop e q) = [] \<and>
    (ys \<noteq> [] \<longrightarrow> g_frame_submitted (replay e xs (fec q)) \<and> g_current_frame (replay e xs (fec q)) = f)"
  using assms
proof (induction e q rule: replay_loop.induct)
  case (1 e q)
  let ?d = "drop_submitted_deferred_frame_packets q"
  show ?case
  proof (cases "s_deferred q = [] \<or> g_frame_submitted (fec q) \<and> g_current_frame (fec q) = f")
    case True
    then have "s_deferred ?d = []"
      using skip_all [OF "1.prems"(1), of "s_deferred_frame q"] "1.prems"(2)
      by (auto simp: drop_submitted_deferred_frame_packets_def split: prod.split)
    moreover have "fec ?d = fec q" by simp
    ultimately have "s_deferred (replay_loop e q) = []" "fec (replay_loop e q) = fec q"
      by (simp_all add: replay_loop.simps [of e q] Let_def)
    then show ?thesis
      using True by - (rule exI [of _ "[]"], rule exI [of _ "s_deferred q"], auto simp: replay_def)
  next
    case False
    then obtain p ps where ps: "s_deferred q = p # ps" by (cases "s_deferred q") auto
    then have f: "s_deferred_frame q = f" using "1.prems"(2) by simp
    have d: "?d = q"
    proof (cases "g_frame_submitted (fec q)")
      case True
      then have "g_current_frame (fec q) \<noteq> f" using False by blast
      then show ?thesis using ps f by (simp add: drop_submitted_deferred_frame_packets_def)
    qed (simp add: drop_submitted_deferred_frame_packets_def)
    have c: "can_replay q" using "1.prems"(3) f by (auto simp: can_replay_def)
    let ?r = "replay_front e q"
    have r: "s_deferred ?r = ps" "fec ?r = snd (add_packet_now e p (fec q))" "ps \<noteq> [] \<longrightarrow> s_deferred_frame ?r = f"
      using ps front_of_held [of ps f] "1.prems"(1) by (auto simp: replay_front_def on_fec_def pop_front_def)
    obtain k where "well_formed p k" "fp_frame k = f" using "1.prems"(1) ps by auto
    then have cf: "g_current_frame (fec ?r) = f \<or> g_frame_submitted (fec ?r)"
      using add_packet_now_frame [of p k e "fec q"] "1.prems"(3) r(2) by auto
    have h: "\<forall>p\<in>set (s_deferred ?r). \<exists>k. well_formed p k \<and> fp_frame k = f"
      using "1.prems"(1) ps r(1) by simp
    have n: "\<not> (s_deferred q = [] \<or> \<not> can_replay q)" using ps c by simp
    have sf: "s_deferred ?r \<noteq> [] \<longrightarrow> s_deferred_frame ?r = f" using r by simp
    obtain xs ys where x: "ps = xs @ ys" "fec (replay_loop e ?r) = replay e xs (fec ?r)"
      "s_deferred (replay_loop e ?r) = []"
      "ys \<noteq> [] \<longrightarrow> g_frame_submitted (replay e xs (fec ?r)) \<and> g_current_frame (replay e xs (fec ?r)) = f"
      using "1.IH" [OF refl, unfolded d, OF n h sf cf] unfolding r(1) by blast
    have "replay_loop e q = replay_loop e ?r" using ps c d by (simp add: replay_loop.simps [of e q] Let_def)
    then show ?thesis using x ps r(2)
      by (intro exI [of _ "p # xs"] exI [of _ ys]) (simp add: replay_def)
  qed
qed

subsection \<open>Stale packets\<close>

definition stale :: "u32 \<Rightarrow> u8 list \<Rightarrow> bool" where
  "stale cur p \<longleftrightarrow> (\<exists>k. well_formed p k \<and> sint (fp_frame k - cur) < 0)"

lemma stale_front: "stale cur p \<Longrightarrow> front_frame (p # ps) \<noteq> cur"
  using parse_frame by (auto simp: stale_def well_formed_def)

lemma replay_loop_stale:
  assumes "\<forall>p\<in>set (s_deferred q). stale (g_current_frame (fec q)) p" "g_current_frame (fec q) \<noteq> NO_FRAME"
    "s_deferred q \<noteq> [] \<longrightarrow> s_deferred_frame q = front_frame (s_deferred q)"
  shows "\<exists>xs. s_deferred q = xs @ s_deferred (replay_loop e q) \<and> fec (replay_loop e q) = fold count_packet xs (fec q)"
  using assms
proof (induction e q rule: replay_loop.induct)
  case (1 e q)
  let ?d = "drop_submitted_deferred_frame_packets q"
  show ?case
  proof (cases "s_deferred q")
    case Nil
    then have "s_deferred ?d = []" using drop_submitted_shorter [of q] by simp
    then show ?thesis using Nil by (simp add: replay_loop.simps [of e q] Let_def)
  next
    case (Cons p ps)
    then have st: "stale (g_current_frame (fec q)) p" using "1.prems"(1) by simp
    have d: "?d = q"
    proof (cases "g_frame_submitted (fec q)")
      case True
      have "s_deferred_frame q \<noteq> g_current_frame (fec q)"
        using stale_front [OF st, of ps] "1.prems"(3) Cons by simp
      then show ?thesis using Cons by (simp add: drop_submitted_deferred_frame_packets_def)
    qed (simp add: drop_submitted_deferred_frame_packets_def)
    show ?thesis
    proof (cases "can_replay q")
      case False
      then show ?thesis using d by (simp add: replay_loop.simps [of e q] Let_def)
    next
      case True
      let ?r = "replay_front e q"
      have n: "fec ?r = count_packet p (fec q)"
        using st stale_packet_ignored "1.prems"(2) Cons by (auto simp: stale_def replay_front_def on_fec_def pop_front_def)
      have r: "s_deferred ?r = ps" "ps \<noteq> [] \<longrightarrow> s_deferred_frame ?r = front_frame ps"
        using Cons by (simp_all add: replay_front_def on_fec_def pop_front_def)
      have "\<not> (s_deferred ?d = [] \<or> \<not> can_replay ?d)" using d Cons True by simp
      then obtain xs where x: "ps = xs @ s_deferred (replay_loop e ?r)"
        "fec (replay_loop e ?r) = fold count_packet xs (fec ?r)"
        using "1.IH" [OF refl] "1.prems" r n Cons unfolding d by auto
      have "replay_loop e q = replay_loop e ?r" using Cons True d by (simp add: replay_loop.simps [of e q] Let_def)
      then show ?thesis using x n Cons by (intro exI [of _ "p # xs"]) simp
    qed
  qed
qed

subsection \<open>Properties\<close>

text \<open>The property C10: once the current frame has been handed on, the packets held for a newer frame go in,
  in the order they arrived; only packets of a frame that is complete by then are left out, and none is
  left waiting.\<close>

theorem held_replayed_in_order:
  assumes "\<forall>p\<in>set (s_deferred q). \<exists>k. well_formed p k \<and> fp_frame k = f"
    and "s_deferred q \<noteq> [] \<longrightarrow> s_deferred_frame q = f" "g_frame_submitted (fec q)" "\<not> s_replaying_deferred q"
  shows "\<exists>xs ys. s_deferred q = xs @ ys \<and> fec (drain_deferred_cabac_packets e q) = replay e xs (fec q) \<and>
    s_deferred (drain_deferred_cabac_packets e q) = [] \<and>
    (ys \<noteq> [] \<longrightarrow> g_frame_submitted (replay e xs (fec q)) \<and> g_current_frame (replay e xs (fec q)) = f)"
  using replay_loop_held [of "q\<lparr>s_replaying_deferred := True\<rparr>" f e] assms
  by (simp add: drain_deferred_cabac_packets_def)

text \<open>The property C11: if the current frame can be completed with its parity but is only ended by a packet
  of a frame behind the held ones, then the call does exactly what it would do without the held packets:
  they have no effect but on the counters of received packets, and their frame is lost.\<close>

theorem held_frame_lost:
  assumes "g_initialized (fec q)" "settled q" "\<not> current_frame_needs_cabac_defer e s"
    and p: "screen_packet e p (fec q) = (Inr k, s)" "fp_frame k \<noteq> g_current_frame s" "fp_frame k \<noteq> NO_FRAME"
    and held: "s_deferred q \<noteq> []" "s_deferred_frame q = front_frame (s_deferred q)"
      "\<forall>p'\<in>set (s_deferred q). stale (fp_frame k) p'"
  shows "\<exists>xs. s_deferred q = xs @ s_deferred (snd (rtp_fec_add_packet e p q)) \<and>
    fec (snd (rtp_fec_add_packet e p q)) =
      fold count_packet xs (snd (store_packet e p k (start_fec_frame k (submit_pending e s))))"
proof -
  let ?t = "snd (store_packet e p k (start_fec_frame k (submit_pending e s)))"
  let ?c = "fst (store_packet e p k (start_fec_frame k (submit_pending e s)))"
  have nr: "\<not> s_replaying_deferred q" "\<not> can_replay q" using assms(2) held(1) by (auto simp: settled_def can_replay_def)
  have d: "drop_submitted_deferred_frame_packets r = r" if "\<not> g_frame_submitted (fec r)" for r
    using that by (simp add: drop_submitted_deferred_frame_packets_def)
  have "\<not> g_frame_submitted (fec q)" using assms(2) held(1) by (simp add: settled_def)
  then have "drain_deferred_cabac_packets e q = q"
    using nr d [of "q\<lparr>s_replaying_deferred := True\<rparr>"]
    by (simp add: drain_deferred_cabac_packets_def replay_loop.simps [of e "q\<lparr>s_replaying_deferred := True\<rparr>"]
        can_replay_def Let_def)
  moreover have "transition_loop e p k (q\<lparr>fec := s\<rparr>) = (False, q\<lparr>fec := start_fec_frame k (submit_pending e s)\<rparr>)"
    using assms(3) p(2) by (subst transition_loop.simps) (auto simp: on_fec_def)
  ultimately have c: "snd (rtp_fec_add_packet e p q) = drain_deferred_cabac_packets e (q\<lparr>fec := ?t\<rparr>)"
    using assms(1) p(1) by (simp add: rtp_fec_add_packet_def rtp_fec_add_packet_inner_def split: prod.split)
  have "g_current_frame ?t = fp_frame k"
    by (simp add: store_packet_frame start_fec_frame_def reset_frame_receive_status_def Let_def)
  then show ?thesis
    unfolding c using replay_loop_stale [of "q\<lparr>fec := ?t, s_replaying_deferred := True\<rparr>" e] held p(3) nr(1)
    by (simp add: drain_deferred_cabac_packets_def)
qed

subsection \<open>Frames 7, 8 and 9\<close>

text \<open>Two data packets and one parity packet each. Of frame 7 the first data packet and the parity have
  arrived, then a packet of frame 8 that is held; now frame 9 starts.\<close>

definition env_cabac :: video_env where
  "env_cabac = env_plain\<lparr>g_avc_entropy_mode := 1\<rparr>"

definition small_packet :: "u8 \<Rightarrow> u8 \<Rightarrow> u8 list" where
  "small_packet f i = [0x80, 0, 0, 10 * f + i, 0, 0, 0, 0, 0, 0, 0, 0, 0, 0, 0, 0,
     f, 0, 0, 0, 5, 0, 0, 0, 0x20, 0x03 + 0x10 * i, 0x80, 0]"

definition small_fields :: "u8 \<Rightarrow> nat \<Rightarrow> fec_packet" where
  "small_fields f i = \<lparr>fp_seq = of_nat (10 * unat f + i), fp_frame = of_nat (unat f), fp_data_pkts = 2,
     fp_index = i, fp_pct = 50, fp_block = 0, fp_num_blocks = 1\<rparr>"

definition before_9 :: fec_queue where
  "before_9 = queue_zero\<lparr>s_deferred := [small_packet 8 0], s_deferred_frame := 8,
     fec := fec_zero\<lparr>g_initialized := True, g_current_frame := 7, g_lowest_seq := 70, g_data_packets := 2,
       g_parity_packets := 1, g_total_packets := 3, g_fec_percentage := 50,
       g_slots := no_slots[0 := Some (small_packet 7 0), 2 := Some (small_packet 7 2)],
       g_received_from_network := (replicate FEC_MAX_PACKETS False)[0 := True, 2 := True],
       g_network_received_count := 2, g_received_data_count := 1, g_received_parity_count := 1,
       g_highest_received_index := 2, g_received_count := 2\<rparr>\<rparr>"

definition after_7 :: fec_queue where
  "after_7 = on_fec (\<lambda>s. s\<lparr>g_frame_submitted := True\<rparr>) before_9"

lemma small_parsed: "fec_parse (small_packet 8 0) = Some (small_fields 8 0)" "fec_parse (small_packet 9 0) = Some (small_fields 9 0)"
  by (simp_all add: fec_parse_def small_packet_def small_fields_def read_le32_def read_be16_def Let_def)

lemma small_8: "well_formed (small_packet 8 0) (small_fields 8 0)"
  using small_parsed
  by (simp add: well_formed_def small_fields_def MAX_PKT_SIZE_def MAX_FEC_MULTI_BLOCKS_def) (simp add: small_packet_def)

lemma small_8_stale: "stale 9 (small_packet 8 0)"
  using small_8 by (auto simp: stale_def small_fields_def)

lemma small_8_front: "front_frame [small_packet 8 0] = 8"
  using parse_frame [OF small_parsed(1)] by (simp add: small_packet_def small_fields_def)

lemma before_9_fields [simp]:
  "s_deferred before_9 = [small_packet 8 0]" "s_deferred_frame before_9 = 8" "\<not> s_replaying_deferred before_9"
  "g_initialized (fec before_9)" "g_current_frame (fec before_9) = 7" "\<not> g_frame_submitted (fec before_9)"
  by (simp_all add: before_9_def queue_zero_def fec_zero_def)

lemma screen_9: "screen_packet env_cabac (small_packet 9 0) (fec before_9) =
    (Inr (small_fields 9 0), count_packet (small_packet 9 0) (fec before_9))"
proof -
  have "12 + 16 \<le> length (small_packet 9 0)" by (simp add: small_packet_def)
  moreover have "fec_max_reasonable_data_packets env_cabac \<ge> 2"
    by (simp add: fec_max_reasonable_data_packets_def env_cabac_def env_plain_def FEC_MAX_PACKETS_def Let_def)
  moreover have "fec_verdict env_cabac (small_fields 9 0) (count_packet (small_packet 9 0) (fec before_9)) = None"
    if "fec_max_reasonable_data_packets env_cabac \<ge> 2"
    using that by (simp add: fec_verdict_def small_fields_def fp_total_def fp_parity_def FEC_MAX_PACKETS_def
        MAX_FEC_MULTI_BLOCKS_def Let_def)
  ultimately show ?thesis by (simp add: screen_packet_def small_parsed Let_def)
qed

lemma recoverable_7: "\<not> current_frame_needs_cabac_defer env_cabac (count_packet (small_packet 9 0) (fec before_9))"
proof -
  have "count_missing_current_data_packets (fec before_9) = 1"
    by (simp add: count_missing_current_data_packets_def before_9_def no_slots_def FEC_MAX_PACKETS_def upt_rec
        min_def)
  then show ?thesis
    by (simp add: current_frame_needs_cabac_defer_def count_missing_current_data_packets_def count_packet_def)
      (simp add: before_9_def fec_zero_def)
qed

theorem held_frame_lost_witness:
  "\<exists>xs. s_deferred before_9 = xs @ s_deferred (snd (rtp_fec_add_packet env_cabac (small_packet 9 0) before_9)) \<and>
    fec (snd (rtp_fec_add_packet env_cabac (small_packet 9 0) before_9)) =
      fold count_packet xs (snd (store_packet env_cabac (small_packet 9 0) (small_fields 9 0)
        (start_fec_frame (small_fields 9 0)
          (submit_pending env_cabac (count_packet (small_packet 9 0) (fec before_9))))))"
proof (rule held_frame_lost)
  show "settled before_9" by (simp add: settled_def NO_FRAME_def)
  show "screen_packet env_cabac (small_packet 9 0) (fec before_9) =
    (Inr (small_fields 9 0), count_packet (small_packet 9 0) (fec before_9))" by (rule screen_9)
qed (use recoverable_7 small_8_stale small_8_front in \<open>simp_all add: small_fields_def NO_FRAME_def\<close>)

theorem held_replayed_in_order_witness:
  "s_deferred (drain_deferred_cabac_packets env_cabac after_7) = []"
proof -
  have "\<forall>p\<in>set (s_deferred after_7). \<exists>k. well_formed p k \<and> fp_frame k = 8"
    using small_8 by (auto simp: after_7_def on_fec_def small_fields_def)
  moreover have "s_deferred_frame after_7 = 8" "g_frame_submitted (fec after_7)" "\<not> s_replaying_deferred after_7"
    by (simp_all add: after_7_def on_fec_def)
  ultimately show ?thesis using held_replayed_in_order [of after_7 8 env_cabac] by blast
qed

end
