(* ===== verification/RtpFecLoss.thy ===== *)
theory RtpFecLoss
  imports RtpFecHeld
begin

text \<open>
  Frames that cannot be completed (rtp_fec.c): a frame with fewer packets than it has data is never handed
  on, a replacement is requested and the reassembly waits for it; and the prediction of bursts of losses,
  which refines counting in the list of all results.
\<close>

subsection \<open>What is emitted\<close>

fun is_request :: "action \<Rightarrow> bool" where
  "is_request Request_idr = True"
| "is_request Request_idr_force = True"
| "is_request Request_idr_recovery_fast = True"
| "is_request Request_idr_startup = True"
| "is_request (Request_rfi a b) = True"
| "is_request _ = False"

fun is_decode :: "action \<Rightarrow> bool" where
  "is_decode (Player_decode f d) = True"
| "is_decode _ = False"

text \<open>Since a state, nothing has been handed to the decoder.\<close>

definition no_decode :: "'a video_state_scheme \<Rightarrow> 'a video_state_scheme \<Rightarrow> bool" where
  "no_decode v v' \<longleftrightarrow> (\<exists>as. actions v' = actions v @ as \<and> (\<forall>a\<in>set as. \<not> is_decode a))"

definition requested :: "'a video_state_scheme \<Rightarrow> 'a video_state_scheme \<Rightarrow> bool" where
  "requested v v' \<longleftrightarrow> (\<exists>as. actions v' = actions v @ as \<and> (\<exists>a\<in>set as. is_request a))"

definition waiting :: "reassembly \<Rightarrow> bool" where
  "waiting v \<longleftrightarrow> s_waiting_for_idr_frame v \<or> s_waiting_for_ref_inval_frame v"

lemma no_decode_refl [simp]: "actions v' = actions v \<Longrightarrow> no_decode v v'"
  by (simp add: no_decode_def)

lemma no_decode_trans [trans]: "no_decode a b \<Longrightarrow> no_decode b c \<Longrightarrow> no_decode a c"
  unfolding no_decode_def by (elim exE) (auto intro: exI [of _ "_ @ _"])

lemma requested_trans: "no_decode a b \<Longrightarrow> requested b c \<Longrightarrow> requested a c" "requested a b \<Longrightarrow> no_decode b c \<Longrightarrow> requested a c"
  unfolding no_decode_def requested_def by (elim exE, auto)+

lemma emit_step:
  "\<not> is_decode a \<Longrightarrow> no_decode v (emit a v)"
  "is_request a \<Longrightarrow> requested v (emit a v)"
  by (simp_all add: no_decode_def requested_def emit_def)

lemma decoded_none: "\<forall>a\<in>set as. \<not> is_decode a \<Longrightarrow> List.map_filter (\<lambda>a. case a of Player_decode f d \<Rightarrow> Some (f, d) | _ \<Rightarrow> None) as = []"
proof (induction as)
  case (Cons a as)
  then show ?case by (cases a) (simp_all add: List.map_filter_def)
qed (simp add: List.map_filter_def)

lemma no_decode_decoded: "no_decode v v' \<Longrightarrow> decoded v' = decoded v"
  unfolding no_decode_def decoded_def by (elim exE) (use decoded_none in \<open>simp add: List.map_filter_def\<close>)

text \<open>A report of a loss makes the reassembly wait.\<close>

lemma start_idr_wait:
  "actions v = actions u \<Longrightarrow> no_decode u (rtp_start_idr_wait e a b v)"
  "s_waiting_for_idr_frame (rtp_start_idr_wait e a b v)"
  by (simp_all add: rtp_start_idr_wait_def widen_idr_loss_def rtp_clear_ref_inval_wait_def Let_def no_decode_def emit_def
      rtp_request_idr_force_for_mode_def)

lemma note_frame_loss:
  "no_decode v (rtp_reassembly_note_frame_loss e a b v)" "waiting (rtp_reassembly_note_frame_loss e a b v)"
  by (simp_all add: rtp_reassembly_note_frame_loss_def rtp_mark_waiting_for_ref_inval_def Let_def widen_idr_loss_def
      waiting_def start_idr_wait)

subsection \<open>Dropping a frame\<close>

text \<open>The effect of a step on the video state: nothing is decoded, a wait for a recovery frame goes on, and
  the last good frame stays.\<close>

definition reports :: "rtp_fec \<Rightarrow> rtp_fec \<Rightarrow> bool" where
  "reports s s' \<longleftrightarrow> no_decode (vid s) (vid s') \<and> (waiting (vid s) \<longrightarrow> waiting (vid s')) \<and>
     g_last_good_frame (vid s') = g_last_good_frame (vid s) \<and> g_current_frame s' = g_current_frame s"

lemma reports_same: "vid s' = vid s \<Longrightarrow> g_current_frame s' = g_current_frame s \<Longrightarrow> reports s s'"
  by (simp add: reports_def)

lemma reports_trans: "reports a b \<Longrightarrow> reports b c \<Longrightarrow> reports a c"
  using no_decode_trans by (auto simp: reports_def)

lemma reports_request:
  "reports a b \<Longrightarrow> requested (vid b) (vid c) \<Longrightarrow> requested (vid a) (vid c)"
  "requested (vid a) (vid b) \<Longrightarrow> reports b c \<Longrightarrow> requested (vid a) (vid c)"
  using requested_trans by (auto simp: reports_def)

lemma reports_emit: "\<not> is_decode a \<Longrightarrow> reports s (on_vid (emit a) s)"
  by (simp add: reports_def on_vid_def emit_step) (simp add: emit_def waiting_def)

lemma reports_status: "reports s (send_fec_status (update_fec_status_cache s))"
proof -
  have "reports s (update_fec_status_cache s)"
    by (rule reports_same) (simp_all add: update_fec_status_cache_def Let_def)
  moreover have "reports t (send_fec_status t)" for t unfolding send_fec_status_def by (rule reports_emit) simp
  ultimately show ?thesis using reports_trans by blast
qed

lemma last_good_kept [simp]:
  "g_last_good_frame (rtp_start_idr_wait e a b v) = g_last_good_frame v"
  "g_last_good_frame (rtp_reassembly_note_frame_loss e a b v) = g_last_good_frame v"
  by (simp_all add: rtp_start_idr_wait_def rtp_reassembly_note_frame_loss_def rtp_mark_waiting_for_ref_inval_def Let_def
      widen_idr_loss_def rtp_clear_ref_inval_wait_def rtp_request_idr_force_for_mode_def emit_def)

lemma reports_note_loss:
  "reports s (note_current_frame_drop_for_recovery e s)"
  "g_last_good_frame (vid s) \<noteq> 0 \<Longrightarrow> g_current_frame s \<noteq> NO_FRAME \<Longrightarrow>
    waiting (vid (note_current_frame_drop_for_recovery e s))"
  using note_frame_loss by (simp_all add: note_current_frame_drop_for_recovery_def reports_def on_vid_def)

lemma reports_count_drop: "reports s (count_drop s)"
  by (simp add: count_drop_def record_result_def reports_def on_vid_def emit_step) (simp add: emit_def waiting_def)

lemma requested_emit:
  "is_request a \<Longrightarrow> actions v = actions u \<Longrightarrow> requested u (emit a v)"
  by (simp add: requested_def emit_def)

lemma after_loss:
  assumes "g_current_frame s \<noteq> NO_FRAME"
  shows "requested (vid s) (vid (request_after_loss e m s))" "reports s (request_after_loss e m s)"
proof -
  note d = request_after_loss_def request_idr_def request_current_frame_rfi_def Let_def on_vid_def
  have loss: "requested (vid s) (rtp_reassembly_note_frame_loss e a b (v\<lparr>g_refs_corrupted := c, g_idr_fully_decoded := f\<rparr>))"
    "no_decode (vid s) (rtp_reassembly_note_frame_loss e a b (v\<lparr>g_refs_corrupted := c, g_idr_fully_decoded := f\<rparr>))"
    if "requested (vid s) v" "no_decode (vid s) v" for a b c f v
  proof -
    let ?v = "v\<lparr>g_refs_corrupted := c, g_idr_fully_decoded := f\<rparr>"
    have v: "requested (vid s) ?v" "no_decode (vid s) ?v" using that by (simp_all add: requested_def no_decode_def)
    show "requested (vid s) (rtp_reassembly_note_frame_loss e a b ?v)" using requested_trans(2) [OF v(1) note_frame_loss(1)] .
    show "no_decode (vid s) (rtp_reassembly_note_frame_loss e a b ?v)" using no_decode_trans [OF v(2) note_frame_loss(1)] .
  qed
  have em: "no_decode (vid s) (emit a v)" if "\<not> is_decode a" "actions v = actions (vid s)" for a v
    using that by (simp add: no_decode_def emit_def)
  show "requested (vid s) (vid (request_after_loss e m s))"
    using assms by (simp add: d requested_emit loss em)
  have k: "g_last_good_frame (emit a v) = g_last_good_frame v" "waiting (emit a v) = waiting v" for a v
    by (simp_all add: emit_def waiting_def)
  show "reports s (request_after_loss e m s)"
    using assms note_frame_loss(2) by (simp add: d reports_def requested_emit loss em k) (simp add: waiting_def)
qed

definition gives_up :: "rtp_fec \<Rightarrow> rtp_fec \<Rightarrow> bool" where
  "gives_up s s' \<longleftrightarrow> decoded (vid s') = decoded (vid s) \<and> requested (vid s) (vid s') \<and> g_frame_submitted s' \<and>
     (g_last_good_frame (vid s) \<noteq> 0 \<longrightarrow> waiting (vid s'))"

lemma drop_unrecoverable_gives_up:
  assumes "g_current_frame s \<noteq> NO_FRAME"
  shows "gives_up s (drop_unrecoverable e m s)"
proof -
  define s1 where "s1 = count_drop (s\<lparr>g_fec_packets_failed := g_fec_packets_failed s + of_nat m\<rparr>)"
  define s2 where "s2 = send_fec_status (update_fec_status_cache s1)"
  define s3 where "s3 = s2\<lparr>s_consec_unrecoverable := s_consec_unrecoverable s2 + 1\<rparr>"
  define s4 where "s4 = note_current_frame_drop_for_recovery e s3"
  have "reports s (s\<lparr>g_fec_packets_failed := g_fec_packets_failed s + of_nat m\<rparr>)" by (simp add: reports_same)
  from reports_trans [OF this reports_count_drop] have "reports s s1" by (simp add: s1_def)
  from reports_trans [OF this reports_status] have "reports s s2" by (simp add: s2_def)
  moreover have "reports s2 s3" by (simp add: s3_def reports_same)
  ultimately have s3: "reports s s3" by (rule reports_trans)
  then have s4: "reports s s4" unfolding s4_def using reports_note_loss(1) by (rule reports_trans)
  have c: "g_current_frame s3 \<noteq> NO_FRAME" "g_current_frame s4 \<noteq> NO_FRAME" using assms s3 s4 by (simp_all add: reports_def)
  note l = after_loss [OF c(2), of e m]
  have r: "reports s (request_after_loss e m s4)" using s4 l(2) by (rule reports_trans)
  have w: "waiting (vid (request_after_loss e m s4))" if "g_last_good_frame (vid s) \<noteq> 0"
  proof -
    have "waiting (vid s4)"
      using reports_note_loss(2) [of s3 e] c(1) s3 that by (simp add: s4_def reports_def)
    then show ?thesis using l(2) by (simp add: reports_def)
  qed
  have "drop_unrecoverable e m s = (request_after_loss e m s4)\<lparr>g_frame_submitted := True\<rparr>"
    by (simp add: drop_unrecoverable_def Let_def s1_def s2_def s3_def s4_def)
  then show ?thesis
    using r w reports_request(1) [OF s4 l(1)] no_decode_decoded by (auto simp: gives_up_def reports_def)
qed

lemma strict_drop_gives_up:
  assumes "g_current_frame s \<noteq> NO_FRAME"
  shows "gives_up s (drop_current_frame_strict e s)"
proof -
  define s1 where "s1 = count_drop (send_fec_status (update_fec_status_cache s))"
  define s2 where "s2 = (on_vid (\<lambda>v. v\<lparr>g_fec_recovery_clean := False\<rparr>) s1)\<lparr>g_frame_submitted := True\<rparr>"
  define s3 where "s3 = note_current_frame_drop_for_recovery e s2"
  have "reports s s1" unfolding s1_def using reports_status reports_count_drop by (rule reports_trans)
  moreover have "reports s1 s2" by (simp add: s2_def reports_def on_vid_def no_decode_def waiting_def)
  ultimately have s2: "reports s s2" by (rule reports_trans)
  then have s3: "reports s s3" unfolding s3_def using reports_note_loss(1) by (rule reports_trans)
  have c: "g_current_frame s2 \<noteq> NO_FRAME" "g_current_frame s3 \<noteq> NO_FRAME" using assms s2 s3 by (simp_all add: reports_def)
  have w: "waiting (vid s3)" if "g_last_good_frame (vid s) \<noteq> 0"
    using reports_note_loss(2) [of s2 e] c(1) s2 that by (simp add: s3_def reports_def)
  define s4 where "s4 = drop_current_frame_strict e s"
  have s4: "s4 = (if g_last_good_frame (vid s3) = 0 \<or> g_refs_corrupted (vid s3)
            \<or> g_consecutive_frame_drops s3 \<ge> CONSECUTIVE_DROP_IDR_LIMIT
         then
           let s = on_vid (\<lambda>v. emit Request_idr
                     (v\<lparr>g_idr_fully_decoded := False, g_fec_requested_idr := True\<rparr>)) s3
           in if g_consecutive_frame_drops s \<ge> CONSECUTIVE_DROP_IDR_LIMIT
              then s\<lparr>g_consecutive_frame_drops := 0\<rparr> else s
         else request_current_frame_rfi s3)"
    unfolding s4_def drop_current_frame_strict_def s1_def s2_def s3_def by (simp only: Let_def)
  have r: "requested (vid s3) (vid s4)" "reports s3 s4"
    unfolding s4 Let_def using c(2)
    by (simp_all add: on_vid_def request_current_frame_rfi_def requested_def no_decode_def reports_def waiting_def emit_def)
  have "reports s s4" using s3 r(2) by (rule reports_trans)
  then show ?thesis
    using w r reports_request(1) [OF s3 r(1)] no_decode_decoded submitted_after(1) [of e s]
    by (auto simp: gives_up_def reports_def s4_def)
qed

text \<open>The property C12: when parity cannot make up for the missing data packets of a frame that consists of one
  FEC block (\<open>g_num_fec_blocks\<close> at most 1, every frame below the host's block limit), nothing of it reaches the decoder, the host is asked for a replacement, the frame is closed, and once a picture has
  been shown the reassembly waits for a recovery frame.\<close>

theorem fec_short_frame_dropped:
  assumes "g_num_fec_blocks s \<le> 1" "0 < g_data_packets s" "0 < g_total_packets s" "g_total_packets s \<le> FEC_MAX_PACKETS"
    and "g_current_frame s \<noteq> NO_FRAME"
    and "length (filter (\<lambda>i. g_slots s ! i \<noteq> None) [g_data_packets s..<g_total_packets s])
       < length (filter (\<lambda>i. g_slots s ! i = None) [0..<g_data_packets s])"
  shows "let s' = attempt_recovery_and_submit e s
    in decoded (vid s') = decoded (vid s) \<and> requested (vid s) (vid s') \<and> g_frame_submitted s' \<and>
      (g_last_good_frame (vid s) \<noteq> 0 \<longrightarrow> waiting (vid s'))"
proof -
  let ?m = "length (filter (\<lambda>i. g_slots s ! i = None) [0..<g_data_packets s])"
  define t where "t = s\<lparr>s_consec_unrecoverable := 0, g_consecutive_frame_drops := 0,
      g_fec_packets_failed := g_fec_packets_failed s + of_nat ?m, g_fec_recovery_attempts := g_fec_recovery_attempts s + 1\<rparr>"
  have t: "g_current_frame t \<noteq> NO_FRAME" "vid t = vid s" using assms(5) by (simp_all add: t_def)
  have "?m \<noteq> 0" using assms(6) by linarith
  then have "attempt_recovery_and_submit e s =
      (if g_received_count s < g_data_packets s then drop_unrecoverable e ?m s else drop_current_frame_strict e t)"
    using assms by (simp add: attempt_recovery_and_submit_def Let_def t_def)
  then show ?thesis
    using drop_unrecoverable_gives_up [OF assms(5), of e ?m] strict_drop_gives_up [OF t(1), of e] t(2)
    by (simp add: gives_up_def Let_def)
qed

text \<open>Of frame 7 only the first of two data packets has arrived.\<close>

definition only_first :: rtp_fec where
  "only_first = (fec before_9)\<lparr>g_slots := no_slots[0 := Some (small_packet 7 0)], g_received_count := 1\<rparr>"

theorem fec_short_frame_dropped_witness:
  "let s' = attempt_recovery_and_submit env_cabac only_first
    in decoded (vid s') = [] \<and> requested (vid only_first) (vid s') \<and> g_frame_submitted s'"
proof -
  have d: "decoded (vid only_first) = []"
    by (simp add: only_first_def before_9_def fec_zero_def reassembly_zero_def decoded_def List.map_filter_def)
  have "g_num_fec_blocks only_first = 1" "g_data_packets only_first = 2" "g_total_packets only_first = 3"
    "g_current_frame only_first = 7"
    by (simp_all add: only_first_def before_9_def fec_zero_def)
  moreover have "g_slots only_first ! 1 = None" "g_slots only_first ! 2 = None"
    by (simp_all add: only_first_def no_slots_def FEC_MAX_PACKETS_def)
  moreover have "[0..<2] = [0, 1 :: nat]" "[2..<3] = [2 :: nat]" by (simp_all add: upt_rec)
  moreover have "(7 :: u32) \<noteq> NO_FRAME" by (simp add: NO_FRAME_def)
  ultimately show ?thesis
    using fec_short_frame_dropped [of only_first env_cabac] d by (simp add: FEC_MAX_PACKETS_def Let_def)
qed

subsection \<open>Prediction of bursts\<close>

text \<open>The ring of the last 32 results shows the end of the list of all results.\<close>

definition window_of :: "bool list \<Rightarrow> rtp_fec \<Rightarrow> bool" where
  "window_of h s \<longleftrightarrow> length (s_pred_window s) = PRED_WINDOW_SIZE \<and>
     s_pred_count s = min (length h) PRED_WINDOW_SIZE \<and> s_pred_idx s = length h mod PRED_WINDOW_SIZE \<and>
     (\<forall>j<length h. length h - PRED_WINDOW_SIZE \<le> j \<longrightarrow> s_pred_window s ! (j mod PRED_WINDOW_SIZE) = h ! j)"

lemma window_record:
  assumes "window_of h s"
  shows "window_of (h @ [b]) (record_result b s)"
proof -
  have neq: "j mod 32 \<noteq> length h mod 32" if "length h - 31 \<le> j" "j < length h" for j
  proof
    assume "j mod 32 = length h mod 32"
    then have "32 dvd length h - j" using that mod_eq_dvd_iff_nat [of j "length h" 32] by simp
    then show False using that dvd_imp_le [of 32 "length h - j"] by linarith
  qed
  have "(if s_pred_count s < 32 then s_pred_count s + 1 else s_pred_count s) = min (length (h @ [b])) 32"
    using assms by (simp add: window_of_def PRED_WINDOW_SIZE_def)
  moreover have "(s_pred_window s)[s_pred_idx s := b] ! (j mod 32) = (h @ [b]) ! j"
    if "j < Suc (length h)" "length h - 31 \<le> j" for j
  proof (cases "j = length h")
    case True
    then show ?thesis using assms by (simp add: window_of_def PRED_WINDOW_SIZE_def)
  next
    case False
    then have "j < length h" using that(1) by simp
    then show ?thesis using assms neq [OF that(2)] that
      by (simp add: window_of_def PRED_WINDOW_SIZE_def nth_append nth_list_update_neq)
  qed
  ultimately show ?thesis
    using assms by (simp add: window_of_def record_result_def on_vid_def PRED_WINDOW_SIZE_def mod_Suc_eq)
qed

lemma window_records: "window_of h s \<Longrightarrow> window_of (h @ rs) (fold record_result rs s)"
proof (induction rs arbitrary: h s)
  case (Cons r rs)
  from Cons.IH [OF window_record [OF Cons.prems]] show ?case by simp
qed simp

lemma window_reset: "window_of [] (reset_current s)"
  by (simp add: window_of_def reset_current_def reset_frame_receive_status_def on_vid_def PRED_WINDOW_SIZE_def)

definition burst :: "bool list \<Rightarrow> nat" where
  "burst h = (if length h < PRED_RECENT_SIZE then 0
     else let drops = length (filter (\<lambda>b. b) (drop (length h - PRED_RECENT_SIZE) h))
       in if drops \<ge> PRED_BURST_THRESH then drops else 0)"

lemma recent_window:
  assumes "window_of h s" "8 \<le> length h" "i < 8"
  shows "s_pred_window s ! ((s_pred_idx s + 32 - 1 - i) mod 32) = h ! (length h - Suc i)"
proof -
  have "(s_pred_idx s + 32 - 1 - i) mod 32 = (length h - Suc i) mod 32"
  proof -
    have "s_pred_idx s + 32 - 1 - i = length h mod 32 + (31 - i)"
      using assms by (simp add: window_of_def PRED_WINDOW_SIZE_def)
    also have "\<dots> mod 32 = (length h + (31 - i)) mod 32" by (simp add: mod_add_left_eq)
    also have "length h + (31 - i) = length h - Suc i + 32" using assms(2,3) by linarith
    finally show ?thesis by simp
  qed
  then show ?thesis using assms by (simp add: window_of_def PRED_WINDOW_SIZE_def)
qed

lemma length_filter_rev_index:
  "length (filter (\<lambda>i. xs ! (length xs - Suc i)) [0..<length xs]) = length (filter (\<lambda>b. b) xs)"
proof -
  have "map (\<lambda>i. xs ! (length xs - Suc i)) [0..<length xs] = rev xs" by (rule nth_equalityI) (simp_all add: rev_nth)
  then have "length (filter (\<lambda>b. b) (map (\<lambda>i. xs ! (length xs - Suc i)) [0..<length xs])) = length (filter (\<lambda>b. b) (rev xs))"
    by simp
  then show ?thesis by (simp add: filter_map o_def rev_filter [symmetric])
qed

lemma predicted_window:
  assumes "window_of h s"
  shows "rtp_fec_get_predicted_loss s = burst h"
proof (cases "length h < 8")
  case True
  then show ?thesis using assms
    by (simp add: rtp_fec_get_predicted_loss_def burst_def window_of_def PRED_RECENT_SIZE_def PRED_WINDOW_SIZE_def)
next
  case False
  let ?r = "drop (length h - 8) h"
  have "filter (\<lambda>i. s_pred_window s ! ((s_pred_idx s + 32 - 1 - i) mod 32)) [0..<8] = filter (\<lambda>i. ?r ! (length ?r - Suc i)) [0..<8]"
    using recent_window [OF assms] False by (intro filter_cong) auto
  also have "length \<dots> = length (filter (\<lambda>b. b) ?r)"
    using length_filter_rev_index [of ?r] False by simp
  finally have "length (filter (\<lambda>i. s_pred_window s ! ((s_pred_idx s + 32 - 1 - i) mod 32)) [0..<8]) =
    length (filter (\<lambda>b. b) ?r)" .
  moreover have "\<not> s_pred_count s < 8" using False assms by (simp add: window_of_def PRED_WINDOW_SIZE_def)
  ultimately show ?thesis using False
    by (simp only: rtp_fec_get_predicted_loss_def burst_def Let_def PRED_RECENT_SIZE_def PRED_WINDOW_SIZE_def if_False)
qed

text \<open>The property C14: the predicted loss is the number of drops among the last eight frame results since
  the reset, if there are eight results and at least four of them drops, and 0 otherwise.\<close>

theorem predicted_loss_counts:
  "rtp_fec_get_predicted_loss (fold record_result h (reset_current s)) = burst h"
  using window_records [OF window_reset, of h s] by (simp add: predicted_window)

end
