(* ===== verification/AudioFec.thy ===== *)
theory AudioFec
  imports ReedSolomonDecode RingBuffers VideoState
begin

text \<open>
  The error correction of the audio stream (audio_thread.c): data packets and parity packets are cached in
  eight blocks of four data and two parity shards; a missing packet is rebuilt from its block. Blocks are
  found by their first sequence number; the block used longest ago is replaced. Packets that arrive
  while the receive loop looks ahead wait in a queue of eight.

  A buffer of 1400 bytes is a list of that length; \<open>int\<close> lengths that the guards keep positive are natural
  numbers. The clock is an argument of every call that reads it. The codec context is the static one of
  rs.c, which the video path uses too; \<open>audio_rs_set\<close> says whether the module holds a pointer to it.
  Log lines, their counters and telemetry are left out.
\<close>

unbundle bit_operations_syntax

definition AUDIO_SAMPLE_RATE :: nat where "AUDIO_SAMPLE_RATE = 48000"
definition AUDIO_MAX_RTP_SIZE :: nat where "AUDIO_MAX_RTP_SIZE = 1400"
definition RTP_HDR_SIZE :: nat where "RTP_HDR_SIZE = 12"
definition RTP_PT_AUDIO_OPUS :: u8 where "RTP_PT_AUDIO_OPUS = 97"
definition RTP_PT_AUDIO_FEC :: u8 where "RTP_PT_AUDIO_FEC = 127"
definition AUDIO_RTP_FEC_DATA_SHARDS :: nat where "AUDIO_RTP_FEC_DATA_SHARDS = 4"
definition AUDIO_RTP_FEC_PARITY_SHARDS :: nat where "AUDIO_RTP_FEC_PARITY_SHARDS = 2"
definition AUDIO_RTP_FEC_TOTAL_SHARDS :: nat where "AUDIO_RTP_FEC_TOTAL_SHARDS = 6"
definition AUDIO_RTP_FEC_CACHE_BLOCKS :: nat where "AUDIO_RTP_FEC_CACHE_BLOCKS = 8"
definition AUDIO_PENDING_PACKETS :: nat where "AUDIO_PENDING_PACKETS = 8"
definition AUDIO_FEC_HEADER :: nat where "AUDIO_FEC_HEADER = 12"

lemmas audio_sizes = AUDIO_MAX_RTP_SIZE_def RTP_HDR_SIZE_def AUDIO_RTP_FEC_DATA_SHARDS_def
  AUDIO_RTP_FEC_PARITY_SHARDS_def AUDIO_RTP_FEC_TOTAL_SHARDS_def AUDIO_RTP_FEC_CACHE_BLOCKS_def
  AUDIO_PENDING_PACKETS_def AUDIO_FEC_HEADER_def

subsection \<open>State\<close>

record audio_block =
  ab_valid :: bool
  ab_base_seq :: u16
  ab_base_ts :: u32
  ab_ssrc :: u32
  ab_payload_type :: u8
  ab_block_size :: nat
  ab_marks :: "u8 list"
  ab_data :: "u8 list list"
  ab_fec :: "u8 list list"
  ab_last_use :: u32

record pending_packet =
  pp_len :: int
  pp_data :: "u8 list"

record audio_fec =
  a_blocks :: "audio_block list"
  a_recovered :: u32
  a_failed :: u32
  a_pending :: "pending_packet list"
  a_pending_head :: nat
  a_pending_count :: nat
  a_reorder_drains :: u32
  a_reorder_queued :: u32
  a_reorder_drops :: u32
  a_packet_duration_ms :: int
  a_last_data_us :: u32
  a_pkts_received :: u32
  audio_rs_set :: bool
  a_rs_ctx :: reed_solomon
  a_work :: "u8 list"

definition zero_buffer :: "u8 list" where
  "zero_buffer = replicate AUDIO_MAX_RTP_SIZE 0"

definition audio_block_zero :: audio_block where
  "audio_block_zero = \<lparr>ab_valid = False, ab_base_seq = 0, ab_base_ts = 0, ab_ssrc = 0, ab_payload_type = 0,
     ab_block_size = 0, ab_marks = replicate AUDIO_RTP_FEC_TOTAL_SHARDS 0,
     ab_data = replicate AUDIO_RTP_FEC_DATA_SHARDS zero_buffer,
     ab_fec = replicate AUDIO_RTP_FEC_PARITY_SHARDS zero_buffer, ab_last_use = 0\<rparr>"

definition audio_fec_base_seq :: "u16 \<Rightarrow> u16" where
  "audio_fec_base_seq sq = sq AND NOT 3"

definition audio_rtp_fec_reset :: "audio_fec \<Rightarrow> audio_fec" where
  "audio_rtp_fec_reset a =
     a\<lparr>a_blocks := replicate AUDIO_RTP_FEC_CACHE_BLOCKS audio_block_zero,
       a_pending := replicate AUDIO_PENDING_PACKETS \<lparr>pp_len = 0, pp_data = zero_buffer\<rparr>,
       a_recovered := 0, a_failed := 0, a_pending_head := 0, a_pending_count := 0,
       a_reorder_drains := 0, a_reorder_queued := 0, a_reorder_drops := 0\<rparr>"

text \<open>The static initialisers.\<close>

definition audio_fec_zero :: audio_fec where
  "audio_fec_zero = audio_rtp_fec_reset \<lparr>a_blocks = [], a_recovered = 0, a_failed = 0, a_pending = [],
     a_pending_head = 0, a_pending_count = 0, a_reorder_drains = 0, a_reorder_queued = 0, a_reorder_drops = 0,
     a_packet_duration_ms = 60, a_last_data_us = 0, a_pkts_received = 0, audio_rs_set = False,
     a_rs_ctx = \<lparr>data_shards = 0, parity_shards = 0, shards_total = 0, parity = []\<rparr>,
     a_work = replicate (DATA_SHARDS_MAX * DATA_SHARDS_MAX) 0\<rparr>"

definition audio_thread_set_packet_duration_ms :: "int \<Rightarrow> audio_fec \<Rightarrow> audio_fec" where
  "audio_thread_set_packet_duration_ms d a =
     a\<lparr>a_packet_duration_ms := (if d < 5 then 5 else if d > 60 then 60 else d)\<rparr>"

subsection \<open>The block cache\<close>

text \<open>First loop: the block with this first sequence number.\<close>

fun find_block :: "u16 \<Rightarrow> nat \<Rightarrow> audio_block list \<Rightarrow> nat option" where
  "find_block base i [] = None"
| "find_block base i (b # bs) =
     (if ab_valid b \<and> ab_base_seq b = base then Some i else find_block base (i + 1) bs)"

text \<open>Second loop: the first unused block, or the one used longest ago.\<close>

fun pick_block :: "nat \<Rightarrow> (nat \<times> u32) option \<Rightarrow> audio_block list \<Rightarrow> nat option" where
  "pick_block i p [] = map_option fst p"
| "pick_block i p (b # bs) =
     (if \<not> ab_valid b then Some i
      else pick_block (i + 1)
        (case p of None \<Rightarrow> Some (i, ab_last_use b)
         | Some (j, oldest) \<Rightarrow> if ab_last_use b - oldest > 0x80000000 then Some (i, ab_last_use b) else p) bs)"

definition fresh_audio_block :: "u16 \<Rightarrow> u32 \<Rightarrow> u32 \<Rightarrow> u8 \<Rightarrow> nat \<Rightarrow> u32 \<Rightarrow> audio_block \<Rightarrow> audio_block" where
  "fresh_audio_block base ts ssrc pt n now b =
     b\<lparr>ab_valid := True, ab_base_seq := base, ab_base_ts := ts, ab_ssrc := ssrc, ab_payload_type := pt,
       ab_block_size := n, ab_last_use := now, ab_marks := replicate AUDIO_RTP_FEC_TOTAL_SHARDS 1\<rparr>"

definition take_block :: "u16 \<Rightarrow> u32 \<Rightarrow> u32 \<Rightarrow> u8 \<Rightarrow> nat \<Rightarrow> u32 \<Rightarrow> audio_block list \<Rightarrow> nat option \<times> audio_block list" where
  "take_block base ts ssrc pt n now bs =
     (case pick_block 0 None bs of
        None \<Rightarrow> (None, bs)
      | Some i \<Rightarrow> (Some i, bs[i := fresh_audio_block base ts ssrc pt n now (bs ! i)]))"

definition audio_rtp_fec_get_block ::
    "u16 \<Rightarrow> u32 \<Rightarrow> u32 \<Rightarrow> u8 \<Rightarrow> nat \<Rightarrow> u32 \<Rightarrow> audio_block list \<Rightarrow> nat option \<times> audio_block list" where
  "audio_rtp_fec_get_block base ts ssrc pt n now bs =
     (if n = 0 \<or> n > AUDIO_MAX_RTP_SIZE then (None, bs)
      else case find_block base 0 bs of
          Some i \<Rightarrow>
            (let b = bs ! i in
             if ab_block_size b \<noteq> n \<or> ab_payload_type b \<noteq> pt \<or> ab_ssrc b \<noteq> ssrc
             then take_block base ts ssrc pt n now (bs[i := b\<lparr>ab_valid := False\<rparr>])
             else (Some i, bs[i := b\<lparr>ab_last_use := now\<rparr>]))
        | None \<Rightarrow> take_block base ts ssrc pt n now bs)"

definition store_shard :: "nat \<Rightarrow> u8 list \<Rightarrow> audio_block \<Rightarrow> audio_block" where
  "store_shard k payload b =
     (let b = (if k < AUDIO_RTP_FEC_DATA_SHARDS
               then b\<lparr>ab_data := (ab_data b)[k := payload @ drop (length payload) (ab_data b ! k)]\<rparr>
               else let f = k - AUDIO_RTP_FEC_DATA_SHARDS
                 in b\<lparr>ab_fec := (ab_fec b)[f := payload @ drop (length payload) (ab_fec b ! f)]\<rparr>)
      in b\<lparr>ab_marks := (ab_marks b)[k := 0]\<rparr>)"

definition cache_shard ::
    "nat \<Rightarrow> u16 \<Rightarrow> u32 \<Rightarrow> u32 \<Rightarrow> u8 \<Rightarrow> u8 list \<Rightarrow> u32 \<Rightarrow> audio_fec \<Rightarrow> audio_fec" where
  "cache_shard k base ts ssrc pt payload now a =
     (case audio_rtp_fec_get_block base ts ssrc pt (length payload) now (a_blocks a) of
        (None, bs) \<Rightarrow> a\<lparr>a_blocks := bs\<rparr>
      | (Some i, bs) \<Rightarrow>
          if ab_marks (bs ! i) ! k = 0 then a\<lparr>a_blocks := bs\<rparr>
          else a\<lparr>a_blocks := bs[i := store_shard k payload (bs ! i)]\<rparr>)"

text \<open>\<open>hdr\<close> is the packet, whose first 12 bytes are the RTP header.\<close>

definition read_be32 :: "u8 list \<Rightarrow> nat \<Rightarrow> u32" where
  "read_be32 p i = push_bit 24 (ucast (p ! i)) OR push_bit 16 (ucast (p ! (i + 1)))
     OR push_bit 8 (ucast (p ! (i + 2))) OR ucast (p ! (i + 3))"

definition audio_rtp_fec_cache_data :: "u8 list \<Rightarrow> u8 list \<Rightarrow> u32 \<Rightarrow> audio_fec \<Rightarrow> audio_fec" where
  "audio_rtp_fec_cache_data hdr payload now a =
     (let sq = read_be16 hdr 2; ts = read_be32 hdr 4; ssrc = read_be32 hdr 8;
          base = audio_fec_base_seq sq; pos = unat (sq - base);
          step_ms = (if a_packet_duration_ms a < 5 \<or> a_packet_duration_ms a > 60 then 10
                     else a_packet_duration_ms a);
          step_samples = AUDIO_SAMPLE_RATE * nat step_ms div 1000
      in if pos \<ge> AUDIO_RTP_FEC_DATA_SHARDS \<or> step_samples = 0 then a
         else cache_shard pos base (ts - of_nat (pos * step_samples)) ssrc RTP_PT_AUDIO_OPUS payload now a)"

definition audio_rtp_fec_cache_parity :: "u8 list \<Rightarrow> u32 \<Rightarrow> audio_fec \<Rightarrow> audio_fec" where
  "audio_rtp_fec_cache_parity payload now a =
     (if length payload < AUDIO_FEC_HEADER then a
      else
        let shard = unat (payload ! 0); base = read_be16 payload 2
        in if shard \<ge> AUDIO_RTP_FEC_PARITY_SHARDS \<or> payload ! 1 \<noteq> RTP_PT_AUDIO_OPUS then a
           else if base AND 3 \<noteq> 0 then a
           else cache_shard (AUDIO_RTP_FEC_DATA_SHARDS + shard) base (read_be32 payload 4) (read_be32 payload 8)
                  (payload ! 1) (drop AUDIO_FEC_HEADER payload) now a)"

subsection \<open>Recovery\<close>

definition audio_parity :: "u8 list" where
  "audio_parity = [0x77, 0x40, 0x38, 0x0e, 0xc7, 0xa7, 0x0d, 0x6c]"

text \<open>The shared context with the audio matrix copied over the start of its parity buffer.\<close>

definition audio_context :: "audio_fec \<Rightarrow> reed_solomon option" where
  "audio_context a =
     (let rs = (if \<not> audio_rs_set a \<or> data_shards (a_rs_ctx a) \<noteq> AUDIO_RTP_FEC_DATA_SHARDS
                  \<or> parity_shards (a_rs_ctx a) \<noteq> AUDIO_RTP_FEC_PARITY_SHARDS \<or> parity (a_rs_ctx a) = []
                then reed_solomon_new (int AUDIO_RTP_FEC_DATA_SHARDS) (int AUDIO_RTP_FEC_PARITY_SHARDS)
                else Some (a_rs_ctx a))
      in map_option (\<lambda>rs. rs\<lparr>parity := audio_parity @ drop (length audio_parity) (parity rs)\<rparr>) rs)"

text \<open>The counts of the first loop; a mark of 0 means that the shard is there.\<close>

definition available :: "audio_block \<Rightarrow> nat" where
  "available b = length (filter (\<lambda>i. ab_marks b ! i = 0) [0..<AUDIO_RTP_FEC_TOTAL_SHARDS])"

definition missing_data :: "audio_block \<Rightarrow> nat" where
  "missing_data b = length (filter (\<lambda>i. ab_marks b ! i \<noteq> 0) [0..<AUDIO_RTP_FEC_DATA_SHARDS])"

text \<open>The return value, the block and the module state.\<close>

definition audio_rtp_fec_complete :: "audio_block \<Rightarrow> audio_fec \<Rightarrow> int \<times> audio_block \<times> audio_fec" where
  "audio_rtp_fec_complete b a =
     (if \<not> ab_valid b then (-1, b, a)
      else if missing_data b = 0 then (0, b, a)
      else if available b < AUDIO_RTP_FEC_DATA_SHARDS then (-1, b, a)
      else (case audio_context a of
               None \<Rightarrow> (-1, b, a\<lparr>audio_rs_set := False, a_failed := a_failed a + 1\<rparr>)
             | Some rs \<Rightarrow>
                 (case reed_solomon_reconstruct rs (ab_marks b) AUDIO_RTP_FEC_TOTAL_SHARDS (ab_block_size b)
                         (a_work a, ab_data b @ ab_fec b) of
                    (ret, wrk, sh) \<Rightarrow>
                      let a = a\<lparr>audio_rs_set := True, a_rs_ctx := rs, a_work := wrk\<rparr>;
                          b' = b\<lparr>ab_data := take AUDIO_RTP_FEC_DATA_SHARDS sh,
                                ab_fec := drop AUDIO_RTP_FEC_DATA_SHARDS sh\<rparr>
                      in if ret \<noteq> 0 then (-1, b', a\<lparr>a_failed := a_failed a + 1\<rparr>)
                         else (0, b'\<lparr>ab_marks := map (\<lambda>i. if i < AUDIO_RTP_FEC_DATA_SHARDS then 0 else ab_marks b ! i)
                                               [0..<length (ab_marks b)]\<rparr>,
                               a\<lparr>a_recovered := a_recovered a + of_nat (missing_data b)\<rparr>))))"

text \<open>The recovered payload, if there is one.\<close>

definition audio_rtp_fec_recover_payload :: "u16 \<Rightarrow> audio_fec \<Rightarrow> u8 list option \<times> audio_fec" where
  "audio_rtp_fec_recover_payload sq a =
     (let base = audio_fec_base_seq sq; pos = unat (sq - base)
      in if pos \<ge> AUDIO_RTP_FEC_DATA_SHARDS then (None, a)
         else case find_block base 0 (a_blocks a) of
             None \<Rightarrow> (None, a)
           | Some i \<Rightarrow>
               (case audio_rtp_fec_complete (a_blocks a ! i) a of
                  (ret, b, a) \<Rightarrow>
                    let a = a\<lparr>a_blocks := (a_blocks a)[i := b]\<rparr>
                    in if ret \<noteq> 0 \<or> ab_marks b ! pos \<noteq> 0 then (None, a)
                       else (Some (take (ab_block_size b) (ab_data b ! pos)), a)))"

subsection \<open>The queue of packets read ahead\<close>

definition audio_pending_push :: "u8 list \<Rightarrow> audio_fec \<Rightarrow> int \<times> audio_fec" where
  "audio_pending_push d a =
     (if d = [] \<or> length d > AUDIO_MAX_RTP_SIZE then (-1, a)
      else if a_pending_count a \<ge> AUDIO_PENDING_PACKETS then (-1, a\<lparr>a_reorder_drops := a_reorder_drops a + 1\<rparr>)
      else
        let tail = (a_pending_head a + a_pending_count a) mod AUDIO_PENDING_PACKETS;
            p = a_pending a ! tail
        in (0, a\<lparr>a_pending := (a_pending a)[tail := \<lparr>pp_len = int (length d),
                   pp_data = d @ drop (length d) (pp_data p)\<rparr>],
                 a_pending_count := a_pending_count a + 1, a_reorder_queued := a_reorder_queued a + 1\<rparr>))"

definition pending_advance :: "audio_fec \<Rightarrow> audio_fec" where
  "pending_advance a =
     a\<lparr>a_pending_head := (a_pending_head a + 1) mod AUDIO_PENDING_PACKETS, a_pending_count := a_pending_count a - 1\<rparr>"

definition audio_pending_pop :: "audio_fec \<Rightarrow> u8 list option \<times> audio_fec" where
  "audio_pending_pop a =
     (if a_pending_count a = 0 then (None, a)
      else
        let p = a_pending a ! a_pending_head a; len = pp_len p
        in if len \<le> 0 \<or> len > int AUDIO_MAX_RTP_SIZE then (None, pending_advance a)
           else (Some (take (nat len) (pp_data p)),
                 pending_advance (a\<lparr>a_pending := (a_pending a)[a_pending_head a := p\<lparr>pp_len := 0\<rparr>]\<rparr>)))"

subsection \<open>Packets\<close>

text \<open>The offset of the payload and the length without padding.\<close>

definition audio_rtp_payload_offset :: "u8 list \<Rightarrow> (nat \<times> nat) option" where
  "audio_rtp_payload_offset p =
     (let n = length p in
      if n \<le> RTP_HDR_SIZE \<or> drop_bit 6 (p ! 0) \<noteq> 2 then None
      else
        let off = RTP_HDR_SIZE + unat (p ! 0 AND 0x0F) * 4 in
        if off > n then None
        else if p ! 0 AND 0x10 \<noteq> 0 \<and> n < off + 4 then None
        else
          let off = (if p ! 0 AND 0x10 \<noteq> 0 then off + 4 + unat (read_be16 p (off + 2)) * 4 else off) in
          if off \<ge> n then None
          else
            let pad = unat (p ! (n - 1));
                n = (if p ! 0 AND 0x20 \<noteq> 0 \<and> pad > 0 \<and> pad \<le> n - off then n - pad else n)
            in if off \<ge> n then None else Some (off, n))"

definition cache_packet :: "u8 \<Rightarrow> u8 list \<Rightarrow> nat \<Rightarrow> nat \<Rightarrow> u32 \<Rightarrow> audio_fec \<Rightarrow> audio_fec" where
  "cache_packet pt p off n now a =
     (if pt = RTP_PT_AUDIO_OPUS
      then audio_rtp_fec_cache_data p (drop off (take n p)) now (a\<lparr>a_last_data_us := now\<rparr>)
      else audio_rtp_fec_cache_parity (drop off (take n p)) now a)"

definition audio_thread_queue_external_rtp :: "u8 list \<Rightarrow> u32 \<Rightarrow> audio_fec \<Rightarrow> int \<times> audio_fec" where
  "audio_thread_queue_external_rtp p now a =
     (if length p \<le> RTP_HDR_SIZE \<or> length p > AUDIO_MAX_RTP_SIZE then (-1, a)
      else case audio_rtp_payload_offset p of
          None \<Rightarrow> (-1, a)
        | Some (off, n) \<Rightarrow>
            let pt = p ! 1 AND 0x7F
            in if pt = RTP_PT_AUDIO_OPUS \<or> pt = RTP_PT_AUDIO_FEC
               then audio_pending_push p (cache_packet pt p off n now a) else (-1, a))"

text \<open>Looking ahead for late packets, for at most 4 ms and eight packets: the argument lists what each
  \<open>recvfrom\<close> returns, with the clock after it. The second result counts the packets that are no data.\<close>

fun audio_reorder_drain :: "u32 \<Rightarrow> (u8 list option \<times> u32) list \<Rightarrow> nat \<Rightarrow> nat \<Rightarrow> audio_fec \<Rightarrow> nat \<times> nat \<times> audio_fec" where
  "audio_reorder_drain start [] drained seen a = (drained, seen, a)"
| "audio_reorder_drain start ((None, now) # rs) drained seen a =
     (if drained \<ge> 8 \<or> now - start \<ge> 4000 then (drained, seen, a)
      else audio_reorder_drain start rs drained seen a)"
| "audio_reorder_drain start ((Some p, now) # rs) drained seen a =
     (if drained \<ge> 8 then (drained, seen, a)
      else
        let a = a\<lparr>a_pkts_received := a_pkts_received a + 1\<rparr> in
        case audio_rtp_payload_offset p of
          None \<Rightarrow> audio_reorder_drain start rs drained seen a
        | Some (off, n) \<Rightarrow>
            let pt = p ! 1 AND 0x7F in
            if pt = RTP_PT_AUDIO_FEC
            then audio_reorder_drain start rs (drained + 1) (seen + 1) (cache_packet pt p off n now a)
            else if pt = RTP_PT_AUDIO_OPUS
            then let (ret, a) = audio_pending_push p (cache_packet pt p off n now a)
                 in if ret \<noteq> 0 then (drained, seen, a) else audio_reorder_drain start rs (drained + 1) seen a
            else audio_reorder_drain start rs (drained + 1) (seen + 1) a)"

definition audio_reorder_drain_for_fec :: "u32 \<Rightarrow> (u8 list option \<times> u32) list \<Rightarrow> nat \<Rightarrow> audio_fec \<Rightarrow> nat \<times> nat \<times> audio_fec" where
  "audio_reorder_drain_for_fec start rs seen a =
     (case audio_reorder_drain start rs 0 seen a of
        (drained, seen, a) \<Rightarrow> (drained, seen, a\<lparr>a_reorder_drains := a_reorder_drains a + of_nat drained\<rparr>))"

end
