(* ===== verification/AudioFecCorrect.thy ===== *)
theory AudioFecCorrect
  imports AudioFec
begin

text \<open>
  What the audio error correction promises: of the six packets of a block any four let every data packet
  be recovered. The matrix of the audio stream is not the one of the video codec, but a scaled Cauchy matrix
  as well, so the decoder of rs.c works for it.
\<close>

subsection \<open>The audio matrix\<close>

definition audio_rs :: reed_solomon where
  "audio_rs = \<lparr>data_shards = 4, parity_shards = 2, shards_total = 6, parity = audio_parity\<rparr>"

definition audio_col :: "u8 list" where "audio_col = [92, 151, 190, 153]"
definition audio_scale :: "u8 list" where "audio_scale = [241, 46, 232, 205]"

lemma audio_matrix_products:
  "gf_mul 0x77 92 = 241" "gf_mul 0x40 151 = 46" "gf_mul 0x38 190 = 232" "gf_mul 0x0e 153 = 205"
  "gf_mul 0xc7 93 = 241" "gf_mul 0xa7 150 = 46" "gf_mul 0x0d 191 = 232" "gf_mul 0x6c 152 = 205"
  by code_simp+

lemma audio_matrix_entry:
  assumes "p < 2" "k < 4"
  shows "GF (audio_parity ! (p * 4 + k)) * (node p - GF (audio_col ! k)) = GF (audio_scale ! k)"
proof -
  have n: "node 0 = GF 0" "node 1 = GF 1" by (simp_all add: node_def)
  have "gf_mul (audio_parity ! (p * 4 + k)) (of_nat p XOR audio_col ! k) = audio_scale ! k"
    using assms audio_matrix_products
    by (auto simp: audio_parity_def audio_col_def audio_scale_def less_Suc_eq numeral_eq_Suc)
  then show ?thesis
    unfolding node_def by (simp add: gfe_minus flip: GF_xor GF_mul)
qed

definition audio_shape :: "reed_solomon \<Rightarrow> bool" where
  "audio_shape rs \<longleftrightarrow> data_shards rs = 4 \<and> parity_shards rs = 2 \<and> shards_total rs = 6 \<and>
     (\<exists>zs. parity rs = audio_parity @ zs)"

lemma audio_parity_nth: "audio_shape rs \<Longrightarrow> i < 8 \<Longrightarrow> parity rs ! i = audio_parity ! i"
proof -
  have "length audio_parity = 8" by (simp add: audio_parity_def)
  then show "audio_shape rs \<Longrightarrow> i < 8 \<Longrightarrow> parity rs ! i = audio_parity ! i"
    by (auto simp: audio_shape_def nth_append)
qed

lemma audio_codec:
  assumes "audio_shape rs"
  shows "cauchy_codec rs"
proof -
  let ?y = "\<lambda>k. GF (audio_col ! k)" and ?v = "\<lambda>k. GF (audio_scale ! k)"
  have lt4: "(\<forall>k<4. P k) \<longleftrightarrow> P 0 \<and> P 1 \<and> P 2 \<and> P (3::nat)" for P
    by (auto simp: less_Suc_eq numeral_eq_Suc)
  have lt2: "(\<forall>p<2. P p) \<longleftrightarrow> P 0 \<and> P (1::nat)" for P
    by (auto simp: less_Suc_eq numeral_eq_Suc)
  have x: "inj_on node {..<2}" by (simp add: inj_on_def node_inj)
  have "\<forall>i<4. \<forall>j<4. ?y i = ?y j \<longrightarrow> i = j" unfolding lt4 by (simp add: audio_col_def)
  then have y: "inj_on ?y {..<4}" by (simp add: inj_on_def)
  have nz: "\<forall>p<2. \<forall>k<4. node p \<noteq> ?y k \<and> ?v k \<noteq> 0"
    by (simp add: lt4 lt2 node_def audio_col_def audio_scale_def GF_eq_0)
  have "GF (parity rs ! (p * 4 + k)) = 1 * ?v k / (node p - ?y k)" if "p < 2" "k < 4" for p k
  proof -
    have "node p - ?y k \<noteq> 0" using nz that by simp
    then show ?thesis
      using audio_matrix_entry [OF that] audio_parity_nth [OF assms, of "p * 4 + k"] that
      by (simp add: nonzero_eq_divide_eq)
  qed
  then have "\<exists>x y u v. inj_on x {..<2::nat} \<and> inj_on y {..<4::nat} \<and>
        (\<forall>p<2. \<forall>k<4. x p \<noteq> y k \<and> u p \<noteq> 0 \<and> v k \<noteq> 0 \<and>
           GF (parity rs ! (p * 4 + k)) = u p * v k / (x p - y k))"
    using x y nz by - (rule exI [of _ node], rule exI [of _ ?y], rule exI [of _ "\<lambda>_. 1"], rule exI [of _ ?v], simp)
  then show ?thesis using assms by (simp add: cauchy_codec_def audio_shape_def)
qed

lemma audio_rs_shape: "audio_shape audio_rs"
  by (simp add: audio_shape_def audio_rs_def)

text \<open>Six shards as the host makes them: four data packets and the parity over them.\<close>

definition audio_encode :: "nat \<Rightarrow> u8 list list \<Rightarrow> u8 list list" where
  "audio_encode n ds = reed_solomon_encode audio_rs (ds @ replicate 2 (replicate n 0)) 6 n"

lemma audio_encode_same:
  assumes R: "audio_shape rs" "length sh = 6" "\<forall>s\<in>set sh. n \<le> length s"
    and R': "audio_shape rs'" "length sh' = 6" "\<forall>s\<in>set sh'. n \<le> length s"
    and same: "\<And>k. k < 4 \<Longrightarrow> same_on UNIV n (sh ! k) (sh' ! k)" and k: "k < 6"
  shows "same_on UNIV n (reed_solomon_encode rs sh 6 n ! k) (reed_solomon_encode rs' sh' 6 n ! k)"
proof -
  note S = R(1) [unfolded audio_shape_def] and S' = R'(1) [unfolded audio_shape_def]
  have len: "length sh = 1 * shards_total rs" "length sh' = 1 * shards_total rs'"
    using R R' S S' by simp_all
  note e1 = encode_ok [OF audio_codec [OF R(1)] len(1) R(3)]
  note e2 = encode_ok [OF audio_codec [OF R'(1)] len(2) R'(3)]
  show ?thesis
  proof (cases "k < 4")
    case True
    then show ?thesis using e1(2) [of k] e2(2) [of k] S S' same by simp
  next
    case False
    have pb: "parity_byte rs sh 0 f t = parity_byte rs' sh' 0 f t" if "f < 2" "t < n" for f t
      using S S' that same audio_parity_nth [OF R(1)] audio_parity_nth [OF R'(1)]
      by (auto simp: parity_byte_def same_on_def intro!: sum.cong)
    show ?thesis
      using e1(3) [of 0 "k - 4"] e2(3) [of 0 "k - 4"] pb [of "k - 4"] k False S S'
      by (intro same_onI_GF) simp
  qed
qed

subsection \<open>The shared context\<close>

definition audio_context_ok :: "audio_fec \<Rightarrow> bool" where
  "audio_context_ok a \<longleftrightarrow> length (a_work a) = 16384 \<and>
     (data_shards (a_rs_ctx a) = 4 \<and> parity_shards (a_rs_ctx a) = 2 \<longrightarrow> shards_total (a_rs_ctx a) = 6)"

lemma audio_context_shape:
  assumes "audio_context_ok a"
  obtains rs where "audio_context a = Some rs" "audio_shape rs"
proof -
  obtain rs0 where r: "reed_solomon_new 4 2 = Some rs0" "data_shards rs0 = 4" "parity_shards rs0 = 2" "shards_total rs0 = 6"
    by (simp add: reed_solomon_new_def DATA_SHARDS_MAX_def)
  show thesis
    using assms r that
    by (cases "\<not> audio_rs_set a \<or> data_shards (a_rs_ctx a) \<noteq> 4 \<or> parity_shards (a_rs_ctx a) \<noteq> 2 \<or> parity (a_rs_ctx a) = []")
      (auto simp: audio_context_def audio_sizes audio_context_ok_def audio_shape_def Let_def)
qed

subsection \<open>A block\<close>

definition block_sized :: "audio_block \<Rightarrow> bool" where
  "block_sized b \<longleftrightarrow> length (ab_marks b) = 6 \<and> length (ab_data b) = 4 \<and> length (ab_fec b) = 2 \<and>
     (\<forall>s\<in>set (ab_data b @ ab_fec b). length s = AUDIO_MAX_RTP_SIZE)"

definition block_shard :: "audio_block \<Rightarrow> nat \<Rightarrow> u8 list" where
  "block_shard b k = take (ab_block_size b) ((ab_data b @ ab_fec b) ! k)"

text \<open>The block holds exactly the shards in \<open>S\<close> of those sent.\<close>

definition holds :: "u16 \<Rightarrow> u32 \<Rightarrow> u8 list list \<Rightarrow> nat set \<Rightarrow> audio_block \<Rightarrow> bool" where
  "holds base ssrc W S b \<longleftrightarrow> block_sized b \<and> ab_valid b \<and> ab_base_seq b = base \<and> ab_ssrc b = ssrc \<and>
     ab_payload_type b = RTP_PT_AUDIO_OPUS \<and> ab_block_size b = length (W ! 0) \<and>
     (\<forall>k<6. ab_marks b ! k = 0 \<longleftrightarrow> k \<in> S) \<and> (\<forall>k<6. k \<in> S \<longrightarrow> block_shard b k = W ! k)"

definition audio_sent :: "u16 \<Rightarrow> u8 list list \<Rightarrow> bool" where
  "audio_sent base W \<longleftrightarrow> base AND 3 = 0 \<and> length W = 6 \<and> 0 < length (W ! 0) \<and> length (W ! 0) \<le> AUDIO_MAX_RTP_SIZE \<and>
     (\<forall>w\<in>set W. length w = length (W ! 0)) \<and> W = audio_encode (length (W ! 0)) (take 4 W)"

lemma complete_ok:
  assumes W: "audio_sent base W" and b: "holds base ssrc W S b" and S: "S \<subseteq> {..<6}" "4 \<le> card S" and a: "audio_context_ok a"
  obtains b' a' where "audio_rtp_fec_complete b a = (0, b', a')" "\<And>k. k < 4 \<Longrightarrow> ab_marks b' ! k = 0 \<and> block_shard b' k = W ! k"
    "ab_block_size b' = ab_block_size b" "length (ab_data b') = 4"
proof -
  define n where "n = length (W ! 0)"
  let ?marks = "ab_marks b" and ?recv = "ab_data b @ ab_fec b"
  note B = b [unfolded holds_def block_sized_def n_def [symmetric]]
  have av: "length (filter (\<lambda>i. ?marks ! i = 0) [0..<6]) = card S"
  proof -
    have "set (filter (\<lambda>i. ?marks ! i = 0) [0..<6]) = S" using B S(1) by auto
    then show ?thesis using distinct_card [of "filter (\<lambda>i. ?marks ! i = 0) [0..<6]"] by simp
  qed
  show thesis
  proof (cases "filter (\<lambda>i. ?marks ! i \<noteq> 0) [0..<4] = []")
    case True
    then have "\<And>k. k < 4 \<Longrightarrow> ?marks ! k = 0" by (auto simp: filter_empty_conv)
    moreover have "missing_data b = 0" using True by (simp only: missing_data_def audio_sizes length_0_conv)
    ultimately show thesis using that [of b a] B by (simp add: audio_rtp_fec_complete_def)
  next
    case False
    obtain rs where rs: "audio_context a = Some rs" "audio_shape rs" using audio_context_shape [OF a] .
    note R = rs(2) [unfolded audio_shape_def]
    define sh where "sh = map (\<lambda>w. w @ replicate (AUDIO_MAX_RTP_SIZE - n) 0) (take 4 W) @
      replicate 2 (replicate AUDIO_MAX_RTP_SIZE 0)"
    define ws where "ws = take 4 W @ replicate 2 (replicate n 0)"
    have W': "length W = 6" "n \<le> AUDIO_MAX_RTP_SIZE" "\<forall>w\<in>set W. length w = n"
      and We: "W = audio_encode n (take 4 W)" using W unfolding audio_sent_def n_def [symmetric] by blast+
    have ws: "length ws = 6" "\<forall>s\<in>set ws. n \<le> length s"
      using W' by (auto simp: ws_def dest: in_set_takeD)
    have We': "W ! k = reed_solomon_encode audio_rs ws 6 n ! k" for k
      unfolding ws_def using arg_cong [OF We, of "\<lambda>w. w ! k"] by (simp add: audio_encode_def)
    have sh: "length sh = 6" "\<forall>s\<in>set sh. length s = AUDIO_MAX_RTP_SIZE"
      using W' by (auto simp: sh_def dest!: in_set_takeD)
    have "same_on UNIV n (sh ! k) (ws ! k)" if "k < 4" for k
      using that W' by (simp add: sh_def ws_def nth_append same_on_def)
    then have enc: "same_on UNIV n (reed_solomon_encode rs sh 6 n ! k) (W ! k)" if "k < 6" for k
      unfolding We' using audio_encode_same [OF rs(2) sh(1) _ audio_rs_shape ws(1,2) _ that] sh(2) W' by simp
    have "map length ?recv = replicate 6 AUDIO_MAX_RTP_SIZE" using B by (intro replicate_eqI) auto
    moreover have "map length sh = replicate 6 AUDIO_MAX_RTP_SIZE" using sh by (intro replicate_eqI) auto
    ultimately have len: "length sh = 1 * shards_total rs" "\<forall>s\<in>set sh. n \<le> length s" "map length ?recv = map length sh"
      using sh W' R by simp_all
    have intact: "\<forall>k<1 * shards_total rs. ?marks ! k = 0 \<longrightarrow>
        same_on UNIV n (?recv ! k) (reed_solomon_encode rs sh (1 * shards_total rs) n ! k)"
    proof (intro allI impI)
      fix k assume k: "k < 1 * shards_total rs" "?marks ! k = 0"
      then have "take n (?recv ! k) = W ! k" using B R by (auto simp: block_shard_def)
      then have "same_on UNIV n (?recv ! k) (W ! k)" unfolding same_on_def by (metis nth_take)
      then show "same_on UNIV n (?recv ! k) (reed_solomon_encode rs sh (1 * shards_total rs) n ! k)"
        using enc [of k] k R by (simp add: same_on_def)
    qed
    have "filter (\<lambda>i. ?marks ! i = 0) [0..<6] = filter (\<lambda>i. ?marks ! i = 0) [0..<4] @ filter (\<lambda>i. ?marks ! i = 0) [4..<6]"
      unfolding filter_append [symmetric] using upt_add_eq_append [of 0 4 2] by simp
    moreover have "length (filter (\<lambda>i. ?marks ! i \<noteq> 0) [0..<4]) + length (filter (\<lambda>i. ?marks ! i = 0) [0..<4]) = 4"
      using sum_length_filter_compl [of "\<lambda>i. ?marks ! i = 0" "[0..<4]"] by simp
    moreover have "length (filter (\<lambda>i. ?marks ! i = 0) [4..<6]) = length (filter (\<lambda>i. ?marks ! (4 + i) = 0) [0..<2])"
    proof -
      have "[4..<6] = map (\<lambda>i. 4 + i) [0..<2]" by (simp add: upt_rec)
      then show ?thesis by (simp only: filter_map length_map comp_def)
    qed
    ultimately have "group_recoverable rs ?marks 1 0"
      using S(2) av R by (simp add: group_recoverable_def)
    then have enough: "\<forall>g<1. group_recoverable rs ?marks 1 g" by simp
    have wrk: "length (a_work a) = 16384" using a by (simp add: audio_context_ok_def)
    from reconstruct_ok [OF audio_codec [OF rs(2)] len wrk intact enough] obtain wrk' out where
      out: "reed_solomon_reconstruct rs ?marks (1 * shards_total rs) n (a_work a, ?recv) = (0, wrk', out)"
        "length wrk' = 16384" "map length out = map length sh"
        "\<forall>k<1 * data_shards rs. same_on UNIV n (out ! k) (sh ! k)"
        "\<forall>k\<ge>1 * data_shards rs. out ! k = ?recv ! k" .
    have r: "reed_solomon_reconstruct rs ?marks 6 n (a_work a, ?recv) = (0, wrk', out)" "map length out = map length sh"
      "\<And>k. k < 4 \<Longrightarrow> same_on UNIV n (out ! k) (sh ! k)" using out(1,3,4) R by simp_all
    define a1 where "a1 = a\<lparr>audio_rs_set := True, a_rs_ctx := rs, a_work := wrk'\<rparr>"
    define b1 where "b1 = b\<lparr>ab_data := take 4 out, ab_fec := drop 4 out,
        ab_marks := map (\<lambda>i. if i < 4 then 0 else ?marks ! i) [0..<6]\<rparr>"
    have c1: "audio_rtp_fec_complete b a = (0, b1, a1\<lparr>a_recovered := a_recovered a + of_nat (missing_data b)\<rparr>)"
    proof -
      have "ab_valid b" "ab_block_size b = n" "length ?marks = 6" using B by blast+
      moreover have "\<not> available b < 4" using av S(2) by (simp only: available_def audio_sizes not_less)
      moreover have "missing_data b \<noteq> 0" using False by (simp only: missing_data_def audio_sizes length_0_conv not_False_eq_True)
      ultimately show ?thesis
        unfolding audio_rtp_fec_complete_def audio_sizes Let_def a1_def b1_def
        by (simp add: rs(1) r(1))
    qed
    have "length out = length sh" using r(2) by (rule map_eq_imp_length_eq)
    then have lo: "length out = 6" using sh(1) by simp
    have c2: "ab_marks b1 ! k = 0 \<and> block_shard b1 k = W ! k" if k: "k < 4" for k
    proof -
      have "length (out ! k) = length (sh ! k)" 
        using arg_cong [OF r(2), of "\<lambda>ls. ls ! k"] k lo sh(1) by simp
      then have "n \<le> length (out ! k)" using sh k W'(2) by simp
      moreover have "sh ! k = W ! k @ replicate (AUDIO_MAX_RTP_SIZE - n) 0" "length (W ! k) = n"
        using k W' by (simp_all add: sh_def nth_append)
      ultimately have "take n (out ! k) = W ! k"
        using r(3) [OF k] by (intro nth_equalityI) (auto simp: same_on_def nth_append)
      then show ?thesis using k B by (simp add: b1_def block_shard_def)
    qed
    show thesis by (rule that [OF c1 c2]) (use lo in \<open>simp_all add: b1_def\<close>)
  qed
qed

subsection \<open>The cache\<close>

lemma find_block_Some:
  "find_block base i bs = Some j \<Longrightarrow> i \<le> j \<and> j < i + length bs \<and> ab_valid (bs ! (j - i)) \<and> ab_base_seq (bs ! (j - i)) = base"
proof (induction bs arbitrary: i)
  case (Cons b bs)
  show ?case
  proof (cases "ab_valid b \<and> ab_base_seq b = base")
    case False
    then have "find_block base (i + 1) bs = Some j" using Cons.prems by (auto split: if_splits)
    from Cons.IH [OF this] have j: "Suc i \<le> j" "j < Suc i + length bs" "ab_valid (bs ! (j - Suc i))"
      "ab_base_seq (bs ! (j - Suc i)) = base" by simp_all
    then have "j - i = Suc (j - Suc i)" by simp
    then show ?thesis using j by simp
  qed (use Cons.prems in simp)
qed simp

lemma find_block_None: "find_block base i bs = None \<longleftrightarrow> (\<forall>b\<in>set bs. \<not> (ab_valid b \<and> ab_base_seq b = base))"
  by (induction bs arbitrary: i) auto

text \<open>Changing the block that was found, without its key, or putting the key into a free place.\<close>

lemma find_block_update:
  assumes "find_block base i bs = Some j" "ab_valid b" "ab_base_seq b = base"
  shows "find_block base i (bs[j - i := b]) = Some j"
  using assms(1)
proof (induction bs arbitrary: i)
  case (Cons c bs)
  show ?case
  proof (cases "ab_valid c \<and> ab_base_seq c = base")
    case False
    then have f: "find_block base (i + 1) bs = Some j" using Cons.prems by (auto split: if_splits)
    have "Suc i \<le> j" using find_block_Some [OF f] by simp
    then have "j - i = Suc (j - (i + 1))" by arith
    then show ?thesis using Cons.IH [OF f] False by auto
  qed (use Cons.prems assms(2,3) in auto)
qed simp

lemma find_block_new:
  assumes "find_block base i bs = None" "j < length bs" "ab_valid b" "ab_base_seq b = base"
  shows "find_block base i (bs[j := b]) = Some (i + j)"
  using assms(1,2)
proof (induction bs arbitrary: i j)
  case (Cons c bs)
  then show ?case using assms(3,4) by (cases j) (auto split: if_splits)
qed simp

lemma pick_block_less: "pick_block i p bs = Some j \<Longrightarrow> (\<forall>k u. p = Some (k, u) \<longrightarrow> k < i) \<Longrightarrow> j < i + length bs"
proof (induction i p bs rule: pick_block.induct)
  case (2 i p b bs)
  show ?case
  proof (cases "ab_valid b")
    case True
    define p' where "p' = (case p of None \<Rightarrow> Some (i, ab_last_use b)
      | Some (k, old) \<Rightarrow> if ab_last_use b - old > 0x80000000 then Some (i, ab_last_use b) else p)"
    have "pick_block (i + 1) p' bs = Some j" using "2.prems"(1) True by (simp add: p'_def)
    moreover have "\<forall>k u. p' = Some (k, u) \<longrightarrow> k < i + 1"
      using "2.prems"(2) by (auto simp: p'_def less_Suc_eq split: option.splits if_splits)
    ultimately show ?thesis using "2.IH" [OF _ ] True unfolding p'_def by simp
  qed (use 2 in simp)
qed auto

lemma pick_block_Some: "p \<noteq> None \<or> bs \<noteq> [] \<Longrightarrow> pick_block i p bs \<noteq> None"
proof (induction i p bs rule: pick_block.induct)
  case (2 i p b bs)
  show ?case
  proof (cases "ab_valid b")
    case True
    then show ?thesis using 2 by (cases p) auto
  qed simp
qed auto

definition cached :: "u16 \<Rightarrow> u32 \<Rightarrow> u8 list list \<Rightarrow> nat set \<Rightarrow> audio_fec \<Rightarrow> bool" where
  "cached base ssrc W S a \<longleftrightarrow> audio_context_ok a \<and> length (a_blocks a) = 8 \<and> (\<forall>b\<in>set (a_blocks a). block_sized b) \<and>
     (case find_block base 0 (a_blocks a) of
        None \<Rightarrow> S = {}
      | Some i \<Rightarrow> S \<subseteq> {..<6} \<and> holds base ssrc W S (a_blocks a ! i))"

lemma sized_store:
  assumes "block_sized b" "k < 6" "length w \<le> AUDIO_MAX_RTP_SIZE"
  shows "block_sized (store_shard k w b)"
  using assms
  by (auto simp: block_sized_def store_shard_def audio_sizes Let_def dest!: set_update_subset_insert [THEN subsetD])

lemma store_shard_holds:
  assumes b: "holds base ssrc W S b" and k: "k < 6" and w: "length (W ! k) = length (W ! 0)" "length (W ! 0) \<le> AUDIO_MAX_RTP_SIZE"
  shows "holds base ssrc W (insert k S) (store_shard k (W ! k) b)"
proof -
  have sz: "block_sized (store_shard k (W ! k) b)"
    using b k w by (intro sized_store) (simp_all add: holds_def)
  have f: "ab_valid (store_shard k (W ! k) b)" "ab_base_seq (store_shard k (W ! k) b) = base"
    "ab_ssrc (store_shard k (W ! k) b) = ssrc" "ab_payload_type (store_shard k (W ! k) b) = RTP_PT_AUDIO_OPUS"
    "ab_block_size (store_shard k (W ! k) b) = length (W ! 0)" "ab_marks (store_shard k (W ! k) b) = (ab_marks b)[k := 0]"
    using b by (simp_all add: holds_def store_shard_def Let_def)
  have l: "length (ab_data b) = 4" "length (ab_fec b) = 2" "length (ab_marks b) = 6"
    using b by (simp_all add: holds_def block_sized_def)
  have sh: "(ab_data (store_shard k (W ! k) b) @ ab_fec (store_shard k (W ! k) b)) ! j =
      (if j = k then W ! k @ drop (length (W ! k)) ((ab_data b @ ab_fec b) ! j) else (ab_data b @ ab_fec b) ! j)" if "j < 6" for j
    using that k l by (auto simp: store_shard_def audio_sizes Let_def nth_append)
  show ?thesis
    using b sz k w(1) l(3) unfolding holds_def f
    by (auto simp: block_shard_def f sh nth_list_update)
qed

lemma cached_store:
  assumes W: "audio_sent base W" "k < 6" and a: "audio_context_ok a" and bs: "length bs = 8" "\<forall>b\<in>set bs. block_sized b"
    and i: "find_block base 0 bs = Some i" "S \<subseteq> {..<6}" "holds base ssrc W S (bs ! i)"
  shows "cached base ssrc W (insert k S)
    (if ab_marks (bs ! i) ! k = 0 then a\<lparr>a_blocks := bs\<rparr>
     else a\<lparr>a_blocks := bs[i := store_shard k (W ! k) (bs ! i)]\<rparr>)"
proof -
  have c: "audio_context_ok (a\<lparr>a_blocks := x\<rparr>)" for x using a by (simp add: audio_context_ok_def)
  have il: "i < length bs" using find_block_Some [OF i(1)] by simp
  have wk: "length (W ! k) = length (W ! 0)" "length (W ! 0) \<le> AUDIO_MAX_RTP_SIZE"
    using W unfolding audio_sent_def by (metis nth_mem)+
  show ?thesis
  proof (cases "ab_marks (bs ! i) ! k = 0")
    case True
    then have "insert k S = S" using i(3) W(2) by (auto simp: holds_def)
    then show ?thesis using True i bs c by (simp add: cached_def)
  next
    case False
    let ?b = "store_shard k (W ! k) (bs ! i)"
    have h: "holds base ssrc W (insert k S) ?b" by (rule store_shard_holds [OF i(3) W(2) wk])
    then have "ab_valid ?b" "ab_base_seq ?b = base" by (simp_all add: holds_def)
    then have "find_block base 0 (bs[i := ?b]) = Some i" using find_block_update [OF i(1), of ?b] by simp
    moreover have "\<forall>b\<in>set (bs[i := ?b]). block_sized b"
      using bs(2) h by (auto simp: holds_def dest!: set_update_subset_insert [THEN subsetD])
    ultimately show ?thesis using False bs(1) c h i(2) W(2) il by (simp add: cached_def)
  qed
qed

lemma cached_step:
  assumes c: "cached base ssrc W S a" and W: "audio_sent base W" and k: "k < 6"
  shows "cached base ssrc W (insert k S) (cache_shard k base ts ssrc RTP_PT_AUDIO_OPUS (W ! k) now a)"
proof -
  let ?bs = "a_blocks a"
  note C = c [unfolded cached_def]
  have wk: "length (W ! k) = length (W ! 0)" "length (W ! 0) \<le> AUDIO_MAX_RTP_SIZE" "0 < length (W ! 0)"
    using W k unfolding audio_sent_def by (metis nth_mem)+
  show ?thesis
  proof (cases "find_block base 0 ?bs")
    case (Some i)
    let ?b = "(?bs ! i)\<lparr>ab_last_use := now\<rparr>"
    have i: "i < length ?bs" using find_block_Some [OF Some] by simp
    have h: "S \<subseteq> {..<6}" "holds base ssrc W S (?bs ! i)" using C Some by simp_all
    have "block_shard ?b j = block_shard (?bs ! i) j" for j by (simp add: block_shard_def)
    then have hb: "holds base ssrc W S ?b" using h(2) by (simp add: holds_def block_sized_def)
    have f: "find_block base 0 (?bs[i := ?b]) = Some i"
      using find_block_update [OF Some, of ?b] hb by (simp add: holds_def)
    have "\<forall>b\<in>set (?bs[i := ?b]). block_sized b"
      using C hb by (auto simp: holds_def dest!: set_update_subset_insert [THEN subsetD])
    from cached_store [OF W k _ _ this f h(1), of a ssrc] C hb i
    have "cached base ssrc W (insert k S) (if ab_marks (?bs[i := ?b] ! i) ! k = 0 then a\<lparr>a_blocks := ?bs[i := ?b]\<rparr>
      else a\<lparr>a_blocks := (?bs[i := ?b])[i := store_shard k (W ! k) (?bs[i := ?b] ! i)]\<rparr>)" by simp
    moreover have "audio_rtp_fec_get_block base ts ssrc RTP_PT_AUDIO_OPUS (length (W ! k)) now ?bs = (Some i, ?bs[i := ?b])"
      using Some h(2) wk by (simp add: audio_rtp_fec_get_block_def holds_def Let_def)
    ultimately show ?thesis by (simp add: cache_shard_def)
  next
    case None
    then have S: "S = {}" using C by simp
    have "?bs \<noteq> []" using C by auto
    then obtain i where p: "pick_block 0 None ?bs = Some i" using pick_block_Some [of None ?bs 0] by auto
    then have i: "i < length ?bs" using pick_block_less [OF p] by simp
    let ?b = "fresh_audio_block base ts ssrc RTP_PT_AUDIO_OPUS (length (W ! k)) now (?bs ! i)"
    have "block_sized (?bs ! i)" using C i by simp
    then have sz: "block_sized ?b" by (simp add: fresh_audio_block_def block_sized_def AUDIO_RTP_FEC_TOTAL_SHARDS_def)
    then have h: "holds base ssrc W {} ?b"
      using wk(1) by (simp add: holds_def fresh_audio_block_def audio_sizes)
    then have f: "find_block base 0 (?bs[i := ?b]) = Some i"
      using find_block_new [OF None i, of ?b] by (simp add: holds_def)
    have "\<forall>b\<in>set (?bs[i := ?b]). block_sized b"
      using C sz by (auto dest!: set_update_subset_insert [THEN subsetD])
    from cached_store [OF W k _ _ this f _, of a "{}" ssrc] C h i
    have "cached base ssrc W (insert k S) (if ab_marks (?bs[i := ?b] ! i) ! k = 0 then a\<lparr>a_blocks := ?bs[i := ?b]\<rparr>
      else a\<lparr>a_blocks := (?bs[i := ?b])[i := store_shard k (W ! k) (?bs[i := ?b] ! i)]\<rparr>)" by (simp add: S)
    moreover have "audio_rtp_fec_get_block base ts ssrc RTP_PT_AUDIO_OPUS (length (W ! k)) now ?bs = (Some i, ?bs[i := ?b])"
      using None p wk by (simp add: audio_rtp_fec_get_block_def take_block_def)
    ultimately show ?thesis by (simp add: cache_shard_def)
  qed
qed

subsection \<open>Packets of a block\<close>

lemma base_of_seq:
  assumes "base AND 3 = (0 :: u16)" "k < 4"
  shows "audio_fec_base_seq (base + of_nat k) = base" "unat (base + of_nat k - base) = k"
proof -
  have k: "k = 0 \<or> k = 1 \<or> k = 2 \<or> k = 3" using assms(2) by linarith
  have d: "base AND of_nat k = 0"
  proof -
    have "base AND of_nat k = base AND (3 AND of_nat k)" using k by auto
    also have "\<dots> = (base AND 3) AND of_nat k" by (simp only: and.assoc)
    finally show ?thesis using assms(1) by simp
  qed
  have "base AND NOT 3 = base"
  proof -
    have "base = (base AND 3) OR (base AND NOT 3)" by (simp add: bit.conj_disj_distrib [symmetric])
    then show ?thesis using assms(1) by simp
  qed
  moreover have "of_nat k AND NOT (3 :: u16) = 0" using k by auto
  moreover have "base + of_nat k = base OR of_nat k"
    using d by (simp add: disjunctive_add bit_eq_iff bit_simps)
  ultimately show "audio_fec_base_seq (base + of_nat k) = base"
    by (simp add: audio_fec_base_seq_def bit.conj_disj_distrib2)
  show "unat (base + of_nat k - base) = k" using k by auto
qed

text \<open>A packet carries shard \<open>k\<close> of the block.\<close>

definition carries :: "u16 \<Rightarrow> u32 \<Rightarrow> u8 list list \<Rightarrow> nat \<Rightarrow> u8 list \<Rightarrow> bool" where
  "carries base ssrc W k p \<longleftrightarrow> k < 6 \<and> (case audio_rtp_payload_offset p of
       None \<Rightarrow> False
     | Some (off, n) \<Rightarrow>
         let q = drop off (take n p) in
         if k < 4
         then p ! 1 AND 0x7F = RTP_PT_AUDIO_OPUS \<and> read_be16 p 2 = base + of_nat k \<and> read_be32 p 8 = ssrc \<and> q = W ! k
         else p ! 1 AND 0x7F = RTP_PT_AUDIO_FEC \<and> AUDIO_FEC_HEADER \<le> length q \<and> q ! 0 = of_nat (k - 4) \<and>
              q ! 1 = RTP_PT_AUDIO_OPUS \<and> read_be16 q 2 = base \<and> read_be32 q 8 = ssrc \<and>
              drop AUDIO_FEC_HEADER q = W ! k)"

text \<open>Its arrival: what the receive loop and \<open>audio_thread_queue_external_rtp\<close> do with it before it is queued.\<close>

definition arrive :: "u8 list \<times> u32 \<Rightarrow> audio_fec \<Rightarrow> audio_fec" where
  "arrive = (\<lambda>(p, now) a. case audio_rtp_payload_offset p of
     None \<Rightarrow> a
   | Some (off, n) \<Rightarrow> cache_packet (p ! 1 AND 0x7F) p off n now a)"

lemma cached_arrive:
  assumes c: "cached base ssrc W S a" and W: "audio_sent base W" and p: "carries base ssrc W k p"
  shows "cached base ssrc W (insert k S) (arrive (p, now) a)"
proof -
  obtain off n where o: "audio_rtp_payload_offset p = Some (off, n)"
    using p by (auto simp: carries_def split: option.splits)
  let ?q = "drop off (take n p)"
  have k: "k < 6" using p by (simp add: carries_def)
  have base: "base AND 3 = 0" using W unfolding audio_sent_def by blast
  show ?thesis
  proof (cases "k < 4")
    case True
    then have q: "p ! 1 AND 0x7F = RTP_PT_AUDIO_OPUS" "read_be16 p 2 = base + of_nat k" "read_be32 p 8 = ssrc" "?q = W ! k"
      using p o by (simp_all add: carries_def Let_def)
    let ?a = "a\<lparr>a_last_data_us := now\<rparr>"
    have c': "cached base ssrc W S ?a" using c by (simp add: cached_def audio_context_ok_def cong: option.case_cong)
    obtain m where m: "(if a_packet_duration_ms ?a < 5 \<or> a_packet_duration_ms ?a > 60 then 10
        else a_packet_duration_ms ?a) = m" "5 \<le> m" by fastforce
    then have "48000 * nat m div 1000 \<noteq> 0" by simp
    then obtain ts where "audio_rtp_fec_cache_data p ?q now ?a =
        cache_shard k base ts ssrc RTP_PT_AUDIO_OPUS (W ! k) now ?a"
      using True q m(1) base_of_seq [OF base True]
      by (simp add: audio_rtp_fec_cache_data_def Let_def AUDIO_SAMPLE_RATE_def AUDIO_RTP_FEC_DATA_SHARDS_def)
    then show ?thesis using cached_step [OF c' W k] q(1) o by (simp add: arrive_def cache_packet_def)
  next
    case False
    then have q: "p ! 1 AND 0x7F = RTP_PT_AUDIO_FEC" "AUDIO_FEC_HEADER \<le> length ?q" "?q ! 0 = of_nat (k - 4)"
      "?q ! 1 = RTP_PT_AUDIO_OPUS" "read_be16 ?q 2 = base" "read_be32 ?q 8 = ssrc" "drop AUDIO_FEC_HEADER ?q = W ! k"
      using p o by (simp_all add: carries_def Let_def)
    have "k = 4 \<or> k = 5" using False k by linarith
    then have "unat (of_nat (k - 4) :: u8) = k - 4" "4 + (k - 4) = k" "k - 4 < 2" by auto
    then have "audio_rtp_fec_cache_parity ?q now a =
        cache_shard k base (read_be32 ?q 4) ssrc RTP_PT_AUDIO_OPUS (W ! k) now a"
      unfolding audio_rtp_fec_cache_parity_def Let_def q(3-7) using q(2) base
      by (simp add: AUDIO_RTP_FEC_DATA_SHARDS_def AUDIO_RTP_FEC_PARITY_SHARDS_def)
    then show ?thesis using cached_step [OF c W k] q(1) o
      by (simp add: arrive_def cache_packet_def RTP_PT_AUDIO_FEC_def RTP_PT_AUDIO_OPUS_def)
  qed
qed

lemma cached_arrivals:
  assumes "cached base ssrc W S a" "audio_sent base W" "\<forall>(k, p, now)\<in>set ps. carries base ssrc W k p"
  shows "cached base ssrc W (fst ` set ps \<union> S) (fold arrive (map snd ps) a)"
  using assms(1,3)
proof (induction ps arbitrary: a S)
  case (Cons x ps)
  obtain k p now where x: "x = (k, p, now)" by (cases x)
  from cached_arrive [OF Cons.prems(1) assms(2), of k p now] Cons.prems(2) x
  have "cached base ssrc W (insert k S) (arrive (p, now) a)" by simp
  from Cons.IH [OF this] Cons.prems(2) show ?case by (simp add: x)
qed simp

text \<open>The property C8: of the four data and two parity packets of an audio block any four that arrive, in any
  order, with repetitions and at any time, make every data packet of the block available, byte by byte.\<close>

theorem audio_any_4_of_6:
  assumes "audio_sent base W" "\<forall>(k, p, now)\<in>set ps. carries base ssrc W k p" "4 \<le> card (fst ` set ps)"
    and "audio_context_ok a" "length (a_blocks a) = 8" "\<forall>b\<in>set (a_blocks a). block_sized b"
    and "\<forall>b\<in>set (a_blocks a). \<not> (ab_valid b \<and> ab_base_seq b = base)" "pos < 4"
  shows "fst (audio_rtp_fec_recover_payload (base + of_nat pos) (fold arrive (map snd ps) a)) = Some (W ! pos)"
proof -
  have none: "find_block base 0 (a_blocks a) = None" using assms(7) find_block_None by blast
  then have "cached base ssrc W {} a" using assms(4-6) by (simp add: cached_def)
  from cached_arrivals [OF this assms(1,2)]
  have c: "cached base ssrc W (fst ` set ps) (fold arrive (map snd ps) a)" by simp
  let ?a = "fold arrive (map snd ps) a"
  have "fst ` set ps \<noteq> {}" using assms(3) by auto
  then obtain i where i: "find_block base 0 (a_blocks ?a) = Some i" "fst ` set ps \<subseteq> {..<6}"
    "holds base ssrc W (fst ` set ps) (a_blocks ?a ! i)"
    using c by (auto simp: cached_def split: option.splits)
  have ctx: "audio_context_ok ?a" using c by (simp add: cached_def)
  obtain b' a' where r: "audio_rtp_fec_complete (a_blocks ?a ! i) ?a = (0, b', a')"
    "\<And>k. k < 4 \<Longrightarrow> ab_marks b' ! k = 0 \<and> block_shard b' k = W ! k" "ab_block_size b' = ab_block_size (a_blocks ?a ! i)"
    "length (ab_data b') = 4"
    using complete_ok [OF assms(1) i(3,2) assms(3) ctx] by metis
  have "audio_fec_base_seq (base + of_nat pos) = base" "unat (base + of_nat pos - base) = pos"
    using base_of_seq [OF _ assms(8)] assms(1) unfolding audio_sent_def by blast+
  then have "fst (audio_rtp_fec_recover_payload (base + of_nat pos) ?a) =
      Some (take (ab_block_size b') (ab_data b' ! pos))"
    using assms(8) i(1) r(1) r(2) [OF assms(8)]
    by (simp add: audio_rtp_fec_recover_payload_def Let_def AUDIO_RTP_FEC_DATA_SHARDS_def)
  moreover have "block_shard b' pos = take (ab_block_size b') (ab_data b' ! pos)"
    using r(4) assms(8) by (simp add: block_shard_def nth_append)
  ultimately show ?thesis using r(2) [OF assms(8)] by simp
qed

text \<open>Data packets 1 and 2 of a block are lost.\<close>

definition spoken :: "u8 list list" where
  "spoken = audio_encode 1 [[11], [22], [33], [44]]"

definition spoken_packet :: "nat \<Rightarrow> u8 list" where
  "spoken_packet k =
     (if k < 4 then [0x80, 97, 0, 8 + of_nat k, 0, 0, 0, 0, 0, 0, 0, 7] @ spoken ! k
      else [0x80, 127, 0, 0, 0, 0, 0, 0, 0, 0, 0, 0] @ [of_nat (k - 4), 97, 0, 8, 0, 0, 0, 0, 0, 0, 0, 7] @ spoken ! k)"

lemma spoken_shards:
  "length spoken = 6" "w \<in> set spoken \<Longrightarrow> length w = 1" "take 4 spoken = [[11], [22], [33], [44]]"
proof -
  let ?sh = "[[11], [22], [33], [44], [0], [0]] :: u8 list list"
  have s: "spoken = reed_solomon_encode audio_rs ?sh 6 1"
    by (simp add: spoken_def audio_encode_def numeral_2_eq_2)
  have len: "length ?sh = 1 * shards_total audio_rs" "\<forall>s\<in>set ?sh. 1 \<le> length s" by (simp_all add: audio_rs_def)
  note e = encode_ok [OF audio_codec [OF audio_rs_shape] len]
  have ml: "map length spoken = replicate 6 1"
    unfolding s using e(1) by (simp add: audio_rs_def numeral_eq_Suc)
  show l: "length spoken = 6" using arg_cong [OF ml, of length] by simp
  show "length w = 1" if "w \<in> set spoken"
  proof -
    have "length w \<in> set (map length spoken)" using that by simp
    then show ?thesis unfolding ml by simp
  qed
  show "take 4 spoken = [[11], [22], [33], [44]]"
  proof (rule nth_equalityI)
    fix k assume "k < length (take 4 spoken)"
    then have "k < 4" by simp
    then show "take 4 spoken ! k = [[11], [22], [33], [44]] ! k"
      using e(2) [of k] unfolding s by (auto simp: audio_rs_def less_Suc_eq numeral_eq_Suc)
  qed (simp add: l)
qed

lemma spoken_sent: "audio_sent 8 spoken"
proof -
  have "spoken ! 0 \<in> set spoken" using spoken_shards(1) by simp
  then show ?thesis unfolding audio_sent_def using spoken_shards
    by (simp add: spoken_def AUDIO_MAX_RTP_SIZE_def)
qed

lemma spoken_carried:
  assumes "k < 6"
  shows "carries 8 7 spoken k (spoken_packet k)"
proof -
  have "length (spoken ! k) = 1" using spoken_shards(1,2) assms by simp
  then obtain x where x: "spoken ! k = [x]" by (cases "spoken ! k") auto
  have "k = 0 \<or> k = 1 \<or> k = 2 \<or> k = 3 \<or> k = 4 \<or> k = 5" using assms by linarith
  then show ?thesis
    using x unfolding carries_def spoken_packet_def
    by (elim disjE) (simp_all add: audio_rtp_payload_offset_def audio_sizes RTP_PT_AUDIO_OPUS_def RTP_PT_AUDIO_FEC_def
        read_be16_def read_be32_def Let_def)
qed

theorem audio_any_4_of_6_witness:
  "fst (audio_rtp_fec_recover_payload 10 (fold arrive
      [(spoken_packet 5, 30), (spoken_packet 0, 40), (spoken_packet 4, 50), (spoken_packet 3, 60)] audio_fec_zero))
    = Some [33]"
proof -
  let ?ps = "[(5, spoken_packet 5, 30), (0, spoken_packet 0, 40), (4, spoken_packet 4, 50), (3, spoken_packet 3, 60)]
    :: (nat \<times> u8 list \<times> u32) list"
  have z: "audio_context_ok audio_fec_zero" "a_blocks audio_fec_zero = replicate 8 audio_block_zero"
    by (simp_all add: audio_fec_zero_def audio_rtp_fec_reset_def audio_context_ok_def DATA_SHARDS_MAX_def
        AUDIO_RTP_FEC_CACHE_BLOCKS_def)
  have b: "block_sized audio_block_zero" "\<not> ab_valid audio_block_zero"
    by (simp_all add: block_sized_def audio_block_zero_def zero_buffer_def audio_sizes)
  have "fst (audio_rtp_fec_recover_payload (8 + of_nat 2) (fold arrive (map snd ?ps) audio_fec_zero)) = Some (spoken ! 2)"
    using spoken_carried z b by (intro audio_any_4_of_6 [OF spoken_sent, where ssrc = 7]) (auto simp: z(2))
  moreover have "spoken ! 2 = take 4 spoken ! 2" by simp
  ultimately show ?thesis by (simp add: spoken_shards(3))
qed

end
