(* ===== verification/SharedCodec.thy ===== *)
theory SharedCodec
  imports AudioFecCorrect RtpFec
begin

text \<open>
  The video path (rtp_fec.c) and the audio path (audio_thread.c) use the same static codec context of rs.c,
  each under the global lock. Both decide by the shape of the context whether it still is theirs; the matrix
  in it is not compared. The audio path writes its own matrix into it. So after an audio recovery a video
  frame of four data and two parity packets, the shape of an audio block, is decoded with the wrong matrix.
\<close>

lemma complete_leaves_matrix:
  assumes "audio_context_ok a" "ab_valid b" "missing_data b \<noteq> 0" "4 \<le> available b"
    and "audio_rtp_fec_complete b a = (ret, b', a')"
  shows "audio_shape (a_rs_ctx a')"
proof -
  obtain rs where rs: "audio_context a = Some rs" "audio_shape rs" using audio_context_shape [OF assms(1)] .
  then show ?thesis
    using assms(2-5)
    by (auto simp: audio_rtp_fec_complete_def AUDIO_RTP_FEC_DATA_SHARDS_def Let_def split: prod.splits if_splits)
qed

text \<open>The parity byte of the video codec over the bytes 1, 2, 3, 4 is 0, and so is that of the audio codec over
  31, 2, 3, 4.\<close>

definition rs42 :: reed_solomon where "rs42 = the (reed_solomon_new 4 2)"

definition video_bytes :: "u8 list list" where "video_bytes = [[1], [2], [3], [4], [0], [0]]"
definition wrong_bytes :: "u8 list list" where "wrong_bytes = [[31], [2], [3], [4], [0], [0]]"

definition video_parity :: "u8 list" where "video_parity = reed_solomon_encode rs42 video_bytes 6 1 ! 4"

lemma rs42: "reed_solomon_new 4 2 = Some rs42" "data_shards rs42 = 4" "parity_shards rs42 = 2" "shards_total rs42 = 6"
  by (simp_all add: rs42_def reed_solomon_new_def DATA_SHARDS_MAX_def)

lemma video_products:
  "gf_mul (gf_inverse 2) 1 XOR gf_mul (gf_inverse 3) 2 XOR gf_mul (gf_inverse 4) 3 XOR gf_mul (gf_inverse 5) 4 =
   gf_mul 0x77 31 XOR gf_mul 0x40 2 XOR gf_mul 0x38 3 XOR gf_mul 0x0e 4"
  by code_simp

lemma sum4: "(\<Sum>i<4. f i) = f 0 + f 1 + f 2 + (f (3::nat) :: 'a::comm_monoid_add)"
  by (simp add: numeral_eq_Suc)

lemma same_parity:
  assumes "audio_shape rs"
  shows "parity_byte rs42 video_bytes 0 0 0 = parity_byte rs wrong_bytes 0 0 0"
proof -
  have v: "GF (parity rs42 ! k) = GF (gf_inverse (of_nat (2 + k)))" if "k < 4" for k
    using parity_nth [OF rs42(1), of 0 k] that
    by (simp add: rs42 node_def GF_inverse gfe_minus GF_eq_0 [THEN iffD2])
  have a: "parity rs ! k = audio_parity ! k" if "k < 4" for k using audio_parity_nth [OF assms, of k] that by simp
  have "parity_byte rs42 video_bytes 0 0 0 = GF (gf_mul (gf_inverse 2) 1 XOR gf_mul (gf_inverse 3) 2
      XOR gf_mul (gf_inverse 4) 3 XOR gf_mul (gf_inverse 5) 4)"
    using v [of 0] v [of 1] v [of 2] v [of 3]
    by (simp add: parity_byte_def sum4 rs42 video_bytes_def GF_xor GF_mul)
  also have "\<dots> = parity_byte rs wrong_bytes 0 0 0"
    unfolding video_products using assms a [of 0] a [of 1] a [of 2] a [of 3]
    by (simp add: parity_byte_def sum4 audio_shape_def wrong_bytes_def GF_xor GF_mul audio_parity_def)
  finally show ?thesis .
qed

lemma wrong_byte:
  assumes "audio_shape rs" "length wrk = 16384"
  obtains wrk' out where
    "reed_solomon_reconstruct rs [1, 0, 0, 0, 0, 1] 6 1 (wrk, [[0], [2], [3], [4], video_parity, [0]]) = (0, wrk', out)"
    "out ! 0 = [31]"
proof -
  let ?marks = "[1, 0, 0, 0, 0, 1] :: u8 list" and ?recv = "[[0], [2], [3], [4], video_parity, [0]]"
  have R: "data_shards rs = 4" "parity_shards rs = 2" "shards_total rs = 6" using assms(1) by (simp_all add: audio_shape_def)
  have lv: "length video_bytes = 1 * shards_total rs42" "\<forall>s\<in>set video_bytes. 1 \<le> length s"
    by (simp_all add: video_bytes_def rs42)
  note ev = encode_ok [OF codec_new [OF rs42(1)] lv]
  have lw: "length wrong_bytes = 1 * shards_total rs" "\<forall>s\<in>set wrong_bytes. 1 \<le> length s"
    by (simp_all add: wrong_bytes_def R)
  note ew = encode_ok [OF audio_codec [OF assms(1)] lw]
  have lp: "length video_parity = 1"
    using arg_cong [OF ev(1), of "\<lambda>l. l ! 4"] arg_cong [OF ev(1), of length]
    by (simp add: video_parity_def rs42 video_bytes_def)
  have "GF (video_parity ! 0) = GF (reed_solomon_encode rs wrong_bytes 6 1 ! 4 ! 0)"
    using ev(3) [of 0 0 0] ew(3) [of 0 0 0] same_parity [OF assms(1)] by (simp add: R rs42 video_parity_def)
  then have p: "same_on UNIV 1 video_parity (reed_solomon_encode rs wrong_bytes 6 1 ! 4)" by (simp add: same_on_def)
  have intact: "\<forall>k<1 * shards_total rs. ?marks ! k = 0 \<longrightarrow>
      same_on UNIV 1 (?recv ! k) (reed_solomon_encode rs wrong_bytes (1 * shards_total rs) 1 ! k)"
  proof (intro allI impI)
    fix k assume k: "k < 1 * shards_total rs" "?marks ! k = 0"
    then have "k = 1 \<or> k = 2 \<or> k = 3 \<or> k = 4"
      unfolding R by (auto simp: less_Suc_eq numeral_eq_Suc)
    then show "same_on UNIV 1 (?recv ! k) (reed_solomon_encode rs wrong_bytes (1 * shards_total rs) 1 ! k)"
      using p ew(2) [of k] unfolding R by (elim disjE) (simp_all add: wrong_bytes_def same_on_def)
  qed
  have "map length ?recv = map length wrong_bytes" using lp by (simp add: wrong_bytes_def)
  moreover have "\<forall>g<1. group_recoverable rs ?marks 1 g" by (simp add: group_recoverable_def R upt_rec)
  ultimately obtain wrk' out where
    o: "reed_solomon_reconstruct rs ?marks (1 * shards_total rs) 1 (wrk, ?recv) = (0, wrk', out)"
      "map length out = map length wrong_bytes" "\<forall>k<1 * data_shards rs. same_on UNIV 1 (out ! k) (wrong_bytes ! k)"
    using reconstruct_ok [OF audio_codec [OF assms(1)] lw _ assms(2) intact] by metis
  have "length (out ! 0) = 1"
    using arg_cong [OF o(2), of "\<lambda>l. l ! 0"] arg_cong [OF o(2), of length] by (simp add: wrong_bytes_def)
  moreover have "out ! 0 ! 0 = 31" using o(3) R by (auto simp: same_on_def wrong_bytes_def)
  ultimately have "out ! 0 = [31]" by (intro nth_equalityI) auto
  then show thesis using o(1) that unfolding R by simp
qed

text \<open>The property C13: once the audio path has recovered a packet while the video path remembered a frame of
  four data and two parity packets, the video path takes the context for its own; the codec then reports
  success for such a frame and returns a byte that was not sent (31 instead of 1 here).\<close>

theorem audio_spoils_video_codec:
  assumes "s_cached s = Some (4, 2)" "length (s_dataDecodeMatrix s) = 16384"
    and "audio_context_ok a" "ab_valid b" "missing_data b \<noteq> 0" "4 \<le> available b"
    and "audio_rtp_fec_complete b a = (ret, b', a')"
  shows "let s' = s\<lparr>s_rs_ctx := a_rs_ctx a'\<rparr>
    in rs_context 4 2 s' = (True, s') \<and>
      (case run_reconstruct [1, 0, 0, 0, 0, 1] [[0], [2], [3], [4], video_parity, [0]] 1 s' of
        (r, out, _) \<Rightarrow> r = 0 \<and> out ! 0 = [31] \<and> video_bytes ! 0 = [1])"
proof -
  let ?s = "s\<lparr>s_rs_ctx := a_rs_ctx a'\<rparr>"
  have sh: "audio_shape (a_rs_ctx a')" using complete_leaves_matrix [OF assms(3-7)] .
  then have "rs_context 4 2 ?s = (True, ?s)" using assms(1) by (simp add: rs_context_def audio_shape_def)
  moreover obtain wrk' out where "reed_solomon_reconstruct (a_rs_ctx a') [1, 0, 0, 0, 0, 1] 6 1
      (s_dataDecodeMatrix s, [[0], [2], [3], [4], video_parity, [0]]) = (0, wrk', out)" "out ! 0 = [31]"
    using wrong_byte [OF sh assms(2)] .
  moreover have "length [1, 0, 0, 0, 0, 1 :: u8] = 6" by simp
  ultimately show ?thesis by (simp only: run_reconstruct_def Let_def) (simp add: video_bytes_def)
qed

text \<open>An audio block with one packet missing, after a video frame of that shape.\<close>

definition spoken_block :: audio_block where
  "spoken_block = audio_block_zero\<lparr>ab_valid := True, ab_block_size := 1, ab_marks := [1, 0, 0, 0, 0, 1]\<rparr>"

definition after_video :: rtp_fec where
  "after_video = fec_zero\<lparr>s_cached := Some (4, 2), s_rs_ctx := rs42\<rparr>"

definition audio_after_video :: audio_fec where
  "audio_after_video = audio_fec_zero\<lparr>audio_rs_set := True, a_rs_ctx := rs42\<rparr>"

theorem audio_spoils_video_codec_witness:
  "let s' = after_video\<lparr>s_rs_ctx := a_rs_ctx (snd (snd (audio_rtp_fec_complete spoken_block audio_after_video)))\<rparr>
    in rs_context 4 2 s' = (True, s') \<and>
      fst (run_reconstruct [1, 0, 0, 0, 0, 1] [[0], [2], [3], [4], video_parity, [0]] 1 s') = 0"
proof -
  obtain ret b' a' where c: "audio_rtp_fec_complete spoken_block audio_after_video = (ret, b', a')" by (metis prod_cases3)
  have "audio_context_ok audio_after_video"
    by (simp add: audio_context_ok_def audio_after_video_def rs42 audio_fec_zero_def audio_rtp_fec_reset_def DATA_SHARDS_MAX_def)
  moreover have "missing_data spoken_block \<noteq> 0" "4 \<le> available spoken_block" "ab_valid spoken_block"
    by (simp_all add: missing_data_def available_def spoken_block_def audio_sizes upt_rec)
  moreover have "s_cached after_video = Some (4, 2)" "length (s_dataDecodeMatrix after_video) = 16384"
    by (simp_all add: after_video_def fec_zero_def DATA_SHARDS_MAX_def)
  ultimately show ?thesis
    using audio_spoils_video_codec [OF _ _ _ _ _ _ c, of after_video] c by (simp add: Let_def split: prod.splits)
qed

end
