(* ===== verification/AudioPlayback.thy ===== *)
theory AudioPlayback
  imports AudioFec "HOL-Library.Signed_Division"
begin

text \<open>
  The way of decoded sound to the loudspeaker (audio_thread.c): the receiving thread collects samples in a stage
  and publishes chunks of 512 in a ring of 96 slots; the playback thread takes one chunk per turn, trims the
  queue when it grows, repeats the last chunk with falling volume when it is empty, and plays silence when that
  lasts too long.

  \<open>head\<close> and \<open>tail\<close> count chunks and never wrap back to the size of the ring. The threads interleave: what the
  playback thread does in each delay of the receiving thread is an argument, and a turn of the playback thread
  that finds the ring empty ends there (\<open>look_again\<close>), so that samples can arrive before its second look. The
  results of the semaphore, the clock and the flags of other threads are in \<open>play_env\<close>. Output is recorded with its kind: 1 a
  new chunk, 3 a repeated one, 0 silence. Signed differences of counters wrap. Log lines and the counters that
  only they read are left out.
\<close>

type_synonym i16 = "16 word"

definition AUDIO_CHUNK_SAMPLES :: nat where "AUDIO_CHUNK_SAMPLES = 512"
definition AUDIO_MAX_FRAME_SAMPLES :: nat where "AUDIO_MAX_FRAME_SAMPLES = 2880"
definition AUDIO_RING_SLOTS :: nat where "AUDIO_RING_SLOTS = 96"
definition AUDIO_STAGE_CAPACITY :: nat where "AUDIO_STAGE_CAPACITY = AUDIO_MAX_FRAME_SAMPLES * 4"
definition AUDIO_DRIFT_TARGET_CHUNKS :: nat where "AUDIO_DRIFT_TARGET_CHUNKS = 6"
definition AUDIO_DRIFT_CORRECTION_PERIOD_CHUNKS :: u32 where "AUDIO_DRIFT_CORRECTION_PERIOD_CHUNKS = 128"
definition AUDIO_QUEUE_TRIM_PERIOD_CHUNKS :: u32 where "AUDIO_QUEUE_TRIM_PERIOD_CHUNKS = 256"
definition AUDIO_DRIFT_THRESHOLD_SAMPLES :: int where "AUDIO_DRIFT_THRESHOLD_SAMPLES = int AUDIO_CHUNK_SAMPLES * 5"
definition AUDIO_PLC_LOW_WATER_CHUNKS :: nat where "AUDIO_PLC_LOW_WATER_CHUNKS = 3"
definition AUDIO_EMPTY_HOLD_MAX_CHUNKS :: nat where "AUDIO_EMPTY_HOLD_MAX_CHUNKS = 12"
definition AUDIO_SOURCE_IDLE_US :: u32 where "AUDIO_SOURCE_IDLE_US = 750000"

subsection \<open>State\<close>

record playback =
  head :: u32
  tail :: u32
  pcm :: "i16 list list"
  s_effective_ring_depth :: u32
  s_pcm_stage :: "i16 list"
  s_pcm_stage_count :: nat
  s_rtp_anchor_ts :: u32
  s_rtp_anchor_valid :: bool
  s_rtp_elapsed_samples :: u32
  s_rtp_elapsed_offset_samples :: u32
  s_rtp_timestamp_scale :: u32
  s_audio_timeline_samples :: u32
  s_drift_drop_events :: u32
  s_drift_hold_events :: u32
  frames_played :: u32
  underruns :: u32
  empty_holds :: u32
  last_play_chunk :: "i16 list"
  have_last_play_chunk :: bool
  consecutive_empty_holds :: nat
  drift_tick :: u32
  drift_drop_count :: nat
  drift_hold_count :: nat
  source_idle :: bool
  look_again :: bool
  played :: "(i16 list \<times> nat) list"

definition silent_chunk :: "i16 list" where
  "silent_chunk = replicate AUDIO_CHUNK_SAMPLES 0"

definition audio_sync_reset_state :: "playback \<Rightarrow> playback" where
  "audio_sync_reset_state p =
     p\<lparr>s_rtp_anchor_ts := 0, s_rtp_anchor_valid := False, s_rtp_elapsed_samples := 0,
       s_rtp_elapsed_offset_samples := 0, s_rtp_timestamp_scale := 0, s_audio_timeline_samples := 0,
       s_drift_drop_events := 0, s_drift_hold_events := 0\<rparr>"

text \<open>What \<open>audio_thread_init\<close> leaves, with the locals of the playback thread at its start.\<close>

definition playback_init :: "u32 \<Rightarrow> playback" where
  "playback_init depth =
     \<lparr>head = 0, tail = 0, pcm = replicate AUDIO_RING_SLOTS silent_chunk, s_effective_ring_depth = depth,
      s_pcm_stage = replicate AUDIO_STAGE_CAPACITY 0, s_pcm_stage_count = 0,
      s_rtp_anchor_ts = 0, s_rtp_anchor_valid = False, s_rtp_elapsed_samples = 0,
      s_rtp_elapsed_offset_samples = 0, s_rtp_timestamp_scale = 0, s_audio_timeline_samples = 0,
      s_drift_drop_events = 0, s_drift_hold_events = 0, frames_played = 0, underruns = 0, empty_holds = 0,
      last_play_chunk = silent_chunk, have_last_play_chunk = False, consecutive_empty_holds = 0,
      drift_tick = 0, drift_drop_count = 0, drift_hold_count = 0, source_idle = False, look_again = False, played = []\<rparr>"

subsection \<open>The ring\<close>

definition ring_full :: "playback \<Rightarrow> bool" where
  "ring_full p \<longleftrightarrow> head p - tail p \<ge> s_effective_ring_depth p"

definition ring_empty :: "playback \<Rightarrow> bool" where
  "ring_empty p \<longleftrightarrow> head p = tail p"

definition ring_slot :: "u32 \<Rightarrow> nat" where
  "ring_slot c = unat c mod AUDIO_RING_SLOTS"

definition ring_push_pcm :: "i16 list \<Rightarrow> playback \<Rightarrow> bool \<times> playback" where
  "ring_push_pcm src p =
     (if ring_full p then (False, p)
      else (True, p\<lparr>pcm := (pcm p)[ring_slot (head p) := take AUDIO_CHUNK_SAMPLES src], head := head p + 1\<rparr>))"

definition ring_pop_pcm :: "playback \<Rightarrow> i16 list option \<times> playback" where
  "ring_pop_pcm p =
     (if ring_empty p then (None, p) else (Some (pcm p ! ring_slot (tail p)), p\<lparr>tail := tail p + 1\<rparr>))"

subsection \<open>The stage\<close>

function audio_flush_stage_to_ring :: "playback \<Rightarrow> bool \<times> playback" where
  "audio_flush_stage_to_ring p =
     (if s_pcm_stage_count p < AUDIO_CHUNK_SAMPLES then (True, p)
      else (case ring_push_pcm (s_pcm_stage p) p of
          (False, p) \<Rightarrow> (False, p)
        | (True, p) \<Rightarrow>
            let remaining = s_pcm_stage_count p - AUDIO_CHUNK_SAMPLES
            in audio_flush_stage_to_ring
                 (p\<lparr>s_pcm_stage := take remaining (drop AUDIO_CHUNK_SAMPLES (s_pcm_stage p)) @ drop remaining (s_pcm_stage p),
                    s_pcm_stage_count := remaining\<rparr>)))"
  by pat_completeness auto
termination
  by (relation "measure s_pcm_stage_count")
    (auto simp: ring_push_pcm_def AUDIO_CHUNK_SAMPLES_def split: if_splits)

declare audio_flush_stage_to_ring.simps [simp del]

text \<open>The loop that waits for room. A delay is what the playback thread does meanwhile; past the end of the
  list it does nothing.\<close>

function wait_for_room :: "nat \<Rightarrow> nat \<Rightarrow> (playback \<Rightarrow> playback) list \<Rightarrow> playback \<Rightarrow> bool \<times> playback" where
  "wait_for_room samples waits ds p =
     (if s_pcm_stage_count p + samples \<le> AUDIO_STAGE_CAPACITY then (True, p)
      else (case audio_flush_stage_to_ring p of
        (done, p) \<Rightarrow>
          if done \<and> s_pcm_stage_count p + samples \<le> AUDIO_STAGE_CAPACITY then (True, p)
          else if waits + 1 > 24 then (False, p)
          else (case ds of
              [] \<Rightarrow> wait_for_room samples (waits + 1) [] p
            | d # ds \<Rightarrow> wait_for_room samples (waits + 1) ds (d p))))"
  by pat_completeness auto
termination
  by (relation "measure (\<lambda>(_, waits, _). 25 - waits)") auto

declare wait_for_room.simps [simp del]

definition audio_stage_append_and_flush ::
    "(playback \<Rightarrow> playback) list \<Rightarrow> i16 list \<Rightarrow> playback \<Rightarrow> int \<times> playback" where
  "audio_stage_append_and_flush ds src p =
     (if src = [] \<or> length src > AUDIO_STAGE_CAPACITY then (-1, p)
      else (case wait_for_room (length src) 0 ds p of
          (False, p) \<Rightarrow> (-2, p)
        | (True, p) \<Rightarrow>
            (case audio_flush_stage_to_ring
                 (p\<lparr>s_pcm_stage := take (s_pcm_stage_count p) (s_pcm_stage p) @ src
                      @ drop (s_pcm_stage_count p + length src) (s_pcm_stage p),
                    s_pcm_stage_count := s_pcm_stage_count p + length src\<rparr>) of
               (done, p) \<Rightarrow> (if done then 0 else 1, p))))"

subsection \<open>Samples\<close>

text \<open>Linear interpolation; C division cuts towards zero.\<close>

definition stretch_sample :: "int \<Rightarrow> int \<Rightarrow> int \<Rightarrow> int \<Rightarrow> int" where
  "stretch_sample a b frac n =
     (let interp = a + ((b - a) * frac) sdiv n;
          interp = (if interp > 32767 then 32767 else interp)
      in if interp < -32768 then -32768 else interp)"

definition audio_time_stretch :: "i16 list \<Rightarrow> nat \<Rightarrow> i16 list" where
  "audio_time_stretch inp out_samples =
     map (\<lambda>i. let k = i * length inp div out_samples; frac = i * length inp - k * out_samples
              in if k \<ge> length inp - 1 then inp ! (length inp - 1)
                 else word_of_int (stretch_sample (sint (inp ! k)) (sint (inp ! (k + 1))) (int frac) (int out_samples)))
       [0..<out_samples]"

definition hold_scale :: "nat \<Rightarrow> int" where
  "hold_scale hold_index = (let scale = 256 - int hold_index * 24 in if scale < 128 then 128 else scale)"

definition audio_copy_faded_hold :: "i16 list \<Rightarrow> nat \<Rightarrow> i16 list" where
  "audio_copy_faded_hold src hold_index = map (\<lambda>x. word_of_int (sint x * hold_scale hold_index div 256)) src"

definition audio_src_output_buffer :: "i16 list \<Rightarrow> nat \<Rightarrow> playback \<Rightarrow> playback" where
  "audio_src_output_buffer buf kind p = p\<lparr>played := played p @ [(buf, kind)]\<rparr>"

definition stereo :: "i16 list \<Rightarrow> i16 list" where
  "stereo chunk = concat (map (\<lambda>x. [x, x]) chunk)"

definition audio_src_output_chunk :: "i16 list \<Rightarrow> nat \<Rightarrow> playback \<Rightarrow> playback" where
  "audio_src_output_chunk chunk kind = audio_src_output_buffer (stereo chunk) kind"

definition s_silence :: "i16 list" where
  "s_silence = replicate (2 * AUDIO_CHUNK_SAMPLES) 0"

subsection \<open>The playback thread\<close>

record play_env =
  pe_now_us :: u32
  pe_last_data_us :: u32
  pe_dialog :: bool
  pe_sync_read :: bool
  pe_sync_trim :: bool
  pe_sync_play :: bool

definition audio_advance_consumed_chunk :: "bool \<Rightarrow> playback \<Rightarrow> playback" where
  "audio_advance_consumed_chunk locked p =
     (if locked then p\<lparr>s_audio_timeline_samples := s_audio_timeline_samples p + of_nat AUDIO_CHUNK_SAMPLES\<rparr> else p)"

definition no_recent_data :: "play_env \<Rightarrow> bool" where
  "no_recent_data e \<longleftrightarrow> pe_last_data_us e \<noteq> 0 \<and> pe_now_us e - pe_last_data_us e \<ge> AUDIO_SOURCE_IDLE_US"

definition queued_chunks :: "playback \<Rightarrow> int" where
  "queued_chunks p = sint (head p - tail p)"

definition drift_error :: "playback \<Rightarrow> int" where
  "drift_error p = sint (s_rtp_elapsed_samples p - s_audio_timeline_samples p
     - of_nat (AUDIO_DRIFT_TARGET_CHUNKS * AUDIO_CHUNK_SAMPLES))"

definition sync_valid :: "play_env \<Rightarrow> playback \<Rightarrow> bool" where
  "sync_valid e p \<longleftrightarrow> pe_sync_read e \<and> s_rtp_anchor_valid p \<and> s_rtp_timestamp_scale p \<noteq> 0"

definition trim_queue :: "play_env \<Rightarrow> playback \<Rightarrow> playback" where
  "trim_queue e p =
     (case ring_pop_pcm p of
        (None, p) \<Rightarrow> p
      | (Some _, p) \<Rightarrow>
          let p = audio_advance_consumed_chunk (pe_sync_trim e) p; n = drift_drop_count p + 1
          in p\<lparr>drift_drop_count := n, s_drift_drop_events := of_nat n\<rparr>)"

text \<open>Drift correction; the first result says that the last chunk is to be repeated.\<close>

definition correct_drift :: "play_env \<Rightarrow> playback \<Rightarrow> bool \<times> playback" where
  "correct_drift e p =
     (if sync_valid e p \<and> \<not> source_idle p then
        let err = drift_error p; p = p\<lparr>drift_tick := drift_tick p + 1\<rparr> in
        if drift_tick p mod AUDIO_DRIFT_CORRECTION_PERIOD_CHUNKS = 0 then
          if queued_chunks p > int AUDIO_DRIFT_TARGET_CHUNKS + 1 \<and> drift_tick p mod AUDIO_QUEUE_TRIM_PERIOD_CHUNKS = 0
          then (False, trim_queue e p)
          else if err < - AUDIO_DRIFT_THRESHOLD_SAMPLES \<and> have_last_play_chunk p
                  \<and> queued_chunks p \<le> int AUDIO_PLC_LOW_WATER_CHUNKS
          then let n = drift_hold_count p + 1 in (True, p\<lparr>drift_hold_count := n, s_drift_hold_events := of_nat n\<rparr>)
          else (False, p)
        else (False, p)
      else (False, p))"

definition play_chunk :: "play_env \<Rightarrow> i16 list \<Rightarrow> playback \<Rightarrow> playback" where
  "play_chunk e c p =
     (let p = audio_advance_consumed_chunk (pe_sync_play e) (audio_src_output_chunk c 1 p)
      in p\<lparr>last_play_chunk := c, have_last_play_chunk := True, frames_played := frames_played p + 1,
           consecutive_empty_holds := 0\<rparr>)"

definition hold_or_silence :: "playback \<Rightarrow> playback" where
  "hold_or_silence p =
     (if \<not> source_idle p \<and> have_last_play_chunk p \<and> consecutive_empty_holds p < AUDIO_EMPTY_HOLD_MAX_CHUNKS then
        let p = audio_src_output_chunk (audio_copy_faded_hold (last_play_chunk p) (consecutive_empty_holds p)) 3 p
        in p\<lparr>frames_played := frames_played p + 1, empty_holds := empty_holds p + 1,
             consecutive_empty_holds := consecutive_empty_holds p + 1\<rparr>
      else if source_idle p then (audio_src_output_buffer s_silence 0 p)\<lparr>consecutive_empty_holds := 0\<rparr>
      else let p = audio_src_output_buffer s_silence 0 p
           in p\<lparr>underruns := underruns p + 1, consecutive_empty_holds := consecutive_empty_holds p + 1\<rparr>)"

text \<open>The second look at an empty ring.\<close>

definition second_look :: "play_env \<Rightarrow> playback \<Rightarrow> playback" where
  "second_look e p =
     (case ring_pop_pcm (p\<lparr>look_again := False\<rparr>) of
        (Some c, p) \<Rightarrow> play_chunk e c p
      | (None, p) \<Rightarrow> hold_or_silence p)"

definition first_look :: "play_env \<Rightarrow> playback \<Rightarrow> playback" where
  "first_look e p =
     (case ring_pop_pcm p of
        (Some c, p) \<Rightarrow> play_chunk e c p
      | (None, p) \<Rightarrow>
          if \<not> source_idle p \<and> have_last_play_chunk p then p\<lparr>look_again := True\<rparr> else hold_or_silence p)"

definition dialog_turn :: "play_env \<Rightarrow> playback \<Rightarrow> playback" where
  "dialog_turn e p =
     (case ring_pop_pcm p of
        (None, p) \<Rightarrow> audio_src_output_buffer s_silence 0 p
      | (Some _, p) \<Rightarrow> audio_src_output_buffer s_silence 0 (audio_advance_consumed_chunk (pe_sync_play e) p))"

text \<open>One turn of the loop, or the rest of a turn that found the ring empty.\<close>

definition audio_play_step :: "play_env \<Rightarrow> playback \<Rightarrow> playback" where
  "audio_play_step e p =
     (if look_again p then second_look e p
      else
        let p = p\<lparr>source_idle := no_recent_data e\<rparr> in
        if pe_dialog e then dialog_turn e p
        else (case correct_drift e p of
            (True, p) \<Rightarrow>
              let p = audio_src_output_chunk (last_play_chunk p) 3 p in p\<lparr>frames_played := frames_played p + 1\<rparr>
          | (False, p) \<Rightarrow> first_look e p))"

end
