(* ===== verification/OpusDecode.thy ===== *)
theory OpusDecode
  imports AudioPlayback
begin

text \<open>
  The Opus wrapper (opus_decode_psp.c). libopus is a parameter with a decoder state of an unknown type; decoding
  returns the samples of one mono frame, or nothing for an error. The decoder's storage is its state here.
\<close>

record 'o opus_lib =
  decoder_get_size :: "int \<Rightarrow> int \<Rightarrow> int"
  decoder_init :: "int \<Rightarrow> int \<Rightarrow> int \<Rightarrow> int \<Rightarrow> 'o option"
  multistream_decode :: "'o \<Rightarrow> u8 list option \<Rightarrow> nat \<Rightarrow> bool \<Rightarrow> i16 list option \<times> 'o"

record 'o opus_psp =
  s_decoder :: "'o option"
  s_channels :: int
  opus_initialized :: bool
  s_last_frame_size :: nat

definition OPUS_STATIC_DECODER_BYTES :: int where "OPUS_STATIC_DECODER_BYTES = 32 * 1024"

definition opus_psp_zero :: "'o opus_psp" where
  "opus_psp_zero = \<lparr>s_decoder = None, s_channels = 0, opus_initialized = False, s_last_frame_size = 240\<rparr>"

definition opus_psp_shutdown :: "'o opus_psp \<Rightarrow> 'o opus_psp" where
  "opus_psp_shutdown d =
     d\<lparr>s_decoder := None, opus_initialized := False, s_channels := 0, s_last_frame_size := 240\<rparr>"

definition opus_psp_init ::
    "'o opus_lib \<Rightarrow> int \<Rightarrow> int \<Rightarrow> int \<Rightarrow> int \<Rightarrow> 'o opus_psp \<Rightarrow> int \<times> 'o opus_psp" where
  "opus_psp_init lib sample_rate channels streams coupled d =
     (let d = (if opus_initialized d then opus_psp_shutdown d else d) in
      if channels < 1 \<or> channels > 2 then (-1, d)
      else
        let d = d\<lparr>s_channels := channels\<rparr>; need = decoder_get_size lib streams coupled in
        if need \<le> 0 \<or> need > OPUS_STATIC_DECODER_BYTES then (-1, d\<lparr>s_decoder := None\<rparr>)
        else (case decoder_init lib sample_rate channels streams coupled of
            None \<Rightarrow> (-1, d\<lparr>s_decoder := None\<rparr>)
          | Some dec \<Rightarrow> (0, d\<lparr>s_decoder := Some dec, opus_initialized := True\<rparr>)))"

definition opus_psp_decode ::
    "'o opus_lib \<Rightarrow> u8 list option \<Rightarrow> nat \<Rightarrow> 'o opus_psp \<Rightarrow> i16 list option \<times> 'o opus_psp" where
  "opus_psp_decode lib opus_data frame_size d =
     (case (opus_initialized d, s_decoder d) of
        (True, Some dec) \<Rightarrow>
          (case multistream_decode lib dec opus_data frame_size False of
             (None, dec) \<Rightarrow> (None, d\<lparr>s_decoder := Some dec\<rparr>)
           | (Some out, dec) \<Rightarrow> (Some out, d\<lparr>s_decoder := Some dec, s_last_frame_size := length out\<rparr>))
      | _ \<Rightarrow> (None, d))"

definition opus_psp_decode_fec ::
    "'o opus_lib \<Rightarrow> u8 list option \<Rightarrow> nat \<Rightarrow> 'o opus_psp \<Rightarrow> i16 list option \<times> 'o opus_psp" where
  "opus_psp_decode_fec lib opus_data frame_size d =
     (case (opus_initialized d, s_decoder d) of
        (True, Some dec) \<Rightarrow>
          (case multistream_decode lib dec opus_data frame_size True of (r, dec) \<Rightarrow> (r, d\<lparr>s_decoder := Some dec\<rparr>))
      | _ \<Rightarrow> (None, d))"

definition opus_psp_last_frame_size :: "'o opus_psp \<Rightarrow> nat" where
  "opus_psp_last_frame_size d = s_last_frame_size d"

end
