(* ===== verification/StreamCrypto.thy ===== *)
theory StreamCrypto
  imports Prelude
begin

text \<open>
  Decryption of the video and audio payloads (stream_crypto.c). mbedTLS is a parameter: \<open>crypto_lib\<close> holds what the
  calls into it return for a key, 0 or an error code for the set-up calls, the plain text or nothing for the others.
  The last part says what the error count and the fatal flag mean.
\<close>

unbundle bit_operations_syntax

definition ENC_VIDEO_HDR_SIZE :: nat where "ENC_VIDEO_HDR_SIZE = 32"

record crypto_lib =
  aes_setkey_dec :: "u8 list \<Rightarrow> int"
  gcm_setkey :: "u8 list \<Rightarrow> int"
  gcm_auth_decrypt :: "u8 list \<Rightarrow> u8 list \<Rightarrow> u8 list \<Rightarrow> u8 list \<Rightarrow> u8 list option"
  aes_cbc_decrypt :: "u8 list \<Rightarrow> u8 list \<Rightarrow> u8 list \<Rightarrow> u8 list option"

record stream_crypto =
  s_session_key :: "u8 list"
  crypto_initialized :: bool
  s_error_count :: u32
  g_crypto_fatal :: bool

definition stream_crypto_zero :: stream_crypto where
  "stream_crypto_zero = \<lparr>s_session_key = replicate 16 0, crypto_initialized = False, s_error_count = 0, g_crypto_fatal = False\<rparr>"

definition stream_crypto_shutdown :: "stream_crypto \<Rightarrow> stream_crypto" where
  "stream_crypto_shutdown c =
     (if crypto_initialized c
      then c\<lparr>s_session_key := replicate 16 0, crypto_initialized := False, g_crypto_fatal := False\<rparr> else c)"

definition stream_crypto_init :: "crypto_lib \<Rightarrow> u8 list option \<Rightarrow> stream_crypto \<Rightarrow> int \<times> stream_crypto" where
  "stream_crypto_init lib key c =
     (case key of
        None \<Rightarrow> (-1, c)
      | Some k \<Rightarrow>
          let c = (if crypto_initialized c then stream_crypto_shutdown c else c);
              c = c\<lparr>s_session_key := take 16 k\<rparr>
          in if aes_setkey_dec lib (s_session_key c) \<noteq> 0 then (-1, c\<lparr>s_session_key := replicate 16 0\<rparr>)
             else if gcm_setkey lib (s_session_key c) \<noteq> 0 then (-1, c\<lparr>s_session_key := replicate 16 0\<rparr>)
             else (0, c\<lparr>crypto_initialized := True, s_error_count := 0, g_crypto_fatal := False\<rparr>))"

definition count_crypto_error :: "stream_crypto \<Rightarrow> stream_crypto" where
  "count_crypto_error c = c\<lparr>s_error_count := s_error_count c + 1\<rparr>"

definition stream_crypto_decrypt_video :: "crypto_lib \<Rightarrow> u8 list \<Rightarrow> stream_crypto \<Rightarrow> u8 list option \<times> stream_crypto" where
  "stream_crypto_decrypt_video lib payload c =
     (if \<not> crypto_initialized c then (None, c)
      else if length payload \<le> ENC_VIDEO_HDR_SIZE then (None, count_crypto_error c)
      else (case gcm_auth_decrypt lib (s_session_key c) (take 12 payload) (take 16 (drop 16 payload))
                   (drop ENC_VIDEO_HDR_SIZE payload) of
          None \<Rightarrow>
            let c = count_crypto_error c
            in (None, if s_error_count c \<ge> 30 then c\<lparr>g_crypto_fatal := True\<rparr> else c)
        | Some out \<Rightarrow> (Some out, c\<lparr>s_error_count := 0\<rparr>)))"

definition audio_iv :: "u16 \<Rightarrow> u32 \<Rightarrow> u8 list" where
  "audio_iv rtp_seq ri_key_id =
     (let iv_val = ri_key_id + ucast rtp_seq
      in [ucast (drop_bit 24 iv_val), ucast (drop_bit 16 iv_val), ucast (drop_bit 8 iv_val), ucast iv_val] @ replicate 12 0)"

definition stream_crypto_decrypt_audio ::
    "crypto_lib \<Rightarrow> u8 list \<Rightarrow> u16 \<Rightarrow> u32 \<Rightarrow> stream_crypto \<Rightarrow> u8 list option \<times> stream_crypto" where
  "stream_crypto_decrypt_audio lib payload rtp_seq ri_key_id c =
     (if \<not> crypto_initialized c then (None, c)
      else if payload = [] then (None, c)
      else if length payload mod 16 \<noteq> 0 then (None, count_crypto_error c)
      else (case aes_cbc_decrypt lib (s_session_key c) (audio_iv rtp_seq ri_key_id) payload of
          None \<Rightarrow> (None, count_crypto_error c)
        | Some out \<Rightarrow> (Some out, c)))"

definition stream_crypto_get_error_count :: "stream_crypto \<Rightarrow> u32" where
  "stream_crypto_get_error_count c = s_error_count c"

subsection \<open>What the error count says\<close>

datatype crypto_call = Video "u8 list" | Audio "u8 list" u16 u32

fun decrypt_call :: "crypto_lib \<Rightarrow> crypto_call \<Rightarrow> stream_crypto \<Rightarrow> bool \<times> stream_crypto" where
  "decrypt_call lib (Video p) c = (case stream_crypto_decrypt_video lib p c of (r, c) \<Rightarrow> (r \<noteq> None, c))"
| "decrypt_call lib (Audio p sq k) c = (case stream_crypto_decrypt_audio lib p sq k c of (r, c) \<Rightarrow> (r \<noteq> None, c))"

fun crypto_run :: "crypto_lib \<Rightarrow> crypto_call list \<Rightarrow> stream_crypto \<Rightarrow> stream_crypto" where
  "crypto_run lib [] c = c"
| "crypto_run lib (a # as) c = crypto_run lib as (snd (decrypt_call lib a c))"

text \<open>The failures since the last video payload that was decrypted, given those before.\<close>

fun failures :: "crypto_lib \<Rightarrow> u8 list \<Rightarrow> crypto_call list \<Rightarrow> nat \<Rightarrow> nat" where
  "failures lib key [] n = n"
| "failures lib key (Video p # as) n =
     failures lib key as
       (if length p > 32 \<and> gcm_auth_decrypt lib key (take 12 p) (take 16 (drop 16 p)) (drop 32 p) \<noteq> None then 0 else n + 1)"
| "failures lib key (Audio p sq k # as) n =
     failures lib key as
       (if p = [] \<or> length p mod 16 = 0 \<and> aes_cbc_decrypt lib key (audio_iv sq k) p \<noteq> None then n else n + 1)"

lemma failures_bound: "failures lib key as n \<le> n + length as"
proof (induction as arbitrary: n)
  case (Cons a as)
  show ?case using Cons.IH [of 0] Cons.IH [of n] Cons.IH [of "n + 1"] by (cases a) simp_all
qed simp

lemma failures_append: "failures lib key (as @ bs) n = failures lib key bs (failures lib key as n)"
  by (induction lib key as n rule: failures.induct) simp_all

text \<open>A video payload long enough to be decrypted that is not authentic.\<close>

definition forged :: "crypto_lib \<Rightarrow> u8 list \<Rightarrow> u8 list \<Rightarrow> bool" where
  "forged lib key p \<longleftrightarrow> 32 < length p \<and> gcm_auth_decrypt lib key (take 12 p) (take 16 (drop 16 p)) (drop 32 p) = None"

definition session :: "u8 list \<Rightarrow> nat \<Rightarrow> stream_crypto \<Rightarrow> bool" where
  "session key n c \<longleftrightarrow> crypto_initialized c \<and> s_session_key c = key \<and> s_error_count c = of_nat n"

lemma word_count_le: "n < 2 ^ 32 \<Longrightarrow> (30 \<le> (of_nat n :: u32)) = (30 \<le> n)"
  by (simp add: word_le_nat_alt unsigned_of_nat take_bit_nat_eq_self)

lemma call_step:
  fixes lib :: crypto_lib and a :: crypto_call
  assumes "session key n c" "n + 1 < 2 ^ 32"
  defines "q \<equiv> snd (decrypt_call lib a c)"
  shows "session key (failures lib key [a] n) q"
    "g_crypto_fatal q \<longleftrightarrow> g_crypto_fatal c \<or> (\<exists>p. a = Video p \<and> forged lib key p \<and> 29 \<le> n)"
proof -
  have w: "(30 \<le> (1 + of_nat n :: u32)) = (29 \<le> n)" using word_count_le [of "Suc n"] assms(2) by simp
  have "session key (failures lib key [a] n) q \<and>
    (g_crypto_fatal q \<longleftrightarrow> g_crypto_fatal c \<or> (\<exists>p. a = Video p \<and> forged lib key p \<and> 29 \<le> n))"
  proof (cases a)
    case (Video p)
    show ?thesis using assms(1) w unfolding q_def Video
      by (simp add: stream_crypto_decrypt_video_def ENC_VIDEO_HDR_SIZE_def count_crypto_error_def session_def forged_def Let_def
          add.commute split: option.split)
  next
    case (Audio p sq k)
    show ?thesis using assms(1) unfolding q_def Audio
      by (simp add: stream_crypto_decrypt_audio_def count_crypto_error_def session_def add.commute split: option.split)
  qed
  then show "session key (failures lib key [a] n) q"
    "g_crypto_fatal q \<longleftrightarrow> g_crypto_fatal c \<or> (\<exists>p. a = Video p \<and> forged lib key p \<and> 29 \<le> n)" by blast+
qed

lemma run_errors:
  "session key n c \<Longrightarrow> n + length as < 2 ^ 32 \<Longrightarrow>
   session key (failures lib key as n) (crypto_run lib as c) \<and>
   (g_crypto_fatal (crypto_run lib as c) \<longleftrightarrow> g_crypto_fatal c \<or>
      (\<exists>xs p ys. as = xs @ Video p # ys \<and> forged lib key p \<and> 29 \<le> failures lib key xs n))"
proof (induction as arbitrary: c n)
  case (Cons a as)
  define m where "m = failures lib key [a] n"
  let ?c = "snd (decrypt_call lib a c)"
  have s: "session key m ?c" "g_crypto_fatal ?c \<longleftrightarrow> g_crypto_fatal c \<or> (\<exists>p. a = Video p \<and> forged lib key p \<and> 29 \<le> n)"
    using call_step [OF Cons.prems(1)] Cons.prems(2) unfolding m_def by auto
  have "m + length as < 2 ^ 32" using failures_bound [of lib key "[a]" n] Cons.prems(2) unfolding m_def by simp
  note ih = Cons.IH [OF s(1) this]
  have n: "failures lib key (a # xs) n = failures lib key xs m" for xs
    using failures_append [of lib key "[a]" xs n] unfolding m_def by simp
  have "(\<exists>xs p ys. a # as = xs @ Video p # ys \<and> forged lib key p \<and> 29 \<le> failures lib key xs n) \<longleftrightarrow>
    (\<exists>p. a = Video p \<and> forged lib key p \<and> 29 \<le> n) \<or>
    (\<exists>xs p ys. as = xs @ Video p # ys \<and> forged lib key p \<and> 29 \<le> failures lib key xs m)" (is "?l = ?r")
  proof
    assume ?l
    then obtain xs p ys where x: "a # as = xs @ Video p # ys" "forged lib key p" "29 \<le> failures lib key xs n" by blast
    show ?r
    proof (cases xs)
      case Nil
      then show ?thesis using x by simp
    next
      case (Cons b zs)
      then have "as = zs @ Video p # ys" "29 \<le> failures lib key zs m" using x n by simp_all
      then show ?thesis using x(2) by blast
    qed
  next
    assume ?r
    then show ?l
    proof (elim disjE exE conjE)
      fix p assume "a = Video p" "forged lib key p" "29 \<le> n"
      then show ?l by (intro exI [of _ "[]"] exI [of _ p] exI [of _ as]) simp
    next
      fix xs p ys assume "as = xs @ Video p # ys" "forged lib key p" "29 \<le> failures lib key xs m"
      then show ?l using n by (intro exI [of _ "a # xs"] exI [of _ p] exI [of _ ys]) simp
    qed
  qed
  then show ?case using ih s(2) n [of as] by (simp only: crypto_run.simps) blast
qed simp

text \<open>The property C36: after a successful start the error count is the number of failures, of video and audio
  together, since the last video payload that was decrypted, and the fatal flag is raised exactly by a forged
  video payload that finds at least 29 of them; decrypted audio does not end a row of failures.\<close>

theorem crypto_fatal_after_30:
  assumes "stream_crypto_init lib (Some key) c = (0, s)" "length as < 2 ^ 32"
  shows "let q = crypto_run lib as s; k = take 16 key
    in s_error_count q = of_nat (failures lib k as 0) \<and>
      (g_crypto_fatal q \<longleftrightarrow> (\<exists>xs p ys. as = xs @ Video p # ys \<and> forged lib k p \<and> 29 \<le> failures lib k xs 0))"
proof -
  have "session (take 16 key) 0 s" "\<not> g_crypto_fatal s"
    using assms(1) by (auto simp: stream_crypto_init_def session_def Let_def split: if_splits)
  then show ?thesis using run_errors [of "take 16 key" 0 s as lib] assms(2) by (simp add: session_def Let_def)
qed

text \<open>29 audio payloads that are no whole number of blocks and one forged video payload.\<close>

definition refusing :: crypto_lib where
  "refusing = \<lparr>aes_setkey_dec = (\<lambda>_. 0), gcm_setkey = (\<lambda>_. 0), gcm_auth_decrypt = (\<lambda>_ _ _ _. None),
     aes_cbc_decrypt = (\<lambda>_ _ _. None)\<rparr>"

definition ragged_audio :: "crypto_call list" where
  "ragged_audio = replicate 29 (Audio [1, 2, 3] 0 0)"

lemma ragged_failures: "failures refusing k ragged_audio 0 = 29"
proof -
  have "failures refusing k (replicate m (Audio [1, 2, 3] 0 0)) n = n + m" for m n
    by (induction m arbitrary: n) simp_all
  then show ?thesis by (simp add: ragged_audio_def)
qed

theorem crypto_fatal_after_30_witness:
  "g_crypto_fatal (crypto_run refusing (ragged_audio @ [Video (replicate 40 0)])
     (snd (stream_crypto_init refusing (Some (replicate 16 7)) stream_crypto_zero)))"
proof -
  let ?s = "snd (stream_crypto_init refusing (Some (replicate 16 7)) stream_crypto_zero)"
  have i: "stream_crypto_init refusing (Some (replicate 16 7)) stream_crypto_zero = (0, ?s)"
    by (simp add: stream_crypto_init_def refusing_def Let_def)
  have "length (ragged_audio @ [Video (replicate 40 0)]) < 2 ^ 32" by (simp add: ragged_audio_def)
  moreover have "forged refusing (take 16 (replicate 16 7)) (replicate 40 0)" by (simp add: forged_def refusing_def)
  ultimately show ?thesis using crypto_fatal_after_30 [OF i] ragged_failures unfolding Let_def
    by (metis append.assoc append_Nil2 le_refl)
qed

end
