(* ===== verification/AudioReceive.thy ===== *)
theory AudioReceive
  imports OpusDecode StreamCrypto
begin

text \<open>
  The receiving thread of the audio stream (\<open>audio_thread_func\<close> in audio_thread.c): a turn of its loop takes a packet
  from the queue of packets read ahead or from the socket, finds out which packets are missing before it, rebuilds
  or conceals them, decrypts and decodes the packet and appends the samples to the stage.

  The clock is constant during a turn, apart from the look-ahead, whose packets are \<open>re_drain\<close>. \<open>re_delays\<close> gives what
  the playback thread does while the thread waits for room in the stage, for every call in the order of the calls
  (\<open>appends\<close> counts them). Decoded frames are lists of samples, \<open>[]\<close> where the C code has no positive count. Keep-alive
  pings, telemetry, log lines and their counters are left out, and so is the stretching of the last frame, which
  a constant switches off.
\<close>

unbundle bit_operations_syntax

definition AUDIO_TIME_PLC_THRESHOLD_US :: u32 where "AUDIO_TIME_PLC_THRESHOLD_US = 80000"
definition AUDIO_TIME_PLC_MAX_CONSEC_FRAMES :: nat where "AUDIO_TIME_PLC_MAX_CONSEC_FRAMES = 6"
definition CONN_QUALITY_GOOD :: nat where "CONN_QUALITY_GOOD = 1"
definition CONN_QUALITY_FAIR :: nat where "CONN_QUALITY_FAIR = 2"

subsection \<open>State\<close>

record 'o audio_env =
  re_now_us :: u32
  re_dialog :: bool
  re_enabled :: bool
  re_encrypted :: bool
  re_key_id :: u32
  re_teardown :: bool
  re_playing :: bool
  re_sync :: bool
  re_quality :: nat
  re_recv :: "u8 list option"
  re_drain :: "(u8 list option \<times> u32) list"
  re_delays :: "nat \<Rightarrow> play_env list list"
  re_opus :: "'o opus_lib"
  re_crypto :: crypto_lib

record 'o audio_recv =
  ar_fec :: audio_fec
  ar_play :: playback
  ar_crypto :: stream_crypto
  ar_opus :: "'o opus_psp"
  appends :: nat
  last_audio_seq :: u16
  have_last_audio_seq :: bool
  last_audio_rtp_ts :: u32
  have_last_audio_rtp :: bool
  last_audio_frame_samples :: nat
  got_first_packet :: bool
  consecutive_empty :: nat
  consec_plc :: nat
  fade_in_frames :: nat
  fec_pending :: bool
  fec_between_audio :: nat
  last_audio_recv_us :: u32
  s_last_good_pcm :: "i16 list"
  s_audio_plc_total :: u32
  s_audio_fec_total :: u32
  s_audio_pkts_decoded :: u32
  frames_dropped :: u32
  s_audio_crypto_fail_count :: u32

text \<open>The state at the start of the thread; the decoder and the session key come from the set-up.\<close>

definition audio_recv_init :: "stream_crypto \<Rightarrow> 'o opus_psp \<Rightarrow> 'o audio_recv" where
  "audio_recv_init c d =
     \<lparr>ar_fec = audio_fec_zero, ar_play = playback_init (of_nat AUDIO_RING_SLOTS), ar_crypto = c, ar_opus = d, appends = 0,
      last_audio_seq = 0, have_last_audio_seq = False, last_audio_rtp_ts = 0, have_last_audio_rtp = False,
      last_audio_frame_samples = 0, got_first_packet = False, consecutive_empty = 0, consec_plc = 0,
      fade_in_frames = 0, fec_pending = False, fec_between_audio = 0, last_audio_recv_us = 0,
      s_last_good_pcm = [], s_audio_plc_total = 0, s_audio_fec_total = 0, s_audio_pkts_decoded = 0,
      frames_dropped = 0, s_audio_crypto_fail_count = 0\<rparr>"

subsection \<open>Samples\<close>

definition append_frame :: "'o audio_env \<Rightarrow> i16 list \<Rightarrow> 'o audio_recv \<Rightarrow> int \<times> 'o audio_recv" where
  "append_frame e frame s =
     (case audio_stage_append_and_flush (map (fold audio_play_step) (re_delays e (appends s))) frame (ar_play s) of
        (ret, p) \<Rightarrow> (ret, s\<lparr>ar_play := p, appends := appends s + 1\<rparr>))"

definition decode_frame :: "'o audio_env \<Rightarrow> u8 list option \<Rightarrow> nat \<Rightarrow> 'o audio_recv \<Rightarrow> i16 list \<times> 'o audio_recv" where
  "decode_frame e opus_data n s =
     (case opus_psp_decode (re_opus e) opus_data n (ar_opus s) of
        (r, d) \<Rightarrow> (case r of None \<Rightarrow> [] | Some frame \<Rightarrow> frame, s\<lparr>ar_opus := d\<rparr>))"

definition decode_fec_frame :: "'o audio_env \<Rightarrow> u8 list \<Rightarrow> nat \<Rightarrow> 'o audio_recv \<Rightarrow> i16 list \<times> 'o audio_recv" where
  "decode_fec_frame e opus_data n s =
     (case opus_psp_decode_fec (re_opus e) (Some opus_data) n (ar_opus s) of
        (r, d) \<Rightarrow> (case r of None \<Rightarrow> [] | Some frame \<Rightarrow> frame, s\<lparr>ar_opus := d\<rparr>))"

definition scale_samples :: "int \<Rightarrow> i16 list \<Rightarrow> i16 list" where
  "scale_samples scale frame = map (\<lambda>x. word_of_int (sint x * scale div 32768)) frame"

definition decrypt_payload :: "'o audio_env \<Rightarrow> u8 list \<Rightarrow> u16 \<Rightarrow> 'o audio_recv \<Rightarrow> u8 list option \<times> 'o audio_recv" where
  "decrypt_payload e payload sq s =
     (case stream_crypto_decrypt_audio (re_crypto e) payload sq (re_key_id e) (ar_crypto s) of
        (r, c) \<Rightarrow> (r, s\<lparr>ar_crypto := c\<rparr>))"

definition strip_padding :: "u8 list \<Rightarrow> u8 list" where
  "strip_padding d =
     (if d = [] then d
      else
        let pad_val = unat (last d)
        in if pad_val \<ge> 1 \<and> pad_val \<le> 16 \<and> pad_val \<le> length d then take (length d - pad_val) d else d)"

subsection \<open>No packet\<close>

definition plc_threshold :: "nat \<Rightarrow> int \<Rightarrow> u32" where
  "plc_threshold quality duration_ms =
     (let t = (if quality \<le> CONN_QUALITY_GOOD then 35000 else if quality = CONN_QUALITY_FAIR then 45000 else 60000);
          t = (if t < AUDIO_TIME_PLC_THRESHOLD_US then AUDIO_TIME_PLC_THRESHOLD_US else t);
          packet_us = word_of_int duration_ms * 1000 :: u32;
          jitter_floor_us = packet_us * 3
      in if packet_us \<ge> 5000 \<and> packet_us \<le> 60000 \<and> t < jitter_floor_us then jitter_floor_us else t)"

definition plc_frame_us :: "nat \<Rightarrow> u32" where
  "plc_frame_us n =
     (let frame_us = of_nat (n * 1000000 div AUDIO_SAMPLE_RATE)
      in if frame_us < 5000 \<or> frame_us > 70000 then 10000 else frame_us)"

text \<open>Concealment of a silent network while the ring runs low.\<close>

definition inject_plc :: "'o audio_env \<Rightarrow> u32 \<Rightarrow> 'o audio_recv \<Rightarrow> 'o audio_recv" where
  "inject_plc e gap_us s =
     (case decode_frame e None (opus_psp_last_frame_size (ar_opus s)) s of
        (frame, s) \<Rightarrow>
          if frame = [] then s
          else
            let s = s\<lparr>s_audio_plc_total := s_audio_plc_total s + 1, consec_plc := consec_plc s + 1\<rparr>;
                scale = (if consec_plc s \<le> 1 then 28672 else if consec_plc s \<le> 2 then 22528 else 16384);
                s = snd (append_frame e (scale_samples scale frame) s);
                frame_us = plc_frame_us (length frame)
            in s\<lparr>last_audio_recv_us := (if frame_us \<ge> gap_us then re_now_us e else last_audio_recv_us s + frame_us)\<rparr>)"

definition time_plc :: "'o audio_env \<Rightarrow> 'o audio_recv \<Rightarrow> 'o audio_recv" where
  "time_plc e s =
     (if a_packet_duration_ms (ar_fec s) < 40 \<and> re_playing e \<and> have_last_audio_seq s
         \<and> last_audio_recv_us s \<noteq> 0 \<and> \<not> ring_full (ar_play s) then
        let gap_us = re_now_us e - last_audio_recv_us s;
            queued = head (ar_play s) - tail (ar_play s);
            threshold = plc_threshold (re_quality e) (a_packet_duration_ms (ar_fec s));
            s = s\<lparr>ar_play := (ar_play s)\<lparr>s_effective_ring_depth := of_nat AUDIO_RING_SLOTS\<rparr>\<rparr>
        in if queued \<le> of_nat AUDIO_PLC_LOW_WATER_CHUNKS \<and> consec_plc s < AUDIO_TIME_PLC_MAX_CONSEC_FRAMES
              \<and> gap_us \<ge> threshold
           then inject_plc e gap_us s else s
      else s)"

definition empty_poll_delay :: "bool \<Rightarrow> bool \<Rightarrow> int \<Rightarrow> nat \<Rightarrow> nat" where
  "empty_poll_delay enabled first duration_ms empties =
     (if \<not> enabled then 5000
      else if first \<and> duration_ms \<ge> 40 then (if empties < 3 then 1000 else if empties < 10 then 2000 else 4000)
      else if empties < 5 then 500
      else if empties < 20 then 1000 else 2000)"

text \<open>The second result is the delay.\<close>

definition no_packet :: "'o audio_env \<Rightarrow> 'o audio_recv \<Rightarrow> nat \<times> 'o audio_recv" where
  "no_packet e s =
     (let s = time_plc e s; s = s\<lparr>consecutive_empty := consecutive_empty s + 1\<rparr>
      in (empty_poll_delay (re_enabled e) (got_first_packet s) (a_packet_duration_ms (ar_fec s)) (consecutive_empty s), s))"

subsection \<open>The timestamp clock\<close>

definition clock_target :: u32 where
  "clock_target = of_nat (AUDIO_DRIFT_TARGET_CHUNKS * AUDIO_CHUNK_SAMPLES)"

definition timestamp_scale :: "int \<Rightarrow> u32 \<Rightarrow> u32" where
  "timestamp_scale duration_ms ts_step =
     (let packet_ms = word_of_int duration_ms :: u32;
          expected_samples = of_nat (unat packet_ms * AUDIO_SAMPLE_RATE div 1000) :: u32
      in if packet_ms \<ge> 5 \<and> packet_ms \<le> 60 \<and> ts_step \<ge> packet_ms div 2 \<and> ts_step \<le> packet_ms * 4
         then of_nat (AUDIO_SAMPLE_RATE div 1000)
         else if expected_samples \<ge> 120 \<and> ts_step \<ge> expected_samples div 2 \<and> ts_step \<le> expected_samples * 4
         then 1 else 0)"

text \<open>\<open>prev\<close> is the timestamp of the last data packet, if there was one.\<close>

definition update_clock :: "bool \<Rightarrow> bool \<Rightarrow> int \<Rightarrow> u32 option \<Rightarrow> u32 \<Rightarrow> playback \<Rightarrow> playback" where
  "update_clock locked resumed_after_idle duration_ms prev rtp_ts p =
     (if \<not> locked then p
      else if \<not> s_rtp_anchor_valid p then
        p\<lparr>s_rtp_anchor_ts := rtp_ts, s_rtp_elapsed_offset_samples := clock_target,
          s_rtp_elapsed_samples := clock_target, s_audio_timeline_samples := 0, s_rtp_anchor_valid := True\<rparr>
      else if resumed_after_idle \<and> s_rtp_timestamp_scale p \<noteq> 0 then
        let offset = s_audio_timeline_samples p + clock_target
        in p\<lparr>s_rtp_anchor_ts := rtp_ts, s_rtp_elapsed_offset_samples := offset, s_rtp_elapsed_samples := offset\<rparr>
      else
        let ts_step = (case prev of None \<Rightarrow> 0 | Some l \<Rightarrow> rtp_ts - l);
            p = (if s_rtp_timestamp_scale p = 0 \<and> ts_step \<noteq> 0
                 then p\<lparr>s_rtp_timestamp_scale := timestamp_scale duration_ms ts_step\<rparr> else p)
        in if s_rtp_timestamp_scale p \<noteq> 0
           then p\<lparr>s_rtp_elapsed_samples := s_rtp_elapsed_offset_samples p
                    + (rtp_ts - s_rtp_anchor_ts p) * s_rtp_timestamp_scale p\<rparr>
           else p)"

subsection \<open>Missing packets\<close>

definition expected_frame :: "nat \<Rightarrow> nat \<Rightarrow> int \<Rightarrow> nat" where
  "expected_frame last_samples opus_samples duration_ms =
     (let bad = (\<lambda>n. n < 120 \<or> n > AUDIO_MAX_FRAME_SAMPLES);
          expected_ts = (if duration_ms < 5 \<or> duration_ms > 60 then 10 else duration_ms)
      in if \<not> bad last_samples then last_samples
         else if \<not> bad opus_samples then opus_samples
         else AUDIO_SAMPLE_RATE * nat expected_ts div 1000)"

definition media_gap :: "u16 \<Rightarrow> u16 \<Rightarrow> nat \<Rightarrow> int" where
  "media_gap sq last_sq fec_between =
     (let total_gap = int (unat (sq - last_sq)) - 1; gap = total_gap - int fec_between
      in if gap < 0 then 0 else gap)"

definition frames_missing :: "u32 \<Rightarrow> nat \<Rightarrow> int" where
  "frames_missing ts_delta_samples expected_samples =
     (if expected_samples > 0 \<and> ts_delta_samples > of_nat (expected_samples + expected_samples div 2)
      then sint ((ts_delta_samples + of_nat (expected_samples div 2)) div of_nat expected_samples) - 1
      else 0)"

definition audio_gap :: "u16 \<Rightarrow> u32 \<Rightarrow> 'o audio_recv \<Rightarrow> int" where
  "audio_gap sq rtp_ts s =
     (let ts_delta = rtp_ts - last_audio_rtp_ts s;
          ts_delta_samples = (if s_rtp_timestamp_scale (ar_play s) \<noteq> 0
                              then ts_delta * s_rtp_timestamp_scale (ar_play s) else 0);
          gap = frames_missing ts_delta_samples
                  (expected_frame (last_audio_frame_samples s) (opus_psp_last_frame_size (ar_opus s))
                     (a_packet_duration_ms (ar_fec s)));
          limit = media_gap sq (last_audio_seq s) (fec_between_audio s)
      in if gap > limit then limit else gap)"

text \<open>Rebuilding one missing packet; \<open>False\<close> ends the loop.\<close>

definition play_recovered :: "'o audio_env \<Rightarrow> u8 list \<Rightarrow> 'o audio_recv \<Rightarrow> bool \<times> 'o audio_recv" where
  "play_recovered e opus_data s =
     (if opus_data = [] then (False, s)
      else (case decode_frame e (Some opus_data) AUDIO_MAX_FRAME_SAMPLES s of
        (frame, s) \<Rightarrow>
          if frame = [] then (False, s)
          else (case append_frame e frame (s\<lparr>s_last_good_pcm := frame, last_audio_frame_samples := length frame\<rparr>) of
            (ret, s) \<Rightarrow>
              if ret < -1 then (False, s\<lparr>frames_dropped := frames_dropped s + 1\<rparr>)
              else (True, s\<lparr>s_audio_fec_total := s_audio_fec_total s + 1,
                            s_audio_pkts_decoded := s_audio_pkts_decoded s + 1\<rparr>))))"

definition recover_one :: "'o audio_env \<Rightarrow> u16 \<Rightarrow> 'o audio_recv \<Rightarrow> bool \<times> 'o audio_recv" where
  "recover_one e missing_seq s =
     (case audio_rtp_fec_recover_payload missing_seq (ar_fec s) of
        (None, a) \<Rightarrow> (False, s\<lparr>ar_fec := a\<rparr>)
      | (Some payload, a) \<Rightarrow>
          let s = s\<lparr>ar_fec := a\<rparr> in
          if \<not> re_encrypted e then play_recovered e payload s
          else if length payload mod 16 \<noteq> 0 then (False, s)
          else (case decrypt_payload e payload missing_seq s of
              (None, s) \<Rightarrow> (False, s)
            | (Some plain, s) \<Rightarrow> play_recovered e (strip_padding plain) s))"

fun recover_gap :: "'o audio_env \<Rightarrow> u16 \<Rightarrow> nat \<Rightarrow> 'o audio_recv \<Rightarrow> nat \<times> 'o audio_recv" where
  "recover_gap e missing_seq 0 s = (0, s)"
| "recover_gap e missing_seq (Suc n) s =
     (case recover_one e missing_seq s of
        (False, s) \<Rightarrow> (0, s)
      | (True, s) \<Rightarrow> (case recover_gap e (missing_seq + 1) n s of (k, s) \<Rightarrow> (k + 1, s)))"

definition conceal_frame :: "'o audio_env \<Rightarrow> 'o audio_recv \<Rightarrow> 'o audio_recv" where
  "conceal_frame e s =
     (case decode_frame e None AUDIO_MAX_FRAME_SAMPLES s of
        (frame, s) \<Rightarrow>
          if frame = [] then s
          else snd (append_frame e frame (s\<lparr>s_audio_plc_total := s_audio_plc_total s + 1\<rparr>)))"

definition look_ahead :: "'o audio_env \<Rightarrow> 'o audio_recv \<Rightarrow> nat \<times> 'o audio_recv" where
  "look_ahead e s =
     (case audio_reorder_drain_for_fec (re_now_us e) (re_drain e) 0 (ar_fec s) of
        (_, seen, a) \<Rightarrow> (seen, s\<lparr>ar_fec := a\<rparr>))"

text \<open>The first result counts the packets without data read ahead.\<close>

definition handle_gap :: "'o audio_env \<Rightarrow> u16 \<Rightarrow> u32 \<Rightarrow> 'o audio_recv \<Rightarrow> nat \<times> 'o audio_recv" where
  "handle_gap e sq rtp_ts s =
     (let gap = audio_gap sq rtp_ts s; limit = media_gap sq (last_audio_seq s) (fec_between_audio s) in
      if \<not> (have_last_audio_seq s \<and> have_last_audio_rtp s) \<or> re_teardown e \<or> \<not> (gap > 0 \<and> limit > 0) then (0, s)
      else
        (case (if gap \<le> int AUDIO_RTP_FEC_PARITY_SHARDS then look_ahead e s else (0, s)) of
           (seen, s) \<Rightarrow>
             (case recover_gap e (sq - word_of_int limit) (nat gap) s of
                (recovered, s) \<Rightarrow>
                  let left = nat gap - recovered
                  in if left > 0 \<and> left \<le> 10
                     then (seen, ((conceal_frame e ^^ (left - 1)) s)\<lparr>fec_pending := True\<rparr>)
                     else (seen, s))))"

subsection \<open>One packet\<close>

definition crypto_failed :: "'o audio_env \<Rightarrow> 'o audio_recv \<Rightarrow> 'o audio_recv" where
  "crypto_failed e s =
     (let n = s_audio_crypto_fail_count s + 1 in s\<lparr>s_audio_crypto_fail_count := (if n \<ge> 100 then 0 else n)\<rparr>)"

definition drop_frame :: "'o audio_recv \<Rightarrow> 'o audio_recv" where
  "drop_frame s = s\<lparr>frames_dropped := frames_dropped s + 1\<rparr>"

definition fade_in :: "nat \<Rightarrow> i16 list \<Rightarrow> i16 list" where
  "fade_in n frame =
     (if n = 0 then frame
      else scale_samples (if n = 3 then 24576 else if n = 2 then 28672 else if n = 1 then 30720 else 32767) frame)"

text \<open>From the label \<open>check_decoded\<close> on.\<close>

definition play_decoded :: "'o audio_env \<Rightarrow> i16 list \<Rightarrow> 'o audio_recv \<Rightarrow> 'o audio_recv" where
  "play_decoded e frame s =
     (if frame = [] then drop_frame s
      else
        let s = s\<lparr>s_audio_pkts_decoded := s_audio_pkts_decoded s + 1\<rparr>;
            s = (if length frame \<le> AUDIO_MAX_FRAME_SAMPLES then s\<lparr>last_audio_frame_samples := length frame\<rparr> else s);
            frame = fade_in (fade_in_frames s) frame;
            s = s\<lparr>fade_in_frames := fade_in_frames s - 1\<rparr>
        in (case append_frame e frame s of (ret, s) \<Rightarrow> if ret < -1 then drop_frame s else s))"

text \<open>The copy of the lost frame that the packet carries.\<close>

definition recover_in_band :: "'o audio_env \<Rightarrow> u8 list \<Rightarrow> 'o audio_recv \<Rightarrow> 'o audio_recv" where
  "recover_in_band e opus_data s =
     (if \<not> fec_pending s then s
      else
        (case decode_fec_frame e opus_data (opus_psp_last_frame_size (ar_opus s)) s of
           (frame, s) \<Rightarrow>
             let s = (if frame \<noteq> []
                      then snd (append_frame e frame (s\<lparr>s_audio_fec_total := s_audio_fec_total s + 1\<rparr>))
                      else conceal_frame e s)
             in s\<lparr>fec_pending := False\<rparr>))"

definition decode_packet :: "'o audio_env \<Rightarrow> u8 list \<Rightarrow> 'o audio_recv \<Rightarrow> 'o audio_recv" where
  "decode_packet e opus_data s =
     (if opus_data = [] then drop_frame s
      else
        (case decode_frame e (Some opus_data) AUDIO_MAX_FRAME_SAMPLES (recover_in_band e opus_data s) of
           (frame, s) \<Rightarrow>
             if frame \<noteq> [] then
               play_decoded e frame
                 (if length frame \<le> AUDIO_MAX_FRAME_SAMPLES then s\<lparr>s_last_good_pcm := frame\<rparr> else s)
             else
               (case decode_frame e None (opus_psp_last_frame_size (ar_opus s)) s of
                  (frame, s) \<Rightarrow> play_decoded e frame (s\<lparr>s_audio_plc_total := s_audio_plc_total s + 1\<rparr>))))"

definition play_payload :: "'o audio_env \<Rightarrow> u8 list \<Rightarrow> u16 \<Rightarrow> 'o audio_recv \<Rightarrow> 'o audio_recv" where
  "play_payload e enc sq s =
     (if enc = [] then drop_frame s
      else if \<not> re_encrypted e then decode_packet e enc s
      else if length enc mod 16 \<noteq> 0 then drop_frame s
      else (case decrypt_payload e enc sq s of
          (None, s) \<Rightarrow>
            (case decode_frame e None (opus_psp_last_frame_size (ar_opus s)) (crypto_failed e s) of
               (frame, s) \<Rightarrow>
                 play_decoded e frame
                   (drop_frame (s\<lparr>s_audio_plc_total := s_audio_plc_total s + 1, fec_pending := False\<rparr>)))
        | (Some plain, s) \<Rightarrow> decode_packet e (strip_padding plain) (s\<lparr>s_audio_crypto_fail_count := 0\<rparr>)))"

text \<open>Offset of the payload and length without padding; here an offset behind the end is let through.\<close>

definition parse_audio_packet :: "u8 list \<Rightarrow> (nat \<times> nat) option" where
  "parse_audio_packet p =
     (let n = length p in
      if n \<le> RTP_HDR_SIZE \<or> drop_bit 6 (p ! 0) \<noteq> 2 then None
      else
        let off = RTP_HDR_SIZE + unat (p ! 0 AND 0x0F) * 4 in
        if p ! 0 AND 0x10 \<noteq> 0 \<and> n < off + 4 then None
        else
          let off = (if p ! 0 AND 0x10 \<noteq> 0 then off + 4 + unat (read_be16 p (off + 2)) * 4 else off);
              pad = unat (p ! (n - 1))
          in if p ! 0 AND 0x20 \<noteq> 0 \<and> n > off \<and> pad > 0 \<and> pad \<le> n - off then Some (off, n - pad) else Some (off, n))"

definition data_packet :: "'o audio_env \<Rightarrow> bool \<Rightarrow> u8 list \<Rightarrow> u8 list \<Rightarrow> 'o audio_recv \<Rightarrow> 'o audio_recv" where
  "data_packet e from_pending p payload s =
     (let previous = a_last_data_us (ar_fec s);
          resumed_after_idle = (previous \<noteq> 0 \<and> re_now_us e - previous \<ge> AUDIO_SOURCE_IDLE_US);
          a = (ar_fec s)\<lparr>a_last_data_us := re_now_us e\<rparr>;
          a = (if from_pending then a else audio_rtp_fec_cache_data p payload (re_now_us e) a);
          sq = read_be16 p 2; rtp_ts = read_be32 p 4;
          prev = (if have_last_audio_rtp s then Some (last_audio_rtp_ts s) else None);
          s = s\<lparr>ar_fec := a, ar_play := update_clock (re_sync e) resumed_after_idle (a_packet_duration_ms a) prev rtp_ts (ar_play s)\<rparr>
      in (case handle_gap e sq rtp_ts s of
            (seen, s) \<Rightarrow>
              play_payload e payload sq
                (s\<lparr>last_audio_seq := sq, have_last_audio_seq := True, last_audio_rtp_ts := rtp_ts, have_last_audio_rtp := True,
                   fec_between_audio := seen, last_audio_recv_us := re_now_us e\<rparr>)))"

definition other_packet :: "'o audio_env \<Rightarrow> bool \<Rightarrow> u8 \<Rightarrow> u8 list \<Rightarrow> 'o audio_recv \<Rightarrow> 'o audio_recv" where
  "other_packet e from_pending pt payload s =
     (let s = (if pt = RTP_PT_AUDIO_FEC \<and> \<not> from_pending
               then s\<lparr>ar_fec := audio_rtp_fec_cache_parity payload (re_now_us e) (ar_fec s)\<rparr> else s)
      in s\<lparr>fec_between_audio := fec_between_audio s + 1\<rparr>)"

definition audio_packet :: "'o audio_env \<Rightarrow> bool \<Rightarrow> u8 list \<Rightarrow> 'o audio_recv \<Rightarrow> 'o audio_recv" where
  "audio_packet e from_pending p s =
     (let s = s\<lparr>consecutive_empty := 0, fade_in_frames := (if consec_plc s > 0 then 3 else fade_in_frames s),
                consec_plc := 0, got_first_packet := True\<rparr>;
          s = (if from_pending then s else s\<lparr>ar_fec := (ar_fec s)\<lparr>a_pkts_received := a_pkts_received (ar_fec s) + 1\<rparr>\<rparr>)
      in if \<not> re_enabled e then s
         else case parse_audio_packet p of
             None \<Rightarrow> s
           | Some (off, n) \<Rightarrow>
               let pt = p ! 1 AND 0x7F; payload = drop off (take n p)
               in if pt = RTP_PT_AUDIO_OPUS then data_packet e from_pending p payload s
                  else other_packet e from_pending pt payload s)"

definition audio_loop_turn :: "'o audio_env \<Rightarrow> 'o audio_recv \<Rightarrow> 'o audio_recv" where
  "audio_loop_turn e s =
     (case (if s_pcm_stage_count (ar_play s) \<ge> AUDIO_CHUNK_SAMPLES then audio_flush_stage_to_ring (ar_play s)
            else (True, ar_play s)) of
        (False, p) \<Rightarrow> s\<lparr>ar_play := p\<rparr>
      | (True, p) \<Rightarrow>
          let s = s\<lparr>ar_play := p\<rparr> in
          if re_dialog e then s
          else (case audio_pending_pop (ar_fec s) of
              (Some pkt, a) \<Rightarrow> audio_packet e True pkt (s\<lparr>ar_fec := a\<rparr>)
            | (None, a) \<Rightarrow>
                let s = s\<lparr>ar_fec := a\<rparr> in
                case re_recv e of
                  Some (b # bs) \<Rightarrow> audio_packet e False (b # bs) s
                | _ \<Rightarrow> snd (no_packet e s)))"

end
