(* ===== verification/AudioPlaybackCorrect.thy ===== *)
theory AudioPlaybackCorrect
  imports AudioReceive "HOL-Library.Sublist"
begin

text \<open>
  The playback path keeps the order of the sound: whatever the two threads do and however they interleave, the
  samples that were accepted leave the ring in order, and what is played as new is a selection of the chunks
  taken from it; the content clock counts these chunks. Repeated chunks are never louder than the original.
\<close>

lemmas audio_play_sizes = AUDIO_CHUNK_SAMPLES_def AUDIO_RING_SLOTS_def AUDIO_STAGE_CAPACITY_def AUDIO_MAX_FRAME_SAMPLES_def

subsection \<open>What is in the ring and the stage\<close>

definition chunks :: "playback \<Rightarrow> i16 list list" where
  "chunks p = map (\<lambda>i. pcm p ! (i mod AUDIO_RING_SLOTS)) [unat (tail p)..<unat (head p)]"

definition staged :: "playback \<Rightarrow> i16 list" where
  "staged p = take (s_pcm_stage_count p) (s_pcm_stage p)"

definition samples_waiting :: "playback \<Rightarrow> i16 list" where
  "samples_waiting p = concat (chunks p) @ staged p"

definition produced :: "playback \<Rightarrow> nat" where
  "produced p = unat (head p) * AUDIO_CHUNK_SAMPLES + s_pcm_stage_count p"

definition playback_ok :: "playback \<Rightarrow> bool" where
  "playback_ok p \<longleftrightarrow> length (pcm p) = AUDIO_RING_SLOTS \<and> (\<forall>c\<in>set (pcm p). length c = AUDIO_CHUNK_SAMPLES)
     \<and> unat (s_effective_ring_depth p) \<le> AUDIO_RING_SLOTS
     \<and> unat (tail p) \<le> unat (head p) \<and> unat (head p) - unat (tail p) \<le> AUDIO_RING_SLOTS
     \<and> length (s_pcm_stage p) = AUDIO_STAGE_CAPACITY \<and> s_pcm_stage_count p \<le> AUDIO_STAGE_CAPACITY"

definition play_limit :: nat where
  "play_limit = 2 ^ 32 * AUDIO_CHUNK_SAMPLES"

lemma depth_unat: "unat (tail p) \<le> unat (head p) \<Longrightarrow> unat (head p - tail p) = unat (head p) - unat (tail p)"
  by (simp add: unat_sub word_le_nat_alt)

lemma playback_init_ok: "unat d \<le> AUDIO_RING_SLOTS \<Longrightarrow> playback_ok (playback_init d)"
  by (simp add: playback_ok_def playback_init_def silent_chunk_def)

lemma playback_init_empty [simp]: "samples_waiting (playback_init d) = []" "produced (playback_init d) = 0"
  by (simp_all add: samples_waiting_def chunks_def staged_def playback_init_def produced_def)

lemma unat_next: "unat c + 1 < 2 ^ 32 \<Longrightarrow> unat (c + 1) = unat c + 1" for c :: u32
  by (simp add: unat_word_ariths)

lemma head_room: "produced p < play_limit \<Longrightarrow> AUDIO_CHUNK_SAMPLES \<le> s_pcm_stage_count p \<Longrightarrow> unat (head p + 1) = unat (head p) + 1"
  by (rule unat_next) (simp add: produced_def play_limit_def audio_play_sizes)

lemma mod_distinct: "i < h \<Longrightarrow> h < i + n \<Longrightarrow> i mod n \<noteq> h mod n" for n :: nat
  by (auto simp: mod_eq_dvd_iff_nat dest!: sym [of "i mod n"] dvd_imp_le)

lemma push_ok:
  assumes "playback_ok p" "unat (head p + 1) = unat (head p) + 1" "AUDIO_CHUNK_SAMPLES \<le> length src"
    and "ring_push_pcm src p = (True, q)"
  shows "playback_ok q" "chunks q = chunks p @ [take AUDIO_CHUNK_SAMPLES src]"
    "q = p\<lparr>pcm := pcm q, head := head p + 1\<rparr>"
proof -
  let ?n = AUDIO_RING_SLOTS and ?h = "unat (head p)" and ?t = "unat (tail p)"
  have q: "q = p\<lparr>pcm := (pcm p)[ring_slot (head p) := take AUDIO_CHUNK_SAMPLES src], head := head p + 1\<rparr>"
    and room: "?h - ?t < ?n"
    using assms by (auto simp: ring_push_pcm_def ring_full_def playback_ok_def word_le_nat_alt depth_unat split: if_splits)
  have le: "?t \<le> ?h" "length (pcm p) = ?n" "0 < ?n" using assms(1) by (auto simp: playback_ok_def audio_play_sizes)
  then show "playback_ok q" using assms room unfolding q
    by (auto simp: playback_ok_def dest!: set_update_subset_insert [THEN subsetD])
  have ne: "?h mod ?n \<noteq> i mod ?n" if "i \<in> {?t..<?h}" for i
  proof -
    have "i < ?h" "?h < i + ?n" using that room by auto
    then show ?thesis using mod_distinct [of i ?h ?n] by metis
  qed
  have "map (\<lambda>i. (pcm p)[?h mod ?n := take AUDIO_CHUNK_SAMPLES src] ! (i mod ?n)) [?t..<?h]
      = map (\<lambda>i. pcm p ! (i mod ?n)) [?t..<?h]" using ne by (intro map_cong refl nth_list_update_neq) (metis set_upt)
  then show "chunks q = chunks p @ [take AUDIO_CHUNK_SAMPLES src]"
    using assms(2) le unfolding q by (simp add: chunks_def ring_slot_def)
  show "q = p\<lparr>pcm := pcm q, head := head p + 1\<rparr>" unfolding q by simp
qed

lemma pop_ok:
  assumes "playback_ok p" "ring_pop_pcm p = (r, q)"
  shows "playback_ok q" "q = p\<lparr>tail := tail q\<rparr>"
    "case r of None \<Rightarrow> q = p \<and> chunks p = [] | Some c \<Rightarrow> chunks p = c # chunks q \<and> length c = AUDIO_CHUNK_SAMPLES"
proof -
  have le: "unat (tail p) \<le> unat (head p)" using assms(1) by (simp add: playback_ok_def)
  have "playback_ok q \<and> q = p\<lparr>tail := tail q\<rparr> \<and>
    (case r of None \<Rightarrow> q = p \<and> chunks p = [] | Some c \<Rightarrow> chunks p = c # chunks q \<and> length c = AUDIO_CHUNK_SAMPLES)"
  proof (cases "head p = tail p")
    case True
    then show ?thesis using assms by (auto simp: ring_pop_pcm_def ring_empty_def chunks_def)
  next
    case False
    then have lt: "unat (tail p) < unat (head p)" using le by (metis le_neq_implies_less word_unat_eq_iff)
    moreover have "unat (head p) < 2 ^ 32" using unsigned_less [of "head p"] by simp
    ultimately have t: "unat (tail p + 1) = unat (tail p) + 1" by (intro unat_next) linarith
    have "pcm p ! (unat (tail p) mod AUDIO_RING_SLOTS) \<in> set (pcm p)"
      using assms(1) by (intro nth_mem) (simp add: playback_ok_def AUDIO_RING_SLOTS_def)
    then show ?thesis using assms False lt
      by (auto simp: ring_pop_pcm_def ring_empty_def chunks_def ring_slot_def playback_ok_def t upt_conv_Cons)
  qed
  then show "playback_ok q" "q = p\<lparr>tail := tail q\<rparr>"
    "case r of None \<Rightarrow> q = p \<and> chunks p = [] | Some c \<Rightarrow> chunks p = c # chunks q \<and> length c = AUDIO_CHUNK_SAMPLES"
    by blast+
qed

subsection \<open>The receiving side\<close>

text \<open>What a call of the receiving side leaves alone.\<close>

definition rest :: "playback \<Rightarrow> playback" where
  "rest p = p\<lparr>head := 0, pcm := [], s_pcm_stage := [], s_pcm_stage_count := 0\<rparr>"

lemma rest_same:
  assumes "rest q = rest p"
  shows "tail q = tail p" "played q = played p" "s_audio_timeline_samples q = s_audio_timeline_samples p"
    "drift_drop_count q = drift_drop_count p" "s_rtp_anchor_valid q = s_rtp_anchor_valid p"
    "s_effective_ring_depth q = s_effective_ring_depth p" "s_rtp_timestamp_scale q = s_rtp_timestamp_scale p"
  using arg_cong [OF assms, of s_effective_ring_depth] arg_cong [OF assms, of s_rtp_timestamp_scale]
    arg_cong [OF assms, of s_rtp_anchor_valid] arg_cong [OF assms, of tail] arg_cong [OF assms, of played] arg_cong [OF assms, of s_audio_timeline_samples]
    arg_cong [OF assms, of drift_drop_count] by (simp_all add: rest_def)

lemma flush_step:
  assumes "playback_ok p" "produced p < play_limit" "AUDIO_CHUNK_SAMPLES \<le> s_pcm_stage_count p"
    and push: "ring_push_pcm (s_pcm_stage p) p = (True, r)" and n: "n = s_pcm_stage_count p - AUDIO_CHUNK_SAMPLES"
    and q: "q = r\<lparr>s_pcm_stage := take n (drop AUDIO_CHUNK_SAMPLES (s_pcm_stage r)) @ drop n (s_pcm_stage r),
                   s_pcm_stage_count := n\<rparr>"
  shows "playback_ok q" "samples_waiting q = samples_waiting p" "produced q = produced p" "rest q = rest p"
proof -
  let ?c = AUDIO_CHUNK_SAMPLES
  have len: "?c \<le> length (s_pcm_stage p)" "length (s_pcm_stage p) = AUDIO_STAGE_CAPACITY" "s_pcm_stage_count p \<le> AUDIO_STAGE_CAPACITY"
    using assms(1,3) by (auto simp: playback_ok_def)
  note h = head_room [OF assms(2,3)]
  note r = push_ok [OF assms(1) h len(1) push]
  have fields: "s_pcm_stage r = s_pcm_stage p" "head r = head p + 1" "tail r = tail p" by (subst r(3), simp)+
  have st: "s_pcm_stage q = take n (drop ?c (s_pcm_stage p)) @ drop n (s_pcm_stage p)" "s_pcm_stage_count q = n"
    "head q = head p + 1" "tail q = tail r" "pcm q = pcm r" "s_effective_ring_depth q = s_effective_ring_depth r"
    unfolding q by (simp_all add: fields)
  have n': "n + ?c = s_pcm_stage_count p" using n assms(3) by simp
  show "playback_ok q" using r(1) len n' by (auto simp: playback_ok_def st fields)
  have "chunks q = chunks p @ [take ?c (s_pcm_stage p)]" using r(2) by (simp add: chunks_def st fields)
  moreover have "take ?c (s_pcm_stage p) @ staged q = staged p"
    using len n' by (simp add: staged_def st) (metis add.commute take_add)
  ultimately show "samples_waiting q = samples_waiting p" by (simp add: samples_waiting_def)
  show "produced q = produced p" using n' h by (simp add: produced_def st add_mult_distrib)
  show "rest q = rest p" unfolding q by (subst r(3)) (simp add: rest_def)
qed

lemma flush_ok:
  "playback_ok p \<Longrightarrow> produced p < play_limit \<Longrightarrow> audio_flush_stage_to_ring p = (b, q) \<Longrightarrow>
   playback_ok q \<and> samples_waiting q = samples_waiting p \<and> produced q = produced p \<and> rest q = rest p"
proof (induction p rule: audio_flush_stage_to_ring.induct)
  case (1 p)
  show ?case
  proof (cases "s_pcm_stage_count p < AUDIO_CHUNK_SAMPLES")
    case True
    then show ?thesis using 1(2-4) by (simp add: audio_flush_stage_to_ring.simps [of p])
  next
    case False
    obtain ok r where push: "ring_push_pcm (s_pcm_stage p) p = (ok, r)" by fastforce
    show ?thesis
    proof (cases ok)
      case True
      define n where "n = s_pcm_stage_count r - AUDIO_CHUNK_SAMPLES"
      define p1 where "p1 = r\<lparr>s_pcm_stage := take n (drop AUDIO_CHUNK_SAMPLES (s_pcm_stage r)) @ drop n (s_pcm_stage r),
                   s_pcm_stage_count := n\<rparr>"
      have n: "n = s_pcm_stage_count p - AUDIO_CHUNK_SAMPLES"
        using push True by (auto simp: n_def ring_push_pcm_def split: if_splits)
      have c: "AUDIO_CHUNK_SAMPLES \<le> s_pcm_stage_count p" using False by simp
      have push: "ring_push_pcm (s_pcm_stage p) p = (True, r)" using push True by simp
      note s = flush_step [OF 1(2,3) c push n p1_def]
      have q: "audio_flush_stage_to_ring p1 = (b, q)"
        using 1(4) False push
        by (subst (asm) audio_flush_stage_to_ring.simps) (simp add: p1_def n_def Let_def)
      have "playback_ok q \<and> samples_waiting q = samples_waiting p1 \<and> produced q = produced p1 \<and> rest q = rest p1"
        using "1.IH" [OF False push [symmetric] refl n_def] s q 1(3) unfolding p1_def by simp
      then show ?thesis using s by simp
    next
      case f: False
      have "r = p" using push f by (auto simp: ring_push_pcm_def split: if_splits)
      then have "q = p" using 1(4) False push f by (subst (asm) audio_flush_stage_to_ring.simps) simp
      then show ?thesis using 1(2) by simp
    qed
  qed
qed

subsection \<open>Runs\<close>

definition new_chunks :: "(i16 list \<times> nat) list \<Rightarrow> i16 list list" where
  "new_chunks outs = map fst (filter (\<lambda>(_, kind). kind = 1) outs)"

lemma new_chunks_simps [simp]: "new_chunks [] = []" "new_chunks (xs @ ys) = new_chunks xs @ new_chunks ys"
    "new_chunks ((c, k) # xs) = (if k = 1 then c # new_chunks xs else new_chunks xs)"
  by (simp_all add: new_chunks_def)

text \<open>From \<open>p\<close> to \<open>q\<close> the samples \<open>acc\<close> were accepted. \<open>clean\<close> says that the clock could always be locked and no
  dialog was shown.\<close>

definition heard :: "bool \<Rightarrow> playback \<Rightarrow> i16 list \<Rightarrow> playback \<Rightarrow> bool" where
  "heard clean p acc q \<longleftrightarrow> playback_ok q \<and> produced q = produced p + length acc \<and>
     (s_rtp_anchor_valid p \<longrightarrow> s_rtp_anchor_valid q) \<and>
     (s_effective_ring_depth p = of_nat AUDIO_RING_SLOTS \<longrightarrow> s_effective_ring_depth q = of_nat AUDIO_RING_SLOTS) \<and>
     (\<exists>taken outs. samples_waiting p @ acc = concat taken @ samples_waiting q \<and> played q = played p @ outs \<and>
        subseq (new_chunks outs) (map stereo taken) \<and>
        (clean \<longrightarrow> drift_drop_count q + length (new_chunks outs) = drift_drop_count p + length taken) \<and>
        (clean \<and> s_rtp_anchor_valid p = s_rtp_anchor_valid q \<longrightarrow>
           s_audio_timeline_samples q = s_audio_timeline_samples p + of_nat (AUDIO_CHUNK_SAMPLES * length taken)))"

lemma heardI:
  assumes "playback_ok q" "produced q = produced p + length acc"
    "samples_waiting p @ acc = concat taken @ samples_waiting q" "played q = played p @ outs"
    "subseq (new_chunks outs) (map stereo taken)"
    "clean \<Longrightarrow> s_audio_timeline_samples q = s_audio_timeline_samples p + of_nat (AUDIO_CHUNK_SAMPLES * length taken) \<and>
           drift_drop_count q + length (new_chunks outs) = drift_drop_count p + length taken"
    "s_rtp_anchor_valid q = s_rtp_anchor_valid p"
    "s_effective_ring_depth p = of_nat AUDIO_RING_SLOTS \<Longrightarrow> s_effective_ring_depth q = of_nat AUDIO_RING_SLOTS"
  shows "heard clean p acc q"
  using assms unfolding heard_def by blast

lemma heard_refl [simp]: "playback_ok p \<Longrightarrow> heard clean p [] p"
  by (rule heardI [of _ _ _ "[]" "[]"]) simp_all

lemma heard_trans:
  assumes "heard c p a q" "heard d q b r"
  shows "heard (c \<and> d) p (a @ b) r"
proof -
  obtain t1 o1 where 1: "samples_waiting p @ a = concat t1 @ samples_waiting q" "played q = played p @ o1"
    "subseq (new_chunks o1) (map stereo t1)"
    "c \<Longrightarrow> drift_drop_count q + length (new_chunks o1) = drift_drop_count p + length t1"
    "c \<Longrightarrow> s_rtp_anchor_valid p = s_rtp_anchor_valid q \<Longrightarrow>
       s_audio_timeline_samples q = s_audio_timeline_samples p + of_nat (AUDIO_CHUNK_SAMPLES * length t1)"
    using assms(1) unfolding heard_def by blast
  obtain t2 o2 where 2: "samples_waiting q @ b = concat t2 @ samples_waiting r" "played r = played q @ o2"
    "subseq (new_chunks o2) (map stereo t2)"
    "d \<Longrightarrow> drift_drop_count r + length (new_chunks o2) = drift_drop_count q + length t2"
    "d \<Longrightarrow> s_rtp_anchor_valid q = s_rtp_anchor_valid r \<Longrightarrow>
       s_audio_timeline_samples r = s_audio_timeline_samples q + of_nat (AUDIO_CHUNK_SAMPLES * length t2)"
    using assms(2) unfolding heard_def by blast
  have valid: "s_rtp_anchor_valid p \<longrightarrow> s_rtp_anchor_valid q" "s_rtp_anchor_valid q \<longrightarrow> s_rtp_anchor_valid r"
    "s_effective_ring_depth p = of_nat AUDIO_RING_SLOTS \<longrightarrow> s_effective_ring_depth r = of_nat AUDIO_RING_SLOTS"
    using assms by (auto simp: heard_def)
  have "samples_waiting p @ (a @ b) = concat (t1 @ t2) @ samples_waiting r"
    using 1(1) 2(1) by (metis append.assoc concat_append)
  moreover have "subseq (new_chunks (o1 @ o2)) (map stereo (t1 @ t2))" using 1(3) 2(3) by (simp add: list_emb_append_mono)
  moreover have "drift_drop_count r + length (new_chunks (o1 @ o2)) = drift_drop_count p + length (t1 @ t2)" if "c \<and> d"
    using that 1(4) 2(4) by simp
  moreover have "s_audio_timeline_samples r = s_audio_timeline_samples p + of_nat (AUDIO_CHUNK_SAMPLES * length (t1 @ t2))"
    if "(c \<and> d) \<and> s_rtp_anchor_valid p = s_rtp_anchor_valid r"
  proof -
    have "s_rtp_anchor_valid p = s_rtp_anchor_valid q" "s_rtp_anchor_valid q = s_rtp_anchor_valid r"
      using that valid by blast+
    then show ?thesis using that 1(5) 2(5) by (simp add: algebra_simps)
  qed
  moreover have "playback_ok r" "produced r = produced p + length (a @ b)" using assms by (auto simp: heard_def)
  moreover have "played r = played p @ o1 @ o2" using 1(2) 2(2) by simp
  ultimately show ?thesis using valid unfolding heard_def by blast
qed

definition ring_of :: "playback \<Rightarrow> u32 \<times> u32 \<times> i16 list list \<times> u32 \<times> i16 list \<times> nat" where
  "ring_of p = (head p, tail p, pcm p, s_effective_ring_depth p, s_pcm_stage p, s_pcm_stage_count p)"

lemma ring_of_same:
  assumes "ring_of q = ring_of p"
  shows "samples_waiting q = samples_waiting p" "produced q = produced p" "playback_ok q = playback_ok p"
    "s_effective_ring_depth q = s_effective_ring_depth p"
  using assms by (simp_all add: ring_of_def samples_waiting_def chunks_def staged_def produced_def playback_ok_def)

text \<open>A step takes a chunk and plays it, takes one and drops it, or takes none.\<close>

lemma pop_waiting:
  assumes "playback_ok p" "ring_pop_pcm p = (Some c, q)"
  shows "playback_ok q" "samples_waiting p = c @ samples_waiting q" "produced q = produced p"
    "rest q = (rest p)\<lparr>tail := tail q\<rparr>" "s_effective_ring_depth q = s_effective_ring_depth p"
proof -
  note q = pop_ok [OF assms]
  have "s_pcm_stage_count q = s_pcm_stage_count p" "s_pcm_stage q = s_pcm_stage p" "head q = head p" by (subst q(2), simp)+
  then show "samples_waiting p = c @ samples_waiting q" "produced q = produced p"
    using q(3) by (simp_all add: samples_waiting_def staged_def produced_def)
  show "rest q = (rest p)\<lparr>tail := tail q\<rparr>" by (subst q(2)) (simp add: rest_def)
  show "s_effective_ring_depth q = s_effective_ring_depth p" by (subst q(2)) simp
qed (rule pop_ok [OF assms])

lemma pop_fields:
  assumes "playback_ok p" "ring_pop_pcm p = (r, q)"
  shows "played q = played p" "s_audio_timeline_samples q = s_audio_timeline_samples p" "drift_drop_count q = drift_drop_count p"
    "s_rtp_anchor_valid q = s_rtp_anchor_valid p"
  by (subst pop_ok(2) [OF assms], simp)+

lemma heard_taken:
  assumes "playback_ok p" "ring_pop_pcm p = (Some c, q)" "ring_of r = ring_of q"
    and "played r = played p @ outs" "new_chunks outs = [] \<or> new_chunks outs = [stereo c]"
    and "clean \<Longrightarrow> s_audio_timeline_samples r = s_audio_timeline_samples p + of_nat AUDIO_CHUNK_SAMPLES \<and>
      drift_drop_count r + length (new_chunks outs) = drift_drop_count p + 1"
    and "s_rtp_anchor_valid r = s_rtp_anchor_valid p"
  shows "heard clean p [] r"
  using pop_waiting [OF assms(1,2)] ring_of_same [OF assms(3)] assms(4-7)
  by (intro heardI [of _ _ _ "[c]" outs]) auto

lemma heard_idle:
  assumes "playback_ok p" "ring_of r = ring_of p" "played r = played p @ outs" "new_chunks outs = []"
    and "s_audio_timeline_samples r = s_audio_timeline_samples p" "drift_drop_count r = drift_drop_count p"
      "s_rtp_anchor_valid r = s_rtp_anchor_valid p"
  shows "heard clean p [] r"
  using ring_of_same [OF assms(2)] assms by (intro heardI [of _ _ _ "[]" outs]) simp_all

definition clean_env :: "play_env \<Rightarrow> bool" where
  "clean_env e \<longleftrightarrow> \<not> pe_dialog e \<and> pe_sync_trim e \<and> pe_sync_play e"

lemma play_chunk_heard:
  assumes "playback_ok p" "ring_pop_pcm p = (Some c, q)"
  shows "heard (clean_env e) p [] (play_chunk e c q)"
  by (rule heard_taken [OF assms, of _ "[(stereo c, 1)]"])
    (auto simp: play_chunk_def Let_def audio_src_output_chunk_def audio_src_output_buffer_def
      audio_advance_consumed_chunk_def ring_of_def clean_env_def pop_fields [OF assms])

lemma hold_heard: "playback_ok p \<Longrightarrow> heard clean p [] (hold_or_silence p)"
  by (rule heard_idle [where outs = "drop (length (played p)) (played (hold_or_silence p))"])
    (auto simp: hold_or_silence_def Let_def audio_src_output_chunk_def audio_src_output_buffer_def ring_of_def)

lemma pop_empty: "playback_ok p \<Longrightarrow> ring_pop_pcm p = (None, q) \<Longrightarrow> q = p"
  using pop_ok(3) by fastforce

lemma first_look_heard:
  assumes "playback_ok p"
  shows "heard (clean_env e) p [] (first_look e p)"
proof -
  obtain r q where "ring_pop_pcm p = (r, q)" by fastforce
  then show ?thesis using play_chunk_heard [OF assms] hold_heard [OF assms] pop_empty [OF assms] assms
    by (auto simp: first_look_def ring_of_def split: option.split intro: heard_idle [where outs = "[]"])
qed

lemma heard_from:
  "heard clean q a r \<Longrightarrow> ring_of q = ring_of p \<Longrightarrow> played q = played p \<Longrightarrow>
   s_audio_timeline_samples q = s_audio_timeline_samples p \<Longrightarrow> drift_drop_count q = drift_drop_count p \<Longrightarrow>
   s_rtp_anchor_valid q = s_rtp_anchor_valid p \<Longrightarrow> heard clean p a r"
  using ring_of_same [of q p] by (simp add: heard_def)

lemma second_look_heard:
  assumes "playback_ok p"
  shows "heard (clean_env e) p [] (second_look e p)"
proof -
  let ?p = "p\<lparr>look_again := False\<rparr>"
  have ring: "ring_of ?p = ring_of p" by (simp add: ring_of_def)
  then have ok: "playback_ok ?p" using assms ring_of_same(3) by blast
  obtain r q where pop: "ring_pop_pcm ?p = (r, q)" by fastforce
  have "heard (clean_env e) ?p [] (second_look e p)"
    using pop play_chunk_heard [OF ok] hold_heard [OF ok] pop_empty [OF ok]
    by (auto simp: second_look_def split: option.split)
  then show ?thesis by (rule heard_from [OF _ ring]) simp_all
qed

lemma dialog_heard:
  assumes "playback_ok p" "pe_dialog e"
  shows "heard (clean_env e) p [] (dialog_turn e p)"
proof -
  obtain r q where pop: "ring_pop_pcm p = (r, q)" by fastforce
  then show ?thesis
  proof (cases r)
    case None
    then show ?thesis using pop pop_empty [OF assms(1)] assms(1)
      by (auto simp: dialog_turn_def audio_src_output_buffer_def ring_of_def intro!: heard_idle)
  next
    case (Some c)
    then show ?thesis using pop assms pop_fields [OF assms(1) pop]
      by (intro heard_taken [where c = c and q = q and outs = "[(s_silence, 0)]"])
        (auto simp: dialog_turn_def audio_src_output_buffer_def ring_of_def audio_advance_consumed_chunk_def clean_env_def)
  qed
qed

lemma trim_heard:
  assumes "playback_ok p"
  shows "heard (clean_env e) p [] (trim_queue e p)"
proof -
  obtain r q where pop: "ring_pop_pcm p = (r, q)" by fastforce
  then show ?thesis
  proof (cases r)
    case None
    then show ?thesis using pop pop_empty [OF assms] assms by (auto simp: trim_queue_def)
  next
    case (Some c)
    then show ?thesis using pop assms pop_fields [OF assms pop]
      by (intro heard_taken [where c = c and q = q and outs = "[]"])
        (auto simp: trim_queue_def ring_of_def audio_advance_consumed_chunk_def clean_env_def Let_def)
  qed
qed

lemma correct_drift_heard:
  assumes "playback_ok p" "correct_drift e p = (hold, q)"
  shows "heard (clean_env e) p [] q"
proof -
  let ?p = "p\<lparr>drift_tick := drift_tick p + 1\<rparr>"
  have ring: "ring_of ?p = ring_of p" by (simp add: ring_of_def)
  then have "playback_ok ?p" using assms ring_of_same(3) by blast
  then have "heard (clean_env e) p [] (trim_queue e ?p)" by (intro heard_from [OF trim_heard ring]) simp_all
  moreover have "q = p \<or> q = trim_queue e ?p \<or> q = ?p \<or> (\<exists>n. q = ?p\<lparr>drift_hold_count := n, s_drift_hold_events := of_nat n\<rparr>)"
    using arg_cong [OF assms(2), of snd] unfolding correct_drift_def Let_def
    by (simp only: if_distrib [of snd] snd_conv split: if_split_asm) blast+
  ultimately show ?thesis using assms(1)
    by (elim disjE exE) (auto simp: ring_of_def intro!: heard_idle [where outs = "[]"])
qed

lemma step_heard:
  assumes "playback_ok p"
  shows "heard (clean_env e) p [] (audio_play_step e p)"
proof -
  let ?p = "p\<lparr>source_idle := no_recent_data e\<rparr>"
  have ring: "ring_of ?p = ring_of p" by (simp add: ring_of_def)
  then have ok: "playback_ok ?p" using assms ring_of_same(3) by blast
  obtain hold q where d: "correct_drift e ?p = (hold, q)" by fastforce
  have c: "heard (clean_env e) ?p [] q" using correct_drift_heard [OF ok d] .
  then have okq: "playback_ok q" by (simp add: heard_def)
  have "heard (clean_env e) ?p [] (first_look e q)" using heard_trans [OF c first_look_heard [OF okq, of e]] by simp
  moreover have "heard (clean_env e) q [] (audio_src_output_chunk (last_play_chunk q) 3 q\<lparr>frames_played := frames_played q + 1\<rparr>)"
    by (rule heard_idle [OF okq, where outs = "[(stereo (last_play_chunk q), 3)]"])
      (simp_all add: audio_src_output_chunk_def audio_src_output_buffer_def ring_of_def)
  then have "heard (clean_env e) ?p [] (audio_src_output_chunk (last_play_chunk q) 3 q\<lparr>frames_played := frames_played q + 1\<rparr>)"
    using heard_trans [OF c] by force
  ultimately have "\<not> look_again p \<Longrightarrow> heard (clean_env e) ?p [] (audio_play_step e p)"
    using dialog_heard [OF ok] d
    by (auto simp: audio_play_step_def Let_def audio_src_output_chunk_def audio_src_output_buffer_def split: bool.split)
  then have "\<not> look_again p \<Longrightarrow> heard (clean_env e) p [] (audio_play_step e p)"
    by (intro heard_from [OF _ ring]) simp_all
  then show ?thesis using second_look_heard [OF assms] by (auto simp: audio_play_step_def)
qed

subsection \<open>Both threads\<close>

lemma steps_heard:
  "playback_ok p \<Longrightarrow> heard (\<forall>e\<in>set es. clean_env e) p [] (fold audio_play_step es p)"
proof (induction es arbitrary: p)
  case (Cons e es)
  have s: "heard (clean_env e) p [] (audio_play_step e p)" using Cons.prems by (rule step_heard)
  then have "playback_ok (audio_play_step e p)" by (simp add: heard_def)
  from heard_trans [OF s Cons.IH [OF this]] show ?case by simp
qed simp

lemma flush_heard:
  assumes "playback_ok p" "produced p < play_limit" "audio_flush_stage_to_ring p = (b, q)"
  shows "heard clean p [] q"
  using flush_ok [OF assms] rest_same [of q p] by (intro heardI [of _ _ _ "[]" "[]"]) simp_all

lemma heard_produced: "heard clean p [] q \<Longrightarrow> produced q = produced p" "heard clean p a q \<Longrightarrow> playback_ok q"
  by (simp_all add: heard_def)

lemma heard_weaken: "heard c p a q \<Longrightarrow> (d \<Longrightarrow> c) \<Longrightarrow> heard d p a q"
  unfolding heard_def by blast

lemma heard_then: "heard c p [] q \<Longrightarrow> heard c q a r \<Longrightarrow> heard c p a r"
  using heard_trans [of c p "[]" q c a r] by simp

lemma wait_heard:
  "playback_ok p \<Longrightarrow> produced p < play_limit \<Longrightarrow> (\<forall>d\<in>set ds. \<forall>p. playback_ok p \<longrightarrow> heard c p [] (d p)) \<Longrightarrow>
   wait_for_room n w ds p = (b, q) \<Longrightarrow> heard c p [] q \<and> (b \<longrightarrow> s_pcm_stage_count q + n \<le> AUDIO_STAGE_CAPACITY)"
proof (induction n w ds p rule: wait_for_room.induct)
  case (1 n w ds p)
  note ok = 1(3) and prem = 1(6)
  obtain dn p1 where f: "audio_flush_stage_to_ring p = (dn, p1)" by fastforce
  have h: "heard c p [] p1" by (rule flush_heard [OF 1(3,4) f])
  note p1 = heard_produced(2) [OF h] heard_produced(1) [OF h]
  consider (room) "s_pcm_stage_count p + n \<le> AUDIO_STAGE_CAPACITY"
    | (last) "\<not> s_pcm_stage_count p + n \<le> AUDIO_STAGE_CAPACITY" "dn \<and> s_pcm_stage_count p1 + n \<le> AUDIO_STAGE_CAPACITY \<or> w + 1 > 24"
    | (again) "\<not> s_pcm_stage_count p + n \<le> AUDIO_STAGE_CAPACITY" "\<not> (dn \<and> s_pcm_stage_count p1 + n \<le> AUDIO_STAGE_CAPACITY)" "\<not> w + 1 > 24"
    by blast
  then show ?case
  proof cases
    case room
    then have "b \<and> q = p" using prem by (simp add: wait_for_room.simps [of n w ds p])
    then show ?thesis using room ok by simp
  next
    case last
    then have "b = (dn \<and> s_pcm_stage_count p1 + n \<le> AUDIO_STAGE_CAPACITY) \<and> q = p1"
      using prem f by (simp add: wait_for_room.simps [of n w ds p] split: if_splits)
    then show ?thesis using h by simp
  next
    case again
    show ?thesis
    proof (cases ds)
      case Nil
      have "wait_for_room n (w + 1) [] p1 = (b, q)" using 1(6) f again Nil by (subst (asm) wait_for_room.simps) simp
      then show ?thesis using 1(1) [OF again(1) f [symmetric] again(2,3) Nil] p1 1(4) heard_then [OF h] by simp
    next
      case (Cons d ds')
      have e: "heard c p1 [] (d p1)" using 1(5) p1(1) Cons by simp
      have "wait_for_room n (w + 1) ds' (d p1) = (b, q)"
        using 1(6) f again Cons by (subst (asm) wait_for_room.simps) simp
      then show ?thesis
        using 1(2) [OF again(1) f [symmetric] again(2,3) Cons] heard_produced [OF e] p1 1(4,5) Cons
          heard_then [OF h] heard_then [OF e] by simp
    qed
  qed
qed

lemma staged_appended:
  assumes "playback_ok p" "s_pcm_stage_count p + length src \<le> AUDIO_STAGE_CAPACITY"
    and "q = p\<lparr>s_pcm_stage := take (s_pcm_stage_count p) (s_pcm_stage p) @ src @ drop (s_pcm_stage_count p + length src) (s_pcm_stage p),
                s_pcm_stage_count := s_pcm_stage_count p + length src\<rparr>"
  shows "heard clean p src q"
proof (rule heardI [of _ _ _ "[]" "[]"])
  have "length (take (s_pcm_stage_count p) (s_pcm_stage p)) = s_pcm_stage_count p"
    using assms(1) by (simp add: playback_ok_def)
  then have "staged q = staged p @ src" using assms by (simp add: staged_def)
  moreover have "chunks q = chunks p" by (simp add: assms(3) chunks_def)
  ultimately show "samples_waiting p @ src = concat [] @ samples_waiting q" by (simp add: samples_waiting_def)
  show "playback_ok q" using assms by (simp add: playback_ok_def)
qed (simp_all add: assms(3) produced_def)

lemma append_heard:
  assumes "playback_ok p" "produced p + length src < play_limit"
    and "audio_stage_append_and_flush (map (fold audio_play_step) ds) src p = (ret, q)"
  shows "heard (\<forall>es\<in>set ds. \<forall>e\<in>set es. clean_env e) p (if ret \<ge> 0 then src else []) q"
proof (cases "src = [] \<or> length src > AUDIO_STAGE_CAPACITY")
  case True
  then show ?thesis using assms by (auto simp: audio_stage_append_and_flush_def)
next
  case False
  let ?c = "\<forall>es\<in>set ds. \<forall>e\<in>set es. clean_env e"
  have delays: "\<forall>d\<in>set (map (fold audio_play_step) ds). \<forall>p. playback_ok p \<longrightarrow> heard ?c p [] (d p)"
    using steps_heard by (fastforce elim: heard_weaken)
  obtain b p1 where w: "wait_for_room (length src) 0 (map (fold audio_play_step) ds) p = (b, p1)" by fastforce
  have h: "heard ?c p [] p1" "b \<longrightarrow> s_pcm_stage_count p1 + length src \<le> AUDIO_STAGE_CAPACITY"
    using wait_heard [OF assms(1) _ _ w] assms(2) delays by simp_all
  show ?thesis
  proof (cases b)
    case True
    define p2 where "p2 = p1\<lparr>s_pcm_stage := take (s_pcm_stage_count p1) (s_pcm_stage p1) @ src
        @ drop (s_pcm_stage_count p1 + length src) (s_pcm_stage p1),
      s_pcm_stage_count := s_pcm_stage_count p1 + length src\<rparr>"
    have s: "heard ?c p1 src p2" by (rule staged_appended [OF _ _ p2_def]) (use h True heard_produced(2) in auto)
    obtain dn where f: "audio_flush_stage_to_ring p2 = (dn, q)" and "ret \<ge> 0"
      using assms(3) False w True by (auto simp: audio_stage_append_and_flush_def p2_def split: prod.splits if_splits)
    have "produced p2 < play_limit" using s heard_produced(1) [OF h(1)] assms(2) by (simp add: heard_def)
    then have "heard ?c p2 [] q" using flush_heard [OF heard_produced(2) [OF s]] f by blast
    then show ?thesis using heard_trans [OF h(1) heard_trans [OF s]] \<open>ret \<ge> 0\<close> by force
  next
    case f: False
    then show ?thesis using assms(3) w h(1) False by (auto simp: audio_stage_append_and_flush_def)
  qed
qed

lemma clock_heard:
  assumes "playback_ok p"
  shows "heard clean p [] (update_clock l r d prev ts p)"
proof -
  let ?q = "update_clock l r d prev ts p"
  have same: "ring_of ?q = ring_of p" "played ?q = played p" "drift_drop_count ?q = drift_drop_count p"
    and valid: "s_rtp_anchor_valid p \<Longrightarrow> s_rtp_anchor_valid ?q"
    and clock: "s_rtp_anchor_valid p = s_rtp_anchor_valid ?q \<Longrightarrow> s_audio_timeline_samples ?q = s_audio_timeline_samples p"
    by (auto simp: update_clock_def Let_def ring_of_def)
  show ?thesis unfolding heard_def
    using assms same valid clock ring_of_same [OF same(1)]
    by (intro conjI impI exI [of _ "[]"]) simp_all
qed

text \<open>A run of the two threads: the receiving thread offers a frame or notes a timestamp, the playback thread takes a
  turn. The result is the samples that were accepted, and the final state.\<close>

datatype turn =
    Append "play_env list list" "i16 list"
  | Clock bool bool int "u32 option" u32
  | Play play_env

fun run_turns :: "turn list \<Rightarrow> playback \<Rightarrow> i16 list \<times> playback" where
  "run_turns [] p = ([], p)"
| "run_turns (Append ds src # ts) p =
     (case audio_stage_append_and_flush (map (fold audio_play_step) ds) src p of
        (ret, p) \<Rightarrow> (case run_turns ts p of (acc, p) \<Rightarrow> ((if ret \<ge> 0 then src else []) @ acc, p)))"
| "run_turns (Clock locked resumed d prev t # ts) p = run_turns ts (update_clock locked resumed d prev t p)"
| "run_turns (Play e # ts) p = run_turns ts (audio_play_step e p)"

fun clean_turn :: "turn \<Rightarrow> bool" where
  "clean_turn (Append ds src) \<longleftrightarrow> (\<forall>es\<in>set ds. \<forall>e\<in>set es. clean_env e)"
| "clean_turn (Clock _ _ _ _ _) \<longleftrightarrow> True"
| "clean_turn (Play e) \<longleftrightarrow> clean_env e"

fun offered :: "turn list \<Rightarrow> nat" where
  "offered [] = 0"
| "offered (Append ds src # ts) = length src + offered ts"
| "offered (_ # ts) = offered ts"

lemma run_heard:
  "playback_ok p \<Longrightarrow> produced p + offered ts < play_limit \<Longrightarrow> run_turns ts p = (acc, q) \<Longrightarrow>
   heard (\<forall>t\<in>set ts. clean_turn t) p acc q"
proof (induction ts arbitrary: p acc)
  case (Cons t ts)
  have still: "heard (\<forall>t\<in>set (t # ts). clean_turn t) p acc q"
    if h: "heard (clean_turn t) p [] p1" and r: "run_turns ts p1 = (acc, q)" and o: "offered (t # ts) = offered ts" for p1
  proof -
    have "playback_ok p1" "produced p1 + offered ts < play_limit" using h o Cons.prems(2) by (auto simp: heard_def)
    then show ?thesis using heard_trans [OF h Cons.IH [OF _ _ r]] by simp
  qed
  show ?case
  proof (cases t)
    case (Append ds src)
    obtain ret p1 where a: "audio_stage_append_and_flush (map (fold audio_play_step) ds) src p = (ret, p1)" by fastforce
    obtain acc1 where r: "run_turns ts p1 = (acc1, q)" "acc = (if ret \<ge> 0 then src else []) @ acc1"
      using Cons.prems(3) a Append by (auto split: prod.splits)
    have h: "heard (clean_turn t) p (if ret \<ge> 0 then src else []) p1"
      using append_heard [OF Cons.prems(1) _ a] Cons.prems(2) Append by simp
    then have "playback_ok p1" "produced p1 + offered ts < play_limit"
      using Cons.prems(2) Append by (auto simp: heard_def split: if_splits)
    then show ?thesis using heard_trans [OF h Cons.IH [OF _ _ r(1)]] r(2) by simp
  next
    case (Clock l r d prev u)
    then show ?thesis using still [OF clock_heard [OF Cons.prems(1)], of l r d prev u] Cons.prems(3) by simp
  next
    case (Play e)
    have "heard (clean_turn t) p [] (audio_play_step e p)" using step_heard [OF Cons.prems(1)] Play by simp
    then show ?thesis using still Cons.prems(3) Play by simp
  qed
qed simp


text \<open>Nine chunks are waiting, the clock is set and the queue is due for a trim: one chunk is dropped, the next one played.\<close>

definition nine_waiting :: playback where
  "nine_waiting = (playback_init 96)\<lparr>head := 9, s_rtp_anchor_valid := True, s_rtp_timestamp_scale := 1, drift_tick := 255\<rparr>"

definition trim_env :: play_env where
  "trim_env = \<lparr>pe_now_us = 0, pe_last_data_us = 0, pe_dialog = False, pe_sync_read = True, pe_sync_trim = True, pe_sync_play = True\<rparr>"


subsection \<open>Repeated chunks\<close>

lemma hold_scale_range: "128 \<le> hold_scale i" "hold_scale i \<le> 256"
  by (simp_all add: hold_scale_def Let_def)

lemma scaled_between:
  fixes x s :: int
  assumes "128 \<le> s" "s \<le> 256"
  shows "\<bar>x * s div 256\<bar> \<le> \<bar>x\<bar>" "\<bar>x\<bar> \<le> 2 * \<bar>x * s div 256\<bar> + 1"
proof -
  have e: "256 * (x * s div 256) + x * s mod 256 = x * s" "0 \<le> x * s mod 256" "x * s mod 256 < 256" by simp_all
  have "\<bar>x * s div 256\<bar> \<le> \<bar>x\<bar> \<and> \<bar>x\<bar> \<le> 2 * \<bar>x * s div 256\<bar> + 1"
  proof (cases "0 \<le> x")
    case True
    then have "x * 128 \<le> x * s" "x * s \<le> x * 256" using assms by (auto intro: mult_left_mono)
    then show ?thesis using e True by linarith
  next
    case False
    then have "x * 256 \<le> x * s" "x * s \<le> x * 128" using assms by (auto intro: mult_left_mono_neg)
    then show ?thesis using e False by linarith
  qed
  then show "\<bar>x * s div 256\<bar> \<le> \<bar>x\<bar>" "\<bar>x\<bar> \<le> 2 * \<bar>x * s div 256\<bar> + 1" by blast+
qed

lemma scaled_sign: "128 \<le> s \<Longrightarrow> x < 0 \<Longrightarrow> x * s div 256 < 0" for x s :: int
  by (simp add: mult_neg_pos div_neg_pos_less0)

lemma sint_fits: "- (2 ^ 15) \<le> v \<Longrightarrow> v < 2 ^ 15 \<Longrightarrow> sint (word_of_int v :: i16) = v"
  by (simp add: sint_sbintrunc' signed_take_bit_int_eq_self)

text \<open>The property C35: a repeated chunk is never louder than the chunk it repeats and at least half as loud, at
  every sample and after however many repetitions: the scaled sample always fits its 16 bits.\<close>

theorem hold_never_louder:
  assumes "k < length src"
  shows "let x = sint (src ! k); y = sint (audio_copy_faded_hold src i ! k)
    in \<bar>y\<bar> \<le> \<bar>x\<bar> \<and> \<bar>x\<bar> \<le> 2 * \<bar>y\<bar> + 1 \<and> y = x * hold_scale i div 256"
proof -
  let ?x = "sint (src ! k)"
  note b = scaled_between [OF hold_scale_range [of i], of ?x]
  have "- (2 ^ 15) \<le> ?x" "?x < 2 ^ 15" using sint_range_size [of "src ! k"] by (simp_all add: word_size)
  then have "- (2 ^ 15) \<le> ?x * hold_scale i div 256 \<and> ?x * hold_scale i div 256 < 2 ^ 15"
    using b scaled_sign [OF hold_scale_range(1) [of i], of ?x] by (cases "0 \<le> ?x") auto
  then show ?thesis using assms b sint_fits by (simp add: audio_copy_faded_hold_def Let_def)
qed

theorem hold_never_louder_witness:
  "sint (audio_copy_faded_hold [1000] 3 ! 0) = 718"
  using hold_never_louder [of 0 "[1000]" 3] by (simp add: Let_def hold_scale_def)

end
