(* ===== verification/AudioReceiveCorrect.thy ===== *)
theory AudioReceiveCorrect
  imports AudioPlaybackCorrect
begin

text \<open>
  The receiving thread hands over what it decodes: packets that arrive without loss are decoded once, in order,
  and every frame enters the stage whole or is counted as dropped, whatever parity packets, empty polls and turns
  of the playback thread come between.
\<close>

subsection \<open>Frames that enter the stage\<close>

fun accepted :: "bool list \<Rightarrow> i16 list list \<Rightarrow> i16 list" where
  "accepted (k # ks) (f # fs) = (if k then f else []) @ accepted ks fs"
| "accepted _ _ = []"

lemma accepted_append: "length ks = length fs \<Longrightarrow> accepted (ks @ ls) (fs @ gs) = accepted ks fs @ accepted ls gs"
  by (induction ks fs rule: list_induct2) auto

text \<open>The next \<open>n\<close> samples fit the ring even if nothing is played.\<close>

definition roomy :: "nat \<Rightarrow> 'o audio_recv \<Rightarrow> bool" where
  "roomy n s \<longleftrightarrow> playback_ok (ar_play s) \<and> s_effective_ring_depth (ar_play s) = of_nat AUDIO_RING_SLOTS \<and>
     length (samples_waiting (ar_play s)) + n \<le> AUDIO_RING_SLOTS * AUDIO_CHUNK_SAMPLES \<and>
     produced (ar_play s) + n < play_limit"

lemma chunk_lengths:
  assumes "playback_ok p"
  shows "length (concat (chunks p)) = (unat (head p) - unat (tail p)) * AUDIO_CHUNK_SAMPLES"
proof -
  have "length (pcm p ! (i mod AUDIO_RING_SLOTS)) = AUDIO_CHUNK_SAMPLES" for i
    using assms by (simp add: playback_ok_def AUDIO_RING_SLOTS_def)
  then show ?thesis by (simp add: chunks_def length_concat comp_def sum_list_triv)
qed

lemma waiting_length:
  assumes "playback_ok p"
  shows "length (samples_waiting p) = (unat (head p) - unat (tail p)) * AUDIO_CHUNK_SAMPLES + s_pcm_stage_count p"
  using assms chunk_lengths [OF assms] by (simp add: samples_waiting_def staged_def playback_ok_def)

lemma flush_room:
  "playback_ok p \<Longrightarrow> produced p < play_limit \<Longrightarrow> s_effective_ring_depth p = of_nat AUDIO_RING_SLOTS \<Longrightarrow>
   length (samples_waiting p) \<le> AUDIO_RING_SLOTS * AUDIO_CHUNK_SAMPLES \<Longrightarrow>
   fst (audio_flush_stage_to_ring p) \<and> s_pcm_stage_count (snd (audio_flush_stage_to_ring p)) < AUDIO_CHUNK_SAMPLES"
proof (induction p rule: audio_flush_stage_to_ring.induct)
  case (1 p)
  show ?case
  proof (cases "s_pcm_stage_count p < AUDIO_CHUNK_SAMPLES")
    case True
    then show ?thesis by (simp add: audio_flush_stage_to_ring.simps [of p])
  next
    case False
    then have c: "AUDIO_CHUNK_SAMPLES \<le> s_pcm_stage_count p" by simp
    have le: "unat (tail p) \<le> unat (head p)" using 1(2) by (simp add: playback_ok_def)
    have "unat (head p - tail p) < AUDIO_RING_SLOTS"
      using waiting_length [OF 1(2)] 1(5) c by (simp add: depth_unat [OF le] audio_play_sizes)
    then have "\<not> ring_full p" using 1(4) by (simp add: ring_full_def word_le_nat_alt AUDIO_RING_SLOTS_def)
    then obtain r where push: "ring_push_pcm (s_pcm_stage p) p = (True, r)" by (simp add: ring_push_pcm_def)
    define n where "n = s_pcm_stage_count r - AUDIO_CHUNK_SAMPLES"
    define p1 where "p1 = r\<lparr>s_pcm_stage := take n (drop AUDIO_CHUNK_SAMPLES (s_pcm_stage r)) @ drop n (s_pcm_stage r),
      s_pcm_stage_count := n\<rparr>"
    have n: "n = s_pcm_stage_count p - AUDIO_CHUNK_SAMPLES"
      using push by (auto simp: n_def ring_push_pcm_def split: if_splits)
    note s = flush_step [OF 1(2,3) c push n p1_def]
    have "s_effective_ring_depth p1 = s_effective_ring_depth p" by (rule rest_same(6) [OF s(4)])
    then have "fst (audio_flush_stage_to_ring p1) \<and> s_pcm_stage_count (snd (audio_flush_stage_to_ring p1)) < AUDIO_CHUNK_SAMPLES"
      using "1.IH" [OF False push [symmetric] refl n_def] s 1(3-5) unfolding p1_def by simp
    moreover have "audio_flush_stage_to_ring p = audio_flush_stage_to_ring p1"
      using False push by (subst audio_flush_stage_to_ring.simps) (simp add: p1_def n_def Let_def)
    ultimately show ?thesis by simp
  qed
qed

lemma wait_room:
  assumes "playback_ok p" "produced p < play_limit" "s_effective_ring_depth p = of_nat AUDIO_RING_SLOTS"
    and "length (samples_waiting p) \<le> AUDIO_RING_SLOTS * AUDIO_CHUNK_SAMPLES" "n \<le> AUDIO_MAX_FRAME_SAMPLES"
  obtains q where "wait_for_room n w ds p = (True, q)" "playback_ok q" "samples_waiting q = samples_waiting p"
    "produced q = produced p" "rest q = rest p" "s_pcm_stage_count q + n \<le> AUDIO_STAGE_CAPACITY"
proof (cases "s_pcm_stage_count p + n \<le> AUDIO_STAGE_CAPACITY")
  case True
  then show thesis using that [of p] assms(1) by (simp add: wait_for_room.simps [of n w ds p])
next
  case False
  obtain b q where f: "audio_flush_stage_to_ring p = (b, q)" by fastforce
  have "b" "s_pcm_stage_count q < AUDIO_CHUNK_SAMPLES" using flush_room [OF assms(1-4)] f by simp_all
  moreover from this have "s_pcm_stage_count q + n \<le> AUDIO_STAGE_CAPACITY" using assms(5) by (simp add: audio_play_sizes)
  ultimately show thesis using that [of q] flush_ok [OF assms(1,2) f] False f by (simp add: wait_for_room.simps [of n w ds p])
qed

definition ready :: "nat \<Rightarrow> 'o audio_recv \<Rightarrow> bool" where
  "ready n s \<longleftrightarrow> playback_ok (ar_play s) \<and> produced (ar_play s) + n < play_limit"

definition fed :: "'o audio_recv \<Rightarrow> i16 list list \<Rightarrow> 'o audio_recv \<Rightarrow> bool" where
  "fed s fs t \<longleftrightarrow> (\<exists>ks. length ks = length fs \<and> heard False (ar_play s) (accepted ks fs) (ar_play t) \<and>
     frames_dropped t = frames_dropped s + of_nat (length (filter Not ks)) \<and>
     (roomy (length (concat fs)) s \<longrightarrow> filter Not ks = []))"

lemma accepted_length: "length (accepted ks fs) \<le> length (concat fs)"
  by (induction ks fs rule: accepted.induct) auto

lemma heard_waiting: "heard c p a q \<Longrightarrow> length (samples_waiting q) \<le> length (samples_waiting p) + length a"
  unfolding heard_def by (metis length_append le_add2)

lemma heard_roomy:
  assumes "heard c (ar_play s) (accepted ks fs) (ar_play t)" "roomy (length (concat fs) + n) s"
  shows "roomy n t"
proof -
  have "length (samples_waiting (ar_play t)) \<le> length (samples_waiting (ar_play s)) + length (concat fs)"
    using heard_waiting [OF assms(1)] accepted_length [of ks fs] by linarith
  moreover have "produced (ar_play t) \<le> produced (ar_play s) + length (concat fs)"
    using assms(1) accepted_length [of ks fs] by (simp add: heard_def)
  ultimately show ?thesis using assms by (auto simp: roomy_def heard_def)
qed

lemma roomy_less: "roomy (m + n) s \<Longrightarrow> roomy m s"
  by (simp add: roomy_def)

lemma fed_trans:
  assumes "fed s fs t" "fed t gs u"
  shows "fed s (fs @ gs) u"
proof -
  obtain ks where k: "length ks = length fs" "heard False (ar_play s) (accepted ks fs) (ar_play t)"
    "frames_dropped t = frames_dropped s + of_nat (length (filter Not ks))"
    "roomy (length (concat fs)) s \<longrightarrow> filter Not ks = []" using assms(1) unfolding fed_def by blast
  obtain ls where l: "length ls = length gs" "heard False (ar_play t) (accepted ls gs) (ar_play u)"
    "frames_dropped u = frames_dropped t + of_nat (length (filter Not ls))"
    "roomy (length (concat gs)) t \<longrightarrow> filter Not ls = []" using assms(2) unfolding fed_def by blast
  have "heard False (ar_play s) (accepted (ks @ ls) (fs @ gs)) (ar_play u)"
    using heard_trans [OF k(2) l(2)] accepted_append [OF k(1)] by simp
  moreover have "filter Not (ks @ ls) = []" if "roomy (length (concat (fs @ gs))) s"
    using that k(4) l(4) roomy_less [of "length (concat fs)" "length (concat gs)" s]
      heard_roomy [OF k(2), of "length (concat gs)"] by simp
  ultimately show ?thesis using k(1,3) l(1,3) unfolding fed_def by (intro exI [of _ "ks @ ls"]) simp
qed

lemma fed_still: "heard False (ar_play s) [] (ar_play t) \<Longrightarrow> frames_dropped t = frames_dropped s \<Longrightarrow> fed s [] t"
  by (simp add: fed_def)

lemma fed_ready:
  assumes "fed s fs t" "ready (length (concat fs) + n) s"
  shows "ready n t"
proof -
  obtain ks where "heard False (ar_play s) (accepted ks fs) (ar_play t)" using assms(1) by (auto simp: fed_def)
  then have "playback_ok (ar_play t)" "produced (ar_play t) = produced (ar_play s) + length (accepted ks fs)"
    by (simp_all add: heard_def)
  then show ?thesis using assms(2) accepted_length [of ks fs] unfolding ready_def by linarith
qed

lemma append_fits:
  assumes "roomy (length frame) s" "frame \<noteq> []" "length frame \<le> AUDIO_MAX_FRAME_SAMPLES"
    and "audio_stage_append_and_flush ds frame (ar_play s) = (ret, p)"
  shows "ret \<ge> 0"
proof -
  obtain q where "wait_for_room (length frame) 0 ds (ar_play s) = (True, q)"
    using wait_room [of "ar_play s" "length frame" 0 ds] assms(1,3) unfolding roomy_def by (metis add_lessD1 add_leD1)
  then show ?thesis using assms(2-4)
    by (auto simp: audio_stage_append_and_flush_def AUDIO_STAGE_CAPACITY_def split: prod.splits if_splits)
qed

lemma append_frame_result:
  assumes "ready (length frame) s"
  obtains ret p where "append_frame e frame s = (ret, s\<lparr>ar_play := p, appends := appends s + 1\<rparr>)"
    "heard False (ar_play s) (if ret \<ge> 0 then frame else []) p"
    "frame \<noteq> [] \<Longrightarrow> length frame \<le> AUDIO_MAX_FRAME_SAMPLES \<Longrightarrow> (ret \<ge> 0 \<or> ret < -1) \<and> (roomy (length frame) s \<longrightarrow> ret \<ge> 0)"
proof -
  obtain ret p where p: "audio_stage_append_and_flush (map (fold audio_play_step) (re_delays e (appends s))) frame (ar_play s) = (ret, p)"
    by fastforce
  have "append_frame e frame s = (ret, s\<lparr>ar_play := p, appends := appends s + 1\<rparr>)" by (simp add: append_frame_def p)
  moreover have "heard False (ar_play s) (if ret \<ge> 0 then frame else []) p"
    using append_heard [OF _ _ p] assms by (auto simp: ready_def elim: heard_weaken)
  moreover have "frame \<noteq> [] \<Longrightarrow> length frame \<le> AUDIO_MAX_FRAME_SAMPLES \<Longrightarrow> (ret \<ge> 0 \<or> ret < -1) \<and> (roomy (length frame) s \<longrightarrow> ret \<ge> 0)"
    using p append_fits [OF _ _ _ p] by (auto simp: audio_stage_append_and_flush_def AUDIO_STAGE_CAPACITY_def split: prod.splits if_splits bool.splits)
  ultimately show thesis by (rule that)
qed

subsection \<open>One packet\<close>

definition decodes :: "'o opus_lib \<Rightarrow> 'o opus_psp \<Rightarrow> u8 list \<Rightarrow> i16 list \<Rightarrow> 'o opus_psp \<Rightarrow> bool" where
  "decodes lib d payload frame d' \<longleftrightarrow> opus_psp_decode lib (Some payload) AUDIO_MAX_FRAME_SAMPLES d = (Some frame, d') \<and>
     frame \<noteq> [] \<and> length frame \<le> AUDIO_MAX_FRAME_SAMPLES"

text \<open>Nothing is being concealed.\<close>

definition undisturbed :: "'o audio_recv \<Rightarrow> bool" where
  "undisturbed s \<longleftrightarrow> consec_plc s = 0 \<and> fade_in_frames s = 0 \<and> \<not> fec_pending s"

text \<open>What playing a frame leaves alone.\<close>

definition control :: "'o audio_recv \<Rightarrow> audio_fec \<times> u16 \<times> bool \<times> u32 \<times> bool \<times> nat \<times> nat \<times> nat \<times> bool" where
  "control s = (ar_fec s, last_audio_seq s, have_last_audio_seq s, last_audio_rtp_ts s, have_last_audio_rtp s,
     fec_between_audio s, consec_plc s, fade_in_frames s, fec_pending s)"

text \<open>\<open>p\<close> is a packet with these Opus data under this number.\<close>

definition sound_packet :: "u8 list \<Rightarrow> u16 \<Rightarrow> u8 list \<Rightarrow> bool" where
  "sound_packet p sq payload \<longleftrightarrow> payload \<noteq> [] \<and> p ! 1 AND 0x7F = RTP_PT_AUDIO_OPUS \<and> read_be16 p 2 = sq \<and>
     (case parse_audio_packet p of None \<Rightarrow> False | Some (off, n) \<Rightarrow> drop off (take n p) = payload)"

text \<open>A packet that is understood and is no sound.\<close>

definition side_packet :: "u8 list \<Rightarrow> bool" where
  "side_packet p \<longleftrightarrow> parse_audio_packet p \<noteq> None \<and> p ! 1 AND 0x7F \<noteq> RTP_PT_AUDIO_OPUS"

definition note_data :: "bool \<Rightarrow> u8 list \<Rightarrow> u8 list \<Rightarrow> u32 \<Rightarrow> audio_fec \<Rightarrow> audio_fec" where
  "note_data from_pending p payload now a =
     (if from_pending then a\<lparr>a_last_data_us := now\<rparr>
      else audio_rtp_fec_cache_data p payload now (a\<lparr>a_last_data_us := now\<rparr>))"

text \<open>The Opus data of a payload: as it is, or decrypted and without the padding of the cipher.\<close>

definition unwrapped :: "'o audio_env \<Rightarrow> u8 list \<Rightarrow> u16 \<Rightarrow> stream_crypto \<Rightarrow> u8 list option" where
  "unwrapped e payload sq c =
     (if payload = [] then None
      else if \<not> re_encrypted e then Some payload
      else case fst (stream_crypto_decrypt_audio (re_crypto e) payload sq (re_key_id e) c) of
          None \<Rightarrow> None
        | Some plain \<Rightarrow> if strip_padding plain = [] then None else Some (strip_padding plain))"

lemma play_unwrapped:
  assumes "unwrapped e payload sq (ar_crypto s) = Some data"
  obtains n where "play_payload e payload sq s = decode_packet e data (s\<lparr>s_audio_crypto_fail_count := n\<rparr>)" "data \<noteq> []"
proof (cases "re_encrypted e")
  case False
  then show thesis using assms that [of "s_audio_crypto_fail_count s"]
    by (auto simp: unwrapped_def play_payload_def split: if_splits)
next
  case True
  then obtain plain where d: "fst (stream_crypto_decrypt_audio (re_crypto e) payload sq (re_key_id e) (ar_crypto s)) = Some plain"
    "data = strip_padding plain" "data \<noteq> []" "payload \<noteq> []"
    using assms by (auto simp: unwrapped_def split: if_splits option.splits)
  then have "stream_crypto_decrypt_audio (re_crypto e) payload sq (re_key_id e) (ar_crypto s) = (Some plain, ar_crypto s)"
    "length payload mod 16 = 0"
    by (auto simp: stream_crypto_decrypt_audio_def split: if_splits option.splits)
  then show thesis using True d that [of 0] by (simp add: play_payload_def decrypt_payload_def)
qed

lemma no_media_gap: "sq = last_sq + 1 \<Longrightarrow> media_gap sq last_sq k = 0"
  by (simp add: media_gap_def)

lemma no_gap:
  assumes "have_last_audio_seq s \<longrightarrow> media_gap sq (last_audio_seq s) (fec_between_audio s) = 0"
  shows "handle_gap e sq ts s = (0, s)"
  using assms by (auto simp: handle_gap_def Let_def)

lemma cache_keeps_pending:
  "a_pending_count (audio_rtp_fec_cache_data p d now a) = a_pending_count a"
  "a_pending_count (audio_rtp_fec_cache_parity d now a) = a_pending_count a"
  by (auto simp: audio_rtp_fec_cache_data_def audio_rtp_fec_cache_parity_def cache_shard_def Let_def split: prod.split option.split)

lemma note_data_pending: "a_pending_count (note_data b p payload now a) = a_pending_count a"
  by (simp add: note_data_def cache_keeps_pending)

definition noted :: "'o audio_env \<Rightarrow> bool \<Rightarrow> u8 list \<Rightarrow> u8 list \<Rightarrow> 'o audio_recv \<Rightarrow> 'o audio_recv" where
  "noted e from_pending p payload s =
     s\<lparr>ar_fec := note_data from_pending p payload (re_now_us e) (ar_fec s),
       ar_play := update_clock (re_sync e)
         (a_last_data_us (ar_fec s) \<noteq> 0 \<and> re_now_us e - a_last_data_us (ar_fec s) \<ge> AUDIO_SOURCE_IDLE_US)
         (a_packet_duration_ms (note_data from_pending p payload (re_now_us e) (ar_fec s)))
         (if have_last_audio_rtp s then Some (last_audio_rtp_ts s) else None) (read_be32 p 4) (ar_play s)\<rparr>"

definition received :: "bool \<Rightarrow> 'o audio_recv \<Rightarrow> 'o audio_recv" where
  "received from_pending s = s\<lparr>consecutive_empty := 0, fade_in_frames := 0, consec_plc := 0, got_first_packet := True,
    ar_fec := (if from_pending then ar_fec s else (ar_fec s)\<lparr>a_pkts_received := a_pkts_received (ar_fec s) + 1\<rparr>)\<rparr>"

subsection \<open>Where the frames go\<close>

text \<open>What the handling of packets needs to know of the stage: frames can be appended while there is \<open>can\<close> room in
  some sense, and \<open>takes\<close> describes what became of the frames. Both look at the playback state only.\<close>

locale frame_sink =
  fixes can :: "nat \<Rightarrow> 'o audio_recv \<Rightarrow> bool" and takes :: "'o audio_recv \<Rightarrow> i16 list list \<Rightarrow> 'o audio_recv \<Rightarrow> bool"
  assumes can_same: "ar_play t = ar_play s \<Longrightarrow> can n t = can n s"
    and takes_same: "ar_play s' = ar_play s \<Longrightarrow> frames_dropped s' = frames_dropped s \<Longrightarrow> ar_play t' = ar_play t \<Longrightarrow>
      frames_dropped t' = frames_dropped t \<Longrightarrow> takes s' fs t' = takes s fs t"
    and takes_trans: "takes s fs t \<Longrightarrow> takes t gs u \<Longrightarrow> takes s (fs @ gs) u"
    and takes_can: "takes s fs t \<Longrightarrow> can (length (concat fs) + n) s \<Longrightarrow> can n t"
    and takes_none: "can n s \<Longrightarrow> takes s [] s"
    and takes_clock: "can n s \<Longrightarrow> takes s [] (s\<lparr>ar_play := update_clock l r d prev ts (ar_play s)\<rparr>)"
    and takes_append: "can (length frame) s \<Longrightarrow> frame \<noteq> [] \<Longrightarrow> length frame \<le> AUDIO_MAX_FRAME_SAMPLES \<Longrightarrow>
      append_frame e frame s = (ret, t) \<Longrightarrow> t = s\<lparr>ar_play := ar_play t, appends := appends s + 1\<rparr> \<and>
      takes s [frame] (if ret < -1 then drop_frame t else t)"
begin

lemma play_decoded_takes:
  fixes e :: "'o audio_env"
  assumes "can (length frame) s" "frame \<noteq> []" "length frame \<le> AUDIO_MAX_FRAME_SAMPLES" "fade_in_frames s = 0"
  defines "t \<equiv> play_decoded e frame s"
  shows "takes s [frame] t" "ar_opus t = ar_opus s" "control t = control s" "last_audio_frame_samples t = length frame"
    "ar_crypto t = ar_crypto s"
proof -
  define s1 where "s1 = s\<lparr>s_audio_pkts_decoded := s_audio_pkts_decoded s + 1, last_audio_frame_samples := length frame, fade_in_frames := 0\<rparr>"
  have can: "can (length frame) s1" using can_same [of s1 s] assms(1) by (simp add: s1_def)
  obtain ret u where a: "append_frame e frame s1 = (ret, u)" by fastforce
  have u: "u = s1\<lparr>ar_play := ar_play u, appends := appends s1 + 1\<rparr>" "takes s1 [frame] (if ret < -1 then drop_frame u else u)"
    using takes_append [OF can assms(2,3) a] by blast+
  have eq: "t = (if ret < -1 then drop_frame u else u)"
    using assms a by (simp add: t_def play_decoded_def fade_in_def s1_def Let_def)
  show "takes s [frame] t" using u(2) takes_same [of s1 s t t] by (simp add: eq s1_def)
  show "ar_opus t = ar_opus s" "control t = control s" "last_audio_frame_samples t = length frame" "ar_crypto t = ar_crypto s"
    unfolding eq using assms(4) by (subst u(1), simp add: drop_frame_def s1_def control_def)+
qed

lemma decode_packet_takes:
  assumes "decodes (re_opus e) (ar_opus s) payload frame d'" "can (length frame) s" "undisturbed s" "payload \<noteq> []"
  defines "t \<equiv> decode_packet e payload s"
  shows "takes s [frame] t" "ar_opus t = d'" "control t = control s" "last_audio_frame_samples t = length frame"
    "ar_crypto t = ar_crypto s"
proof -
  define s1 where "s1 = s\<lparr>ar_opus := d', s_last_good_pcm := frame\<rparr>"
  have d: "decode_frame e (Some payload) AUDIO_MAX_FRAME_SAMPLES s = (frame, s\<lparr>ar_opus := d'\<rparr>)"
    "frame \<noteq> []" "length frame \<le> AUDIO_MAX_FRAME_SAMPLES"
    using assms(1) by (simp_all add: decodes_def decode_frame_def)
  have eq: "t = play_decoded e frame s1"
    using assms(3,4) d by (simp add: t_def decode_packet_def recover_in_band_def undisturbed_def s1_def)
  have "can (length frame) s1" "fade_in_frames s1 = 0"
    using can_same [of s1 s] assms(2,3) by (simp_all add: s1_def undisturbed_def)
  note p = play_decoded_takes [OF this(1) d(2,3) this(2), of e]
  show "takes s [frame] t" using p(1) takes_same [of s1 s t t] by (simp add: eq s1_def)
  show "ar_opus t = d'" "control t = control s" "last_audio_frame_samples t = length frame" "ar_crypto t = ar_crypto s"
    using p(2-5) unfolding eq by (simp_all add: s1_def control_def)
qed

lemma noted_takes: "can n s \<Longrightarrow> takes s [] (noted e from_pending p payload s)"
  unfolding noted_def by (rule takes_same [THEN iffD1, OF refl refl _ _ takes_clock]) simp_all

text \<open>A data packet behind a gap that was dealt with.\<close>

lemma data_packet_takes:
  fixes from_pending :: bool
  assumes gap: "handle_gap e (read_be16 p 2) (read_be32 p 4) (noted e from_pending p payload s) = (seen, g)"
    and g: "takes (noted e from_pending p payload s) gs g" "undisturbed g" "decodes (re_opus e) (ar_opus g) data frame d'"
    and can: "can (length (concat gs) + length frame) s" and p: "unwrapped e payload (read_be16 p 2) (ar_crypto g) = Some data"
  defines "t \<equiv> data_packet e from_pending p payload s"
  shows "takes s (gs @ [frame]) t" "ar_opus t = d'" "last_audio_frame_samples t = length frame"
    "control t = (ar_fec g, read_be16 p 2, True, read_be32 p 4, True, seen, 0, 0, False)" "ar_crypto t = ar_crypto g"
proof -
  define g1 where "g1 = g\<lparr>last_audio_seq := read_be16 p 2, have_last_audio_seq := True, last_audio_rtp_ts := read_be32 p 4,
    have_last_audio_rtp := True, fec_between_audio := seen, last_audio_recv_us := re_now_us e\<rparr>"
  have "unwrapped e payload (read_be16 p 2) (ar_crypto g1) = Some data" using p by (simp add: g1_def)
  then obtain n where pl: "play_payload e payload (read_be16 p 2) g1 = decode_packet e data (g1\<lparr>s_audio_crypto_fail_count := n\<rparr>)"
    "data \<noteq> []" by (rule play_unwrapped)
  define g' where "g' = g1\<lparr>s_audio_crypto_fail_count := n\<rparr>"
  have t: "t = decode_packet e data g'"
    using gap pl by (simp add: t_def data_packet_def noted_def note_data_def Let_def g'_def g1_def)
  have n: "takes s gs g" using takes_trans [OF noted_takes [OF can] g(1)] by simp
  have "can (length frame) g" by (rule takes_can [OF n can])
  then have "can (length frame) g'" "undisturbed g'" "ar_opus g' = ar_opus g"
    using can_same [of g' g] g(2) by (simp_all add: g'_def g1_def undisturbed_def)
  note d = decode_packet_takes [OF g(3) [folded this(3)] this(1,2) pl(2)]
  have "takes g [frame] t" using d(1) takes_same [of g' g t t] by (simp add: t g'_def g1_def)
  then show "takes s (gs @ [frame]) t" by (rule takes_trans [OF n])
  show "ar_opus t = d'" "last_audio_frame_samples t = length frame" "ar_crypto t = ar_crypto g"
    using d(2,4,5) by (simp_all add: t g'_def g1_def)
  show "control t = (ar_fec g, read_be16 p 2, True, read_be32 p 4, True, seen, 0, 0, False)"
    using d(3) g(2) by (simp add: t g'_def g1_def control_def undisturbed_def)
qed

text \<open>The same for the packet as a whole; \<open>received\<close> is the state once it is counted.\<close>

lemma counted_packet_takes:
  fixes from_pending :: bool
  assumes pkt: "parse_audio_packet p = Some (off, n)" "p ! 1 AND 0x7F = RTP_PT_AUDIO_OPUS" "drop off (take n p) = payload" "read_be16 p 2 = sq"
    and gap: "handle_gap e sq (read_be32 p 4) (noted e from_pending p payload (received from_pending s)) = (seen, g)"
    and g: "takes (noted e from_pending p payload (received from_pending s)) gs g" "undisturbed g" "decodes (re_opus e) (ar_opus g) data frame d'"
    and can: "can (length (concat gs) + length frame) s" and s: "undisturbed s" "re_enabled e" "unwrapped e payload sq (ar_crypto g) = Some data"
  defines "t \<equiv> audio_packet e from_pending p s"
  shows "takes s (gs @ [frame]) t" "ar_opus t = d'" "last_audio_frame_samples t = length frame"
    "control t = (ar_fec g, sq, True, read_be32 p 4, True, seen, 0, 0, False)" "ar_crypto t = ar_crypto g"
proof -
  define s1 where "s1 = received from_pending s"
  have t: "t = data_packet e from_pending p payload s1"
    using pkt s by (auto simp: t_def audio_packet_def s1_def received_def undisturbed_def Let_def)
  have play: "ar_play s1 = ar_play s" "frames_dropped s1 = frames_dropped s" by (simp_all add: s1_def received_def)
  have can': "can (length (concat gs) + length frame) s1" using can can_same play(1) by blast
  have u: "unwrapped e payload (read_be16 p 2) (ar_crypto g) = Some data" using s(3) pkt(4) by simp
  note d = data_packet_takes [OF gap [folded s1_def pkt(4)] g [folded s1_def] can' u]
  show "takes s (gs @ [frame]) t" using d(1) takes_same [OF play refl refl] by (simp add: t)
  show "ar_opus t = d'" "last_audio_frame_samples t = length frame" "ar_crypto t = ar_crypto g"
    "control t = (ar_fec g, sq, True, read_be32 p 4, True, seen, 0, 0, False)"
    using d(2-5) pkt(4) by (simp_all add: t)
qed

lemma gap_packet_takes:
  fixes from_pending :: bool
  assumes pkt: "sound_packet p sq payload" and gap: "handle_gap e sq (read_be32 p 4) (noted e from_pending p payload (received from_pending s)) = (seen, g)"
    and g: "takes (noted e from_pending p payload (received from_pending s)) gs g" "undisturbed g" "decodes (re_opus e) (ar_opus g) payload frame d'"
    and can: "can (length (concat gs) + length frame) s" and s: "undisturbed s" "re_enabled e" "\<not> re_encrypted e"
  defines "t \<equiv> audio_packet e from_pending p s"
  shows "takes s (gs @ [frame]) t" "ar_opus t = d'" "last_audio_frame_samples t = length frame"
    "control t = (ar_fec g, sq, True, read_be32 p 4, True, seen, 0, 0, False)"
proof -
  obtain off n where o: "parse_audio_packet p = Some (off, n)" "drop off (take n p) = payload"
    using pkt by (auto simp: sound_packet_def split: option.splits)
  have q: "p ! 1 AND 0x7F = RTP_PT_AUDIO_OPUS" "read_be16 p 2 = sq" using pkt by (simp_all add: sound_packet_def)
  have "unwrapped e payload sq (ar_crypto g) = Some payload" using s(3) pkt by (simp add: unwrapped_def sound_packet_def)
  note r = counted_packet_takes [OF o(1) q(1) o(2) q(2) gap g can s(1,2) this]
  show "takes s (gs @ [frame]) t" "ar_opus t = d'" "last_audio_frame_samples t = length frame"
    "control t = (ar_fec g, sq, True, read_be32 p 4, True, seen, 0, 0, False)" unfolding t_def by (fact r)+
qed

lemma next_packet_takes:
  fixes from_pending :: bool
  assumes pkt: "parse_audio_packet p = Some (off, n)" "p ! 1 AND 0x7F = RTP_PT_AUDIO_OPUS" "drop off (take n p) = payload" "read_be16 p 2 = sq"
    and gap: "have_last_audio_seq s \<longrightarrow> media_gap sq (last_audio_seq s) (fec_between_audio s) = 0"
    and d: "decodes (re_opus e) (ar_opus s) data frame d'" and can: "can (length frame) s"
    and s: "undisturbed s" "re_enabled e" "unwrapped e payload sq (ar_crypto s) = Some data"
  defines "t \<equiv> audio_packet e from_pending p s"
  shows "takes s [frame] t" "ar_opus t = d'" "ar_crypto t = ar_crypto s" "undisturbed t" "have_last_audio_seq t"
    "last_audio_seq t = sq" "fec_between_audio t = 0" "a_pending_count (ar_fec t) = a_pending_count (ar_fec s)"
proof -
  define g where "g = noted e from_pending p payload (received from_pending s)"
  have none: "handle_gap e sq (read_be32 p 4) g = (0, g)"
    using gap by (intro no_gap) (simp add: g_def noted_def received_def)
  have "ar_play (received from_pending s) = ar_play s" by (simp add: received_def)
  then have c: "can (length frame) (received from_pending s)" using can can_same by blast
  have "can (length frame) g" using takes_can [OF noted_takes [OF c], of "length frame"] c by (simp add: g_def)
  then have g: "takes g [] g" by (rule takes_none)
  have g': "undisturbed g" "decodes (re_opus e) (ar_opus g) data frame d'" "unwrapped e payload sq (ar_crypto g) = Some data"
    using s(1,3) d by (simp_all add: g_def noted_def received_def undisturbed_def)
  note r = counted_packet_takes [OF pkt none [unfolded g_def] g [unfolded g_def] g'(1,2) [unfolded g_def] _ s(1,2) g'(3) [unfolded g_def]]
  show "takes s [frame] t" "ar_opus t = d'" using r(1,2) can by (simp_all add: t_def)
  show "ar_crypto t = ar_crypto s" using r(5) can by (simp add: t_def noted_def received_def)
  have "control t = (ar_fec g, sq, True, read_be32 p 4, True, 0, 0, 0, False)" using r(4) can by (simp add: t_def g_def)
  then show "undisturbed t" "have_last_audio_seq t" "last_audio_seq t = sq" "fec_between_audio t = 0"
    "a_pending_count (ar_fec t) = a_pending_count (ar_fec s)"
    by (simp_all add: control_def undisturbed_def g_def noted_def received_def note_data_pending)
qed

end

subsection \<open>Accepted or dropped\<close>

interpretation stage: frame_sink ready fed
proof unfold_locales
  show "ar_play t = ar_play s \<Longrightarrow> ready n t = ready n s" for s t :: "'o audio_recv" and n by (simp add: ready_def)
  show "ar_play s' = ar_play s \<Longrightarrow> frames_dropped s' = frames_dropped s \<Longrightarrow> ar_play t' = ar_play t \<Longrightarrow>
      frames_dropped t' = frames_dropped t \<Longrightarrow> fed s' fs t' = fed s fs t" for s s' t t' :: "'o audio_recv" and fs
    by (simp add: fed_def roomy_def)
  show "ready n s \<Longrightarrow> fed s [] s" for s :: "'o audio_recv" and n by (simp add: ready_def fed_still)
  show "ready n s \<Longrightarrow> fed s [] (s\<lparr>ar_play := update_clock l r d prev ts (ar_play s)\<rparr>)" for s :: "'o audio_recv" and n l r d prev ts
    by (rule fed_still) (simp_all add: clock_heard ready_def)
  show "t = s\<lparr>ar_play := ar_play t, appends := appends s + 1\<rparr> \<and> fed s [frame] (if ret < -1 then drop_frame t else t)"
    if frame: "ready (length frame) s" "frame \<noteq> []" "length frame \<le> AUDIO_MAX_FRAME_SAMPLES" "append_frame e frame s = (ret, t)"
    for s t :: "'o audio_recv" and frame e ret
  proof -
    obtain p where p: "t = s\<lparr>ar_play := p, appends := appends s + 1\<rparr>"
      "heard False (ar_play s) (if ret \<ge> 0 then frame else []) p" "ret \<ge> 0 \<or> ret < -1" "roomy (length frame) s \<longrightarrow> ret \<ge> 0"
      using append_frame_result [OF frame(1), of e] frame(2-4) by (metis prod.inject)
    then show ?thesis unfolding fed_def
      by (intro conjI exI [of _ "[ret \<ge> 0]"]) (auto simp: drop_frame_def split: if_splits)
  qed
qed (fact fed_trans fed_ready)+

subsection \<open>A stream without loss\<close>

text \<open>A run: turns of the receiving loop, and turns of the playback thread between them.\<close>

datatype 'o event = Turn "'o audio_env" | Playback play_env

fun event_step :: "'o event \<Rightarrow> 'o audio_recv \<Rightarrow> 'o audio_recv" where
  "event_step (Turn e) s = audio_loop_turn e s"
| "event_step (Playback e) s = s\<lparr>ar_play := audio_play_step e (ar_play s)\<rparr>"

text \<open>What a turn gets from the socket when no packets are queued: it does not look at the socket while a dialog is
  shown or the samples of the stage have no room in the ring.\<close>

definition polled :: "'o audio_env \<Rightarrow> 'o audio_recv \<Rightarrow> u8 list option option" where
  "polled e s =
     (if re_dialog e \<or> s_pcm_stage_count (ar_play s) \<ge> AUDIO_CHUNK_SAMPLES \<and> \<not> fst (audio_flush_stage_to_ring (ar_play s))
      then None else Some (case re_recv e of Some (b # bs) \<Rightarrow> Some (b # bs) | _ \<Rightarrow> None))"

text \<open>The packets that the turns of a run get, in order.\<close>

fun arrivals :: "'o event list \<Rightarrow> 'o audio_recv \<Rightarrow> ('o audio_env \<times> u8 list) list" where
  "arrivals [] s = []"
| "arrivals (Turn e # es) s =
     (case polled e s of Some (Some p) \<Rightarrow> [(e, p)] | _ \<Rightarrow> []) @ arrivals es (audio_loop_turn e s)"
| "arrivals (Playback e # es) s = arrivals es (event_step (Playback e) s)"

text \<open>No empty poll comes so late behind the last sound packet that a quiet network is concealed; with packets of 40 ms
  and more that is never done.\<close>

definition on_time :: "'o audio_env \<Rightarrow> 'o audio_recv \<Rightarrow> bool" where
  "on_time e s \<longleftrightarrow> a_packet_duration_ms (ar_fec s) \<ge> 40 \<or> last_audio_recv_us s = 0 \<or>
     re_now_us e - last_audio_recv_us s < plc_threshold (re_quality e) (a_packet_duration_ms (ar_fec s))"

fun on_schedule :: "'o event list \<Rightarrow> 'o audio_recv \<Rightarrow> bool" where
  "on_schedule [] s \<longleftrightarrow> True"
| "on_schedule (Turn e # es) s \<longleftrightarrow> (polled e s = Some None \<longrightarrow> on_time e s) \<and> on_schedule es (audio_loop_turn e s)"
| "on_schedule (Playback e # es) s \<longleftrightarrow> on_schedule es (event_step (Playback e) s)"

text \<open>A number that shows no loss: behind the last one, apart from the numbers that \<open>k\<close> other packets may have taken.\<close>

definition next_number :: "nat \<Rightarrow> u16 option \<Rightarrow> u16 \<Rightarrow> bool" where
  "next_number k prior sq \<longleftrightarrow> (case prior of None \<Rightarrow> True | Some l \<Rightarrow> sq \<noteq> l \<and> unat (sq - l) \<le> k + 1)"

text \<open>The frames that the packets carry, by themselves: the sound packets are decrypted and decoded in turn, all others
  are passed over. There is no result if a number shows a loss or a payload yields no frame.\<close>

fun reference_frames ::
    "nat \<Rightarrow> u16 option \<Rightarrow> stream_crypto \<Rightarrow> 'o opus_psp \<Rightarrow> ('o audio_env \<times> u8 list) list \<Rightarrow> i16 list list option" where
  "reference_frames k prior c d [] = Some []"
| "reference_frames k prior c d ((e, p) # ps) =
     (if \<not> re_enabled e then reference_frames k prior c d ps
      else case parse_audio_packet p of
          None \<Rightarrow> reference_frames k prior c d ps
        | Some (off, n) \<Rightarrow>
            if p ! 1 AND 0x7F \<noteq> RTP_PT_AUDIO_OPUS then reference_frames (k + 1) prior c d ps
            else if \<not> next_number k prior (read_be16 p 2) then None
            else (case unwrapped e (drop off (take n p)) (read_be16 p 2) c of
                None \<Rightarrow> None
              | Some data \<Rightarrow>
                  (case opus_psp_decode (re_opus e) (Some data) AUDIO_MAX_FRAME_SAMPLES d of
                     (None, _) \<Rightarrow> None
                   | (Some frame, d) \<Rightarrow>
                       if frame = [] \<or> length frame > AUDIO_MAX_FRAME_SAMPLES then None
                       else map_option ((#) frame) (reference_frames 0 (Some (read_be16 p 2)) c d ps))))"

definition last_number :: "'o audio_recv \<Rightarrow> u16 option" where
  "last_number s = (if have_last_audio_seq s then Some (last_audio_seq s) else None)"

text \<open>Nothing is being concealed and nothing was read ahead; \<open>ps\<close> carry the frames \<open>fs\<close> from here on.\<close>

definition carries_on :: "'o audio_recv \<Rightarrow> ('o audio_env \<times> u8 list) list \<Rightarrow> i16 list list \<Rightarrow> bool" where
  "carries_on s ps fs \<longleftrightarrow> undisturbed s \<and> a_pending_count (ar_fec s) = 0 \<and>
     reference_frames (fec_between_audio s) (last_number s) (ar_crypto s) (ar_opus s) ps = Some fs"

lemma carries_on_play [simp]: "carries_on (s\<lparr>ar_play := p\<rparr>) ps fs = carries_on s ps fs"
  by (simp add: carries_on_def undisturbed_def last_number_def)

lemma turn_polled:
  assumes "playback_ok (ar_play s)" "produced (ar_play s) < play_limit" "a_pending_count (ar_fec s) = 0"
  obtains p where "heard False (ar_play s) [] p"
    "audio_loop_turn e s = (case polled e s of None \<Rightarrow> s\<lparr>ar_play := p\<rparr> | Some None \<Rightarrow> snd (no_packet e (s\<lparr>ar_play := p\<rparr>))
       | Some (Some pkt) \<Rightarrow> audio_packet e False pkt (s\<lparr>ar_play := p\<rparr>))"
proof (cases "s_pcm_stage_count (ar_play s) \<ge> AUDIO_CHUNK_SAMPLES")
  case True
  obtain b p where f: "audio_flush_stage_to_ring (ar_play s) = (b, p)" by fastforce
  show thesis
    by (rule that [OF flush_heard [OF assms(1,2) f]])
      (use True f assms(3) in \<open>auto simp: audio_loop_turn_def polled_def audio_pending_pop_def Let_def split: bool.split option.split list.split\<close>)
next
  case False
  then have "audio_loop_turn e s = (case polled e s of None \<Rightarrow> s\<lparr>ar_play := ar_play s\<rparr> | Some None \<Rightarrow> snd (no_packet e (s\<lparr>ar_play := ar_play s\<rparr>))
       | Some (Some pkt) \<Rightarrow> audio_packet e False pkt (s\<lparr>ar_play := ar_play s\<rparr>))"
    using assms(3) by (auto simp: audio_loop_turn_def polled_def audio_pending_pop_def split: option.split list.split)
  then show thesis by (rule that [OF heard_refl [OF assms(1)]])
qed

lemma depth_heard: "playback_ok p \<Longrightarrow> heard clean p [] (p\<lparr>s_effective_ring_depth := of_nat AUDIO_RING_SLOTS\<rparr>)"
  by (intro heardI [of _ _ _ "[]" "[]"])
    (simp_all add: samples_waiting_def chunks_def staged_def produced_def playback_ok_def AUDIO_RING_SLOTS_def)

lemma quiet_fed:
  assumes "playback_ok (ar_play s)" "on_time e s"
  shows "fed s [] (snd (no_packet e s))" "carries_on (snd (no_packet e s)) ps fs = carries_on s ps fs"
proof -
  have t: "time_plc e s = s \<or> time_plc e s = s\<lparr>ar_play := (ar_play s)\<lparr>s_effective_ring_depth := of_nat AUDIO_RING_SLOTS\<rparr>\<rparr>"
    using assms(2) by (auto simp: time_plc_def on_time_def Let_def)
  then show "fed s [] (snd (no_packet e s))"
    using depth_heard [OF assms(1)] assms(1) by (auto simp: no_packet_def Let_def intro!: fed_still)
  show "carries_on (snd (no_packet e s)) ps fs = carries_on s ps fs"
    using t by (auto simp: no_packet_def Let_def carries_on_def undisturbed_def last_number_def)
qed

lemma no_gap_number:
  assumes "next_number k prior sq" "prior = (if b then Some l else None)"
  shows "b \<longrightarrow> media_gap sq l k = 0"
proof
  assume b
  then have "unat (sq - l) \<le> k + 1" using assms by (simp add: next_number_def)
  then have "int (unat (sq - l)) \<le> int k + 1" by linarith
  then show "media_gap sq l k = 0" by (simp add: media_gap_def Let_def)
qed

lemma packet_fed:
  assumes "carries_on s ((e, p) # ps) fs" "ready (length (concat fs)) s"
  obtains gs hs where "fs = gs @ hs" "fed s gs (audio_packet e False p s)" "carries_on (audio_packet e False p s) ps hs"
proof -
  let ?t = "audio_packet e False p s"
  note result = that
  have ok: "playback_ok (ar_play s)" using assms(2) by (simp add: ready_def)
  have s: "undisturbed s" "a_pending_count (ar_fec s) = 0" and ref:
    "reference_frames (fec_between_audio s) (last_number s) (ar_crypto s) (ar_opus s) ((e, p) # ps) = Some fs"
    using assms(1) by (simp_all add: carries_on_def)
  have pass: thesis
    if "ar_play ?t = ar_play s" "frames_dropped ?t = frames_dropped s" "carries_on ?t ps fs"
    using result [of "[]" fs] that fed_still [of s ?t] ok by simp
  consider (off) "\<not> re_enabled e" | (bad) "re_enabled e" "parse_audio_packet p = None"
    | (side) off n where "re_enabled e" "parse_audio_packet p = Some (off, n)" "p ! 1 AND 0x7F \<noteq> RTP_PT_AUDIO_OPUS"
    | (sound) off n where "re_enabled e" "parse_audio_packet p = Some (off, n)" "p ! 1 AND 0x7F = RTP_PT_AUDIO_OPUS"
    by fastforce
  then show thesis
  proof cases
    case off
    then have "?t = received False s" using s(1) by (simp add: audio_packet_def received_def undisturbed_def Let_def)
    then show ?thesis using ref s off
      by (intro pass) (auto simp: received_def carries_on_def undisturbed_def last_number_def split: if_splits)
  next
    case bad
    then have "?t = received False s" using s(1) by (simp add: audio_packet_def received_def undisturbed_def Let_def)
    then show ?thesis using ref s bad
      by (intro pass) (auto simp: received_def carries_on_def undisturbed_def last_number_def split: if_splits)
  next
    case side
    then have "?t = other_packet e False (p ! 1 AND 0x7F) (drop off (take n p)) (received False s)"
      using s(1) by (simp add: audio_packet_def received_def undisturbed_def Let_def)
    then show ?thesis using ref s side
      by (intro pass) (auto simp: other_packet_def received_def carries_on_def undisturbed_def last_number_def cache_keeps_pending split: if_splits)
  next
    case sound
    define sq where "sq = read_be16 p 2"
    have "\<exists>data frame d' hs. next_number (fec_between_audio s) (last_number s) sq \<and>
        unwrapped e (drop off (take n p)) sq (ar_crypto s) = Some data \<and>
        opus_psp_decode (re_opus e) (Some data) AUDIO_MAX_FRAME_SAMPLES (ar_opus s) = (Some frame, d') \<and>
        frame \<noteq> [] \<and> length frame \<le> AUDIO_MAX_FRAME_SAMPLES \<and> fs = frame # hs \<and>
        reference_frames 0 (Some sq) (ar_crypto s) d' ps = Some hs"
      using ref sound by (auto simp: sq_def not_less split: if_splits option.splits prod.splits)
    then obtain data frame d' hs where d: "next_number (fec_between_audio s) (last_number s) sq"
      "unwrapped e (drop off (take n p)) sq (ar_crypto s) = Some data"
      "opus_psp_decode (re_opus e) (Some data) AUDIO_MAX_FRAME_SAMPLES (ar_opus s) = (Some frame, d')"
      "frame \<noteq> []" "length frame \<le> AUDIO_MAX_FRAME_SAMPLES" "fs = frame # hs"
      "reference_frames 0 (Some sq) (ar_crypto s) d' ps = Some hs"
      by blast
    have dec: "decodes (re_opus e) (ar_opus s) data frame d'" using d(3-5) by (simp add: decodes_def)
    have "have_last_audio_seq s \<longrightarrow> media_gap sq (last_audio_seq s) (fec_between_audio s) = 0"
      by (rule no_gap_number [OF d(1) last_number_def])
    moreover have "ready (length frame) s" using assms(2) d(6) by (simp add: ready_def)
    ultimately have t: "fed s [frame] ?t" "ar_opus ?t = d'" "ar_crypto ?t = ar_crypto s" "undisturbed ?t"
      "have_last_audio_seq ?t" "last_audio_seq ?t = sq" "fec_between_audio ?t = 0" "a_pending_count (ar_fec ?t) = 0"
      using stage.next_packet_takes [OF sound(2,3) refl refl, of s e data frame d' False] s d(2) dec sound(1)
      unfolding sq_def [symmetric] by simp_all
    then show ?thesis using d(7) by (intro result [of "[frame]" hs]) (simp_all add: d(6) carries_on_def last_number_def)
  qed
qed

lemma turn_fed:
  assumes "carries_on s ((case polled e s of Some (Some p) \<Rightarrow> [(e, p)] | _ \<Rightarrow> []) @ ps) fs" "ready (length (concat fs)) s"
    and "polled e s = Some None \<longrightarrow> on_time e s"
  obtains gs hs where "fs = gs @ hs" "fed s gs (audio_loop_turn e s)" "carries_on (audio_loop_turn e s) ps hs"
proof -
  note result = that
  have ok: "playback_ok (ar_play s)" "produced (ar_play s) < play_limit" using assms(2) by (simp_all add: ready_def)
  have "a_pending_count (ar_fec s) = 0" using assms(1) by (simp add: carries_on_def)
  from turn_polled [OF ok this, of e] obtain p where p: "heard False (ar_play s) [] p" and
    t: "audio_loop_turn e s = (case polled e s of None \<Rightarrow> s\<lparr>ar_play := p\<rparr> | Some None \<Rightarrow> snd (no_packet e (s\<lparr>ar_play := p\<rparr>))
       | Some (Some pkt) \<Rightarrow> audio_packet e False pkt (s\<lparr>ar_play := p\<rparr>))" by blast
  have f: "fed s [] (s\<lparr>ar_play := p\<rparr>)" by (rule fed_still) (use p in simp_all)
  note ready = fed_ready [OF f, of "length (concat fs)"]
  consider "polled e s = None" | "polled e s = Some None" | pkt where "polled e s = Some (Some pkt)" by fastforce
  then show thesis
  proof cases
    case 1
    then show ?thesis using result [of "[]" fs] f t assms(1) by simp
  next
    case 2
    then have "playback_ok (ar_play (s\<lparr>ar_play := p\<rparr>))" "on_time e (s\<lparr>ar_play := p\<rparr>)"
      using ready assms(2,3) by (simp_all add: ready_def on_time_def)
    note q = quiet_fed [OF this]
    show ?thesis using result [of "[]" fs] fed_trans [OF f q(1)] q(2) t 2 assms(1) by simp
  next
    case 3
    then have "carries_on (s\<lparr>ar_play := p\<rparr>) ((e, pkt) # ps) fs" "ready (length (concat fs)) (s\<lparr>ar_play := p\<rparr>)"
      using assms(1,2) ready by simp_all
    from packet_fed [OF this] obtain gs hs where "fs = gs @ hs" "fed (s\<lparr>ar_play := p\<rparr>) gs (audio_loop_turn e s)"
      "carries_on (audio_loop_turn e s) ps hs" using t 3 by auto
    then show ?thesis using result fed_trans [OF f] by fastforce
  qed
qed

text \<open>The property C32: a stream without loss. In a run of the receiving loop and the playback thread, in any
  interleaving, let the numbers of the sound packets that are read show no loss - each follows the one before it, apart
  from numbers that the other packets read since may have taken - and let no empty poll come so late that
  a quiet network is concealed. Then exactly the frames that these packets carry, decrypted when the stream is encrypted,
  enter the stage, in order, each once and whole, or dropped and counted: nothing is rebuilt, concealed or faded. None is
  dropped while the samples waiting and those that come fit the ring. The run starts with nothing being concealed and no packets read ahead.\<close>

theorem sound_without_loss:
  assumes "carries_on s (arrivals es s) fs" "ready (length (concat fs)) s" "on_schedule es s"
  shows "fed s fs (fold event_step es s)"
  using assms
proof (induction es arbitrary: s fs)
  case Nil
  then show ?case by (auto simp: carries_on_def ready_def intro!: fed_still)
next
  case (Cons ev es)
  obtain gs hs where t: "fs = gs @ hs" "fed s gs (event_step ev s)" "carries_on (event_step ev s) (arrivals es (event_step ev s)) hs"
    and o: "on_schedule es (event_step ev s)"
  proof (cases ev)
    case (Turn e)
    then show thesis using turn_fed [of s e "arrivals es (event_step ev s)" fs] Cons.prems that by auto
  next
    case (Playback e)
    have "fed s [] (event_step ev s)"
      using Cons.prems(2) step_heard [of "ar_play s" e] Playback
      by (auto simp: ready_def intro!: fed_still elim: heard_weaken)
    then show thesis using Cons.prems that [of "[]" fs] Playback by simp
  qed
  have "ready (length (concat hs)) (event_step ev s)" using fed_ready [OF t(2)] Cons.prems(2) t(1) by simp
  then show ?case using fed_trans [OF t(2) Cons.IH [OF t(3) _ o]] t(1) by simp
qed

subsection \<open>An example\<close>

text \<open>A decoder that makes 240 samples of everything, three sound packets and a parity packet.\<close>

definition tone :: "unit opus_lib" where
  "tone = \<lparr>decoder_get_size = (\<lambda>_ _. 1), decoder_init = (\<lambda>_ _ _ _. Some ()),
     multistream_decode = (\<lambda>_ _ _ _. (Some (replicate 240 5), ()))\<rparr>"

definition tone_decoder :: "unit opus_psp" where
  "tone_decoder = \<lparr>s_decoder = Some (), s_channels = 1, opus_initialized = True, s_last_frame_size = 240\<rparr>"

definition tone_env :: "unit audio_env" where
  "tone_env = \<lparr>re_now_us = 1, re_dialog = False, re_enabled = True, re_encrypted = False, re_key_id = 0,
     re_teardown = False, re_playing = True, re_sync = True, re_quality = 0, re_recv = None, re_drain = [],
     re_delays = (\<lambda>_. []), re_opus = tone, re_crypto = refusing\<rparr>"

definition tone_packet :: "u8 \<Rightarrow> u8 list" where
  "tone_packet k = [0x80, 97, 0, k, 0, 0, 0, 5 * k, 0, 0, 0, 7, 1]"

definition tone_parity :: "u8 list" where
  "tone_parity = [0x80, 127, 0, 4, 0, 0, 0, 0, 0, 0, 0, 7] @ [0, 97, 0, 0, 0, 0, 0, 0, 0, 0, 0, 7] @ [3]"

lemma tone_sound: "sound_packet (tone_packet k) (ucast k) [1]"
  by (simp add: sound_packet_def tone_packet_def parse_audio_packet_def RTP_HDR_SIZE_def RTP_PT_AUDIO_OPUS_def
      read_be16_def Let_def)

lemma tone_decodes: "decodes tone tone_decoder w (replicate 240 5) tone_decoder"
  by (simp add: decodes_def opus_psp_decode_def tone_def tone_decoder_def AUDIO_MAX_FRAME_SAMPLES_def)

definition tone_start :: "unit audio_recv" where
  "tone_start = audio_recv_init stream_crypto_zero tone_decoder"

lemma tone_parsed:
  "parse_audio_packet (tone_packet k) = Some (12, 13)" "tone_packet k ! 1 AND 0x7F = RTP_PT_AUDIO_OPUS"
  "read_be16 (tone_packet k) 2 = ucast k" "drop 12 (take 13 (tone_packet k)) = [1]" "length (tone_packet k) = 13"
  by (simp_all add: tone_packet_def parse_audio_packet_def RTP_HDR_SIZE_def RTP_PT_AUDIO_OPUS_def read_be16_def Let_def)

lemma parity_parsed: "parse_audio_packet tone_parity = Some (12, 25)" "tone_parity ! 1 AND 0x7F \<noteq> RTP_PT_AUDIO_OPUS"
  by (simp_all add: tone_parity_def parse_audio_packet_def RTP_HDR_SIZE_def RTP_PT_AUDIO_OPUS_def Let_def)

text \<open>While less than a chunk was produced in all, every turn without a dialog looks at the socket.\<close>

fun sent :: "'o event list \<Rightarrow> ('o audio_env \<times> u8 list) list" where
  "sent [] = []"
| "sent (Turn e # es) = (e, the (re_recv e)) # sent es"
| "sent (Playback e # es) = sent es"

fun prompt :: "'o event \<Rightarrow> bool" where
  "prompt (Turn e) \<longleftrightarrow> \<not> re_dialog e \<and> re_recv e \<noteq> None \<and> re_recv e \<noteq> Some []"
| "prompt (Playback e) \<longleftrightarrow> True"

lemma small_run:
  assumes "carries_on s (sent es) fs" "ready 0 s" "produced (ar_play s) + length (concat fs) < AUDIO_CHUNK_SAMPLES" "\<forall>ev\<in>set es. prompt ev"
  shows "arrivals es s = sent es \<and> on_schedule es s"
  using assms
proof (induction es arbitrary: s fs)
  case (Cons ev es)
  have limit: "AUDIO_CHUNK_SAMPLES < play_limit" by (simp add: play_limit_def AUDIO_CHUNK_SAMPLES_def)
  have small: "ready 0 t \<and> produced (ar_play t) + length (concat hs) < AUDIO_CHUNK_SAMPLES"
    if "fed s gs t" "fs = gs @ hs" for gs hs t
  proof -
    note f = that
    obtain ks where h: "heard False (ar_play s) (accepted ks gs) (ar_play t)" using f(1) by (auto simp: fed_def)
    have "produced (ar_play t) \<le> produced (ar_play s) + length (concat gs)"
      using h accepted_length [of ks gs] by (auto simp: heard_def)
    then show ?thesis using h Cons.prems(3) f(2) limit by (auto simp: ready_def heard_def)
  qed
  show ?case
  proof (cases ev)
    case (Turn e)
    have "s_pcm_stage_count (ar_play s) < AUDIO_CHUNK_SAMPLES" using Cons.prems(3) by (simp add: produced_def)
    then have pol: "polled e s = Some (re_recv e)"
      using Cons.prems(4) Turn by (auto simp: polled_def split: option.split list.split)
    obtain p where p: "re_recv e = Some p" using Cons.prems(4) Turn by auto
    have "ready (length (concat fs)) s" using Cons.prems(2,3) limit by (simp add: ready_def)
    then obtain gs hs where t: "fs = gs @ hs" "fed s gs (audio_loop_turn e s)" "carries_on (audio_loop_turn e s) (sent es) hs"
      using turn_fed [of s e "sent es" fs] Cons.prems(1) pol p Turn by auto
    then show ?thesis using Cons.IH [OF t(3)] small [OF t(2,1)] Cons.prems(4) pol p Turn by simp
  next
    case (Playback e)
    have "fed s [] (event_step ev s)"
      using Cons.prems(2) step_heard [of "ar_play s" e] Playback
      by (auto simp: ready_def intro!: fed_still elim: heard_weaken)
    from small [OF this, of fs] show ?thesis
      using Cons.IH [of "event_step ev s" fs] Cons.prems Playback by simp
  qed
qed simp

text \<open>An empty poll, then the sound packets 3 and 5 with a parity packet between them that may have taken number 4.\<close>

definition tone_turn :: "u8 list option \<Rightarrow> unit event" where
  "tone_turn p = Turn (tone_env\<lparr>re_recv := p\<rparr>)"

definition tone_run :: "unit event list" where
  "tone_run = [tone_turn (Some (tone_packet 3)), tone_turn (Some tone_parity), Playback trim_env, tone_turn (Some (tone_packet 5))]"

theorem sound_without_loss_witness:
  "fed tone_start [replicate 240 5, replicate 240 5] (fold event_step (tone_turn None # tone_run) tone_start)"
proof -
  let ?fs = "[replicate 240 5, replicate 240 5] :: i16 list list" and ?s = "tone_start\<lparr>consecutive_empty := 1\<rparr>"
  have poll: "audio_loop_turn (tone_env\<lparr>re_recv := None\<rparr>) tone_start = ?s" "polled (tone_env\<lparr>re_recv := None\<rparr>) tone_start = Some None"
    "last_audio_recv_us tone_start = 0"
    by (simp_all add: audio_loop_turn_def polled_def tone_env_def tone_start_def audio_recv_init_def playback_init_def AUDIO_CHUNK_SAMPLES_def
        audio_pending_pop_def audio_fec_zero_def audio_rtp_fec_reset_def no_packet_def time_plc_def Let_def)
  have "decodes tone tone_decoder [1] (replicate 240 5) tone_decoder" by (rule tone_decodes)
  then have c: "carries_on ?s (sent tone_run) ?fs" "carries_on tone_start (sent tone_run) ?fs"
    using tone_parsed [of 3] tone_parsed [of 5] parity_parsed
    by (simp_all add: carries_on_def undisturbed_def last_number_def tone_run_def tone_turn_def tone_env_def tone_start_def
        audio_recv_init_def audio_fec_zero_def audio_rtp_fec_reset_def next_number_def unwrapped_def decodes_def)
  have r: "ready (length (concat ?fs)) tone_start" "ready 0 ?s" "produced (ar_play ?s) = 0"
    by (simp_all add: ready_def tone_start_def audio_recv_init_def playback_init_ok AUDIO_RING_SLOTS_def play_limit_def AUDIO_CHUNK_SAMPLES_def)
  have "\<forall>ev\<in>set tone_run. prompt ev"
    by (simp add: tone_run_def tone_turn_def tone_env_def tone_packet_def tone_parity_def)
  then have "arrivals tone_run ?s = sent tone_run \<and> on_schedule tone_run ?s"
    using small_run [OF c(1) r(2)] r(3) by (simp add: AUDIO_CHUNK_SAMPLES_def)
  then show ?thesis
    using sound_without_loss [of tone_start "tone_turn None # tone_run" ?fs] c(2) r(1) poll
    by (simp add: tone_turn_def on_time_def)
qed

end
