(* ===== verification/AudioReceiveLate.thy ===== *)
theory AudioReceiveLate
  imports AudioReceiveCorrect AudioFecCorrect
begin

text \<open>
  A sound packet that comes late, and is found by the look-ahead that is there to find it, is heard twice, and so is
  the packet it was late for: the look-ahead puts it into the block cache, where it counts as recovered, and
  into the queue, from where it is played again as if it were new; the number of the last packet then goes back,
  and the next packet seems to be behind a gap that the cache can fill.
\<close>

subsection \<open>Frames that fit the ring\<close>

text \<open>The samples are behind those waiting; a time scale once found stays.\<close>

definition stored :: "'o audio_recv \<Rightarrow> i16 list list \<Rightarrow> 'o audio_recv \<Rightarrow> bool" where
  "stored s fs t \<longleftrightarrow> playback_ok (ar_play t) \<and> s_effective_ring_depth (ar_play t) = s_effective_ring_depth (ar_play s) \<and>
     samples_waiting (ar_play t) = samples_waiting (ar_play s) @ concat fs \<and>
     produced (ar_play t) = produced (ar_play s) + length (concat fs) \<and>
     (s_rtp_timestamp_scale (ar_play s) \<noteq> 0 \<longrightarrow> s_rtp_timestamp_scale (ar_play t) = s_rtp_timestamp_scale (ar_play s))"

lemma append_room:
  assumes "roomy (length frame) s" "frame \<noteq> []" "length frame \<le> AUDIO_MAX_FRAME_SAMPLES"
  obtains p where "append_frame e frame s = (0, s\<lparr>ar_play := p, appends := appends s + 1\<rparr>)"
    "stored s [frame] (s\<lparr>ar_play := p, appends := appends s + 1\<rparr>)"
proof -
  let ?p = "ar_play s"
  have r: "playback_ok ?p" "produced ?p + length frame < play_limit" "s_effective_ring_depth ?p = of_nat AUDIO_RING_SLOTS"
    "length (samples_waiting ?p) + length frame \<le> AUDIO_RING_SLOTS * AUDIO_CHUNK_SAMPLES"
    using assms(1) by (simp_all add: roomy_def)
  obtain p1 where w: "wait_for_room (length frame) 0 (map (fold audio_play_step) (re_delays e (appends s))) ?p = (True, p1)"
    and p1: "playback_ok p1" "samples_waiting p1 = samples_waiting ?p" "produced p1 = produced ?p" "rest p1 = rest ?p"
      "s_pcm_stage_count p1 + length frame \<le> AUDIO_STAGE_CAPACITY"
    using wait_room [OF r(1) _ r(3) _ assms(3)] r(2,4) by (metis add_lessD1 add_leD1)
  define p2 where "p2 = p1\<lparr>s_pcm_stage := take (s_pcm_stage_count p1) (s_pcm_stage p1) @ frame
        @ drop (s_pcm_stage_count p1 + length frame) (s_pcm_stage p1),
      s_pcm_stage_count := s_pcm_stage_count p1 + length frame\<rparr>"
  have a: "playback_ok p2 \<and> produced p2 = produced ?p + length frame \<and> samples_waiting p2 = samples_waiting ?p @ frame"
    using staged_appended [OF p1(1,5) p2_def, of False] p1(2,3)
    by (auto simp: p2_def heard_def produced_def samples_waiting_def chunks_def staged_def playback_ok_def)
  have "rest p2 = rest ?p" using p1(4) by (simp add: p2_def rest_def)
  note d = rest_same(6,7) [OF this]
  obtain b q where f: "audio_flush_stage_to_ring p2 = (b, q)" by fastforce
  have q: "playback_ok q" "samples_waiting q = samples_waiting p2" "produced q = produced p2" "rest q = rest p2"
    using flush_ok [OF _ _ f] a r(2) by simp_all
  have "b" using flush_room [of p2] a r d f by simp
  then have "append_frame e frame s = (0, s\<lparr>ar_play := q, appends := appends s + 1\<rparr>)"
    using w f assms(2,3)
    by (simp add: append_frame_def audio_stage_append_and_flush_def p2_def AUDIO_STAGE_CAPACITY_def)
  moreover have "stored s [frame] (s\<lparr>ar_play := q, appends := appends s + 1\<rparr>)"
    using q a d rest_same [OF q(4)] by (simp add: stored_def)
  ultimately show thesis by (rule that)
qed

lemma update_clock_stored:
  assumes "roomy n s"
  shows "stored s [] (s\<lparr>ar_play := update_clock l r d prev ts (ar_play s)\<rparr>)"
proof -
  let ?q = "update_clock l r d prev ts (ar_play s)"
  have "ring_of ?q = ring_of (ar_play s)" by (auto simp: update_clock_def ring_of_def Let_def split: option.split)
  note r = ring_of_same [OF this] and d = this
  have "s_effective_ring_depth ?q = s_effective_ring_depth (ar_play s)" using d by (simp add: ring_of_def)
  moreover have "s_rtp_timestamp_scale (ar_play s) \<noteq> 0 \<Longrightarrow> s_rtp_timestamp_scale ?q = s_rtp_timestamp_scale (ar_play s)"
    by (auto simp: update_clock_def Let_def)
  ultimately show ?thesis using r assms by (simp add: stored_def roomy_def)
qed

interpretation hall: frame_sink roomy stored
proof unfold_locales
  show "ar_play t = ar_play s \<Longrightarrow> roomy n t = roomy n s" for s t :: "'o audio_recv" and n by (simp add: roomy_def)
  show "ar_play s' = ar_play s \<Longrightarrow> frames_dropped s' = frames_dropped s \<Longrightarrow> ar_play t' = ar_play t \<Longrightarrow>
      frames_dropped t' = frames_dropped t \<Longrightarrow> stored s' fs t' = stored s fs t" for s s' t t' :: "'o audio_recv" and fs
    by (simp add: stored_def)
  show "stored s fs t \<Longrightarrow> stored t gs u \<Longrightarrow> stored s (fs @ gs) u" for s t u :: "'o audio_recv" and fs gs
    by (simp add: stored_def)
  show "stored s fs t \<Longrightarrow> roomy (length (concat fs) + n) s \<Longrightarrow> roomy n t" for s t :: "'o audio_recv" and fs n
    by (simp add: stored_def roomy_def)
  show "roomy n s \<Longrightarrow> stored s [] s" for s :: "'o audio_recv" and n by (simp add: roomy_def stored_def)
  show "t = s\<lparr>ar_play := ar_play t, appends := appends s + 1\<rparr> \<and> stored s [frame] (if ret < -1 then drop_frame t else t)"
    if frame: "roomy (length frame) s" "frame \<noteq> []" "length frame \<le> AUDIO_MAX_FRAME_SAMPLES" "append_frame e frame s = (ret, t)"
    for s t :: "'o audio_recv" and frame e ret
    using append_room [OF frame(1-3), of e] frame(4) by fastforce
qed (fact update_clock_stored)

subsection \<open>The block cache\<close>

definition pending_of :: "audio_fec \<Rightarrow> pending_packet list \<times> nat \<times> nat" where
  "pending_of a = (a_pending a, a_pending_head a, a_pending_count a)"

definition spare :: "u16 \<Rightarrow> audio_fec \<Rightarrow> bool" where
  "spare base a \<longleftrightarrow> (\<exists>b\<in>set (a_blocks a). \<not> ab_valid b) \<and> (\<forall>b\<in>set (a_blocks a). \<not> (ab_valid b \<and> ab_base_seq b = base))"

lemma cached_same:
  "a_blocks a' = a_blocks a \<Longrightarrow> a_rs_ctx a' = a_rs_ctx a \<Longrightarrow> a_work a' = a_work a \<Longrightarrow> cached base ssrc W S a' = cached base ssrc W S a"
  by (simp add: cached_def audio_context_ok_def cong: option.case_cong)

lemma cache_shard_pending: "pending_of (cache_shard k base ts ssrc pt w now a) = pending_of a"
  by (auto simp: pending_of_def cache_shard_def split: prod.split option.split)

lemma cache_pending:
  "pending_of (audio_rtp_fec_cache_data p w now a) = pending_of a" "pending_of (audio_rtp_fec_cache_parity w now a) = pending_of a"
  by (auto simp: audio_rtp_fec_cache_data_def audio_rtp_fec_cache_parity_def cache_shard_pending Let_def)

lemma shard_length:
  assumes "audio_sent base W" "k < 6"
  shows "length (W ! k) = length (W ! 0)" "0 < length (W ! 0)" "length (W ! 0) \<le> AUDIO_MAX_RTP_SIZE"
proof -
  have "length W = 6" "\<forall>w\<in>set W. length w = length (W ! 0)" "0 < length (W ! 0)" "length (W ! 0) \<le> AUDIO_MAX_RTP_SIZE"
    using assms(1) unfolding audio_sent_def by blast+
  then show "length (W ! k) = length (W ! 0)" "0 < length (W ! 0)" "length (W ! 0) \<le> AUDIO_MAX_RTP_SIZE"
    using assms(2) by (metis nth_mem)+
qed

text \<open>A shard of a block that is there leaves the other blocks alone.\<close>

lemma cache_shard_local:
  assumes "cached base ssrc W S a" "S \<noteq> {}" "audio_sent base W" "k < 6"
  shows "\<exists>i b. i < 8 \<and> ab_valid (a_blocks a ! i) \<and> a_blocks (cache_shard k base ts ssrc RTP_PT_AUDIO_OPUS (W ! k) now a) = (a_blocks a)[i := b]
    \<and> ab_valid b \<and> ab_base_seq b = base"
proof -
  let ?bs = "a_blocks a"
  obtain i where i: "find_block base 0 ?bs = Some i" and h: "holds base ssrc W S (?bs ! i)" and len: "length ?bs = 8"
    using assms(1,2) by (auto simp: cached_def split: option.splits)
  have l: "i < 8" using find_block_Some [OF i] len by simp
  have n: "W ! k \<noteq> []" "length (W ! k) \<le> AUDIO_MAX_RTP_SIZE" "length (W ! k) = ab_block_size (?bs ! i)"
    using shard_length [OF assms(3,4)] h by (auto simp: holds_def)
  let ?b = "(?bs ! i)\<lparr>ab_last_use := now\<rparr>"
  have g: "audio_rtp_fec_get_block base ts ssrc RTP_PT_AUDIO_OPUS (length (W ! k)) now ?bs = (Some i, ?bs[i := ?b])"
    using i n h shard_length(2) [OF assms(3,4)] by (simp add: audio_rtp_fec_get_block_def holds_def Let_def)
  have v: "ab_valid (store_shard k (W ! k) ?b) \<and> ab_base_seq (store_shard k (W ! k) ?b) = base"
    using h by (simp add: store_shard_def holds_def Let_def)
  have "a_blocks (cache_shard k base ts ssrc RTP_PT_AUDIO_OPUS (W ! k) now a) =
      ?bs[i := (if ab_marks ?b ! k = 0 then ?b else store_shard k (W ! k) ?b)]"
    using g l len by (simp add: cache_shard_def)
  then show ?thesis using l v h by (intro exI conjI) (auto simp: holds_def)
qed

lemma spare_local:
  assumes "spare base' a" "a_blocks a' = (a_blocks a)[i := b]" "ab_valid (a_blocks a ! i)" "ab_valid b" "ab_base_seq b \<noteq> base'" "i < length (a_blocks a)"
  shows "spare base' a'"
proof -
  obtain j where j: "j < length (a_blocks a)" "\<not> ab_valid (a_blocks a ! j)" using assms(1) by (auto simp: spare_def in_set_conv_nth)
  then have "j \<noteq> i" using assms(3) by blast
  then have "(a_blocks a') ! j = a_blocks a ! j" "j < length (a_blocks a')" using assms(2) j by simp_all
  then have "\<exists>b\<in>set (a_blocks a'). \<not> ab_valid b" using j by (metis nth_mem)
  moreover have "\<forall>b\<in>set (a_blocks a'). \<not> (ab_valid b \<and> ab_base_seq b = base')"
    using assms by (auto simp: spare_def dest!: set_update_subset_insert [THEN subsetD])
  ultimately show ?thesis by (simp add: spare_def)
qed

text \<open>A data packet of the block.\<close>

definition block_packet :: "u16 \<Rightarrow> u32 \<Rightarrow> u8 list list \<Rightarrow> nat \<Rightarrow> u8 list \<Rightarrow> bool" where
  "block_packet base ssrc W k p \<longleftrightarrow> k < 4 \<and> read_be16 p 2 = base + of_nat k \<and> read_be32 p 8 = ssrc"

lemma cache_data_shard:
  assumes "block_packet base ssrc W k p" "audio_sent base W"
  shows "\<exists>ts. audio_rtp_fec_cache_data p (W ! k) now a = cache_shard k base ts ssrc RTP_PT_AUDIO_OPUS (W ! k) now a"
proof -
  have base: "base AND 3 = 0" using assms(2) unfolding audio_sent_def by blast
  obtain m where m: "(if a_packet_duration_ms a < 5 \<or> a_packet_duration_ms a > 60 then 10
      else a_packet_duration_ms a) = m" "5 \<le> m" by fastforce
  then have "48000 * nat m div 1000 \<noteq> 0" by simp
  then show ?thesis
    using assms(1) m(1) base_of_seq [OF base, of k]
    by (simp add: block_packet_def audio_rtp_fec_cache_data_def Let_def AUDIO_SAMPLE_RATE_def AUDIO_RTP_FEC_DATA_SHARDS_def)
      blast
qed

lemma cache_block_packet:
  assumes "block_packet base ssrc W k p" "audio_sent base W" "cached base ssrc W S a" "S \<noteq> {}" "spare base' a" "base' \<noteq> base"
  shows "cached base ssrc W (insert k S) (audio_rtp_fec_cache_data p (W ! k) now a)"
    "spare base' (audio_rtp_fec_cache_data p (W ! k) now a)"
proof -
  have k: "k < 6" using assms(1) by (simp add: block_packet_def)
  obtain ts where c: "audio_rtp_fec_cache_data p (W ! k) now a = cache_shard k base ts ssrc RTP_PT_AUDIO_OPUS (W ! k) now a"
    using cache_data_shard [OF assms(1,2)] by blast
  show "cached base ssrc W (insert k S) (audio_rtp_fec_cache_data p (W ! k) now a)"
    unfolding c by (rule cached_step [OF assms(3,2) k])
  have "length (a_blocks a) = 8" using assms(3) by (simp add: cached_def)
  then show "spare base' (audio_rtp_fec_cache_data p (W ! k) now a)"
    using cache_shard_local [OF assms(3,4,2) k, of ts now] spare_local [OF assms(5)] assms(6) unfolding c by metis
qed

text \<open>A complete block gives back its packets, a block that is not there none.\<close>

lemma recover_complete:
  assumes "cached base ssrc W S a" "{..<4} \<subseteq> S" "audio_sent base W" "pos < 4"
  shows "audio_rtp_fec_recover_payload (base + of_nat pos) a = (Some (W ! pos), a)"
proof -
  have "0 \<in> S" using assms(2) by auto
  obtain i where i: "find_block base 0 (a_blocks a) = Some i" and h: "holds base ssrc W S (a_blocks a ! i)" and S: "S \<subseteq> {..<6}"
    using assms(1) \<open>0 \<in> S\<close> by (auto simp: cached_def split: option.splits)
  let ?b = "a_blocks a ! i"
  have m: "ab_marks ?b ! k = 0" if "k < 4" for k using h assms(2) that unfolding holds_def by force
  then have "missing_data ?b = 0" by (simp add: missing_data_def AUDIO_RTP_FEC_DATA_SHARDS_def filter_empty_conv)
  then have c: "audio_rtp_fec_complete ?b a = (0, ?b, a)" using h by (simp add: audio_rtp_fec_complete_def holds_def)
  have base: "base AND 3 = 0" using assms(3) unfolding audio_sent_def by blast
  have "pos \<in> S" "pos < 6" using assms(2,4) by auto
  then have "take (ab_block_size ?b) (ab_data ?b ! pos) = W ! pos"
  proof -
    have "block_shard ?b pos = W ! pos" "length (ab_data ?b) = 4"
      using h \<open>pos \<in> S\<close> \<open>pos < 6\<close> unfolding holds_def block_sized_def by blast+
    then show ?thesis using assms(4) by (simp add: block_shard_def nth_append)
  qed
  then show ?thesis using i c m [OF assms(4)] base_of_seq [OF base assms(4)] assms(4)
    by (simp add: audio_rtp_fec_recover_payload_def AUDIO_RTP_FEC_DATA_SHARDS_def)
qed

lemma recover_absent:
  assumes "spare base a" "base AND 3 = 0"
  shows "audio_rtp_fec_recover_payload base a = (None, a)"
proof -
  have "audio_fec_base_seq base = base" using base_of_seq(1) [OF assms(2), of 0] by simp
  moreover have "find_block base 0 (a_blocks a) = None" using assms(1) find_block_None by (simp add: spare_def)
  ultimately show ?thesis by (simp add: audio_rtp_fec_recover_payload_def)
qed

text \<open>A packet of a new block takes a free place.\<close>

lemma pick_free:
  "\<exists>b\<in>set bs. \<not> ab_valid b \<Longrightarrow> pick_block i p bs = Some j \<Longrightarrow> i \<le> j \<and> j < i + length bs \<and> \<not> ab_valid (bs ! (j - i))"
proof (induction i p bs rule: pick_block.induct)
  case (2 i p b bs)
  show ?case
  proof (cases "ab_valid b")
    case True
    then have "\<exists>b\<in>set bs. \<not> ab_valid b" using 2(2) by simp
    from 2(1) [OF _ this] True 2(3) have "i + 1 \<le> j \<and> j < i + 1 + length bs \<and> \<not> ab_valid (bs ! (j - (i + 1)))" by simp
    then show ?thesis by (auto simp: nth_Cons' Suc_diff_le)
  qed (use 2(3) in auto)
qed simp

lemma find_block_elsewhere:
  "find_block base i bs = Some k \<Longrightarrow> j \<noteq> k - i \<Longrightarrow> ab_base_seq b \<noteq> base \<Longrightarrow> find_block base i (bs[j := b]) = Some k"
proof (induction bs arbitrary: i j)
  case (Cons c bs)
  show ?case
  proof (cases j)
    case 0
    have "find_block base (i + 1) bs = Some k" using Cons.prems 0 by (auto split: if_splits)
    then show ?thesis using Cons.prems 0 by simp
  next
    case (Suc m)
    show ?thesis
    proof (cases "ab_valid c \<and> ab_base_seq c = base")
      case True
      then show ?thesis using Cons.prems Suc by simp
    next
      case False
      then have f: "find_block base (i + 1) bs = Some k" using Cons.prems(1) by (auto split: if_splits)
      have "i + 1 \<le> k" using find_block_Some [OF f] by simp
      then have "m \<noteq> k - (i + 1)" using Cons.prems(2) Suc by auto
      from Cons.IH [OF f this Cons.prems(3)] show ?thesis using False Suc by auto
    qed
  qed
qed simp

lemma cache_new_block:
  assumes "cached base ssrc W S a" "S \<noteq> {}" "spare base' a" "base' \<noteq> base" "length w \<le> AUDIO_MAX_RTP_SIZE" "k < 6"
  shows "cached base ssrc W S (cache_shard k base' ts ssrc' pt w now a)"
proof -
  let ?bs = "a_blocks a"
  obtain i where i: "find_block base 0 ?bs = Some i" and h: "holds base ssrc W S (?bs ! i)" and c: "S \<subseteq> {..<6}"
    "audio_context_ok a" "length ?bs = 8" "\<forall>b\<in>set ?bs. block_sized b"
    using assms(1,2) by (auto simp: cached_def split: option.splits)
  show ?thesis
  proof (cases "w = []")
    case True
    then show ?thesis using assms(1) by (simp add: cache_shard_def audio_rtp_fec_get_block_def)
  next
    case False
    have "find_block base' 0 ?bs = None" using assms(3) find_block_None by (simp add: spare_def)
    moreover have "?bs \<noteq> []" using c(3) by auto
    ultimately obtain j where j: "pick_block 0 None ?bs = Some j" using pick_block_Some by blast
    have free: "j < 8" "\<not> ab_valid (?bs ! j)" using pick_free [OF _ j] assms(3) c(3) by (auto simp: spare_def)
    let ?b = "fresh_audio_block base' ts ssrc' pt (length w) now (?bs ! j)"
    have g: "audio_rtp_fec_get_block base' ts ssrc' pt (length w) now ?bs = (Some j, ?bs[j := ?b])"
      using \<open>find_block base' 0 ?bs = None\<close> j False assms(5) by (simp add: audio_rtp_fec_get_block_def take_block_def)
    have "j \<noteq> i" using free find_block_Some [OF i] by auto
    define b where "b = (if ab_marks ?b ! k = 0 then ?b else store_shard k w ?b)"
    have e: "cache_shard k base' ts ssrc' pt w now a = a\<lparr>a_blocks := ?bs[j := b]\<rparr>"
      using g free c(3) by (simp add: cache_shard_def b_def)
    have "ab_base_seq b = base'" by (simp add: b_def fresh_audio_block_def store_shard_def Let_def)
    then have f: "find_block base 0 (?bs[j := b]) = Some i" using find_block_elsewhere [OF i] \<open>j \<noteq> i\<close> assms(4) by simp
    have "block_sized (?bs ! j)" using c(3,4) free(1) by simp
    then have sz: "block_sized ?b" by (simp add: fresh_audio_block_def block_sized_def AUDIO_RTP_FEC_TOTAL_SHARDS_def)
    have "block_sized b" using sz sized_store [OF sz assms(6,5)] by (simp add: b_def)
    then have "\<forall>b\<in>set (?bs[j := b]). block_sized b" using c(4) by (auto dest!: set_update_subset_insert [THEN subsetD])
    then show ?thesis using f h c \<open>j \<noteq> i\<close> unfolding e by (simp add: cached_def audio_context_ok_def)
  qed
qed

subsection \<open>Gaps\<close>

text \<open>Frames of \<open>F\<close> samples; the timestamps go on by \<open>D\<close> ticks a packet.\<close>

definition steady :: "nat \<Rightarrow> u32 \<Rightarrow> 'o audio_recv \<Rightarrow> bool" where
  "steady F D s \<longleftrightarrow> 120 \<le> F \<and> F \<le> AUDIO_MAX_FRAME_SAMPLES \<and> last_audio_frame_samples s = F \<and>
     s_rtp_timestamp_scale (ar_play s) \<noteq> 0 \<and> D * s_rtp_timestamp_scale (ar_play s) = of_nat F"

lemma steady_frame: "steady F D s \<Longrightarrow> expected_frame (last_audio_frame_samples s) n d = F"
  by (simp add: steady_def expected_frame_def Let_def)

lemma unat_small: "n < 2 ^ 32 \<Longrightarrow> unat (of_nat n :: u32) = n"
  by (simp add: unsigned_of_nat take_bit_nat_eq_self)

lemma word_quotient:
  assumes "m + k < 2 ^ 32" "n < 2 ^ 32"
  shows "((of_nat m + of_nat k) div of_nat n :: u32) = of_nat ((m + k) div n)"
proof (rule word_unat_eq_iff [THEN iffD2])
  have "(m + k) div n < 2 ^ 32" using assms(1) by (meson div_le_dividend le_less_trans)
  then show "unat ((of_nat m + of_nat k) div of_nat n :: u32) = unat (of_nat ((m + k) div n) :: u32)"
    unfolding unat_div of_nat_add [symmetric] unat_small [OF assms(1)] unat_small [OF assms(2)] by (simp only: unat_small)
qed

lemma sint_small: "n < 2 ^ 31 \<Longrightarrow> sint (of_nat n :: u32) = int n"
  using int_word_sint [of "int n", where 'a = 32] by simp

lemma one_missing:
  assumes "120 \<le> F" "F \<le> AUDIO_MAX_FRAME_SAMPLES"
  shows "frames_missing (2 * of_nat F) F = 1"
proof -
  have b: "F + F div 2 < 2 ^ 32" "2 * F < 2 ^ 32" "2 * F + F div 2 < 2 ^ 32" "F < 2 ^ 32" "F div 2 < 2 ^ 32"
    using assms(2) by (simp_all add: AUDIO_MAX_FRAME_SAMPLES_def)
  have e: "2 * of_nat F = (of_nat (2 * F) :: u32)" by simp
  have "(of_nat (F + F div 2) :: u32) < of_nat (2 * F)" using b assms(1) by (simp only: word_less_nat_alt unat_small)
  moreover have "((of_nat (2 * F) + of_nat (F div 2)) div of_nat F :: u32) = of_nat ((2 * F + F div 2) div F)"
    using word_quotient [OF b(3,4)] by simp
  moreover have "(2 * F + F div 2) div F = 2" using assms(1) by (simp add: div_add1_eq)
  ultimately show ?thesis using assms(1) unfolding e by (simp add: frames_missing_def)
qed

lemma many_missing:
  assumes "120 \<le> F" "F \<le> AUDIO_MAX_FRAME_SAMPLES"
  shows "65534 \<le> frames_missing (- of_nat F) F"
proof -
  define m where "m = 2 ^ 32 - F"
  have F: "F \<le> 2880" using assms(2) by (simp add: AUDIO_MAX_FRAME_SAMPLES_def)
  have m: "m + F = 4294967296" using F by (simp add: m_def)
  have "of_nat m + of_nat F = (of_nat (m + F) :: u32)" by simp
  also have "\<dots> = 0" unfolding m by simp
  finally have e: "- of_nat F = (of_nat m :: u32)" using eq_neg_iff_add_eq_0 [of "of_nat m :: u32" "of_nat F"] by simp
  have b: "m + F div 2 < 2 ^ 32" "F < 2 ^ 32" "m < 2 ^ 32" "F + F div 2 < 2 ^ 32" "F + F div 2 < m" using m F assms(1) by simp_all
  define q where "q = (m + F div 2) div F"
  have "65535 * F \<le> m + F div 2" using m F by linarith
  then have lo: "65535 \<le> q" unfolding q_def using assms(1) by (simp add: less_eq_div_iff_mult_less_eq)
  have "m + F div 2 < 2 ^ 31 * F" using b(1) assms(1) by simp
  then have hi: "q < 2 ^ 31" unfolding q_def using assms(1) by (simp add: div_less_iff_less_mult)
  have "(of_nat (F + F div 2) :: u32) < of_nat m" using b by (simp only: word_less_nat_alt unat_small)
  then have "frames_missing (of_nat m) F = sint ((of_nat m + of_nat (F div 2)) div of_nat F :: u32) - 1"
    using assms(1) unfolding frames_missing_def by simp
  also have "\<dots> = int q - 1" unfolding word_quotient [OF b(1,2)] q_def [symmetric] by (simp only: sint_small [OF hi])
  finally show ?thesis using lo unfolding e by simp
qed

lemma gap_behind:
  assumes "steady F D s" "read_ts = last_audio_rtp_ts s + 2 * D" "sq = last_audio_seq s + 2" "fec_between_audio s = 0"
  shows "audio_gap sq read_ts s = 1" "media_gap sq (last_audio_seq s) (fec_between_audio s) = 1"
proof -
  have "2 * D * s_rtp_timestamp_scale (ar_play s) = 2 * of_nat F" using assms(1) by (simp add: steady_def mult.assoc)
  then have "(read_ts - last_audio_rtp_ts s) * s_rtp_timestamp_scale (ar_play s) = 2 * of_nat F" using assms(2) by simp
  moreover have l: "media_gap sq (last_audio_seq s) (fec_between_audio s) = 1" using assms(3,4) by (simp add: media_gap_def Let_def)
  ultimately show "audio_gap sq read_ts s = 1"
    using assms(1) one_missing [of F] by (simp add: audio_gap_def steady_frame [OF assms(1)] Let_def) (simp add: steady_def)
  show "media_gap sq (last_audio_seq s) (fec_between_audio s) = 1" by (fact l)
qed

text \<open>A packet that is one late seems to have all other numbers missing before it.\<close>

lemma gap_late:
  assumes "steady F D s" "read_ts = last_audio_rtp_ts s - D" "sq = last_audio_seq s - 1" "fec_between_audio s = 0"
  shows "audio_gap sq read_ts s = 65534" "media_gap sq (last_audio_seq s) (fec_between_audio s) = 65534"
proof -
  have "(read_ts - last_audio_rtp_ts s) * s_rtp_timestamp_scale (ar_play s) = - of_nat F" using assms(1,2) by (simp add: steady_def)
  moreover have l: "media_gap sq (last_audio_seq s) (fec_between_audio s) = 65534"
    using assms(3,4) by (simp add: media_gap_def Let_def unsigned_minus_1_eq_mask mask_eq_exp_minus_1)
  ultimately show "audio_gap sq read_ts s = 65534"
    using assms(1) many_missing [of F] by (simp add: audio_gap_def steady_frame [OF assms(1)] Let_def) (simp add: steady_def)
  show "media_gap sq (last_audio_seq s) (fec_between_audio s) = 65534" by (fact l)
qed

subsection \<open>Turns\<close>

text \<open>The packet \<open>sq\<close> with timestamp \<open>ts\<close> was the last; nothing is being concealed.\<close>

definition playing :: "nat \<Rightarrow> u32 \<Rightarrow> u16 \<Rightarrow> u32 \<Rightarrow> 'o opus_psp \<Rightarrow> audio_fec \<Rightarrow> 'o audio_recv \<Rightarrow> bool" where
  "playing F D sq ts d a s \<longleftrightarrow> control s = (a, sq, True, ts, True, 0, 0, 0, False) \<and> ar_opus s = d \<and> steady F D s"

definition normal :: "'o opus_lib \<Rightarrow> 'o audio_env \<Rightarrow> bool" where
  "normal lib e \<longleftrightarrow> re_enabled e \<and> \<not> re_encrypted e \<and> \<not> re_teardown e \<and> \<not> re_dialog e \<and> re_opus e = lib"

lemma steady_stored:
  assumes "steady F D s" "stored s fs t" "last_audio_frame_samples t = F"
  shows "steady F D t"
  using assms by (simp add: steady_def stored_def)

text \<open>The audio state once the packet is noted.\<close>

definition noted_fec :: "'o audio_env \<Rightarrow> bool \<Rightarrow> u8 list \<Rightarrow> u8 list \<Rightarrow> audio_fec \<Rightarrow> audio_fec" where
  "noted_fec e from_pending p payload a =
     note_data from_pending p payload (re_now_us e) (if from_pending then a else a\<lparr>a_pkts_received := a_pkts_received a + 1\<rparr>)"

lemma noted_playing:
  assumes "playing F D sq ts d a s" "roomy n s"
  shows "playing F D sq ts d (noted_fec e fp p payload a) (noted e fp p payload (received fp s))"
    "stored s [] (noted e fp p payload (received fp s))"
proof -
  have r: "ar_play (received fp s) = ar_play s" by (simp add: received_def)
  then have "stored (received fp s) [] (noted e fp p payload (received fp s))"
    using assms(2) hall.can_same [of "received fp s" s n] by (intro hall.noted_takes) blast
  then show st: "stored s [] (noted e fp p payload (received fp s))" using r by (simp add: stored_def)
  have "steady F D (noted e fp p payload (received fp s))"
    using assms(1) by (intro steady_stored [OF _ st]) (simp_all add: playing_def steady_def noted_def received_def)
  then show "playing F D sq ts d (noted_fec e fp p payload a) (noted e fp p payload (received fp s))"
    using assms(1) by (auto simp: playing_def control_def noted_def received_def noted_fec_def)
qed

lemma recover_heard:
  assumes "audio_rtp_fec_recover_payload sq (ar_fec s) = (Some w, ar_fec s)" "w \<noteq> []" "\<not> re_encrypted e"
    and "decodes (re_opus e) (ar_opus s) w f d'" "roomy (length f) s"
  obtains t where "recover_one e sq s = (True, t)" "stored s [f] t" "control t = control s" "ar_opus t = d'"
    "last_audio_frame_samples t = length f"
proof -
  have d: "opus_psp_decode (re_opus e) (Some w) AUDIO_MAX_FRAME_SAMPLES (ar_opus s) = (Some f, d')" "f \<noteq> []"
    "length f \<le> AUDIO_MAX_FRAME_SAMPLES" using assms(4) by (simp_all add: decodes_def)
  define s1 where "s1 = s\<lparr>ar_opus := d', s_last_good_pcm := f, last_audio_frame_samples := length f\<rparr>"
  have "roomy (length f) s1" using assms(5) by (simp add: roomy_def s1_def)
  then obtain p where a: "append_frame e f s1 = (0, s1\<lparr>ar_play := p, appends := appends s1 + 1\<rparr>)"
    "stored s1 [f] (s1\<lparr>ar_play := p, appends := appends s1 + 1\<rparr>)" using append_room d(2,3) by blast
  let ?t = "s1\<lparr>ar_play := p, appends := appends s1 + 1, s_audio_fec_total := s_audio_fec_total s1 + 1,
    s_audio_pkts_decoded := s_audio_pkts_decoded s1 + 1\<rparr>"
  have "recover_one e sq s = (True, ?t)"
    using assms(1-3) d a(1)
    by (simp add: recover_one_def play_recovered_def decode_frame_def s1_def Let_def)
  moreover have "stored s [f] ?t" using a(2) by (simp add: stored_def s1_def)
  ultimately show thesis using that [of ?t] by (simp add: control_def s1_def)
qed

lemma handle_gap_done:
  assumes "have_last_audio_seq u" "have_last_audio_rtp u" "\<not> re_teardown e" "audio_gap sq ts u = int g" "0 < g"
    and "media_gap sq (last_audio_seq u) (fec_between_audio u) = l" "0 < l"
    and "(if g \<le> AUDIO_RTP_FEC_PARITY_SHARDS then look_ahead e u else (0, u)) = (seen, u1)"
    and "recover_gap e (sq - word_of_int l) g u1 = (r, v)" "\<not> (r < g \<and> g - r \<le> 10)"
  shows "handle_gap e sq ts u = (seen, v)"
  using assms by (auto simp: handle_gap_def Let_def)

lemma one_found:
  assumes "playing F D sq ts d a u" "audio_reorder_drain_for_fec (re_now_us e) (re_drain e) 0 a = (k, 0, a1)"
    and "audio_rtp_fec_recover_payload (sq + 1) a1 = (Some v, a1)" "v \<noteq> []" "decodes (re_opus e) d v f d1"
    and "roomy (length f) u" "\<not> re_encrypted e" "\<not> re_teardown e"
  obtains g where "handle_gap e (sq + 2) (ts + 2 * D) u = (0, g)" "stored u [f] g" "ar_opus g = d1" "undisturbed g"
    "ar_fec g = a1"
proof -
  have c: "control u = (a, sq, True, ts, True, 0, 0, 0, False)" and st: "steady F D u" and o: "ar_opus u = d"
    using assms(1) by (simp_all add: playing_def)
  have g: "audio_gap (sq + 2) (ts + 2 * D) u = 1" "media_gap (sq + 2) sq 0 = 1"
    using gap_behind [OF st] c by (simp_all add: control_def)
  define u1 where "u1 = u\<lparr>ar_fec := a1\<rparr>"
  have l: "look_ahead e u = (0, u1)" using assms(2) c by (simp add: look_ahead_def control_def u1_def)
  have "audio_rtp_fec_recover_payload (sq + 1) (ar_fec u1) = (Some v, ar_fec u1)" "roomy (length f) u1"
    "decodes (re_opus e) (ar_opus u1) v f d1"
    using assms(3,5,6) o by (simp_all add: u1_def roomy_def)
  from recover_heard [OF this(1) assms(4,7) this(3,2)]
  obtain t where t: "recover_one e (sq + 1) u1 = (True, t)" "stored u1 [f] t" "control t = control u1" "ar_opus t = d1" by blast
  have sq: "sq + 2 - word_of_int 1 = sq + 1" by simp
  have "recover_gap e (sq + 2 - word_of_int 1) (Suc 0) u1 = (1, t)" unfolding sq using t(1) by simp
  then have "handle_gap e (sq + 2) (ts + 2 * D) u = (0, t)"
    using c g l assms(8)
    by (intro handle_gap_done [where g = "Suc 0" and l = 1 and r = 1 and ?u1.0 = u1])
        (auto simp: control_def AUDIO_RTP_FEC_PARITY_SHARDS_def simp del: recover_gap.simps)
  moreover have "stored u [f] t" using t(2) by (simp add: stored_def u1_def)
  ultimately show thesis using that [of t] t(3,4) c by (auto simp: control_def u1_def undisturbed_def)
qed

lemma turn_found:
  assumes s: "playing F D sq ts d a s" "roomy (2 * F) s" and e: "normal lib e"
    and p: "sound_packet p (sq + 2) w" "read_be32 p 4 = ts + 2 * D"
    and drain: "audio_reorder_drain_for_fec (re_now_us e) (re_drain e) 0 (noted_fec e fp p w a) = (k, 0, a1)"
    and v: "audio_rtp_fec_recover_payload (sq + 1) a1 = (Some v, a1)" "v \<noteq> []"
    and f: "decodes lib d v f d1" "decodes lib d1 w f' d2" "length f = F" "length f' = F"
  defines "t \<equiv> audio_packet e fp p s"
  shows "stored s [f, f'] t" "playing F D (sq + 2) (ts + 2 * D) d2 a1 t"
proof -
  have e': "re_enabled e" "\<not> re_encrypted e" "\<not> re_teardown e" "re_opus e = lib" using e by (simp_all add: normal_def)
  define u where "u = noted e fp p w (received fp s)"
  have u: "playing F D sq ts d (noted_fec e fp p w a) u" "stored s [] u" using noted_playing [OF s] by (simp_all add: u_def)
  have "roomy (2 * F) u" using hall.takes_can [OF u(2)] s(2) by simp
  then have "roomy (length f) u" using f(3) by (simp add: roomy_def)
  then obtain g where g: "handle_gap e (sq + 2) (ts + 2 * D) u = (0, g)" "stored u [f] g" "ar_opus g = d1" "undisturbed g" "ar_fec g = a1"
    using one_found [OF u(1) drain v] f(1) e' by metis
  have und: "undisturbed s" using s(1) by (auto simp: playing_def control_def undisturbed_def)
  have "roomy (length (concat [f]) + length f') s" using s(2) f(3,4) by (simp add: roomy_def)
  note r = hall.gap_packet_takes [OF p(1) g(1) [unfolded u_def, folded p(2)] g(2) [unfolded u_def] g(4) _ this und e'(1,2)]
  have d: "decodes (re_opus e) (ar_opus g) w f' d2" using f(2) g(3) e' by simp
  show st: "stored s [f, f'] t" using r(1) [OF d] by (simp add: t_def)
  have "steady F D t" using s(1) r(3) [OF d] f(4) by (intro steady_stored [OF _ st]) (simp_all add: playing_def t_def)
  then show "playing F D (sq + 2) (ts + 2 * D) d2 a1 t" using r(2,4) [OF d] g(5) p(2) by (simp add: playing_def t_def)
qed

text \<open>A packet that is one late and is still decoded.\<close>

lemma turn_late:
  assumes s: "playing F D sq ts d a s" "roomy F s" and e: "normal lib e"
    and p: "sound_packet p (sq - 1) w" "read_be32 p 4 = ts - D"
    and none: "audio_rtp_fec_recover_payload (sq + 1) (noted_fec e fp p w a) = (None, noted_fec e fp p w a)"
    and f: "decodes lib d w f d1" "length f = F"
  defines "t \<equiv> audio_packet e fp p s"
  shows "stored s [f] t" "playing F D (sq - 1) (ts - D) d1 (noted_fec e fp p w a) t"
proof -
  have e': "re_enabled e" "\<not> re_encrypted e" "\<not> re_teardown e" "re_opus e = lib" using e by (simp_all add: normal_def)
  define u where "u = noted e fp p w (received fp s)"
  have u: "playing F D sq ts d (noted_fec e fp p w a) u" "stored s [] u" using noted_playing [OF s] by (simp_all add: u_def)
  have c: "control u = (noted_fec e fp p w a, sq, True, ts, True, 0, 0, 0, False)" and st: "steady F D u" and o: "ar_opus u = d"
    using u(1) by (simp_all add: playing_def)
  have gap: "audio_gap (sq - 1) (ts - D) u = 65534" "media_gap (sq - 1) sq 0 = 65534"
    using gap_late [OF st] c by (simp_all add: control_def)
  have "recover_one e (sq + 1) u = (False, u)" using none c by (simp add: recover_one_def control_def)
  then have "recover_gap e (sq + 1) (Suc n) u = (0, u)" for n by simp
  moreover have sq: "sq - 1 - word_of_int 65534 = sq + 1" by simp
  ultimately have "recover_gap e (sq - 1 - word_of_int 65534) (Suc 65533) u = (0, u)" unfolding sq by blast
  then have g: "handle_gap e (sq - 1) (ts - D) u = (0, u)"
    using c gap e'
    by (intro handle_gap_done [where g = "Suc 65533" and l = 65534 and r = 0])
      (simp_all only: control_def AUDIO_RTP_FEC_PARITY_SHARDS_def, simp_all)
  have und: "undisturbed s" "undisturbed u" using s(1) c by (auto simp: playing_def control_def undisturbed_def)
  have "roomy (length (concat []) + length f) s" using s(2) f(2) by (simp add: roomy_def)
  moreover have "stored u [] u" using u(2) by (auto simp: stored_def)
  moreover have "decodes (re_opus e) (ar_opus u) w f d1" using f(1) o e' by simp
  ultimately have r: "stored s ([] @ [f]) t" "ar_opus t = d1" "last_audio_frame_samples t = length f"
    "control t = (ar_fec u, sq - 1, True, read_be32 p 4, True, 0, 0, 0, False)"
    using hall.gap_packet_takes [OF p(1) g [unfolded u_def, folded p(2)] _ und(2) [unfolded u_def] _ _ und(1) e'(1,2)]
    unfolding t_def u_def by blast+
  show st: "stored s [f] t" using r(1) by simp
  have "steady F D t" using s(1) r(3) f(2) by (intro steady_stored [OF _ st]) (simp_all add: playing_def)
  then show "playing F D (sq - 1) (ts - D) d1 (noted_fec e fp p w a) t"
    using r(2,4) c p(2) by (auto simp: playing_def control_def)
qed

subsection \<open>The queue and the look-ahead\<close>

definition cache_of :: "audio_fec \<Rightarrow> audio_block list \<times> reed_solomon \<times> u8 list" where
  "cache_of a = (a_blocks a, a_rs_ctx a, a_work a)"

lemma cache_of_same:
  assumes "cache_of a' = cache_of a"
  shows "cached base ssrc W S a' = cached base ssrc W S a" "spare b a' = spare b a"
  using assms cached_same [of a' a] by (simp_all add: cache_of_def spare_def)

definition queue_of :: "u8 list list \<Rightarrow> audio_fec \<Rightarrow> bool" where
  "queue_of ps a \<longleftrightarrow> length (a_pending a) = AUDIO_PENDING_PACKETS \<and> a_pending_head a < AUDIO_PENDING_PACKETS \<and>
     a_pending_count a = length ps \<and> (case ps of [] \<Rightarrow> True | p # ps \<Rightarrow> ps = [] \<and> p \<noteq> [] \<and> length p \<le> AUDIO_MAX_RTP_SIZE \<and>
       pp_len (a_pending a ! a_pending_head a) = int (length p) \<and> take (length p) (pp_data (a_pending a ! a_pending_head a)) = p)"

lemma queue_of_same: "pending_of a' = pending_of a \<Longrightarrow> queue_of ps a' = queue_of ps a"
  by (simp add: pending_of_def queue_of_def cong: list.case_cong)

lemma push_one:
  assumes "queue_of [] a" "p \<noteq> []" "length p \<le> AUDIO_MAX_RTP_SIZE"
  obtains a' where "audio_pending_push p a = (0, a')" "queue_of [p] a'" "cache_of a' = cache_of a"
  using assms that by (simp add: audio_pending_push_def queue_of_def cache_of_def Let_def)

lemma pop_one:
  assumes "queue_of [p] a"
  obtains a' where "audio_pending_pop a = (Some p, a')" "queue_of [] a'" "cache_of a' = cache_of a"
  using assms that by (simp add: audio_pending_pop_def queue_of_def pending_advance_def cache_of_def Let_def)

lemma pop_none: "queue_of [] a \<Longrightarrow> audio_pending_pop a = (None, a)"
  by (simp add: queue_of_def audio_pending_pop_def)

lemma drain_quiet: "audio_reorder_drain start (map (Pair None) ns) k seen a = (k, seen, a)"
  by (induction ns) auto

lemma drain_nothing: "audio_reorder_drain_for_fec start (map (Pair None) ns) 0 a = (0, 0, a)"
  by (simp add: audio_reorder_drain_for_fec_def drain_quiet)

lemma drain_one:
  assumes "carries base ssrc W 2 p" "queue_of [] a" "length p \<le> AUDIO_MAX_RTP_SIZE"
  obtains a' where "audio_reorder_drain_for_fec start ((Some p, now) # map (Pair None) ns) 0 a = (1, 0, a')"
    "queue_of [p] a'" "cache_of a' = cache_of (audio_rtp_fec_cache_data p (W ! 2) now a)"
proof -
  obtain off n where o: "audio_rtp_payload_offset p = Some (off, n)" "drop off (take n p) = W ! 2"
    "p ! 1 AND 0x7F = RTP_PT_AUDIO_OPUS"
    using assms(1) by (auto simp: carries_def Let_def split: option.splits)
  then have "p \<noteq> []" by (auto simp: audio_rtp_payload_offset_def)
  define b where "b = audio_rtp_fec_cache_data p (W ! 2) now (a\<lparr>a_pkts_received := a_pkts_received a + 1, a_last_data_us := now\<rparr>)"
  have "pending_of b = pending_of a" by (simp add: b_def cache_pending) (simp add: pending_of_def)
  then have "queue_of [] b" using assms(2) queue_of_same by blast
  then obtain a1 where a1: "audio_pending_push p b = (0, a1)" "queue_of [p] a1" "cache_of a1 = cache_of b"
    using push_one \<open>p \<noteq> []\<close> assms(3) by blast
  have "cache_of b = cache_of (audio_rtp_fec_cache_data p (W ! 2) now a)"
    by (auto simp: b_def cache_of_def audio_rtp_fec_cache_data_def cache_shard_def Let_def split: prod.split option.split)
  moreover have "audio_reorder_drain start ((Some p, now) # map (Pair None) ns) 0 0 a = (1, 0, a1)"
    using o a1(1) drain_quiet
    by (simp add: cache_packet_def b_def Let_def RTP_PT_AUDIO_OPUS_def RTP_PT_AUDIO_FEC_def)
  moreover have "queue_of [p] (a1\<lparr>a_reorder_drains := n\<rparr>)" "cache_of (a1\<lparr>a_reorder_drains := n\<rparr>) = cache_of a1" for n
    using a1(2) by (simp_all add: queue_of_def cache_of_def)
  ultimately show thesis using that a1(3) by (simp add: audio_reorder_drain_for_fec_def)
qed

text \<open>Turns of the loop.\<close>

lemma loop_start:
  assumes "roomy n s"
  obtains q where "(if s_pcm_stage_count (ar_play s) \<ge> AUDIO_CHUNK_SAMPLES then audio_flush_stage_to_ring (ar_play s)
      else (True, ar_play s)) = (True, q)" "stored s [] (s\<lparr>ar_play := q\<rparr>)"
proof -
  let ?p = "ar_play s"
  have r: "playback_ok ?p" "produced ?p < play_limit" "s_effective_ring_depth ?p = of_nat AUDIO_RING_SLOTS"
    "length (samples_waiting ?p) \<le> AUDIO_RING_SLOTS * AUDIO_CHUNK_SAMPLES" using assms by (simp_all add: roomy_def)
  obtain b q where f: "audio_flush_stage_to_ring ?p = (b, q)" by fastforce
  have "b" using flush_room [OF r] f by simp
  moreover have "stored s [] (s\<lparr>ar_play := q\<rparr>)" using flush_ok [OF r(1,2) f] rest_same [of q ?p] by (simp add: stored_def)
  moreover have "stored s [] (s\<lparr>ar_play := ?p\<rparr>)" using r by (simp add: stored_def)
  ultimately show thesis using that [of q] that [of ?p] f by (cases "s_pcm_stage_count ?p \<ge> AUDIO_CHUNK_SAMPLES") auto
qed

lemma loop_turn:
  assumes "playing F D sq ts d a s" "roomy n s" "normal lib e" "audio_pending_pop a = (r, a')"
    and "r = Some p \<and> fp \<or> r = None \<and> \<not> fp \<and> re_recv e = Some p" "p \<noteq> []"
  obtains s' where "audio_loop_turn e s = audio_packet e fp p s'" "playing F D sq ts d a' s'" "stored s [] s'"
proof -
  obtain q where q: "(if s_pcm_stage_count (ar_play s) \<ge> AUDIO_CHUNK_SAMPLES then audio_flush_stage_to_ring (ar_play s)
      else (True, ar_play s)) = (True, q)" "stored s [] (s\<lparr>ar_play := q\<rparr>)" using loop_start [OF assms(2)] by blast
  let ?s = "s\<lparr>ar_play := q, ar_fec := a'\<rparr>"
  have st: "stored s [] ?s" using q(2) by (simp add: stored_def)
  have "ar_fec s = a" using assms(1) by (simp add: playing_def control_def)
  obtain b bs where p: "p = b # bs" using assms(6) by (cases p) auto
  have "audio_loop_turn e s = audio_packet e fp p ?s"
    using q(1) assms(3-5) \<open>ar_fec s = a\<close> p unfolding audio_loop_turn_def normal_def by auto
  moreover have "steady F D ?s" using assms(1) by (intro steady_stored [OF _ st]) (simp_all add: playing_def steady_def)
  then have "playing F D sq ts d a' ?s" using assms(1) by (simp add: playing_def control_def)
  ultimately show thesis using that st by blast
qed

lemma carries_block: "carries base ssrc W 2 p \<Longrightarrow> block_packet base ssrc W 2 p"
  by (auto simp: carries_def block_packet_def Let_def split: option.splits)

lemma base_next: "base AND 3 = 0 \<Longrightarrow> (base + 4) AND 3 = 0" for base :: u16
proof -
  assume b: "base AND 3 = 0"
  have m: "x AND 3 = take_bit 2 x" for x :: u16 by (simp add: take_bit_eq_mask mask_numeral)
  have "unat (take_bit 2 base) = 0" using b unfolding m by simp
  then have "unat base mod 4 = 0" unfolding unsigned_take_bit_eq by (simp add: take_bit_eq_mod)
  then have "unat (take_bit 2 (base + 4)) = 0"
    unfolding unsigned_take_bit_eq by (simp add: take_bit_eq_mod unat_word_ariths mod_mod_cancel mod_simps)
  then show ?thesis unfolding m by (simp only: word_unat_eq_iff unsigned_0)
qed

lemma noted_cache:
  "cache_of (noted_fec e False p w a) = cache_of (audio_rtp_fec_cache_data p w (re_now_us e) a)"
  "pending_of (noted_fec e fp p w a) = pending_of a" "cache_of (noted_fec e True p w a) = cache_of a"
proof -
  show "cache_of (noted_fec e False p w a) = cache_of (audio_rtp_fec_cache_data p w (re_now_us e) a)"
    by (auto simp: noted_fec_def note_data_def cache_of_def audio_rtp_fec_cache_data_def cache_shard_def Let_def
        split: prod.split option.split)
  show "pending_of (noted_fec e fp p w a) = pending_of a"
    by (simp add: noted_fec_def note_data_def cache_pending) (simp add: pending_of_def)
  show "cache_of (noted_fec e True p w a) = cache_of a" by (simp add: noted_fec_def note_data_def cache_of_def)
qed

lemma cache_next_block:
  assumes "cached base ssrc W S a" "S \<noteq> {}" "spare (base + 4) a" "audio_sent base W" "read_be16 p 2 = base + 4"
    and "length w \<le> AUDIO_MAX_RTP_SIZE"
  shows "cached base ssrc W S (audio_rtp_fec_cache_data p w now a)"
proof -
  have base: "base AND 3 = 0" using assms(4) unfolding audio_sent_def by blast
  note n = base_of_seq [OF base_next [OF base], of 0]
  obtain m where m: "(if a_packet_duration_ms a < 5 \<or> a_packet_duration_ms a > 60 then 10
      else a_packet_duration_ms a) = m" "5 \<le> m" by fastforce
  then have "48000 * nat m div 1000 \<noteq> 0" by simp
  then obtain ts ssrc' where "audio_rtp_fec_cache_data p w now a = cache_shard 0 (base + 4) ts ssrc' RTP_PT_AUDIO_OPUS w now a"
    using assms(5) m(1) n
    by (simp add: audio_rtp_fec_cache_data_def Let_def AUDIO_SAMPLE_RATE_def AUDIO_RTP_FEC_DATA_SHARDS_def)
  then show ?thesis using cache_new_block [OF assms(1-3) _ assms(6), of 0] by simp
qed

text \<open>The property C34: of a block of four packets the first two were played; the fourth comes before the third,
  which the look-ahead finds at once. The decoder then gets the third, the fourth, the third and the fourth once
  more, and the first packet of the next block; all five frames are stored to be played.\<close>

theorem late_packet_heard_twice:
  assumes block: "audio_sent base W" "cached base ssrc W {0, 1} a" "spare (base + 4) a" "queue_of [] a"
    and s: "playing F D (base + 1) ts d a s" "roomy (5 * F) s"
    and e: "normal lib e1" "normal lib e2" "normal lib e3"
    and p3: "re_recv e1 = Some p3" "sound_packet p3 (base + 3) (W ! 3)" "read_be32 p3 8 = ssrc" "read_be32 p3 4 = ts + 2 * D"
    and p2: "re_drain e1 = (Some p2, now) # map (Pair None) ns" "carries base ssrc W 2 p2" "sound_packet p2 (base + 2) (W ! 2)"
      "read_be32 p2 4 = ts + D" "length p2 \<le> AUDIO_MAX_RTP_SIZE"
    and p4: "re_recv e3 = Some p4" "sound_packet p4 (base + 4) w4" "read_be32 p4 4 = ts + 3 * D" "length w4 \<le> AUDIO_MAX_RTP_SIZE"
      "re_drain e3 = map (Pair None) ms"
    and f: "decodes lib d (W ! 2) f1 d1" "decodes lib d1 (W ! 3) f2 d2" "decodes lib d2 (W ! 2) f3 d3"
      "decodes lib d3 (W ! 3) f4 d4" "decodes lib d4 w4 f5 d5" "\<forall>f\<in>{f1, f2, f3, f4, f5}. length f = F"
  shows "stored s [f1, f2, f3, f4, f5] (fold audio_loop_turn [e1, e2, e3] s)"
proof -
  have ne: "W ! 2 \<noteq> []" "W ! 3 \<noteq> []" using p2(3) p3(2) by (simp_all add: sound_packet_def)
  have pne: "p2 \<noteq> []" "p3 \<noteq> []" "p4 \<noteq> []"
    using p2(3) p3(2) p4(2) by (auto simp: sound_packet_def parse_audio_packet_def split: option.splits)
  obtain s1 where s1: "audio_loop_turn e1 s = audio_packet e1 False p3 s1" "playing F D (base + 1) ts d a s1" "stored s [] s1"
    using loop_turn [OF s e(1) pop_none [OF block(4)], of p3 False] p3(1) pne by auto
  let ?a1 = "noted_fec e1 False p3 (W ! 3) a"
  have b3: "block_packet base ssrc W 3 p3" using p3(2,3) by (simp add: block_packet_def sound_packet_def)
  have c1: "cached base ssrc W {3, 0, 1} ?a1" "spare (base + 4) ?a1"
    using cache_block_packet [OF b3 block(1,2) _ block(3)] by (simp_all add: cache_of_same [OF noted_cache(1)])
  have "queue_of [] ?a1" using block(4) queue_of_same [OF noted_cache(2)] by blast
  then obtain a2 where a2: "audio_reorder_drain_for_fec (re_now_us e1) (re_drain e1) 0 ?a1 = (1, 0, a2)" "queue_of [p2] a2"
    "cache_of a2 = cache_of (audio_rtp_fec_cache_data p2 (W ! 2) now ?a1)"
    using drain_one [OF p2(2) _ p2(5)] p2(1) by metis
  have c2: "cached base ssrc W {2, 3, 0, 1} a2" "spare (base + 4) a2"
    using cache_block_packet [OF carries_block [OF p2(2)] block(1) c1(1) _ c1(2)] by (simp_all add: cache_of_same [OF a2(3)])
  have full: "{..<4} \<subseteq> {2, 3, 0, 1 :: nat}" by auto
  have sq: "base + 1 + 1 = base + of_nat 2" "base + 2 + 1 = base + of_nat 3" by simp_all
  have v: "audio_rtp_fec_recover_payload (base + 1 + 1) a2 = (Some (W ! 2), a2)"
    unfolding sq by (rule recover_complete [OF c2(1) full block(1)]) simp
  have "roomy (2 * F) s1" using hall.takes_can [OF s1(3), of "2 * F"] s(2) by (simp add: roomy_def)
  then have t1: "stored s1 [f1, f2] (audio_packet e1 False p3 s1)" "playing F D (base + 3) (ts + 2 * D) d2 a2 (audio_packet e1 False p3 s1)"
    using turn_found [OF s1(2) _ e(1) _ p3(4) a2(1) v ne(1) f(1,2)] p3(2) f(6) by (simp_all add: add.assoc)
  let ?t1 = "audio_packet e1 False p3 s1"
  obtain a3 where a3: "audio_pending_pop a2 = (Some p2, a3)" "queue_of [] a3" "cache_of a3 = cache_of a2" using pop_one [OF a2(2)] .
  have st1: "stored s [f1, f2] ?t1" using hall.takes_trans [OF s1(3) t1(1)] by simp
  have r1: "roomy (3 * F) ?t1" using hall.takes_can [OF st1, of "3 * F"] s(2) f(6) by simp
  obtain s2 where s2: "audio_loop_turn e2 ?t1 = audio_packet e2 True p2 s2" "playing F D (base + 3) (ts + 2 * D) d2 a3 s2" "stored ?t1 [] s2"
    using loop_turn [OF t1(2) r1 e(2) a3(1), of p2 True] pne by auto
  let ?a3 = "noted_fec e2 True p2 (W ! 2) a3"
  have c3: "cached base ssrc W {2, 3, 0, 1} ?a3" "spare (base + 4) ?a3"
    using c2 by (simp_all add: cache_of_same [OF noted_cache(3)] cache_of_same [OF a3(3)])
  have q3: "queue_of [] ?a3" using a3(2) queue_of_same [OF noted_cache(2)] by blast
  have base: "base AND 3 = 0" using block(1) unfolding audio_sent_def by blast
  have earlier: "base + 3 - 1 = base + 2" "ts + 2 * D - D = ts + D" by simp_all
  have "audio_rtp_fec_recover_payload (base + 3 + 1) ?a3 = (None, ?a3)"
    using recover_absent [OF c3(2) base_next [OF base]] by (simp add: add.assoc)
  moreover have "roomy F s2" using hall.takes_can [OF s2(3), of F] r1 by (simp add: roomy_def)
  ultimately have t2: "stored s2 [f3] (audio_packet e2 True p2 s2)" "playing F D (base + 2) (ts + D) d3 ?a3 (audio_packet e2 True p2 s2)"
    using turn_late [OF s2(2) _ e(2), of p2 "W ! 2" True f3 d3, unfolded earlier] p2(3,4) f(3,6) by simp_all
  let ?t2 = "audio_packet e2 True p2 s2"
  have st2: "stored ?t1 [f3] ?t2" using hall.takes_trans [OF s2(3) t2(1)] by simp
  have r2: "roomy (2 * F) ?t2" using hall.takes_can [OF st2, of "2 * F"] r1 f(6) by simp
  obtain s3 where s3: "audio_loop_turn e3 ?t2 = audio_packet e3 False p4 s3" "playing F D (base + 2) (ts + D) d3 ?a3 s3" "stored ?t2 [] s3"
    using loop_turn [OF t2(2) r2 e(3) pop_none [OF q3], of p4 False] p4(1) pne by auto
  let ?a4 = "noted_fec e3 False p4 w4 ?a3"
  have "read_be16 p4 2 = base + 4" using p4(2) by (simp add: sound_packet_def)
  then have c4: "cached base ssrc W {2, 3, 0, 1} ?a4"
    using cache_next_block [OF c3(1) _ c3(2) block(1) _ p4(4)] by (simp add: cache_of_same [OF noted_cache(1)])
  have v4: "audio_rtp_fec_recover_payload (base + 2 + 1) ?a4 = (Some (W ! 3), ?a4)"
    unfolding sq by (rule recover_complete [OF c4 full block(1)]) simp
  have "audio_reorder_drain_for_fec (re_now_us e3) (re_drain e3) 0 ?a4 = (0, 0, ?a4)" using drain_nothing p4(5) by simp
  moreover have "roomy (2 * F) s3" using hall.takes_can [OF s3(3), of "2 * F"] r2 by simp
  moreover have "sound_packet p4 (base + 2 + 2) w4" "read_be32 p4 4 = ts + D + 2 * D" using p4(2,3) by (simp_all add: add.assoc)
  ultimately have t3: "stored s3 [f4, f5] (audio_packet e3 False p4 s3)"
    using turn_found(1) [OF s3(2) _ e(3) _ _ _ v4 ne(2) f(4,5)] f(6) by simp
  have "stored s ([f1, f2] @ [f3] @ [f4, f5]) (audio_packet e3 False p4 s3)"
    using hall.takes_trans [OF st1 hall.takes_trans [OF st2 hall.takes_trans [OF s3(3) t3]]] by simp
  then show ?thesis by (simp add: s1(1) s2(1) s3(1))
qed

text \<open>Packets 8 and 9 were played; 11 comes before 10, then 12.\<close>

definition numbered :: "u8 \<Rightarrow> u8 \<Rightarrow> u8 list" where
  "numbered k x = [0x80, 97, 0, 8 + k, 0, 0, 0, 5 * k, 0, 0, 0, 7, x]"

definition half_block :: audio_block where
  "half_block = audio_block_zero\<lparr>ab_valid := True, ab_base_seq := 8, ab_ssrc := 7, ab_payload_type := 97, ab_block_size := 1,
     ab_marks := [0, 0, 1, 1, 1, 1], ab_data := [11 # replicate 1399 0, 22 # replicate 1399 0, zero_buffer, zero_buffer]\<rparr>"

definition half_cache :: audio_fec where
  "half_cache = audio_fec_zero\<lparr>a_blocks := half_block # replicate 7 audio_block_zero\<rparr>"

definition after_9 :: "unit audio_recv" where
  "after_9 = tone_start\<lparr>ar_fec := half_cache, ar_play := (playback_init 96)\<lparr>s_rtp_timestamp_scale := 48\<rparr>,
     last_audio_seq := 9, have_last_audio_seq := True, last_audio_rtp_ts := 5, have_last_audio_rtp := True,
     last_audio_frame_samples := 240\<rparr>"

lemma spoken_nth: "spoken ! 0 = [11]" "spoken ! 1 = [22]" "spoken ! 2 = [33]" "spoken ! 3 = [44]"
proof -
  have "spoken ! k = [[11], [22], [33], [44]] ! k" if "k < 4" for k using that spoken_shards(3) by (metis nth_take)
  from this [of 0] this [of 1] this [of 2] this [of 3]
  show "spoken ! 0 = [11]" "spoken ! 1 = [22]" "spoken ! 2 = [33]" "spoken ! 3 = [44]" by simp_all
qed

lemma half_cached: "cached 8 7 spoken {0, 1} half_cache" "spare (8 + 4) half_cache" "queue_of [] half_cache"
proof -
  have z: "block_sized audio_block_zero" "\<not> ab_valid audio_block_zero"
    by (simp_all add: block_sized_def audio_block_zero_def zero_buffer_def audio_sizes)
  have sz: "block_sized half_block"
    by (simp add: half_block_def block_sized_def audio_block_zero_def zero_buffer_def audio_sizes)
  have marks: "ab_marks half_block ! k = 0 \<longleftrightarrow> k \<in> {0, 1}" if "k < 6" for k
    using that by (auto simp: half_block_def less_Suc_eq numeral_eq_Suc)
  have "block_shard half_block k = spoken ! k" if "k \<in> {0, 1}" for k
    using that spoken_nth by (auto simp: half_block_def block_shard_def)
  then have "holds 8 7 spoken {0, 1} half_block"
    using sz marks spoken_nth(1) unfolding holds_def by (simp add: half_block_def RTP_PT_AUDIO_OPUS_def)
  moreover have "audio_context_ok audio_fec_zero"
    by (simp add: audio_fec_zero_def audio_rtp_fec_reset_def audio_context_ok_def DATA_SHARDS_MAX_def)
  moreover have "ab_valid half_block \<and> ab_base_seq half_block = 8" by (simp add: half_block_def)
  ultimately show "cached 8 7 spoken {0, 1} half_cache"
    using sz z by (simp add: cached_def half_cache_def audio_context_ok_def)
  show "spare (8 + 4) half_cache" using z by (simp add: spare_def half_cache_def half_block_def)
  show "queue_of [] half_cache"
    by (simp add: queue_of_def half_cache_def audio_fec_zero_def audio_rtp_fec_reset_def AUDIO_PENDING_PACKETS_def)
qed

lemma after_9_playing: "playing 240 5 9 5 tone_decoder half_cache after_9" "roomy (5 * 240) after_9"
proof -
  have u: "undisturbed tone_start" "fec_between_audio tone_start = 0" "ar_opus tone_start = tone_decoder"
    by (simp_all add: tone_start_def audio_recv_init_def undisturbed_def)
  show "playing 240 5 9 5 tone_decoder half_cache after_9"
    using u by (simp add: playing_def control_def steady_def after_9_def undisturbed_def AUDIO_MAX_FRAME_SAMPLES_def)
  have "ring_of ((playback_init 96)\<lparr>s_rtp_timestamp_scale := 48\<rparr>) = ring_of (playback_init 96)" by (simp add: ring_of_def)
  note r = ring_of_same [OF this]
  show "roomy (5 * 240) after_9"
    using r playback_init_ok [of 96]
    by (simp add: roomy_def after_9_def AUDIO_RING_SLOTS_def AUDIO_CHUNK_SAMPLES_def play_limit_def)
      (simp add: playback_init_def)
qed

lemma numbered_sound:
  "sound_packet (numbered 2 33) (8 + 2) [33]" "sound_packet (numbered 3 44) (8 + 3) [44]" "sound_packet (numbered 4 55) (8 + 4) [55]"
  "carries 8 7 spoken 2 (numbered 2 33)"
  by (simp_all add: sound_packet_def numbered_def parse_audio_packet_def RTP_HDR_SIZE_def RTP_PT_AUDIO_OPUS_def
      read_be16_def read_be32_def Let_def carries_def audio_rtp_payload_offset_def spoken_nth)

theorem late_packet_heard_twice_witness:
  "stored after_9 (replicate 5 (replicate 240 5))
     (fold audio_loop_turn
       [tone_env\<lparr>re_recv := Some (numbered 3 44), re_drain := [(Some (numbered 2 33), 2)]\<rparr>, tone_env,
        tone_env\<lparr>re_recv := Some (numbered 4 55)\<rparr>] after_9)"
proof -
  let ?e1 = "tone_env\<lparr>re_recv := Some (numbered 3 44), re_drain := [(Some (numbered 2 33), 2)]\<rparr>"
  let ?e3 = "tone_env\<lparr>re_recv := Some (numbered 4 55)\<rparr>"
  have n: "normal tone ?e1" "normal tone tone_env" "normal tone ?e3" by (simp_all add: normal_def tone_env_def)
  have p: "playing 240 5 (8 + 1) 5 tone_decoder half_cache after_9" using after_9_playing(1) by simp
  have ts: "read_be32 (numbered 3 44) 8 = 7" "read_be32 (numbered 3 44) 4 = 5 + 2 * 5" "read_be32 (numbered 2 33) 4 = 5 + 5"
    "read_be32 (numbered 4 55) 4 = 5 + 3 * 5" "length (numbered 2 33) \<le> AUDIO_MAX_RTP_SIZE"
    by (simp_all add: numbered_def read_be32_def AUDIO_MAX_RTP_SIZE_def)
  have "stored after_9 [replicate 240 5, replicate 240 5, replicate 240 5, replicate 240 5, replicate 240 5]
    (fold audio_loop_turn [?e1, tone_env, ?e3] after_9)"
    by (rule late_packet_heard_twice [OF spoken_sent half_cached p after_9_playing(2) n, where ns = "[]" and ms = "[]" and ?w4.0 = "[55]"])
      (use ts numbered_sound tone_decodes spoken_nth in \<open>simp_all add: AUDIO_MAX_RTP_SIZE_def, simp_all add: tone_env_def\<close>)
  then show ?thesis by (simp add: numeral_eq_Suc)
qed

end
