(* ===== verification/AudioGaps.thy ===== *)
theory AudioGaps
  imports AudioReceiveLate
begin

text \<open>
  Lost sound packets are replaced: a packet behind a gap of up to ten is preceded by as many frames as are missing,
  rebuilt from the parity, concealed by the decoder, or the copy in the packet itself, whichever of these succeeds.
\<close>

subsection \<open>A decoder that works\<close>

text \<open>libopus conceals and decodes without an error and never makes more samples than asked for; only its in-band copy may
  be missing.\<close>

definition reliable :: "'o opus_lib \<Rightarrow> bool" where
  "reliable lib \<longleftrightarrow>
     (\<forall>dec data n in_band. \<forall>out. fst (multistream_decode lib dec data n in_band) = Some out \<longrightarrow> length out \<le> n) \<and>
     (\<forall>dec data. fst (multistream_decode lib dec data AUDIO_MAX_FRAME_SAMPLES False) \<notin> {None, Some []})"

definition awake :: "'o opus_psp \<Rightarrow> bool" where
  "awake d \<longleftrightarrow> opus_initialized d \<and> s_decoder d \<noteq> None \<and> s_last_frame_size d \<le> AUDIO_MAX_FRAME_SAMPLES"

lemma decode_awake:
  assumes "reliable (re_opus e)" "awake (ar_opus s)"
  obtains frame d where "decode_frame e data AUDIO_MAX_FRAME_SAMPLES s = (frame, s\<lparr>ar_opus := d\<rparr>)"
    "frame \<noteq> []" "length frame \<le> AUDIO_MAX_FRAME_SAMPLES" "awake d"
    "opus_psp_decode (re_opus e) data AUDIO_MAX_FRAME_SAMPLES (ar_opus s) = (Some frame, d)"
proof -
  obtain dec where dec: "opus_initialized (ar_opus s)" "s_decoder (ar_opus s) = Some dec" using assms(2) by (auto simp: awake_def)
  obtain r dec' where r: "multistream_decode (re_opus e) dec data AUDIO_MAX_FRAME_SAMPLES False = (r, dec')" by fastforce
  then have "r \<notin> {None, Some []}" using assms(1) unfolding reliable_def by (metis fst_conv)
  then obtain out where out: "r = Some out" "out \<noteq> []" by (cases r) auto
  have len: "length out \<le> AUDIO_MAX_FRAME_SAMPLES" using assms(1) r out(1) unfolding reliable_def by (metis fst_conv)
  let ?d = "(ar_opus s)\<lparr>s_decoder := Some dec', s_last_frame_size := length out\<rparr>"
  have "opus_psp_decode (re_opus e) data AUDIO_MAX_FRAME_SAMPLES (ar_opus s) = (Some out, ?d)"
    using dec r out(1) by (simp add: opus_psp_decode_def)
  then show thesis using that [of out ?d] out(2) len dec by (simp add: decode_frame_def awake_def)
qed

lemma decode_fec_awake:
  assumes "reliable (re_opus e)" "awake (ar_opus s)"
  obtains frame d where "decode_fec_frame e data (opus_psp_last_frame_size (ar_opus s)) s = (frame, s\<lparr>ar_opus := d\<rparr>)"
    "length frame \<le> AUDIO_MAX_FRAME_SAMPLES" "awake d"
proof -
  obtain dec where dec: "opus_initialized (ar_opus s)" "s_decoder (ar_opus s) = Some dec"
    and n: "s_last_frame_size (ar_opus s) \<le> AUDIO_MAX_FRAME_SAMPLES" using assms(2) by (auto simp: awake_def)
  obtain r dec' where r: "multistream_decode (re_opus e) dec (Some data) (s_last_frame_size (ar_opus s)) True = (r, dec')" by fastforce
  have "length out \<le> AUDIO_MAX_FRAME_SAMPLES" if "r = Some out" for out
    using assms(1) r that n unfolding reliable_def by (metis fst_conv order_trans)
  then show thesis using that [of "case r of None \<Rightarrow> [] | Some out \<Rightarrow> out" "(ar_opus s)\<lparr>s_decoder := Some dec'\<rparr>"] dec r n
    by (cases r) (simp_all add: decode_fec_frame_def opus_psp_decode_fec_def opus_psp_last_frame_size_def awake_def)
qed

subsection \<open>Frames that fill a gap\<close>

definition session_of :: "'o audio_recv \<Rightarrow> bool \<times> u8 list" where
  "session_of s = (crypto_initialized (ar_crypto s), s_session_key (ar_crypto s))"

text \<open>From \<open>s\<close> to \<open>t\<close> these frames were stored and counted as replaced.\<close>

definition filled :: "'o audio_recv \<Rightarrow> i16 list list \<Rightarrow> 'o audio_recv \<Rightarrow> bool" where
  "filled s fs t \<longleftrightarrow> stored s fs t \<and> (\<forall>f\<in>set fs. length f \<le> AUDIO_MAX_FRAME_SAMPLES) \<and>
     s_audio_fec_total t + s_audio_plc_total t = s_audio_fec_total s + s_audio_plc_total s + of_nat (length fs) \<and>
     awake (ar_opus t) \<and> session_of t = session_of s \<and> fade_in_frames t = fade_in_frames s"

abbreviation room_for :: "nat \<Rightarrow> 'o audio_recv \<Rightarrow> bool" where
  "room_for n \<equiv> roomy (n * AUDIO_MAX_FRAME_SAMPLES)"

lemma filled_none: "roomy n s \<Longrightarrow> awake (ar_opus s) \<Longrightarrow> filled s [] s"
  by (simp add: filled_def stored_def roomy_def)

lemma filled_trans: "filled s fs t \<Longrightarrow> filled t gs u \<Longrightarrow> filled s (fs @ gs) u"
  using hall.takes_trans [of s fs t gs u] by (auto simp: filled_def)

lemma concat_length: "\<forall>f\<in>set fs. length f \<le> m \<Longrightarrow> length (concat fs) \<le> length fs * m"
  by (induction fs) auto

lemma roomy_mono: "roomy n s \<Longrightarrow> m \<le> n \<Longrightarrow> roomy m s"
  by (simp add: roomy_def)

lemma filled_room:
  assumes "filled s fs t" "room_for (length fs + n) s"
  shows "room_for n t"
proof -
  have "length (concat fs) + n * AUDIO_MAX_FRAME_SAMPLES \<le> (length fs + n) * AUDIO_MAX_FRAME_SAMPLES"
    using concat_length [of fs AUDIO_MAX_FRAME_SAMPLES] assms(1) by (simp add: filled_def add_mult_distrib)
  then show ?thesis using assms hall.takes_can roomy_mono unfolding filled_def by blast
qed

lemma stored_same: "ar_play s' = ar_play s \<Longrightarrow> ar_play t' = ar_play t \<Longrightarrow> stored s' fs t' = stored s fs t"
  by (simp add: stored_def)

lemma append_filled:
  assumes "room_for 1 s" "frame \<noteq> []" "length frame \<le> AUDIO_MAX_FRAME_SAMPLES"
  obtains p where "append_frame e frame s = (0, s\<lparr>ar_play := p, appends := appends s + 1\<rparr>)"
    "stored s [frame] (s\<lparr>ar_play := p, appends := appends s + 1\<rparr>)"
  using append_room [OF _ assms(2,3), of s e] roomy_mono [OF assms(1)] assms(3) by auto

lemma conceal_filled:
  assumes "reliable (re_opus e)" "awake (ar_opus s)" "room_for 1 s"
  obtains f where "filled s [f] (conceal_frame e s)" "fec_pending (conceal_frame e s) = fec_pending s"
proof -
  obtain f d where d: "decode_frame e None AUDIO_MAX_FRAME_SAMPLES s = (f, s\<lparr>ar_opus := d\<rparr>)"
    "f \<noteq> []" "length f \<le> AUDIO_MAX_FRAME_SAMPLES" "awake d" using decode_awake [OF assms(1,2)] by metis
  let ?u = "s\<lparr>ar_opus := d, s_audio_plc_total := s_audio_plc_total s + 1\<rparr>"
  have "room_for 1 ?u" using assms(3) by (simp add: roomy_def)
  then obtain p where "append_frame e f ?u = (0, ?u\<lparr>ar_play := p, appends := appends ?u + 1\<rparr>)"
    "stored ?u [f] (?u\<lparr>ar_play := p, appends := appends ?u + 1\<rparr>)" using append_filled d(2,3) by blast
  then show thesis using that [of f] d by (simp add: conceal_frame_def filled_def stored_def session_of_def)
qed

lemma conceals_filled:
  assumes "reliable (re_opus e)" "awake (ar_opus s)" "room_for n s"
  obtains fs where "filled s fs ((conceal_frame e ^^ n) s)" "length fs = n"
  using assms(3)
proof (induction n arbitrary: thesis)
  case 0
  then show ?case using filled_none [of _ s] assms(2) by (metis funpow_0 list.size(3))
next
  case (Suc n)
  have "room_for n s" using Suc.prems(2) roomy_mono by fastforce
  then obtain fs where fs: "filled s fs ((conceal_frame e ^^ n) s)" "length fs = n" using Suc.IH by blast
  then have "awake (ar_opus ((conceal_frame e ^^ n) s))" "room_for 1 ((conceal_frame e ^^ n) s)"
    using filled_room [OF fs(1), of 1] Suc.prems(2) by (simp_all add: filled_def)
  from conceal_filled [OF assms(1) this] obtain f where "filled ((conceal_frame e ^^ n) s) [f] ((conceal_frame e ^^ Suc n) s)" by auto
  from filled_trans [OF fs(1) this] show ?case using Suc.prems(1) fs(2) by simp
qed

subsection \<open>Rebuilding and concealing\<close>

lemma play_recovered_filled:
  assumes "reliable (re_opus e)" "awake (ar_opus s)" "room_for 1 s"
  obtains b t fs where "play_recovered e opus_data s = (b, t)" "filled s fs t" "length fs = (if b then 1 else 0)"
    "fec_pending t = fec_pending s"
proof (cases "opus_data = []")
  case True
  then show thesis using that [of False s "[]"] filled_none [OF assms(3,2)] by (simp add: play_recovered_def)
next
  case False
  obtain f d where d: "decode_frame e (Some opus_data) AUDIO_MAX_FRAME_SAMPLES s = (f, s\<lparr>ar_opus := d\<rparr>)"
    "f \<noteq> []" "length f \<le> AUDIO_MAX_FRAME_SAMPLES" "awake d" using decode_awake [OF assms(1,2)] by metis
  let ?u = "s\<lparr>ar_opus := d, s_last_good_pcm := f, last_audio_frame_samples := length f\<rparr>"
  have "room_for 1 ?u" using assms(3) by (simp add: roomy_def)
  then obtain p where "append_frame e f ?u = (0, ?u\<lparr>ar_play := p, appends := appends ?u + 1\<rparr>)"
    "stored ?u [f] (?u\<lparr>ar_play := p, appends := appends ?u + 1\<rparr>)" using append_filled d(2,3) by blast
  then show thesis using that [of True _ "[f]"] d False
    by (simp add: play_recovered_def filled_def stored_def session_of_def Let_def)
qed

lemma same_filled:
  assumes "filled u fs t" "ar_play u = ar_play s" "s_audio_fec_total u = s_audio_fec_total s" "s_audio_plc_total u = s_audio_plc_total s"
    and "session_of u = session_of s" "fade_in_frames u = fade_in_frames s"
  shows "filled s fs t"
  using assms by (simp add: filled_def stored_def)

lemma decrypt_session: "decrypt_payload e w sq s = (r, t) \<Longrightarrow> \<exists>c. t = s\<lparr>ar_crypto := c\<rparr> \<and> session_of t = session_of s"
  by (cases "stream_crypto_decrypt_audio (re_crypto e) w sq (re_key_id e) (ar_crypto s)")
    (auto simp: decrypt_payload_def stream_crypto_decrypt_audio_def session_of_def count_crypto_error_def
      split: if_splits option.splits intro!: exI [of _ "snd (stream_crypto_decrypt_audio (re_crypto e) w sq (re_key_id e) (ar_crypto s))"])

lemma recover_one_filled:
  assumes "reliable (re_opus e)" "awake (ar_opus s)" "room_for 1 s"
  obtains b t fs where "recover_one e sq s = (b, t)" "filled s fs t" "length fs = (if b then 1 else 0)"
    "fec_pending t = fec_pending s"
proof -
  note result = that
  obtain r a where r: "audio_rtp_fec_recover_payload sq (ar_fec s) = (r, a)" by fastforce
  define u where "u = s\<lparr>ar_fec := a\<rparr>"
  have u: "awake (ar_opus u)" "room_for 1 u" "session_of u = session_of s" "ar_play u = ar_play s" "fec_pending u = fec_pending s"
    "s_audio_fec_total u = s_audio_fec_total s" "s_audio_plc_total u = s_audio_plc_total s" "fade_in_frames u = fade_in_frames s"
    using assms(2,3) by (simp_all add: u_def roomy_def session_of_def)
  have stop: thesis if "recover_one e sq s = (False, v)" "filled u [] v" "fec_pending v = fec_pending u" for v
    using result [OF that(1)] same_filled [OF that(2)] that(3) u by simp
  have go: thesis if "recover_one e sq s = play_recovered e w v" "filled u [] v" "fec_pending v = fec_pending u" for w v
  proof -
    have v: "awake (ar_opus v)" "room_for 1 v" using that(2) filled_room [OF that(2), of 1] u(2) by (simp_all add: filled_def)
    obtain b t fs where t: "play_recovered e w v = (b, t)" "filled v fs t" "length fs = (if b then 1 else 0)" "fec_pending t = fec_pending v"
      using play_recovered_filled [OF assms(1) v] by metis
    have "filled u fs t" using filled_trans [OF \<open>filled u [] v\<close> t(2)] by simp
    then show thesis using result [of b t fs] same_filled [of u fs t s] t that(1,3) u by simp
  qed
  have none: "filled u [] u" using filled_none u(1,2) by blast
  have ciph: "filled u [] v \<and> fec_pending v = fec_pending u" if "decrypt_payload e w sq u = (x, v)" for w x v
    using decrypt_session [OF that] none by (auto simp: filled_def stored_def)
  show thesis
  proof (cases r)
    case None
    then show ?thesis using stop [of u] none r by (simp add: recover_one_def u_def)
  next
    case (Some w)
    consider "\<not> re_encrypted e" | "re_encrypted e" "length w mod 16 \<noteq> 0" | "re_encrypted e" "length w mod 16 = 0" by blast
    then show ?thesis
    proof cases
      case 1
      then show ?thesis using go [of w u] none r Some by (simp add: recover_one_def u_def Let_def)
    next
      case 2
      then show ?thesis using stop [of u] none r Some by (simp add: recover_one_def u_def Let_def)
    next
      case 3
      obtain x v where x: "decrypt_payload e w sq u = (x, v)" by fastforce
      have eq: "recover_one e sq s = (case x of None \<Rightarrow> (False, v) | Some plain \<Rightarrow> play_recovered e (strip_padding plain) v)"
        using 3 r Some x by (simp add: recover_one_def u_def Let_def split: option.split)
      then show ?thesis using stop [of v] go [of _ v] ciph [OF x] by (cases x) simp_all
    qed
  qed
qed

lemma recover_gap_filled:
  assumes "reliable (re_opus e)" "awake (ar_opus s)" "room_for n s"
  obtains k t fs where "recover_gap e sq n s = (k, t)" "filled s fs t" "length fs = k" "k \<le> n" "fec_pending t = fec_pending s"
  using assms(2,3)
proof (induction n arbitrary: s sq thesis)
  case 0
  then show ?case using filled_none by (metis le_refl list.size(3) recover_gap.simps(1))
next
  case (Suc n)
  have "room_for 1 s" using Suc.prems(3) roomy_mono by fastforce
  from recover_one_filled [OF assms(1) Suc.prems(2) this] obtain b t fs where
    t: "recover_one e sq s = (b, t)" "filled s fs t" "length fs = (if b then 1 else 0)" "fec_pending t = fec_pending s" by metis
  show ?case
  proof (cases b)
    case False
    then show ?thesis using Suc.prems(1) [of 0 t fs] t by simp
  next
    case True
    then have "awake (ar_opus t)" "room_for n t" using t(2,3) filled_room [OF t(2), of n] Suc.prems(3) by (simp_all add: filled_def)
    then obtain k u gs where u: "recover_gap e (sq + 1) n t = (k, u)" "filled t gs u" "length gs = k" "k \<le> n" "fec_pending u = fec_pending t"
      using Suc.IH [where s = t and sq = "sq + 1"] by metis
    show ?thesis using Suc.prems(1) [of "k + 1" u "fs @ gs"] filled_trans [OF t(2) u(2)] t u True by simp
  qed
qed

lemma look_ahead_same: "look_ahead e s = (seen, t) \<Longrightarrow> \<exists>a. t = s\<lparr>ar_fec := a\<rparr>"
  by (auto simp: look_ahead_def split: prod.splits)

lemma conceals_pending: "fec_pending ((conceal_frame e ^^ n) s) = fec_pending s"
proof (induction n)
  case (Suc n)
  have "fec_pending (conceal_frame e t) = fec_pending t" for t
    by (auto simp: conceal_frame_def decode_frame_def append_frame_def split: prod.splits option.splits if_splits)
  then show ?case using Suc by simp
qed simp

lemma handle_gap_filled:
  assumes lib: "reliable (re_opus e)" "awake (ar_opus u)" "room_for g u" and known: "have_last_audio_seq u" "have_last_audio_rtp u" "\<not> re_teardown e"
    and gap: "audio_gap sq ts u = int g" "media_gap sq (last_audio_seq u) (fec_between_audio u) = int g" "g \<le> 10" "\<not> fec_pending u"
  obtains seen t fs where "handle_gap e sq ts u = (seen, t)" "filled u fs t" "length fs + of_bool (fec_pending t) = g"
proof (cases "g = 0")
  case True
  then have "handle_gap e sq ts u = (0, u)" using gap by (simp add: handle_gap_def Let_def)
  then show thesis using that [of 0 u "[]"] filled_none [OF lib(3,2)] gap(4) True by simp
next
  case False
  obtain seen v where v: "(if int g \<le> int AUDIO_RTP_FEC_PARITY_SHARDS then look_ahead e u else (0, u)) = (seen, v)" by fastforce
  have "\<exists>a. v = u\<lparr>ar_fec := a\<rparr>"
  proof (cases "int g \<le> int AUDIO_RTP_FEC_PARITY_SHARDS")
    case True
    then show ?thesis using v look_ahead_same by simp
  next
    case False
    then show ?thesis using v by (intro exI [of _ "ar_fec u"]) simp
  qed
  then have uv: "filled u fs w = filled v fs w" "fec_pending v = fec_pending u" "awake (ar_opus v)" "room_for g v" for fs w
    using lib(2,3) by (auto simp: filled_def stored_def session_of_def roomy_def)
  obtain k t fs where t: "recover_gap e (sq - word_of_int (int g)) g v = (k, t)" "filled v fs t" "length fs = k" "k \<le> g" "fec_pending t = fec_pending v"
    using recover_gap_filled [OF lib(1) uv(3,4)] by metis
  have eq: "handle_gap e sq ts u = (if k < g then (seen, ((conceal_frame e ^^ (g - k - 1)) t)\<lparr>fec_pending := True\<rparr>) else (seen, t))"
    using False gap known v t(1,4) by (auto simp: handle_gap_def Let_def)
  show thesis
  proof (cases "k < g")
    case False
    then show ?thesis using that [of seen t fs] eq t uv(1,2) gap(4) by simp
  next
    case True
    have room: "room_for (g - k) t" using filled_room [OF t(2), of "g - k"] uv(4) t(3,4) by simp
    have "room_for (g - k - 1) t" by (rule roomy_mono [OF room mult_le_mono1]) linarith
    moreover have "awake (ar_opus t)" using t(2) by (simp add: filled_def)
    ultimately obtain gs where gs: "filled t gs ((conceal_frame e ^^ (g - k - 1)) t)" "length gs = g - k - 1"
      using conceals_filled [OF lib(1)] by metis
    let ?w = "((conceal_frame e ^^ (g - k - 1)) t)\<lparr>fec_pending := True\<rparr>"
    have "filled v (fs @ gs) ?w" using filled_trans [OF t(2) gs(1)] by (simp add: filled_def stored_def session_of_def)
    then show ?thesis using that [of seen ?w "fs @ gs"] eq True uv(1) t(3) gs(2) by simp
  qed
qed

subsection \<open>A packet behind a gap\<close>

text \<open>The frames of a packet: the copy of the lost one where that is due, and its own.\<close>

lemma in_band_filled:
  assumes "reliable (re_opus e)" "awake (ar_opus s)" "room_for 1 s"
  obtains fs where "filled s fs (recover_in_band e opus_data s)" "length fs = of_bool (fec_pending s)"
    "\<not> fec_pending (recover_in_band e opus_data s)"
proof (cases "fec_pending s")
  case False
  then show thesis using that [of "[]"] filled_none [OF assms(3,2)] by (simp add: recover_in_band_def)
next
  case True
  obtain f d where d: "decode_fec_frame e opus_data (opus_psp_last_frame_size (ar_opus s)) s = (f, s\<lparr>ar_opus := d\<rparr>)"
    "length f \<le> AUDIO_MAX_FRAME_SAMPLES" "awake d" using decode_fec_awake [OF assms(1,2)] by metis
  show thesis
  proof (cases "f = []")
    case True
    let ?u = "s\<lparr>ar_opus := d\<rparr>"
    have "room_for 1 ?u" "awake (ar_opus ?u)" using assms(3) d(3) by (simp_all add: roomy_def)
    then obtain f' where "filled ?u [f'] (conceal_frame e ?u)" using conceal_filled [OF assms(1)] by metis
    then show ?thesis using that [of "[f']"] \<open>fec_pending s\<close> d(1) True
      by (simp add: recover_in_band_def filled_def stored_def session_of_def)
  next
    case False
    let ?u = "s\<lparr>ar_opus := d, s_audio_fec_total := s_audio_fec_total s + 1\<rparr>"
    have "room_for 1 ?u" using assms(3) by (simp add: roomy_def)
    then obtain p where "append_frame e f ?u = (0, ?u\<lparr>ar_play := p, appends := appends ?u + 1\<rparr>)"
      "stored ?u [f] (?u\<lparr>ar_play := p, appends := appends ?u + 1\<rparr>)" using append_filled False d(2) by blast
    then show ?thesis using that [of "[f]"] \<open>fec_pending s\<close> d False
      by (simp add: recover_in_band_def filled_def stored_def session_of_def Let_def)
  qed
qed

definition replaced :: "'o audio_recv \<Rightarrow> u32" where
  "replaced s = s_audio_fec_total s + s_audio_plc_total s"

lemma play_decoded_replaced: "frame \<noteq> [] \<Longrightarrow> replaced (play_decoded e frame s) = replaced s"
  by (auto simp: play_decoded_def append_frame_def drop_frame_def replaced_def Let_def split: prod.split)

lemma decode_packet_filled:
  assumes "reliable (re_opus e)" "awake (ar_opus s)" "opus_data \<noteq> []" "fade_in_frames s = 0" "room_for (of_bool (fec_pending s) + 1) s"
  obtains fs frame d d' where "length fs = of_bool (fec_pending s)" "decodes (re_opus e) d opus_data frame d'"
    "stored s (fs @ [frame]) (decode_packet e opus_data s)"
    "replaced (decode_packet e opus_data s) = replaced s + of_nat (length fs)"
proof -
  let ?u = "recover_in_band e opus_data s"
  have "room_for 1 s" using roomy_mono [OF assms(5)] by simp
  then obtain fs where fs: "filled s fs ?u" "length fs = of_bool (fec_pending s)" "\<not> fec_pending ?u"
    using in_band_filled [OF assms(1,2)] by metis
  have u: "awake (ar_opus ?u)" "fade_in_frames ?u = 0" "room_for 1 ?u"
    using fs(1,2) filled_room [OF fs(1), of 1] assms(4,5) by (simp_all add: filled_def)
  obtain frame d where d: "decode_frame e (Some opus_data) AUDIO_MAX_FRAME_SAMPLES ?u = (frame, ?u\<lparr>ar_opus := d\<rparr>)"
    "frame \<noteq> []" "length frame \<le> AUDIO_MAX_FRAME_SAMPLES"
    "opus_psp_decode (re_opus e) (Some opus_data) AUDIO_MAX_FRAME_SAMPLES (ar_opus ?u) = (Some frame, d)"
    using decode_awake [OF assms(1) u(1)] by metis
  let ?v = "?u\<lparr>ar_opus := d, s_last_good_pcm := frame\<rparr>"
  have eq: "decode_packet e opus_data s = play_decoded e frame ?v" using assms(3) d(1-3) by (simp add: decode_packet_def)
  have "roomy (length frame) ?u" by (rule roomy_mono [OF u(3)]) (simp add: d(3))
  then have "roomy (length frame) ?v" by (simp add: roomy_def)
  then have "stored ?v [frame] (play_decoded e frame ?v)" by (rule hall.play_decoded_takes(1)) (use d(2,3) u(2) in simp_all)
  then have "stored s (fs @ [frame]) (decode_packet e opus_data s)"
    using hall.takes_trans [of s fs ?u "[frame]"] fs(1) by (simp add: eq filled_def stored_def)
  moreover have "replaced (decode_packet e opus_data s) = replaced s + of_nat (length fs)"
    using fs(1) play_decoded_replaced [OF d(2), of e ?v] by (simp add: eq replaced_def filled_def)
  moreover have "decodes (re_opus e) (ar_opus ?u) opus_data frame d" using d(2-4) by (simp add: decodes_def)
  ultimately show thesis using that fs(2) by blast
qed

lemma unwrapped_session:
  "crypto_initialized c = crypto_initialized c' \<Longrightarrow> s_session_key c = s_session_key c' \<Longrightarrow> unwrapped e w sq c = unwrapped e w sq c'"
  by (simp add: unwrapped_def stream_crypto_decrypt_audio_def split: option.split)

text \<open>What the numbers and timestamps of a steady stream say.\<close>

lemma steady_missing:
  assumes "120 \<le> F" "F \<le> AUDIO_MAX_FRAME_SAMPLES" "g \<le> 10"
  shows "frames_missing (of_nat ((g + 1) * F)) F = int g"
proof -
  have F: "F \<le> 2880" using assms(2) by (simp add: AUDIO_MAX_FRAME_SAMPLES_def)
  have "(g + 1) * F \<le> 11 * 2880" by (rule mult_le_mono) (use assms(3) F in simp_all)
  then have b: "F + F div 2 < 2 ^ 32" "(g + 1) * F < 2 ^ 32" "(g + 1) * F + F div 2 < 2 ^ 32" "F < 2 ^ 32" using F by simp_all
  have lt: "((of_nat (F + F div 2) :: u32) < of_nat ((g + 1) * F)) = (F + F div 2 < (g + 1) * F)"
    using b by (simp only: word_less_nat_alt unat_small)
  show ?thesis
  proof (cases "g = 0")
    case True
    then show ?thesis using lt by (simp add: frames_missing_def)
  next
    case False
    then have "2 * F \<le> (g + 1) * F" by (intro mult_le_mono1) simp
    then have "F + F div 2 < (g + 1) * F" using assms(1) by linarith
    moreover have "((g + 1) * F + F div 2) div F = g + 1" using assms(1) by (simp add: div_add1_eq del: mult_Suc)
    moreover have "sint (of_nat (g + 1) :: u32) = int (g + 1)" using assms(3) by (intro sint_small) simp
    ultimately show ?thesis
      using assms(1) lt word_quotient [OF b(3,4)] by (simp add: frames_missing_def del: of_nat_mult of_nat_Suc of_nat_add mult_Suc)
  qed
qed

lemma steady_gap:
  assumes "steady F D s" "lost \<le> 10" "lost + fec_between_audio s < 65535"
    and "ts = last_audio_rtp_ts s + of_nat (lost + 1) * D" "sq = last_audio_seq s + of_nat (1 + lost + fec_between_audio s)"
  shows "audio_gap sq ts s = int lost" "media_gap sq (last_audio_seq s) (fec_between_audio s) = int lost"
proof -
  have "unat (of_nat (1 + lost + fec_between_audio s) :: u16) = 1 + lost + fec_between_audio s"
    using assms(3) by (simp add: unsigned_of_nat take_bit_nat_eq_self del: of_nat_add of_nat_Suc)
  then show m: "media_gap sq (last_audio_seq s) (fec_between_audio s) = int lost"
    using assms(5) by (simp add: media_gap_def Let_def del: of_nat_add of_nat_Suc)
  have "(ts - last_audio_rtp_ts s) * s_rtp_timestamp_scale (ar_play s) = of_nat (lost + 1) * (D * s_rtp_timestamp_scale (ar_play s))"
    using assms(4) by (simp add: algebra_simps)
  also have "\<dots> = of_nat ((lost + 1) * F)" using assms(1) by (simp add: steady_def algebra_simps)
  finally show "audio_gap sq ts s = int lost"
    using assms(1) steady_missing [of F lost] assms(2) m
    by (simp add: audio_gap_def steady_frame [OF assms(1)] Let_def del: of_nat_mult) (simp add: steady_def)
qed

text \<open>The packet is counted, noted and the gap before it closed, then its own frame is played.\<close>

lemma data_packet_filled:
  assumes lib: "reliable (re_opus e)" "awake (ar_opus s)" "fade_in_frames s = 0" "\<not> fec_pending s" and st: "steady F D s"
    and room: "room_for (lost + 1) s" and known: "have_last_audio_seq s" "have_last_audio_rtp s" "\<not> re_teardown e"
    and p: "read_be32 p 4 = last_audio_rtp_ts s + of_nat (lost + 1) * D"
      "read_be16 p 2 = last_audio_seq s + of_nat (1 + lost + fec_between_audio s)" "lost \<le> 10" "lost + fec_between_audio s < 65535"
      "unwrapped e payload (read_be16 p 2) (ar_crypto s) = Some data"
  obtains fs frame d d' where "length fs = lost" "decodes (re_opus e) d data frame d'"
    "stored s (fs @ [frame]) (data_packet e from_pending p payload s)"
    "replaced (data_packet e from_pending p payload s) = replaced s + of_nat lost"
proof -
  note result = that
  let ?u = "noted e from_pending p payload s"
  have u: "stored s [] ?u" by (rule hall.noted_takes [OF room])
  have same: "ar_opus ?u = ar_opus s" "fec_pending ?u = fec_pending s" "fade_in_frames ?u = fade_in_frames s" "session_of ?u = session_of s"
    "replaced ?u = replaced s" "have_last_audio_seq ?u" "have_last_audio_rtp ?u" "last_audio_seq ?u = last_audio_seq s"
    "last_audio_rtp_ts ?u = last_audio_rtp_ts s" "fec_between_audio ?u = fec_between_audio s" "last_audio_frame_samples ?u = last_audio_frame_samples s"
    using known by (simp_all add: noted_def session_of_def replaced_def)
  have "steady F D ?u" by (rule steady_stored [OF st u]) (use st same(11) in \<open>simp add: steady_def\<close>)
  note gap = steady_gap [OF this p(3), unfolded same, OF p(4,1,2)]
  have room_u: "room_for (lost + 1) ?u" using hall.takes_can [OF u, of "(lost + 1) * AUDIO_MAX_FRAME_SAMPLES"] room by simp
  have awake: "awake (ar_opus ?u)" using lib(2) same(1) by simp
  have room1: "room_for lost ?u" by (rule roomy_mono [OF room_u]) simp
  obtain seen t gs where t: "handle_gap e (read_be16 p 2) (read_be32 p 4) ?u = (seen, t)" "filled ?u gs t" "length gs + of_bool (fec_pending t) = lost"
    using handle_gap_filled [OF lib(1) awake room1 same(6,7) known(3) gap(1), unfolded same(8,10), OF gap(2) p(3)] lib(4) same(2) by metis
  define v where "v = t\<lparr>last_audio_seq := read_be16 p 2, have_last_audio_seq := True, last_audio_rtp_ts := read_be32 p 4,
    have_last_audio_rtp := True, fec_between_audio := seen, last_audio_recv_us := re_now_us e\<rparr>"
  have "session_of t = session_of s" using t(2) same(4) by (simp add: filled_def)
  then have "unwrapped e payload (read_be16 p 2) (ar_crypto v) = Some data"
    using p(5) unwrapped_session [of "ar_crypto v" "ar_crypto s" e] by (simp add: session_of_def v_def)
  then obtain n where pl: "play_payload e payload (read_be16 p 2) v = decode_packet e data (v\<lparr>s_audio_crypto_fail_count := n\<rparr>)" "data \<noteq> []"
    by (rule play_unwrapped)
  let ?w = "v\<lparr>s_audio_crypto_fail_count := n\<rparr>"
  have eq: "data_packet e from_pending p payload s = decode_packet e data ?w"
    using t(1) pl(1) by (simp add: data_packet_def noted_def note_data_def Let_def v_def)
  have rt: "room_for (of_bool (fec_pending t) + 1) t" using filled_room [OF t(2), of "of_bool (fec_pending t) + 1"] room_u t(3) by (simp add: add.assoc)
  have w: "awake (ar_opus ?w)" "fade_in_frames ?w = 0" "room_for (of_bool (fec_pending ?w) + 1) ?w" "fec_pending ?w = fec_pending t"
    "replaced ?w = replaced t"
    using t(2) rt lib(3) same(3) by (simp_all add: filled_def v_def roomy_def replaced_def)
  obtain fs frame d d' where f: "length fs = of_bool (fec_pending t)" "decodes (re_opus e) d data frame d'"
    "stored ?w (fs @ [frame]) (decode_packet e data ?w)" "replaced (decode_packet e data ?w) = replaced ?w + of_nat (length fs)"
    by (rule decode_packet_filled [OF lib(1) w(1) pl(2) w(2,3), unfolded w(4)]) (rule that; assumption)
  have "stored t (fs @ [frame]) (decode_packet e data ?w)" using f(3) by (simp add: stored_def v_def)
  moreover have "stored s gs t" using hall.takes_trans [OF u, of gs t] t(2) by (simp add: filled_def)
  ultimately have "stored s ((gs @ fs) @ [frame]) (decode_packet e data ?w)" using hall.takes_trans by (metis append.assoc)
  moreover have "replaced (decode_packet e data ?w) = replaced s + of_nat lost"
    using f(1,4) w(5) t(2) t(3) [symmetric] same(5) by (simp add: filled_def replaced_def)
  ultimately show thesis using result [of "gs @ fs" d frame d'] f(1,2) t(3) eq by simp
qed


text \<open>Packet 3 was the last, the next one is packet 6.\<close>

definition hum :: "unit opus_lib" where
  "hum = \<lparr>decoder_get_size = (\<lambda>_ _. 1), decoder_init = (\<lambda>_ _ _ _. Some ()),
     multistream_decode = (\<lambda>_ _ n _. (Some (replicate (min n 240) 5), ()))\<rparr>"

definition after_3 :: "unit audio_recv" where
  "after_3 = tone_start\<lparr>ar_play := (playback_init 96)\<lparr>s_rtp_timestamp_scale := 48\<rparr>, last_audio_frame_samples := 240,
     have_last_audio_seq := True, last_audio_seq := 3, have_last_audio_rtp := True, last_audio_rtp_ts := 15\<rparr>"


end
