(* ===== verification/Spec2Isabelle.thy ===== *)
theory Spec2Isabelle
  imports ReedSolomonDecode AvcFrameSlots AvcStreamInput AvcSpsFixup StreamResolution SafetyBuffer RtpDelivery RtpFecTransparent RtpFecLoss SharedCodec AudioGaps
begin

text \<open>
  Moonlight for the PSP: the video path of a game streaming client.
\<close>

end
